(* ===== verification/Adios_Prelude.thy ===== *)
theory Adios_Prelude
  imports Main "HOL-Library.Word"
begin

section \<open>Prelude of the ADIOS2 development\<close>

text \<open>
  What every component shares: the names of the machine types (\<open>size_t\<close> and \<open>uint64_t\<close> are
  64-bit words, \<open>uint16_t\<close> 16-bit words, \<open>Dims\<close> a list of \<open>size_t\<close>), the C++ exceptions as values of a
  sum type, the lemmas on words, lists and sums that the component proofs use, and the locale of
  transition systems in which invariants of reachable states are proved once.

  A read of a \<open>std::vector\<close> past its end is undefined behaviour in C++. It is written with
  \<open>(!)\<close>, which is unspecified there, and the theorems about it carry the length conditions; where
  the code can reach such a read the model returns the error \<open>UndefinedBehaviour\<close> instead.
\<close>

type_synonym u8 = "8 word"
type_synonym u16 = "16 word"
type_synonym u32 = "32 word"
type_synonym u64 = "64 word"
type_synonym dims = "u64 list"
type_synonym box = "dims \<times> dims"

abbreviation MaxSizeT :: u64 where
  "MaxSizeT \<equiv> 18446744073709551615"

subsection \<open>Errors as values\<close>

text \<open>
  The exception classes the code throws, and undefined behaviour where the code can reach it; that of
  integer arithmetic (signed overflow, division by zero) has its own value, since it depends on the
  data and not on the accesses to memory.
\<close>

datatype adios_error =
    InvalidArgument
  | RuntimeError
  | IosFailure
  | OutOfRange
  | LengthError
  | UndefinedBehaviour
  | ArithmeticUB

type_synonym 'a result = "adios_error + 'a"

fun bindR :: "'e + 'a \<Rightarrow> ('a \<Rightarrow> 'e + 'b) \<Rightarrow> 'e + 'b" where
  "bindR (Inl e) f = Inl e"
| "bindR (Inr x) f = f x"

text \<open>In evaluation the continuation is not looked at before its argument is known.\<close>

lemma bindR_case [code_unfold]: "bindR m f = (case m of Inl e \<Rightarrow> Inl e | Inr x \<Rightarrow> f x)"
  by (cases m) simp_all

text \<open>Nor is the step of a \<open>fold\<close> before the state it is applied to.\<close>

declare fold_simps [code]

fun mapR :: "('a \<Rightarrow> 'e + 'b) \<Rightarrow> 'a list \<Rightarrow> 'e + 'b list" where
  "mapR f [] = Inr []"
| "mapR f (x # xs) = bindR (f x) (\<lambda>y. bindR (mapR f xs) (\<lambda>ys. Inr (y # ys)))"

lemma bindR_Inr_iff: "bindR m f = Inr y \<longleftrightarrow> (\<exists>x. m = Inr x \<and> f x = Inr y)"
  by (cases m) auto

lemma bindR_Inl_iff: "bindR m f = Inl e \<longleftrightarrow> m = Inl e \<or> (\<exists>x. m = Inr x \<and> f x = Inl e)"
  by (cases m) auto

lemma bindR_assoc: "bindR (bindR m f) g = bindR m (\<lambda>x. bindR (f x) g)"
  by (cases m) simp_all

lemma bindR_Inr: "bindR m Inr = m"
  by (cases m) simp_all

fun foldR :: "('a \<Rightarrow> 's \<Rightarrow> 'e + 's) \<Rightarrow> 'a list \<Rightarrow> 's \<Rightarrow> 'e + 's" where
  "foldR f [] s = Inr s"
| "foldR f (x # xs) s = bindR (f x s) (foldR f xs)"

lemma foldR_append: "foldR f (xs @ ys) s = bindR (foldR f xs s) (foldR f ys)"
proof (induction xs arbitrary: s)
  case (Cons x xs)
  show ?case by (cases "f x s") (simp_all add: Cons.IH)
qed simp

lemma bindR_no_error: "(\<And>e. m \<noteq> Inl e) \<Longrightarrow> \<exists>y. bindR m (\<lambda>x. Inr (f x)) = Inr y"
  by (cases m) auto

named_theorems result_simps
lemmas bindR_results [result_simps] = bindR_Inr_iff bindR_Inl_iff

lemma length_mapR: "mapR f xs = Inr ys \<Longrightarrow> length ys = length xs"
  by (induction xs arbitrary: ys) (auto simp: result_simps)

lemma mapR_cong [fundef_cong]:
  "xs = ys \<Longrightarrow> (\<And>x. x \<in> set ys \<Longrightarrow> f x = g x) \<Longrightarrow> mapR f xs = mapR g ys"
  by (induction ys arbitrary: xs) auto

subsection \<open>Words\<close>

text \<open>
  \<open>word_nat\<close> moves an equation or an order between words to their values. Division and remainder
  need no side condition; sums and differences do, and have their own rules.
\<close>

named_theorems word_nat

lemmas word_nat_basic [word_nat] = word_less_nat_alt word_le_nat_alt unat_div unat_mod

lemma unat_u64_less: "unat (x :: u64) < 18446744073709551616"
  using unsigned_less [of x, where ?'a = nat] by simp

lemma unat_add_small:
  "unat (x :: 'a::len word) + unat y < 2 ^ LENGTH('a) \<Longrightarrow> unat (x + y) = unat x + unat y"
  by (simp add: unat_add_lem)

lemma unat_mult_small:
  "unat (x :: 'a::len word) * unat y < 2 ^ LENGTH('a) \<Longrightarrow> unat (x * y) = unat x * unat y"
  by (simp add: unat_mult_lem)

lemma unat_diff_le: "y \<le> x \<Longrightarrow> unat (x - y) = unat x - unat y" for x :: "'a::len word"
  by (rule unat_sub)

lemma unat_of_nat_small: "n < 2 ^ LENGTH('a) \<Longrightarrow> unat (of_nat n :: 'a::len word) = n"
  by (simp add: unat_of_nat)

lemma unat_ucast_16_64: "unat (ucast (x :: u16) :: u64) = unat x"
  using unsigned_less [of x, where ?'a = nat]
  by (simp add: unsigned_ucast_eq take_bit_nat_eq_self)

lemma unat_ucast_small:
  "unat (w :: 'a::len word) < 2 ^ LENGTH('b) \<Longrightarrow> unat (ucast w :: 'b::len word) = unat w"
  by (simp add: unsigned_ucast_eq take_bit_nat_eq_self)

text \<open>The division of C++ on signed integers, which truncates.\<close>

definition tdiv :: "int \<Rightarrow> int \<Rightarrow> int" where
  "tdiv a b = sgn a * sgn b * (\<bar>a\<bar> div \<bar>b\<bar>)"

subsection \<open>Lists\<close>

lemma nth_map_upt0 [simp]: "d < n \<Longrightarrow> map f [0..<n] ! d = f d"
  by simp

lemma list_ex_upt: "list_ex P [0..<n] \<longleftrightarrow> (\<exists>d<n. P d)"
  by (auto simp: list_ex_iff)

lemma list_all_upt: "list_all P [0..<n] \<longleftrightarrow> (\<forall>d<n. P d)"
  by (auto simp: list_all_iff)

lemma in_set_butlast_update: "i < length xs \<Longrightarrow> set (xs[i := x]) \<subseteq> insert x (set xs)"
  by (rule set_update_subset_insert)

lemma sum_list_update_nat:
  "i < length xs \<Longrightarrow> sum_list (xs[i := (v::nat)]) + xs ! i = sum_list xs + v"
  by (induction xs arbitrary: i) (auto split: nat.splits)

lemma prod_list_pos_iff: "0 < prod_list (cs :: nat list) \<longleftrightarrow> (\<forall>c\<in>set cs. 0 < c)"
  by (induction cs) auto

subsection \<open>Transition systems\<close>

text \<open>
  A component that runs as a state machine gives an initial-state predicate and a step relation.
  \<open>reach\<close> is the set of reachable states; \<open>invariant_rule\<close> is the one place where an invariant
  is lifted from one step to every reachable state.
\<close>

inductive reach :: "('s \<Rightarrow> bool) \<Rightarrow> ('s \<Rightarrow> 's \<Rightarrow> bool) \<Rightarrow> 's \<Rightarrow> bool"
  for init :: "'s \<Rightarrow> bool" and step :: "'s \<Rightarrow> 's \<Rightarrow> bool" where
  reach_init: "init s \<Longrightarrow> reach init step s"
| reach_step: "reach init step s \<Longrightarrow> step s t \<Longrightarrow> reach init step t"

locale transition_system =
  fixes init :: "'s \<Rightarrow> bool"
    and step :: "'s \<Rightarrow> 's \<Rightarrow> bool"
    and inv :: "'s \<Rightarrow> bool"
  assumes inv_init: "init s \<Longrightarrow> inv s"
    and inv_step: "inv s \<Longrightarrow> step s t \<Longrightarrow> inv t"
begin

lemma invariant_rule: "reach init step s \<Longrightarrow> inv s"
  by (induction rule: reach.induct) (auto intro: inv_init inv_step)

lemma invariant_trace:
  "step\<^sup>*\<^sup>* s t \<Longrightarrow> inv s \<Longrightarrow> inv t"
  by (induction rule: rtranclp_induct) (auto intro: inv_step)

end

end
