(* ===== verification/Adios_Box.thy ===== *)
theory Adios_Box
  imports Adios_Prelude
begin

section \<open>Boxes and linear indices (helper/adiosMath.cpp)\<close>

text \<open>
  The N-dimensional arithmetic every engine rests on: boxes given by start and inclusive end or by
  start and count, their intersection, the position of a point in the memory of a block, and the
  contiguity test. A point belongs to a block \<open>(start, count)\<close> when each coordinate is at least
  the start and less than \<open>count\<close> away from it; no bound on the coordinates is needed for that.
\<close>

subsection \<open>Definitions\<close>

definition CheckIndexRange :: "int \<Rightarrow> int \<Rightarrow> int \<Rightarrow> bool" where
  "CheckIndexRange index upperLimit lowerLimit =
    (if index \<le> upperLimit \<and> index \<ge> lowerLimit then True else False)"

definition StartEndBox :: "dims \<Rightarrow> dims \<Rightarrow> bool \<Rightarrow> box" where
  "StartEndBox start count reverse =
    (let end' = map (\<lambda>d. start ! d + count ! d - 1) [0..<length start]
     in if reverse then (rev start, rev end') else (start, end'))"

definition StartCountBox :: "dims \<Rightarrow> dims \<Rightarrow> box" where
  "StartCountBox start end' =
    (start, map (\<lambda>d. end' ! d - start ! d + 1) [0..<length start])"

definition IntersectionBox :: "box \<Rightarrow> box \<Rightarrow> box" where
  "IntersectionBox box1 box2 =
    (let n = length (fst box1) in
     if list_ex (\<lambda>d. fst box2 ! d > snd box1 ! d \<or> snd box2 ! d < fst box1 ! d) [0..<n]
     then ([], [])
     else
      (map (\<lambda>d. if fst box1 ! d < fst box2 ! d then fst box2 ! d else fst box1 ! d) [0..<n],
       map (\<lambda>d. if snd box1 ! d > snd box2 ! d then snd box2 ! d else snd box1 ! d) [0..<n]))"

definition IntersectionStartCount :: "dims \<Rightarrow> dims \<Rightarrow> dims \<Rightarrow> dims \<Rightarrow> box" where
  "IntersectionStartCount start1 count1 start2 count2 =
    (let n = length start1;
         end1 = (\<lambda>d. start1 ! d + count1 ! d - 1);
         end2 = (\<lambda>d. start2 ! d + count2 ! d - 1);
         istart = (\<lambda>d. if start1 ! d < start2 ! d then start2 ! d else start1 ! d);
         iend = (\<lambda>d. if end1 d > end2 d then end2 d else end1 d)
     in
     if list_ex (\<lambda>d. start2 ! d > end1 d \<or> end2 d < start1 ! d) [0..<n] then ([], [])
     else (map istart [0..<n], map (\<lambda>d. iend d - istart d + 1) [0..<n]))"

definition IdenticalBoxes :: "box \<Rightarrow> box \<Rightarrow> bool" where
  "IdenticalBoxes box1 box2 =
    list_all (\<lambda>d. \<not> (fst box1 ! d \<noteq> fst box2 ! d \<or> snd box1 ! d \<noteq> snd box2 ! d))
      [0..<length (fst box1)]"

text \<open>
  The product of the counts: \<open>GetTotalSize\<close> with its element size, as \<open>ADIOSTypes.cpp\<close> has it.
\<close>

definition GetTotalSize :: "dims \<Rightarrow> u64 \<Rightarrow> u64" where
  "GetTotalSize dimensions elementSize = foldl (*) elementSize dimensions"

text \<open>
  The loop of the contiguity test over the dimensions that have to agree: \<open>None\<close> is the early
  \<open>return false\<close>, otherwise the number of elements under the slowest dimension.
\<close>

fun contiguous_loop :: "box \<Rightarrow> box \<Rightarrow> nat list \<Rightarrow> u64 \<Rightarrow> u64 option" where
  "contiguous_loop blockBox interBox [] nElements = Some nElements"
| "contiguous_loop blockBox interBox (d # ds) nElements =
    (if fst blockBox ! d \<noteq> fst interBox ! d \<or> snd blockBox ! d \<noteq> snd interBox ! d then None
     else contiguous_loop blockBox interBox ds
            (nElements * (snd blockBox ! d - fst blockBox ! d + 1)))"

definition IsIntersectionContiguousSubarray :: "box \<Rightarrow> box \<Rightarrow> bool \<Rightarrow> u64 option" where
  "IsIntersectionContiguousSubarray blockBox interBox isRowMajor =
    (let n = length (fst blockBox) in
     if n = 0 then Some 0
     else
       let dSlowest = (if isRowMajor then 0 else n - 1);
           ds = (if isRowMajor then [1..<n] else [0..<n - 1])
       in map_option (\<lambda>nElements. (fst interBox ! dSlowest - fst blockBox ! dSlowest) * nElements)
            (contiguous_loop blockBox interBox ds 1))"

text \<open>
  The two lambdas of \<open>LinearIndexWithStartCount\<close> are one loop over iterators: the row-major one
  starts at the last element (\<open>rbegin\<close>), the column-major one at the first.
\<close>

fun linear_loop :: "dims \<Rightarrow> dims \<Rightarrow> dims \<Rightarrow> u64 \<Rightarrow> u64 \<Rightarrow> u64" where
  "linear_loop [] ss cs linearIndex product = linearIndex"
| "linear_loop (p # ps) (s # ss) (c # cs) linearIndex product =
    linear_loop ps ss cs (linearIndex + (p - s) * product) (product * c)"

definition LinearIndexWithStartCount :: "dims \<Rightarrow> dims \<Rightarrow> dims \<Rightarrow> bool \<Rightarrow> u64" where
  "LinearIndexWithStartCount start count point isRowMajor =
    (if isRowMajor then linear_loop (rev point) (rev start) (rev count) 0 1
     else linear_loop point start count 0 1)"

fun linear_end_loop :: "dims \<Rightarrow> dims \<Rightarrow> dims \<Rightarrow> u64 \<Rightarrow> u64 \<Rightarrow> u64" where
  "linear_end_loop [] ss es linearIndex product = linearIndex"
| "linear_end_loop (p # ps) (s # ss) (e # es) linearIndex product =
    linear_end_loop ps ss es (linearIndex + (p - s) * product) (product * (e - s + 1))"

definition LinearIndexWithEnd :: "dims \<Rightarrow> dims \<Rightarrow> dims \<Rightarrow> bool \<Rightarrow> u64" where
  "LinearIndexWithEnd start end' point isRowMajor =
    (if isRowMajor then linear_end_loop (rev point) (rev start) (rev end') 0 1
     else linear_end_loop point start end' 0 1)"

definition GetDistance :: "u64 \<Rightarrow> u64 \<Rightarrow> u64 result" where
  "GetDistance end' start = (if end' < start then Inl InvalidArgument else Inr (end' - start))"


subsection \<open>Points of a box\<close>

definition in_box :: "box \<Rightarrow> dims \<Rightarrow> bool" where
  "in_box b p \<longleftrightarrow>
    length p = length (fst b) \<and> (\<forall>d<length p. fst b ! d \<le> p ! d \<and> p ! d \<le> snd b ! d)"

definition in_block :: "dims \<Rightarrow> dims \<Rightarrow> dims \<Rightarrow> bool" where
  "in_block s c p \<longleftrightarrow>
    length p = length s \<and> (\<forall>d<length s. s ! d \<le> p ! d \<and> p ! d - s ! d < c ! d)"

text \<open>
  \<open>fits s c\<close>: the exclusive end of the block is at most \<open>2 ^ 64\<close> in every dimension;
  \<open>solid c\<close>: no dimension is empty.
\<close>

definition fits :: "dims \<Rightarrow> dims \<Rightarrow> bool" where
  "fits s c \<longleftrightarrow> length c = length s \<and>
    (\<forall>d<length s. unat (s ! d) + unat (c ! d) \<le> 18446744073709551616)"

definition solid :: "dims \<Rightarrow> bool" where
  "solid c \<longleftrightarrow> (\<forall>x\<in>set c. 0 < x)"

definition total :: "dims \<Rightarrow> nat" where
  "total c = prod_list (map unat c)"

lemma in_blockD:
  "in_block s c p \<Longrightarrow> d < length s \<Longrightarrow> s ! d \<le> p ! d"
  "in_block s c p \<Longrightarrow> d < length s \<Longrightarrow> p ! d - s ! d < c ! d"
  "in_block s c p \<Longrightarrow> length p = length s"
  by (auto simp: in_block_def)

lemma in_block_Cons:
  "in_block (a # s) (b # c) (x # p) \<longleftrightarrow> a \<le> x \<and> x - a < b \<and> in_block s c p"
  by (auto simp: in_block_def less_Suc_eq_0_disj)

lemma in_block_rev:
  assumes "length c = length s" "length p = length s"
  shows "in_block (rev s) (rev c) (rev p) \<longleftrightarrow> in_block s c p"
proof -
  have *: "in_block (rev s) (rev c) (rev p)"
    if len: "length c = length s" "length p = length s" and b: "in_block s c p" for s c p :: dims
    using b len by (auto simp: in_block_def rev_nth)
  show ?thesis
    using *[of c s p] *[of "rev c" "rev s" "rev p"] assms by auto
qed

lemma solidD: "solid c \<Longrightarrow> d < length c \<Longrightarrow> 0 < c ! d"
  by (simp add: solid_def)

lemma solid_rev [simp]: "solid (rev c) \<longleftrightarrow> solid c"
  by (simp add: solid_def)

lemma fits_rev: "fits s c \<Longrightarrow> fits (rev s) (rev c)"
  by (auto simp: fits_def rev_nth)

lemma total_rev [simp]: "total (rev c) = total c"
  by (simp add: total_def flip: rev_map)

lemma last_in_block:
  assumes "0 < c" "unat (s :: u64) + unat c \<le> 18446744073709551616"
  shows "s \<le> p \<and> p - s < c \<longleftrightarrow> s \<le> p \<and> p \<le> s + c - 1"
proof -
  have e: "unat (s + c - 1) = unat s + unat c - 1"
  proof -
    have c: "unat (c - 1) = unat c - 1" using assms by (simp add: unat_minus_one)
    moreover have "unat s + unat (c - 1) < 2 ^ LENGTH(64)"
      using assms by (simp add: word_nat c)
    ultimately have "unat (s + (c - 1)) = unat s + unat c - 1"
      using assms by (simp only: unat_add_small) (simp add: word_nat)
    then show ?thesis by (simp add: add_diff_eq)
  qed
  show ?thesis
    using assms by (auto simp: word_nat e unat_diff_le)
qed

subsection \<open>Intersections\<close>

lemma StartEndBox_simps [simp]:
  "fst (StartEndBox s c False) = s"
  "length (snd (StartEndBox s c False)) = length s"
  "d < length s \<Longrightarrow> snd (StartEndBox s c False) ! d = s ! d + c ! d - 1"
  by (simp_all add: StartEndBox_def)

lemma StartEndBox_points:
  assumes "fits s c" "solid c"
  shows "in_box (StartEndBox s c False) p \<longleftrightarrow> in_block s c p"
  using assms last_in_block
  by (auto simp: in_box_def in_block_def fits_def solidD)

lemma StartCountBox_StartEndBox:
  assumes "length c = length s"
  shows "StartCountBox s (snd (StartEndBox s c False)) = (s, c)"
  using assms by (auto simp: StartCountBox_def intro!: nth_equalityI)

lemma IntersectionBox_points:
  assumes "length (snd b1) = length (fst b1)" "length (fst b2) = length (fst b1)"
    "length (snd b2) = length (fst b1)" and "p \<noteq> []"
  shows "in_box (IntersectionBox b1 b2) p \<longleftrightarrow> in_box b1 p \<and> in_box b2 p"
proof (cases "list_ex (\<lambda>d. fst b2 ! d > snd b1 ! d \<or> snd b2 ! d < fst b1 ! d) [0..<length (fst b1)]")
  case True
  then obtain d where d: "d < length (fst b1)" "fst b2 ! d > snd b1 ! d \<or> snd b2 ! d < fst b1 ! d"
    by (auto simp: list_ex_upt)
  then have "\<not> (in_box b1 p \<and> in_box b2 p)"
    using assms by (fastforce simp: in_box_def dest: order_trans leD)
  with True assms show ?thesis by (auto simp: IntersectionBox_def in_box_def)
next
  case False
  then have "IntersectionBox b1 b2 =
      (map (\<lambda>d. max (fst b1 ! d) (fst b2 ! d)) [0..<length (fst b1)],
       map (\<lambda>d. min (snd b1 ! d) (snd b2 ! d)) [0..<length (fst b1)])"
    by (auto simp: IntersectionBox_def Let_def max_def min_def)
  then show ?thesis
    using assms by (auto simp: in_box_def)
qed

lemma IntersectionStartCount_eq_composition:
  assumes "length s2 = length s1"
  shows "IntersectionStartCount s1 c1 s2 c2 =
    (let r = IntersectionBox (StartEndBox s1 c1 False) (StartEndBox s2 c2 False)
     in StartCountBox (fst r) (snd r))"
proof -
  have 1: "list_ex (\<lambda>d. s2 ! d > s1 ! d + c1 ! d - 1 \<or> s2 ! d + c2 ! d - 1 < s1 ! d) [0..<length s1]
    = list_ex (\<lambda>d. fst (StartEndBox s2 c2 False) ! d > snd (StartEndBox s1 c1 False) ! d \<or>
        snd (StartEndBox s2 c2 False) ! d < fst (StartEndBox s1 c1 False) ! d) [0..<length s1]"
    using assms by (auto simp: list_ex_upt)
  show ?thesis
    unfolding IntersectionStartCount_def IntersectionBox_def Let_def StartEndBox_simps 1
    using assms by (auto simp: StartCountBox_def intro!: nth_equalityI)
qed


lemma IntersectionStartCount_disjoint_or_points:
  assumes "length s2 = length s1" "fits s1 c1" "solid c1" "fits s2 c2" "solid c2" "p \<noteq> []"
  shows "in_box (IntersectionBox (StartEndBox s1 c1 False) (StartEndBox s2 c2 False)) p
    \<longleftrightarrow> in_block s1 c1 p \<and> in_block s2 c2 p"
  using assms by (simp add: IntersectionBox_points StartEndBox_points)

subsection \<open>Linear indices\<close>

text \<open>
  \<open>lin\<close> is the mixed-radix number of the relative coordinates, fastest dimension first; the loop
  of the code computes it in 64-bit words.
\<close>

fun lin :: "nat list \<Rightarrow> nat list \<Rightarrow> nat" where
  "lin (q # qs) (c # cs) = q + c * lin qs cs"
| "lin _ _ = 0"

definition rel_coords :: "dims \<Rightarrow> dims \<Rightarrow> nat list" where
  "rel_coords s p = map2 (\<lambda>x a. unat (x - a)) p s"

lemma linear_loop_lin:
  assumes "length ss = length ps" "length cs = length ps"
  shows "linear_loop ps ss cs idx pr
    = idx + pr * of_nat (lin (rel_coords ss ps) (map unat cs))"
  using assms
proof (induction ps ss cs idx pr rule: linear_loop.induct)
  case (2 p ps s ss c cs idx pr)
  then show ?case by (simp add: rel_coords_def algebra_simps)
qed (auto simp: rel_coords_def)

lemma lin_less: "list_all2 (<) qs cs \<Longrightarrow> lin qs cs < prod_list cs"
proof (induction qs cs rule: list_all2_induct)
  case (Cons q qs c cs)
  have "q + c * lin qs cs < c + c * lin qs cs" using Cons by simp
  also have "\<dots> = c * Suc (lin qs cs)" by simp
  also have "\<dots> \<le> c * prod_list cs" using Cons by (intro mult_le_mono2) simp
  finally show ?case by simp
qed simp

lemma lin_inj:
  "list_all2 (<) qs cs \<Longrightarrow> list_all2 (<) rs cs \<Longrightarrow> lin qs cs = lin rs cs \<Longrightarrow> qs = rs"
proof (induction qs cs arbitrary: rs rule: list_all2_induct)
  case (Cons q qs c cs)
  then obtain r rs' where rs: "rs = r # rs'" "r < c" "list_all2 (<) rs' cs"
    by (auto simp: list_all2_Cons2)
  have eq: "q + c * lin qs cs = r + c * lin rs' cs" using Cons.prems rs by simp
  have "q = r" using arg_cong[OF eq, of "\<lambda>x. x mod c"] Cons.hyps rs by simp
  moreover have "lin qs cs = lin rs' cs"
    using arg_cong[OF eq, of "\<lambda>x. x div c"] Cons.hyps rs by simp
  ultimately show ?case using Cons.IH[of rs'] rs by simp
qed simp

lemma lin_surj: "i < prod_list cs \<Longrightarrow> \<exists>qs. list_all2 (<) qs cs \<and> lin qs cs = i"
proof (induction cs arbitrary: i)
  case Nil
  then show ?case by (intro exI[of _ "[]"]) simp
next
  case (Cons c cs)
  then have c: "0 < c" by (cases c) auto
  have "i div c < prod_list cs"
    using Cons.prems c by (simp add: div_less_iff_less_mult mult.commute)
  then obtain qs where "list_all2 (<) qs cs" "lin qs cs = i div c" using Cons.IH by blast
  then show ?case using c by (intro exI[of _ "(i mod c) # qs"]) simp
qed

lemma in_block_rel_coords:
  "in_block s c p \<Longrightarrow> length c = length s \<Longrightarrow> list_all2 (<) (rel_coords s p) (map unat c)"
  by (auto simp: in_block_def rel_coords_def list_all2_conv_all_nth word_nat)

lemma rel_coords_inj:
  "in_block s c p \<Longrightarrow> in_block s c q \<Longrightarrow> rel_coords s p = rel_coords s q \<Longrightarrow> p = q"
proof (rule nth_equalityI)
  assume p: "in_block s c p" and q: "in_block s c q" and eq: "rel_coords s p = rel_coords s q"
  then show len: "length p = length q" by (simp add: in_block_def)
  fix d assume "d < length p"
  then have "rel_coords s p ! d = rel_coords s q ! d" "d < length s"
    using eq p by (simp_all add: in_block_def)
  then have "unat (p ! d - s ! d) = unat (q ! d - s ! d)"
    using p q by (simp add: rel_coords_def in_block_def)
  then have "p ! d - s ! d = q ! d - s ! d" by (rule word_unat_eq_iff[THEN iffD2])
  then show "p ! d = q ! d" by simp
qed

lemma rel_coords_surj:
  assumes "fits s c" "list_all2 (<) qs (map unat c)"
  shows "\<exists>p. in_block s c p \<and> rel_coords s p = qs"
proof -
  let ?p = "map2 (\<lambda>q a. a + of_nat q) qs s"
  have len: "length qs = length s" "length c = length s"
    using assms by (auto simp: fits_def list_all2_lengthD)
  have d: "s ! d \<le> s ! d + of_nat (qs ! d) \<and> unat (s ! d + of_nat (qs ! d) - s ! d) = qs ! d \<and>
      qs ! d < unat (c ! d)" if "d < length s" for d
  proof -
    have q: "qs ! d < unat (c ! d)"
      using assms(2) that len by (auto simp: list_all2_conv_all_nth)
    then have u: "unat (of_nat (qs ! d) :: u64) = qs ! d"
      using unat_u64_less[of "c ! d"] by (intro unat_of_nat_small) simp
    have "unat (s ! d) + qs ! d < 2 ^ LENGTH(64)"
      using assms(1) that q by (auto simp: fits_def dest!: spec[of _ d])
    then have "unat (s ! d + of_nat (qs ! d)) = unat (s ! d) + qs ! d"
      using u by (simp add: unat_add_small)
    then show ?thesis using q u by (simp add: word_nat)
  qed
  then have "in_block s c ?p" "rel_coords s ?p = qs"
    using len by (auto simp: in_block_def rel_coords_def word_nat intro!: nth_equalityI)
  then show ?thesis by blast
qed


lemma linear_loop_unat:
  assumes "in_block s c p" "length c = length s" "total c \<le> 18446744073709551616"
  shows "unat (linear_loop p s c 0 1) = lin (rel_coords s p) (map unat c)"
proof -
  have "lin (rel_coords s p) (map unat c) < total c"
    using lin_less[OF in_block_rel_coords] assms by (simp add: total_def)
  then have "lin (rel_coords s p) (map unat c) < 2 ^ LENGTH(64)" using assms by simp
  then show ?thesis
    using assms by (simp add: linear_loop_lin in_blockD unat_of_nat_small)
qed

lemma linear_loop_bij:
  assumes "fits s c" "total c \<le> 18446744073709551616"
  shows "bij_betw (\<lambda>p. unat (linear_loop p s c 0 1)) {p. in_block s c p} {0..<total c}"
proof (rule bij_betw_imageI)
  have c: "length c = length s" using assms by (simp add: fits_def)
  note eq = linear_loop_unat[OF _ c assms(2)]
  show "inj_on (\<lambda>p. unat (linear_loop p s c 0 1)) {p. in_block s c p}"
  proof (rule inj_onI)
    fix p q
    assume "p \<in> {p. in_block s c p}" "q \<in> {p. in_block s c p}"
      and l: "unat (linear_loop p s c 0 1) = unat (linear_loop q s c 0 1)"
    then have pq: "in_block s c p" "in_block s c q" by simp_all
    with l have "lin (rel_coords s p) (map unat c) = lin (rel_coords s q) (map unat c)"
      using eq[of p] eq[of q] by simp
    then have "rel_coords s p = rel_coords s q"
      by (rule lin_inj[OF in_block_rel_coords[OF pq(1) c] in_block_rel_coords[OF pq(2) c]])
    then show "p = q" by (rule rel_coords_inj[OF pq])
  qed
  show "(\<lambda>p. unat (linear_loop p s c 0 1)) ` {p. in_block s c p} = {0..<total c}"
  proof (intro equalityI subsetI)
    fix i assume "i \<in> (\<lambda>p. unat (linear_loop p s c 0 1)) ` {p. in_block s c p}"
    then show "i \<in> {0..<total c}"
      using eq lin_less[OF in_block_rel_coords[OF _ c]] by (auto simp: total_def)
  next
    fix i assume "i \<in> {0..<total c}"
    then obtain qs where qs: "list_all2 (<) qs (map unat c)" "lin qs (map unat c) = i"
      using lin_surj[of i "map unat c"] by (auto simp: total_def)
    then obtain p where "in_block s c p" "rel_coords s p = qs"
      using rel_coords_surj[OF assms(1)] by blast
    then have "in_block s c p" "unat (linear_loop p s c 0 1) = i" using eq[of p] qs by auto
    then show "i \<in> (\<lambda>p. unat (linear_loop p s c 0 1)) ` {p. in_block s c p}" by blast
  qed
qed

lemma rev_in_block_bij:
  assumes "length c = length s"
  shows "bij_betw rev {p. in_block s c p} {p. in_block (rev s) (rev c) p}"
proof (rule bij_betw_byWitness[where f' = rev])
  show "rev ` {p. in_block s c p} \<subseteq> {p. in_block (rev s) (rev c) p}"
    using assms by (auto simp: in_block_rev in_blockD)
  show "rev ` {p. in_block (rev s) (rev c) p} \<subseteq> {p. in_block s c p}"
  proof clarsimp
    fix p assume p: "in_block (rev s) (rev c) p"
    then have "length p = length s" by (simp add: in_block_def)
    then show "in_block s c (rev p)" using p assms in_block_rev[of c s "rev p"] by simp
  qed
qed simp_all

lemma LinearIndex_bijection:
  assumes "fits start count" "total count \<le> 18446744073709551616"
  shows "bij_betw (\<lambda>p. unat (LinearIndexWithStartCount start count p isRowMajor))
    {p. in_block start count p} {0..<total count}"
proof (cases isRowMajor)
  case True
  have "length count = length start" using assms by (simp add: fits_def)
  then have "bij_betw ((\<lambda>p. unat (linear_loop p (rev start) (rev count) 0 1)) \<circ> rev)
      {p. in_block start count p} {0..<total count}"
    using bij_betw_trans[OF rev_in_block_bij linear_loop_bij[OF fits_rev]] assms by simp
  then show ?thesis using True by (simp add: LinearIndexWithStartCount_def comp_def)
next
  case False
  then show ?thesis using linear_loop_bij[OF assms] by (simp add: LinearIndexWithStartCount_def)
qed

lemma LinearIndex_column_is_reversed_row:
  "LinearIndexWithStartCount start count point False =
   LinearIndexWithStartCount (rev start) (rev count) (rev point) True"
  by (simp add: LinearIndexWithStartCount_def)

lemma linear_end_loop_eq:
  assumes "length ss = length ps" "length es = length ps"
  shows "linear_end_loop ps ss es idx pr
    = linear_loop ps ss (map2 (\<lambda>e s. e - s + 1) es ss) idx pr"
  using assms by (induction ps ss es idx pr rule: linear_end_loop.induct) auto

lemma StartCountBox_map2:
  "length e = length s \<Longrightarrow> snd (StartCountBox s e) = map2 (\<lambda>e s. e - s + 1) e s"
  by (auto simp: StartCountBox_def intro!: nth_equalityI)

lemma LinearIndexWithEnd_eq_StartCount:
  assumes "length point = length start" "length end' = length start"
  shows "LinearIndexWithEnd start end' point isRowMajor =
    LinearIndexWithStartCount start (snd (StartCountBox start end')) point isRowMajor"
  using assms
  by (simp add: LinearIndexWithEnd_def LinearIndexWithStartCount_def linear_end_loop_eq
      StartCountBox_map2 zip_rev rev_map)


subsection \<open>Contiguous intersections\<close>

lemma linear_end_loop_snoc:
  assumes "length ss = length ps" "length es = length ps"
  shows "linear_end_loop (ps @ [p]) (ss @ [s]) (es @ [e]) idx pr =
    linear_end_loop ps ss es idx pr
    + (p - s) * (pr * prod_list (map2 (\<lambda>e s. e - s + 1) es ss))"
  using assms
  by (induction ps ss es idx pr rule: linear_end_loop.induct) (auto simp: algebra_simps)

lemma contiguous_loop_Some:
  "contiguous_loop b i ds k = Some m \<longleftrightarrow>
    (\<forall>d\<in>set ds. fst b ! d = fst i ! d \<and> snd b ! d = snd i ! d) \<and>
    m = k * prod_list (map (\<lambda>d. snd b ! d - fst b ! d + 1) ds)"
  by (induction ds arbitrary: k) (auto simp: mult.assoc)

lemma map_upt_tl:
  "length e = length s \<Longrightarrow> map (\<lambda>d. f (e ! d) (s ! d)) [Suc 0..<length s] = map2 f (tl e) (tl s)"
  by (auto simp: nth_tl intro!: nth_equalityI)

lemma map_upt_butlast:
  "length e = length s \<Longrightarrow>
    map (\<lambda>d. f (e ! d) (s ! d)) [0..<length s - Suc 0] = map2 f (butlast e) (butlast s)"
  by (auto simp: nth_butlast intro!: nth_equalityI)

lemma rev_tl_hd: "xs \<noteq> [] \<Longrightarrow> rev xs = rev (tl xs) @ [hd xs]"
  by (cases xs) auto

lemma tl_eqI: "length xs = length ys \<Longrightarrow> (\<forall>d\<in>{1..<length ys}. xs ! d = ys ! d) \<Longrightarrow> tl xs = tl ys"
  by (auto simp: nth_tl intro!: nth_equalityI)

lemma butlast_eqI:
  "length xs = length ys \<Longrightarrow> (\<forall>d\<in>{0..<length ys - 1}. xs ! d = ys ! d) \<Longrightarrow> butlast xs = butlast ys"
  by (auto simp: nth_butlast intro!: nth_equalityI)

lemma contiguous_row_major:
  assumes "IsIntersectionContiguousSubarray (s, e) (s', e') True = Some off"
    and len: "length e = length s" "length s' = length s" "length e' = length s" "length p = length s"
  shows "LinearIndexWithEnd s e p True = off + LinearIndexWithEnd s' e' p True"
proof (cases "s = []")
  case True
  then show ?thesis
    using assms by (simp add: IsIntersectionContiguousSubarray_def LinearIndexWithEnd_def)
next
  case False
  let ?pr = "prod_list (map2 (\<lambda>e s. e - s + 1) (tl e) (tl s))"
  have "\<forall>d\<in>set [1..<length s]. s ! d = s' ! d \<and> e ! d = e' ! d"
    and "off = (s' ! 0 - s ! 0) * prod_list (map (\<lambda>d. e ! d - s ! d + 1) [Suc 0..<length s])"
    using assms(1) False
    by (auto simp: IsIntersectionContiguousSubarray_def contiguous_loop_Some Let_def)
  moreover from this have off: "off = (s' ! 0 - s ! 0) * ?pr"
    using map_upt_tl[OF len(1), of "\<lambda>e s. e - s + 1"] by simp
  ultimately have eqs: "\<forall>d\<in>set [1..<length s]. s ! d = s' ! d \<and> e ! d = e' ! d" by blast
  have tls: "tl s = tl s'" "tl e = tl e'" using len eqs by (auto intro!: tl_eqI)
  have ne: "e \<noteq> []" "s' \<noteq> []" "e' \<noteq> []" "p \<noteq> []" using False len by auto
  show ?thesis
    using False ne len tls off
    by (simp add: LinearIndexWithEnd_def rev_tl_hd linear_end_loop_snoc hd_conv_nth
        zip_rev prod_list.rev algebra_simps flip: rev_map)
qed

lemma contiguous_column_major:
  assumes "IsIntersectionContiguousSubarray (s, e) (s', e') False = Some off"
    and len: "length e = length s" "length s' = length s" "length e' = length s" "length p = length s"
  shows "LinearIndexWithEnd s e p False = off + LinearIndexWithEnd s' e' p False"
proof (cases "s = []")
  case True
  then show ?thesis
    using assms by (simp add: IsIntersectionContiguousSubarray_def LinearIndexWithEnd_def)
next
  case False
  let ?pr = "prod_list (map2 (\<lambda>e s. e - s + 1) (butlast e) (butlast s))"
  let ?m = "length s - 1"
  have eqs: "\<forall>d\<in>set [0..<?m]. s ! d = s' ! d \<and> e ! d = e' ! d"
    and "off = (s' ! ?m - s ! ?m) * prod_list (map (\<lambda>d. e ! d - s ! d + 1) [0..<length s - Suc 0])"
    using assms(1) False
    by (auto simp: IsIntersectionContiguousSubarray_def contiguous_loop_Some Let_def)
  from this(2) have off: "off = (s' ! ?m - s ! ?m) * ?pr"
    using map_upt_butlast[OF len(1), of "\<lambda>e s. e - s + 1"] by simp
  from eqs have bl: "butlast s = butlast s'" "butlast e = butlast e'"
    using len by (auto intro!: butlast_eqI)
  have split: "xs = butlast xs @ [xs ! ?m]" if "length xs = length s" for xs :: dims
    using that False by (metis append_butlast_last_id last_conv_nth length_0_conv)
  have lens: "length (butlast s) = length (butlast p)" "length (butlast e) = length (butlast p)"
    using len by simp_all
  have l1: "linear_end_loop p s e 0 1
      = linear_end_loop (butlast p) (butlast s) (butlast e) 0 1 + (p ! ?m - s ! ?m) * ?pr"
    using linear_end_loop_snoc[OF lens, of "p ! ?m" "s ! ?m" "e ! ?m" 0 1]
      split[of p] split[of s] split[of e] len by simp
  have l2: "linear_end_loop p s' e' 0 1
      = linear_end_loop (butlast p) (butlast s) (butlast e) 0 1 + (p ! ?m - s' ! ?m) * ?pr"
    using linear_end_loop_snoc[OF lens, of "p ! ?m" "s' ! ?m" "e' ! ?m" 0 1]
      split[of p] split[of s'] split[of e'] len bl by simp
  show ?thesis by (simp add: LinearIndexWithEnd_def l1 l2 off algebra_simps)
qed

lemma contiguous_offset:
  assumes "IsIntersectionContiguousSubarray blockBox interBox isRowMajor = Some startOffset"
    and "length (snd blockBox) = length (fst blockBox)" "length (fst interBox) = length (fst blockBox)"
      "length (snd interBox) = length (fst blockBox)" "length p = length (fst blockBox)"
  shows "LinearIndexWithEnd (fst blockBox) (snd blockBox) p isRowMajor =
    startOffset + LinearIndexWithEnd (fst interBox) (snd interBox) p isRowMajor"
  using assms contiguous_row_major contiguous_column_major
  by (cases blockBox; cases interBox; cases isRowMajor) auto


subsection \<open>Properties\<close>

lemma block_of_box:
  assumes "s \<le> e" "e - s + 1 \<noteq> (0 :: u64)"
  shows "s \<le> p \<and> p - s < e - s + 1 \<longleftrightarrow> s \<le> p \<and> p \<le> e"
proof -
  have "unat (e - s + 1) = unat e - unat s + 1"
    using assms by (metis Suc_eq_plus1 add.commute unatSuc unat_sub)
  then have "unat s + unat (e - s + 1) \<le> 18446744073709551616"
    using assms unat_u64_less[of e] by (simp add: word_le_nat_alt)
  moreover have "0 < e - s + 1" using assms by (simp add: word_gt_0)
  ultimately show ?thesis using last_in_block[of "e - s + 1" s p] by simp
qed

lemma diff_end_nonzero:
  assumes "s1 \<le> s" "s \<le> e" "e \<le> s1 + c1 - 1" "0 < c1" "unat (s1 :: u64) + unat c1 \<le> 18446744073709551616"
  shows "e - s + 1 \<noteq> 0"
proof
  assume "e - s + 1 = 0"
  then have "e - s = 18446744073709551615" by (simp add: add_eq_0_iff2)
  then have "unat e - unat s = 18446744073709551615"
    using assms(2) by (simp flip: unat_sub)
  moreover have "s1 \<le> e \<and> e - s1 < c1"
    using last_in_block[OF assms(4,5), of e] assms(1-3) by auto
  ultimately show False
    using assms(1,2) unat_u64_less[of c1] by (auto simp: word_nat unat_diff_le)
qed

lemma IntersectionStartCount_points:
  assumes len: "length s2 = length s1" and f1: "fits s1 c1" "solid c1" and f2: "fits s2 c2" "solid c2"
    and p: "p \<noteq> []"
  shows "in_block (fst (IntersectionStartCount s1 c1 s2 c2)) (snd (IntersectionStartCount s1 c1 s2 c2)) p
    \<longleftrightarrow> in_block s1 c1 p \<and> in_block s2 c2 p"
proof -
  let ?b1 = "StartEndBox s1 c1 False" and ?b2 = "StartEndBox s2 c2 False"
  let ?r = "IntersectionBox ?b1 ?b2"
  have eq: "IntersectionStartCount s1 c1 s2 c2 = StartCountBox (fst ?r) (snd ?r)"
    using IntersectionStartCount_eq_composition[OF len] by (simp add: Let_def)
  have rhs: "in_box ?r p \<longleftrightarrow> in_block s1 c1 p \<and> in_block s2 c2 p"
    using IntersectionStartCount_disjoint_or_points[OF len f1 f2 p] .
  have len': "length c1 = length s1" "length c2 = length s1" using f1 f2 len by (auto simp: fits_def)
  show ?thesis
  proof (cases "?r = ([], [])")
    case True
    then show ?thesis using eq rhs p by (simp add: StartCountBox_def in_block_def in_box_def)
  next
    case False
    have nd: "\<not> (fst ?b2 ! d > snd ?b1 ! d \<or> snd ?b2 ! d < fst ?b1 ! d)" if "d < length s1" for d
      using False that by (auto simp: IntersectionBox_def Let_def list_ex_upt split: if_splits)
    have r: "?r = (map (\<lambda>d. max (s1 ! d) (s2 ! d)) [0..<length s1],
        map (\<lambda>d. min (snd ?b1 ! d) (snd ?b2 ! d)) [0..<length s1])"
      using False by (auto simp: IntersectionBox_def Let_def max_def min_def split: if_splits)
    have "max (s1 ! d) (s2 ! d) \<le> p ! d \<and>
        p ! d - max (s1 ! d) (s2 ! d) < min (snd ?b1 ! d) (snd ?b2 ! d) - max (s1 ! d) (s2 ! d) + 1
      \<longleftrightarrow> max (s1 ! d) (s2 ! d) \<le> p ! d \<and> p ! d \<le> min (snd ?b1 ! d) (snd ?b2 ! d)"
      if d: "d < length s1" for d
    proof (rule block_of_box)
      have b: "s1 ! d \<le> snd ?b1 ! d" "s2 ! d \<le> snd ?b2 ! d"
        using last_in_block[of "c1 ! d" "s1 ! d" "s1 ! d"] last_in_block[of "c2 ! d" "s2 ! d" "s2 ! d"]
          f1 f2 d len len' by (auto simp: fits_def solidD)
      then show le: "max (s1 ! d) (s2 ! d) \<le> min (snd ?b1 ! d) (snd ?b2 ! d)"
        using nd[OF d] d len by (auto simp: not_less)
      show "min (snd ?b1 ! d) (snd ?b2 ! d) - max (s1 ! d) (s2 ! d) + 1 \<noteq> 0"
        using f1 d len' le by (intro diff_end_nonzero[of "s1 ! d" _ _ "c1 ! d"]) (auto simp: fits_def solidD)
    qed
    then show ?thesis
      unfolding eq rhs[symmetric] r by (auto simp: StartCountBox_def in_block_def in_box_def)
  qed
qed



text \<open>
  with an empty block at the origin the inclusive end \<open>0 + 0 - 1\<close> wraps to the largest
  \<open>size_t\<close>, and the intersection with any non-empty block is reported to be that whole block.
\<close>

theorem intersection_of_empty_block_wraps:
  assumes "0 < c" "unat s + unat c \<le> 18446744073709551616"
  shows "IntersectionStartCount [0] [0] [s] [c] = ([s], [c])"
proof -
  have "s \<le> s + c - 1" using last_in_block[OF assms, of s] assms(1) by simp
  then have no: "\<not> (s > 0 + 0 - 1 \<or> s + c - 1 < 0)" by (simp add: not_less word_n1_ge)
  have pos: "\<not> 0 < s \<Longrightarrow> s = 0" by (simp add: word_gt_0)
  consider "s + c - 1 < - 1" | "s + c - 1 = - 1"
    using word_n1_ge[of "s + c - 1"] order_le_imp_less_or_eq by blast
  then show ?thesis
  proof cases
    case 1
    then show ?thesis using no pos by (auto simp: IntersectionStartCount_def)
  next
    case 2
    then have "c = - s" by (simp add: eq_neg_iff_add_eq_0 add.commute)
    then show ?thesis using no pos assms(1) by (auto simp: IntersectionStartCount_def)
  qed
qed

theorem intersection_of_empty_block_wraps_witness:
  "IntersectionStartCount [0] [0] [5] [3] = ([5], [3])"
  by (rule intersection_of_empty_block_wraps) simp_all

text \<open>
  C2: for a block whose elements are no more than \<open>2 ^ 64\<close>, \<open>LinearIndexWithStartCount\<close> maps the
  points of the block one to one onto the indices \<open>0\<close> to the number of elements, in both storage
  orders: no two points share a place in memory, and none lies outside the block's memory.
\<close>

theorem linear_index_is_a_bijection:
  assumes "fits start count" "total count \<le> 18446744073709551616"
  shows "bij_betw (\<lambda>p. unat (LinearIndexWithStartCount start count p isRowMajor))
    {p. in_block start count p} {0..<total count}"
  by (rule LinearIndex_bijection[OF assms])

theorem linear_index_is_a_bijection_witness:
  "bij_betw (\<lambda>p. unat (LinearIndexWithStartCount [1, 2] [2, 3] p True))
    {p. in_block [1, 2] [2, 3] p} {0..<6}"
  using linear_index_is_a_bijection[of "[1, 2]" "[2, 3]" True]
  by (simp add: fits_def total_def less_Suc_eq)

text \<open>
  C3: when \<open>IsIntersectionContiguousSubarray\<close> answers yes, the position of every point in the block
  is the start offset it returns plus the position in the intersection: one copy moves it all.
\<close>

theorem contiguous_intersection_offset:
  assumes "IsIntersectionContiguousSubarray blockBox interBox isRowMajor = Some startOffset"
    and "length (snd blockBox) = length (fst blockBox)" "length (fst interBox) = length (fst blockBox)"
      "length (snd interBox) = length (fst blockBox)" "length p = length (fst blockBox)"
  shows "LinearIndexWithEnd (fst blockBox) (snd blockBox) p isRowMajor =
    startOffset + LinearIndexWithEnd (fst interBox) (snd interBox) p isRowMajor"
  by (rule contiguous_offset[OF assms])

theorem contiguous_intersection_offset_witness:
  "LinearIndexWithEnd [0, 0] [9, 4] [3, 2] True = 10 + LinearIndexWithEnd [2, 0] [5, 4] [3, 2] True"
  using contiguous_intersection_offset[of "([0, 0], [9, 4])" "([2, 0], [5, 4])" True 10 "[3, 2]"]
  by (simp add: IsIntersectionContiguousSubarray_def Let_def upt_rec)

end
