(* ===== verification/Adios_Subblock.thy ===== *)
theory Adios_Subblock
  imports Adios_Box
begin

section \<open>Division of a block into sub-blocks (helper/adiosMath.cpp)\<close>

text \<open>
  A writer splits each block into at most 4096 sub-blocks to store one minimum and maximum per
  sub-block; a query reads the sub-blocks back by their number. \<open>DivideBlock\<close> chooses how many
  cuts each dimension gets, \<open>CalculateSubblockInfo\<close> derives the remainders and the divisors that
  turn a sub-block number into one number per dimension, \<open>GetSubBlock\<close> returns the start and count
  of a sub-block. The main result is that the sub-blocks partition the block. A division by zero,
  undefined in C++, is the error \<open>UndefinedBehaviour\<close>.
\<close>

subsection \<open>Definitions\<close>

datatype BlockDivisionMethod = Contiguous | Mesh

record BlockDivisionInfo =
  Div :: "u16 list"
  Rem :: "u16 list"
  ReverseDivProduct :: "u16 list"
  SubBlockSize :: u64
  NBlocks :: u16
  DivisionMethod :: BlockDivisionMethod

definition CalculateSubblockInfo :: "dims \<Rightarrow> BlockDivisionInfo \<Rightarrow> BlockDivisionInfo" where
  "CalculateSubblockInfo count info =
    (let ndim = length count;
         rem = map (\<lambda>j. ucast (count ! j mod ucast (Div info ! j))) [0..<ndim];
         n = foldl (\<lambda>n j. n * Div info ! j) 1 [0..<ndim];
         rdp = fst (fold (\<lambda>j (r, d). (r[j := d], d * Div info ! j)) (rev [0..<ndim])
                 (replicate ndim 0, 1))
     in info\<lparr>Rem := rem, NBlocks := n, ReverseDivProduct := rdp\<rparr>)"

function divide_loop :: "dims \<Rightarrow> nat \<Rightarrow> u16 \<Rightarrow> u16 list \<Rightarrow> u16 list result" where
  "divide_loop count i n div' =
    (if 1 < n \<and> i < length count then
       let dim = count ! i in
       if ucast n < dim then divide_loop count (Suc i) 1 (div'[i := n])
       else if dim = 0 then Inl UndefinedBehaviour
       else divide_loop count (Suc i) (ucast (ucast n div dim)) (div'[i := ucast dim])
     else Inr div')"
  by pat_completeness auto
termination
  by (relation "measure (\<lambda>(count, i, n, div'). length count - i)") auto

declare divide_loop.simps [simp del]

definition DivideBlock :: "dims \<Rightarrow> u64 \<Rightarrow> BlockDivisionMethod \<Rightarrow> BlockDivisionInfo result" where
  "DivideBlock count subblockSize divisionMethod =
    (if divisionMethod \<noteq> Contiguous then Inl InvalidArgument
     else if subblockSize = 0 then Inl UndefinedBehaviour
     else
       let ndim = length count;
           nElems = GetTotalSize count 1;
           q = nElems div subblockSize;
           q1 = (if nElems > q * subblockSize then q + 1 else q);
           nBlocks64 = (if q1 > 4096 then 4096 else q1);
           nb = (ucast nBlocks64 :: u16);
           nb1 = (if nb = 0 then 1 else nb);
           info = \<lparr>Div = replicate ndim 1, Rem = replicate ndim 0,
                   ReverseDivProduct = replicate ndim 1, SubBlockSize = subblockSize,
                   NBlocks = nb1, DivisionMethod = divisionMethod\<rparr>
       in
       if nb1 > 1 then
         bindR (divide_loop count 0 nb1 (replicate ndim 1))
           (\<lambda>d. Inr (CalculateSubblockInfo count (info\<lparr>Div := d\<rparr>)))
       else Inr info)"

definition subblock_id :: "BlockDivisionInfo \<Rightarrow> u32 \<Rightarrow> nat \<Rightarrow> u16" where
  "subblock_id info blockID j =
    (let q = (ucast (blockID div ucast (ReverseDivProduct info ! j)) :: u16)
     in if j > 0 then q mod Div info ! j else q)"

definition GetSubBlock :: "dims \<Rightarrow> BlockDivisionInfo \<Rightarrow> u32 \<Rightarrow> box" where
  "GetSubBlock count info blockID =
    (let ndim = length count;
         ids = map (subblock_id info blockID) [0..<ndim];
         base = (\<lambda>j. count ! j div ucast (Div info ! j));
         sbCount = map (\<lambda>j. if ids ! j < Rem info ! j then base j + 1 else base j) [0..<ndim];
         sbStart = map (\<lambda>j. base j * ucast (ids ! j) +
                     (if ids ! j < Rem info ! j then ucast (ids ! j) else ucast (Rem info ! j)))
                   [0..<ndim]
     in (sbStart, sbCount))"

subsection \<open>One dimension cut into pieces\<close>

text \<open>
  \<open>cut_start c d k\<close> is the start of piece \<open>k\<close> when \<open>c\<close> elements are cut into \<open>d\<close> pieces whose lengths
  differ by one at most, the longer ones first.
\<close>

definition cut_start :: "nat \<Rightarrow> nat \<Rightarrow> nat \<Rightarrow> nat" where
  "cut_start c d k = c div d * k + min k (c mod d)"

lemma cut_Suc: "cut_start c d (Suc k) = cut_start c d k + (c div d + (if k < c mod d then 1 else 0))"
  by (simp add: cut_start_def)

lemma cut_0 [simp]: "cut_start c d 0 = 0"
  by (simp add: cut_start_def)

lemma cut_top: "0 < d \<Longrightarrow> cut_start c d d = c"
  using mod_less_divisor[of d c] by (simp add: cut_start_def min_absorb2)

lemma cut_mono: "k \<le> l \<Longrightarrow> cut_start c d k \<le> cut_start c d l"
  by (simp add: cut_start_def add_mono)

lemma cut_less: "k < d \<Longrightarrow> cut_start c d (Suc k) \<le> c"
  using cut_mono[of "Suc k" d c d] cut_top[of d c] by simp

definition in_piece :: "nat \<Rightarrow> nat \<Rightarrow> nat \<Rightarrow> nat \<Rightarrow> bool" where
  "in_piece c d k x \<longleftrightarrow> cut_start c d k \<le> x \<and> x < cut_start c d (Suc k)"

lemma in_piece_unique: "in_piece c d k x \<Longrightarrow> in_piece c d l x \<Longrightarrow> k = l"
proof (rule ccontr)
  assume *: "in_piece c d k x" "in_piece c d l x" "k \<noteq> l"
  then consider "Suc k \<le> l" | "Suc l \<le> k" by linarith
  then show False
    using * cut_mono[of "Suc k" l c d] cut_mono[of "Suc l" k c d]
    by cases (auto simp: in_piece_def)
qed

lemma in_piece_exists:
  assumes "x < c" "0 < d"
  shows "\<exists>k<d. in_piece c d k x"
proof -
  have "x < cut_start c d m \<Longrightarrow> \<exists>k<m. in_piece c d k x" for m
  proof (induction m)
    case (Suc m)
    show ?case
    proof (cases "x < cut_start c d m")
      case True
      then show ?thesis using Suc.IH less_SucI by blast
    next
      case False
      then show ?thesis using Suc.prems by (intro exI[of _ m]) (simp add: in_piece_def)
    qed
  qed simp
  from this[of d] show ?thesis using assms by (simp add: cut_top)
qed

subsection \<open>Sub-block numbers\<close>

text \<open>
  The number per dimension of a sub-block is a mixed-radix digit; \<open>lin\<close> of the preceding theory is
  the inverse.
\<close>

lemma lin_digit:
  "list_all2 (<) qs cs \<Longrightarrow> j < length cs \<Longrightarrow>
    lin qs cs div prod_list (take j cs) mod cs ! j = qs ! j"
proof (induction qs cs arbitrary: j rule: list_all2_induct)
  case (Cons q qs c cs)
  then show ?case
    by (cases j) (simp_all add: div_mult2_eq)
qed simp

lemma lin_top_digit:
  "list_all2 (<) qs cs \<Longrightarrow> length cs = Suc j \<Longrightarrow> lin qs cs div prod_list (take j cs) = qs ! j"
proof (induction qs cs arbitrary: j rule: list_all2_induct)
  case (Cons q qs c cs)
  then show ?case
    by (cases j) (auto simp: div_mult2_eq)
qed simp

text \<open>\<open>suffix_prod\<close> is what the reverse loop stores: the product of the cuts of later dimensions.\<close>

definition suffix_prod :: "nat list \<Rightarrow> nat \<Rightarrow> nat" where
  "suffix_prod ds j = prod_list (drop (Suc j) ds)"

definition digit :: "nat list \<Rightarrow> nat \<Rightarrow> nat \<Rightarrow> nat" where
  "digit ds b j = (if j > 0 then b div suffix_prod ds j mod ds ! j else b div suffix_prod ds j)"

lemma suffix_prod_take_rev:
  "j < length ds \<Longrightarrow> prod_list (take (length ds - Suc j) (rev ds)) = suffix_prod ds j"
  by (simp add: suffix_prod_def take_rev)

lemma digit_lin:
  assumes "list_all2 (<) ks ds" "j < length ds"
  shows "digit ds (lin (rev ks) (rev ds)) j = ks ! j"
proof -
  have r: "list_all2 (<) (rev ks) (rev ds)" using assms by simp
  have len: "length ks = length ds" using assms by (simp add: list_all2_lengthD)
  let ?i = "length ds - Suc j"
  have i: "?i < length (rev ds)" "rev ks ! ?i = ks ! j" "rev ds ! ?i = ds ! j"
    using assms len by (simp_all add: rev_nth)
  show ?thesis
  proof (cases "j = 0")
    case True
    then have "length (rev ds) = Suc ?i" using assms by simp
    from lin_top_digit[OF r this] show ?thesis
      using True i suffix_prod_take_rev[of j ds] assms by (simp add: digit_def)
  next
    case False
    from lin_digit[OF r i(1)] show ?thesis
      using False i suffix_prod_take_rev[of j ds] assms by (simp add: digit_def)
  qed
qed

lemma digits_of_number:
  assumes "b < prod_list ds"
  shows "\<exists>ks. list_all2 (<) ks ds \<and> b = lin (rev ks) (rev ds) \<and> (\<forall>j<length ds. digit ds b j = ks ! j)"
proof -
  from lin_surj[of b "rev ds"] assms obtain qs where
    qs: "list_all2 (<) qs (rev ds)" "lin qs (rev ds) = b" by auto
  then have "list_all2 (<) (rev qs) ds" by (simp add: list_all2_rev1)
  then show ?thesis using qs digit_lin[of "rev qs" ds] by (intro exI[of _ "rev qs"]) auto
qed


subsection \<open>What DivideBlock returns\<close>

definition info_ok :: "dims \<Rightarrow> BlockDivisionInfo \<Rightarrow> bool" where
  "info_ok count info \<longleftrightarrow>
    (let D = map unat (Div info); n = length count in
     length (Div info) = n \<and> length (Rem info) = n \<and> length (ReverseDivProduct info) = n \<and>
     (\<forall>j<n. 0 < D ! j) \<and> prod_list D \<le> 4096 \<and> unat (NBlocks info) = prod_list D \<and>
     (\<forall>j<n. unat (Rem info ! j) = unat (count ! j) mod D ! j \<and>
            unat (ReverseDivProduct info ! j) = suffix_prod D j))"

lemma prod_list_take_le:
  "\<forall>c\<in>set cs. 0 < c \<Longrightarrow> prod_list (take j cs) \<le> prod_list (cs :: nat list)"
proof -
  assume pos: "\<forall>c\<in>set cs. 0 < c"
  have "prod_list cs = prod_list (take j cs) * prod_list (drop j cs)"
    by (metis append_take_drop_id prod_list.append)
  moreover have "0 < prod_list (drop j cs)"
    using pos by (auto simp: prod_list_pos_iff dest: in_set_dropD)
  ultimately show ?thesis by simp
qed

lemma prod_list_drop_le:
  "\<forall>c\<in>set cs. 0 < c \<Longrightarrow> prod_list (drop j cs) \<le> prod_list (cs :: nat list)"
proof -
  assume pos: "\<forall>c\<in>set cs. 0 < c"
  have "prod_list cs = prod_list (take j cs) * prod_list (drop j cs)"
    by (metis append_take_drop_id prod_list.append)
  moreover have "0 < prod_list (take j cs)"
    using pos by (auto simp: prod_list_pos_iff dest: in_set_takeD)
  ultimately show ?thesis by simp
qed

lemma prod_list_u16_unat:
  assumes "prod_list (map unat ds) < 65536"
  shows "unat (prod_list (ds :: u16 list)) = prod_list (map unat ds)"
proof -
  have "prod_list ds = of_nat (prod_list (map unat ds))" by (induction ds) auto
  then show ?thesis using assms by (simp add: unat_of_nat)
qed

lemma foldl_mult_upt:
  "foldl (\<lambda>n j. n * ds ! j) 1 [0..<length ds] = prod_list (ds :: u16 list)"
proof -
  have "foldl (\<lambda>n j. n * ds ! j) a [0..<length ds] = a * prod_list ds" for a :: u16
  proof (induction ds arbitrary: a)
    case (Cons d ds)
    have "[0..<length (d # ds)] = 0 # map Suc [0..<length ds]"
      by (simp add: map_Suc_upt upt_conv_Cons del: upt_Suc)
    then show ?case using Cons by (simp add: foldl_map mult.assoc del: upt_Suc)
  qed simp
  then show ?thesis by simp
qed

text \<open>
  The reverse loop: after the dimensions \<open>m..<n\<close> its entries from \<open>m\<close> on are the suffix products,
  and its accumulator is the product of their cuts.
\<close>

lemma reverse_loop:
  assumes "length ds = n" "m \<le> n"
  shows "fold (\<lambda>j (r, d). (r[j := d], d * ds ! j)) (rev [m..<n]) (replicate n 0, 1)
    = (map (\<lambda>j. if m \<le> j then prod_list (drop (Suc j) (ds :: u16 list)) else 0) [0..<n],
       prod_list (drop m ds))"
  using assms
proof (induction "n - m" arbitrary: m)
  case 0
  then show ?case by (auto intro!: nth_equalityI)
next
  case (Suc k)
  then have m: "m < n" by simp
  have "fold (\<lambda>j (r, d). (r[j := d], d * ds ! j)) (rev [Suc m..<n]) (replicate n 0, 1)
    = (map (\<lambda>j. if Suc m \<le> j then prod_list (drop (Suc j) ds) else 0) [0..<n],
       prod_list (drop (Suc m) ds))"
    using Suc m by (intro Suc.hyps) auto
  moreover have "drop m ds = ds ! m # drop (Suc m) ds" using m Suc.prems
    by (simp add: Cons_nth_drop_Suc)
  moreover have "(map (\<lambda>j. if Suc m \<le> j then prod_list (drop (Suc j) ds) else 0) [0..<n])
      [m := prod_list (drop (Suc m) ds)]
    = map (\<lambda>j. if m \<le> j then prod_list (drop (Suc j) ds) else 0) [0..<n]"
    using m by (auto intro!: nth_equalityI simp: nth_list_update)
  ultimately show ?case using m by (simp add: upt_conv_Cons mult.commute)
qed

lemma reverse_loop_0:
  "length ds = n \<Longrightarrow>
    fst (fold (\<lambda>j (r, d). (r[j := d], d * ds ! j)) (rev [0..<n]) (replicate n 0, 1))
    = map (\<lambda>j. prod_list (drop (Suc j) (ds :: u16 list))) [0..<n]"
  using reverse_loop[of ds n 0] by simp

lemma CalculateSubblockInfo_ok:
  assumes "length (Div info) = length count" "\<forall>d\<in>set (Div info). 0 < d"
    "prod_list (map unat (Div info)) \<le> 4096"
  shows "info_ok count (CalculateSubblockInfo count info)"
proof -
  let ?D = "map unat (Div info)"
  have posD: "\<forall>d\<in>set ?D. 0 < d" using assms(2) by (auto simp: word_nat)
  have rem: "unat (ucast (count ! j mod ucast (Div info ! j)) :: u16) = unat (count ! j) mod ?D ! j"
    if "j < length count" for j
  proof -
    have d: "0 < unat (Div info ! j)" using assms that by (auto simp: word_nat)
    have "unat (count ! j) mod unat (Div info ! j) < unat (Div info ! j)" using d by simp
    also have "\<dots> < 2 ^ 16" using unsigned_less[of "Div info ! j", where ?'a = nat] by simp
    finally have small: "unat (count ! j mod ucast (Div info ! j)) < 2 ^ LENGTH(16)"
      by (simp add: unat_mod unat_ucast_16_64)
    show ?thesis
      using that assms(1) by (subst unat_ucast_small[OF small]) (simp add: unat_mod unat_ucast_16_64)
  qed
  have sp: "unat (prod_list (drop (Suc j) (Div info))) = suffix_prod ?D j" for j
    using prod_list_drop_le[OF posD, of "Suc j"] assms(3)
    by (simp add: suffix_prod_def prod_list_u16_unat drop_map)
  have pos: "0 < unat (Div info ! j)" if "j < length count" for j
    using assms that by (auto simp: word_nat)
  have nb: "unat (prod_list (Div info)) = prod_list ?D"
    using assms by (simp add: prod_list_u16_unat)
  show ?thesis
    using assms rem sp pos nb
    by (simp add: info_ok_def CalculateSubblockInfo_def Let_def reverse_loop_0 foldl_mult_upt
        flip: assms(1))
qed


text \<open>
  The loop that chooses the cuts: their product never exceeds the number of blocks asked for, every
  cut is positive, and no dimension is cut more often than it has elements. It never divides by
  zero when no dimension is empty, which holds whenever it runs.
\<close>

definition cuts_ok :: "dims \<Rightarrow> u16 list \<Rightarrow> bool" where
  "cuts_ok count ds \<longleftrightarrow> length ds = length count \<and>
    (\<forall>j<length count. 0 < ds ! j \<and> unat (ds ! j) \<le> unat (count ! j))"

lemma prod_list_update_one:
  "i < length ds \<Longrightarrow> ds ! i = (1 :: nat) \<Longrightarrow> prod_list (ds[i := v]) = prod_list ds * v"
  by (induction ds arbitrary: i) (auto split: nat.splits)

lemma divide_loop_ok:
  assumes "divide_loop count i n ds = Inr ds'" "solid count" "cuts_ok count ds" "0 < n"
    "\<forall>j<length count. i \<le> j \<longrightarrow> ds ! j = 1"
  shows "cuts_ok count ds' \<and> prod_list (map unat ds') \<le> prod_list (map unat ds) * unat n"
  using assms
proof (induction count i n ds arbitrary: ds' rule: divide_loop.induct)
  case (1 count i n ds)
  let ?dim = "count ! i"
  have n0: "0 < unat n" using "1.prems"(4) by (simp add: word_nat)
  show ?case
  proof (cases "1 < n \<and> i < length count")
    case False
    then show ?thesis using "1.prems" n0 by (auto simp: divide_loop.simps[of count i n ds])
  next
    case True
    then have i: "i < length ds" "map unat ds ! i = 1" "0 < ?dim"
      using "1.prems" by (auto simp: cuts_ok_def solidD)
    note upd = prod_list_update_one[of i "map unat ds"]
    show ?thesis
    proof (cases "ucast n < ?dim")
      case less: True
      then have le: "unat n \<le> unat ?dim" by (simp add: word_nat unat_ucast_16_64)
      have "cuts_ok count (ds[i := n])"
        using "1.prems" i le True by (auto simp: cuts_ok_def nth_list_update)
      then have "cuts_ok count ds' \<and>
          prod_list (map unat ds') \<le> prod_list (map unat (ds[i := n])) * unat (1 :: u16)"
        using "1.IH"(1)[OF True refl less] "1.prems" True less
        by (auto simp: divide_loop.simps[of count i n ds] Let_def)
      then show ?thesis using upd[of "unat n"] i by (simp add: map_update)
    next
      case False
      then have le: "unat ?dim \<le> unat n" by (simp add: word_nat unat_ucast_16_64)
      have dim: "unat (ucast ?dim :: u16) = unat ?dim"
        using le unsigned_less[of n, where ?'a = nat] by (intro unat_ucast_small) simp
      have q: "unat (ucast (ucast n div ?dim) :: u16) = unat n div unat ?dim"
        using unsigned_less[of n, where ?'a = nat]
        by (subst unat_ucast_small) (auto simp: unat_div unat_ucast_16_64 intro: le_less_trans[OF div_le_dividend])
      have dpos: "0 < unat ?dim" using i by (simp add: word_nat)
      have qpos: "0 < unat n div unat ?dim" using le dpos by (simp add: div_greater_zero_iff)
      have "cuts_ok count (ds[i := ucast ?dim])"
        using "1.prems" i dim dpos by (auto simp: cuts_ok_def nth_list_update word_nat)
      moreover have "0 < (ucast (ucast n div ?dim) :: u16)" using q qpos by (simp add: word_less_nat_alt)
      moreover have dn: "?dim \<noteq> 0" using i by auto
      moreover have "divide_loop count (Suc i) (ucast (ucast n div ?dim)) (ds[i := ucast ?dim]) = Inr ds'"
        using "1.prems"(1) True False dn by (simp add: divide_loop.simps[of count i n ds] Let_def)
      moreover have "\<forall>j<length count. Suc i \<le> j \<longrightarrow> ds[i := ucast ?dim] ! j = 1"
        using "1.prems"(5) by simp
      ultimately have "cuts_ok count ds' \<and> prod_list (map unat ds')
          \<le> prod_list (map unat (ds[i := ucast ?dim])) * (unat n div unat ?dim)"
        using "1.IH"(2)[OF True refl False dn] "1.prems"(2) q by simp
      moreover have le2: "prod_list (map unat ds) * unat ?dim * (unat n div unat ?dim)
          \<le> prod_list (map unat ds) * unat n"
        by (simp add: mult.assoc)
      ultimately show ?thesis
        using upd[of "unat ?dim"] i dim by (auto simp: map_update elim: order_trans[OF _ le2])
    qed
  qed
qed

lemma divide_loop_no_error: "solid count \<Longrightarrow> divide_loop count i n ds \<noteq> Inl e"
proof (induction count i n ds rule: divide_loop.induct)
  case (1 count i n ds)
  then show ?case
    by (auto simp: divide_loop.simps[of count i n ds] Let_def solidD dest: solidD[of count i])
qed


lemma GetTotalSize_zero:
  "\<not> solid count \<Longrightarrow> GetTotalSize count x = 0"
proof -
  have "foldl (*) a count = a * prod_list count" for a :: u64
    by (induction count arbitrary: a) (auto simp: mult.assoc)
  moreover have "\<not> solid count \<Longrightarrow> prod_list count = 0"
    by (induction count) (auto simp: solid_def word_gt_0)
  ultimately show "\<not> solid count \<Longrightarrow> GetTotalSize count x = 0"
    by (simp add: GetTotalSize_def)
qed

lemma info_ok_undivided:
  "NBlocks info = 1 \<Longrightarrow> Div info = replicate (length count) 1 \<Longrightarrow>
   Rem info = replicate (length count) 0 \<Longrightarrow>
   ReverseDivProduct info = replicate (length count) 1 \<Longrightarrow> info_ok count info"
  by (auto simp: info_ok_def Let_def suffix_prod_def)

text \<open>
  The number of blocks asked for, after the cap: at most 4096, and positive.
\<close>

lemma nblocks_cap:
  fixes q :: u64
  shows "unat (ucast (if q > 4096 then 4096 else q) :: u16) \<le> 4096"
proof -
  have "unat (if q > 4096 then 4096 else q) \<le> 4096" by (auto simp: word_nat)
  then show ?thesis by (subst unat_ucast_small) auto
qed

lemma DivideBlock_ok:
  assumes "DivideBlock count subblockSize method' = Inr info"
  shows "info_ok count info"
proof -
  define q where "q = GetTotalSize count 1 div subblockSize"
  define q1 where "q1 = (if GetTotalSize count 1 > q * subblockSize then q + 1 else q)"
  define nb where "nb = (ucast (if q1 > 4096 then 4096 else q1) :: u16)"
  define nb1 where "nb1 = (if nb = 0 then 1 else nb)"
  define info0 where "info0 = \<lparr>Div = replicate (length count) 1, Rem = replicate (length count) 0,
    ReverseDivProduct = replicate (length count) 1, SubBlockSize = subblockSize, NBlocks = nb1,
    DivisionMethod = method'\<rparr>"
  have ok: "subblockSize \<noteq> 0" "method' = Contiguous" using assms by (auto simp: DivideBlock_def split: if_splits)
  have eq: "DivideBlock count subblockSize method' = (if nb1 > 1 then
       bindR (divide_loop count 0 nb1 (replicate (length count) 1))
         (\<lambda>d. Inr (CalculateSubblockInfo count (info0\<lparr>Div := d\<rparr>))) else Inr info0)"
    using ok by (simp add: DivideBlock_def Let_def q_def q1_def nb_def nb1_def info0_def)
  have cap: "unat nb1 \<le> 4096" using nblocks_cap[of q1] by (simp add: nb_def nb1_def)
  show ?thesis
  proof (cases "nb1 > 1")
    case False
    then have "nb1 = 1" by (simp add: nb1_def word_less_nat_alt word_unat_eq_iff split: if_splits)
    then show ?thesis using False assms eq by (auto simp: info0_def intro!: info_ok_undivided)
  next
    case True
    have s: "solid count"
    proof (rule ccontr)
      assume "\<not> solid count"
      then have "q1 = 0" by (simp add: q1_def q_def GetTotalSize_zero)
      then show False using True by (simp add: nb1_def nb_def)
    qed
    from assms True obtain d where d: "divide_loop count 0 nb1 (replicate (length count) 1) = Inr d"
      and info: "info = CalculateSubblockInfo count (info0\<lparr>Div := d\<rparr>)"
      by (auto simp: eq result_simps)
    have "cuts_ok count (replicate (length count) 1)"
      using s by (auto simp: cuts_ok_def word_nat dest!: solidD)
    from divide_loop_ok[OF d s this] True have
      c: "cuts_ok count d" "prod_list (map unat d) \<le> unat nb1"
      by (auto simp: word_less_nat_alt)
    then show ?thesis
      using cap unfolding info
      by (intro CalculateSubblockInfo_ok) (auto simp: cuts_ok_def all_set_conv_all_nth)
  qed
qed


subsection \<open>What GetSubBlock returns\<close>

lemma info_okD:
  assumes "info_ok count info" "j < length count"
  shows "length (Div info) = length count" "0 < unat (Div info ! j)"
    "unat (Rem info ! j) = unat (count ! j) mod unat (Div info ! j)"
    "unat (ReverseDivProduct info ! j) = suffix_prod (map unat (Div info)) j"
    "unat (NBlocks info) = prod_list (map unat (Div info))" "unat (NBlocks info) \<le> 4096"
  using assms by (auto simp: info_ok_def Let_def)

lemma subblock_id_digit:
  assumes "info_ok count info" "j < length count" "b < unat (NBlocks info)"
  shows "unat (subblock_id info (of_nat b) j) = digit (map unat (Div info)) b j"
proof -
  note ok = info_okD[OF assms(1,2)]
  have b: "b < 4096" using ok(6) assms(3) by simp
  then have ub: "unat (of_nat b :: u32) = b" by (intro unat_of_nat_small) simp
  have r: "unat (ucast (ReverseDivProduct info ! j) :: u32) = suffix_prod (map unat (Div info)) j"
    using unsigned_less[of "ReverseDivProduct info ! j", where ?'a = nat] ok(4)
    by (subst unat_ucast_small) auto
  have q: "unat (of_nat b div ucast (ReverseDivProduct info ! j) :: u32)
      = b div suffix_prod (map unat (Div info)) j"
    by (simp add: unat_div ub r)
  have "unat (of_nat b div ucast (ReverseDivProduct info ! j) :: u32) \<le> b"
    unfolding q by (rule div_le_dividend)
  then have "unat (of_nat b div ucast (ReverseDivProduct info ! j) :: u32) < 2 ^ LENGTH(16)"
    using b by simp
  from unat_ucast_small[OF this] have "unat (ucast (of_nat b div ucast (ReverseDivProduct info ! j) :: u32) :: u16)
      = b div suffix_prod (map unat (Div info)) j"
    using q by simp
  then show ?thesis
    using assms(2) ok(1) by (cases "j = 0") (simp_all add: subblock_id_def digit_def Let_def unat_mod)
qed

lemma digit_less:
  assumes "info_ok count info" "j < length count" "b < unat (NBlocks info)"
  shows "digit (map unat (Div info)) b j < unat (Div info ! j)"
proof -
  from digits_of_number[of b "map unat (Div info)"] info_okD[OF assms(1,2)] assms
  obtain ks where "list_all2 (<) ks (map unat (Div info))"
    "\<forall>j<length (Div info). digit (map unat (Div info)) b j = ks ! j" by auto
  then show ?thesis using info_okD(1)[OF assms(1,2)] assms(2)
    by (auto simp: list_all2_conv_all_nth)
qed

lemma GetSubBlock_piece:
  assumes "info_ok count info" "j < length count" "b < unat (NBlocks info)"
  defines "C \<equiv> unat (count ! j)" and "D \<equiv> unat (Div info ! j)"
    and "k \<equiv> digit (map unat (Div info)) b j"
  shows "unat (fst (GetSubBlock count info (of_nat b)) ! j) = cut_start C D k"
    and "unat (snd (GetSubBlock count info (of_nat b)) ! j) = C div D + (if k < C mod D then 1 else 0)"
proof -
  note ok = info_okD[OF assms(1,2), folded C_def D_def]
  let ?id = "subblock_id info (of_nat b) j"
  have id: "unat ?id = k" using subblock_id_digit[OF assms(1-3)] by (simp add: k_def)
  have kD: "k < D" using digit_less[OF assms(1-3)] by (simp add: k_def D_def)
  have lt: "?id < Rem info ! j \<longleftrightarrow> k < C mod D" by (simp add: word_less_nat_alt id ok(3))
  have base: "unat (count ! j div ucast (Div info ! j)) = C div D"
    by (simp add: unat_div unat_ucast_16_64 C_def D_def)
  have top: "cut_start C D k + (C div D + (if k < C mod D then 1 else 0)) \<le> C"
    using cut_less[OF kD, of C] by (simp add: cut_Suc)
  have C64: "C < 2 ^ LENGTH(64)" using unat_u64_less[of "count ! j"] by (simp add: C_def)
  let ?m = "if ?id < Rem info ! j then ucast ?id else ucast (Rem info ! j) :: u64"
  have m: "unat ?m = min k (C mod D)"
    using lt by (auto simp: unat_ucast_16_64 id ok(3))
  have prod: "unat (count ! j div ucast (Div info ! j) * ucast ?id) = C div D * k"
    using base top C64 id
    by (subst unat_mult_small) (auto simp: unat_ucast_16_64 cut_start_def intro: le_less_trans)
  have "unat (count ! j div ucast (Div info ! j) * ucast ?id + ?m) = C div D * k + min k (C mod D)"
    using prod m top C64 unfolding cut_start_def by (subst unat_add_small) auto
  then show "unat (fst (GetSubBlock count info (of_nat b)) ! j) = cut_start C D k"
    using assms(2) by (auto simp: GetSubBlock_def Let_def cut_start_def split: if_splits)
  have "unat (count ! j div ucast (Div info ! j) + 1) = C div D + 1" if "k < C mod D"
    using base top C64 that by (subst unat_add_small) auto
  then show "unat (snd (GetSubBlock count info (of_nat b)) ! j)
      = C div D + (if k < C mod D then 1 else 0)"
    using assms(2) lt base by (simp add: GetSubBlock_def Let_def)
qed

lemma GetSubBlock_length [simp]:
  "length (fst (GetSubBlock count info b)) = length count"
  "length (snd (GetSubBlock count info b)) = length count"
  by (simp_all add: GetSubBlock_def Let_def)

lemma in_GetSubBlock_iff:
  assumes "info_ok count info" "b < unat (NBlocks info)"
  shows "in_block (fst (GetSubBlock count info (of_nat b))) (snd (GetSubBlock count info (of_nat b))) p
    \<longleftrightarrow> length p = length count \<and> (\<forall>j<length count.
      in_piece (unat (count ! j)) (unat (Div info ! j)) (digit (map unat (Div info)) b j) (unat (p ! j)))"
proof -
  have "(fst (GetSubBlock count info (of_nat b)) ! j \<le> p ! j \<and>
      p ! j - fst (GetSubBlock count info (of_nat b)) ! j < snd (GetSubBlock count info (of_nat b)) ! j)
    \<longleftrightarrow> in_piece (unat (count ! j)) (unat (Div info ! j)) (digit (map unat (Div info)) b j) (unat (p ! j))"
    if "j < length count" for j
    using GetSubBlock_piece[OF assms(1) that assms(2)]
    by (auto simp: in_piece_def cut_Suc word_nat unat_diff_le)
  then show ?thesis by (auto simp: in_block_def)
qed

lemma zero_block_iff:
  "in_block (replicate n 0) c p \<longleftrightarrow> length p = n \<and> (\<forall>j<n. p ! j < c ! j)"
  by (auto simp: in_block_def)

lemma subblock_points_inside:
  assumes "info_ok count info" "b < unat (NBlocks info)"
    and "in_block (fst (GetSubBlock count info (of_nat b))) (snd (GetSubBlock count info (of_nat b))) p"
  shows "in_block (replicate (length count) 0) count p"
proof -
  have "p ! j < count ! j" if j: "j < length count" for j
    using assms(3) j cut_less[OF digit_less[OF assms(1) j assms(2)], of "unat (count ! j)"]
    by (auto simp: in_GetSubBlock_iff[OF assms(1,2)] in_piece_def word_nat)
  then show ?thesis using assms(3) by (auto simp: zero_block_iff in_GetSubBlock_iff[OF assms(1,2)])
qed

lemma subblock_covers:
  assumes ok: "info_ok count info" and p: "in_block (replicate (length count) 0) count p"
  shows "\<exists>b<unat (NBlocks info).
    in_block (fst (GetSubBlock count info (of_nat b))) (snd (GetSubBlock count info (of_nat b))) p"
proof -
  let ?D = "map unat (Div info)"
  have "\<exists>k<unat (Div info ! j). in_piece (unat (count ! j)) (unat (Div info ! j)) k (unat (p ! j))"
    if "j < length count" for j
    using in_piece_exists info_okD(2)[OF ok that] p that by (simp add: zero_block_iff word_nat)
  then obtain f where f: "f j < unat (Div info ! j)"
      "in_piece (unat (count ! j)) (unat (Div info ! j)) (f j) (unat (p ! j))"
    if "j < length count" for j by metis
  define ks where "ks = map f [0..<length count]"
  have len: "length (Div info) = length count" and nb: "unat (NBlocks info) = prod_list ?D"
    using ok by (auto simp: info_ok_def Let_def)
  have ks: "list_all2 (<) ks ?D" using f(1) len by (auto simp: ks_def list_all2_conv_all_nth)
  define b where "b = lin (rev ks) (rev ?D)"
  have b: "b < unat (NBlocks info)"
    using lin_less[of "rev ks" "rev ?D"] ks by (simp add: b_def nb)
  have "digit ?D b j = f j" if "j < length count" for j
    using digit_lin[OF ks, of j] that len by (simp add: b_def ks_def)
  then show ?thesis
    using b f(2) p by (intro exI[of _ b]) (auto simp: in_GetSubBlock_iff[OF ok b] zero_block_iff)
qed

lemma subblock_unique:
  assumes ok: "info_ok count info" and b: "b < unat (NBlocks info)" and b': "b' < unat (NBlocks info)"
    and "in_block (fst (GetSubBlock count info (of_nat b))) (snd (GetSubBlock count info (of_nat b))) p"
    and "in_block (fst (GetSubBlock count info (of_nat b'))) (snd (GetSubBlock count info (of_nat b'))) p"
  shows "b = b'"
proof -
  let ?D = "map unat (Div info)"
  have len: "length (Div info) = length count" and nb: "unat (NBlocks info) = prod_list ?D"
    using ok by (auto simp: info_ok_def Let_def)
  have same: "digit ?D b j = digit ?D b' j" if "j < length count" for j
    using assms(4,5) that in_piece_unique
    by (auto simp: in_GetSubBlock_iff[OF ok b] in_GetSubBlock_iff[OF ok b'])
  from digits_of_number[of b ?D] digits_of_number[of b' ?D] b b' nb obtain ks ks' where
    ks: "list_all2 (<) ks ?D" "b = lin (rev ks) (rev ?D)" "\<forall>j<length ?D. digit ?D b j = ks ! j" and
    ks': "list_all2 (<) ks' ?D" "b' = lin (rev ks') (rev ?D)" "\<forall>j<length ?D. digit ?D b' j = ks' ! j"
    by metis
  have "ks = ks'"
  proof (rule nth_equalityI)
    show "length ks = length ks'" using ks(1) ks'(1) by (metis list_all2_lengthD)
    fix j assume "j < length ks"
    then have "j < length count" using ks(1) len by (auto dest: list_all2_lengthD)
    then show "ks ! j = ks' ! j" using same[of j] ks(3) ks'(3) len by simp
  qed
  then show ?thesis using ks(2) ks'(2) by simp
qed


subsection \<open>Properties\<close>

text \<open>
  C4: the sub-blocks of a divided block partition it: every point of the block lies in exactly one
  sub-block \<open>0 .. NBlocks - 1\<close>, and a sub-block holds no other points.
\<close>

theorem subblocks_partition_block:
  assumes "DivideBlock count subblockSize divisionMethod = Inr info"
  shows "in_block (replicate (length count) 0) count p \<longleftrightarrow>
    (\<exists>!b. b < unat (NBlocks info) \<and>
      in_block (fst (GetSubBlock count info (of_nat b))) (snd (GetSubBlock count info (of_nat b))) p)"
  using subblock_covers[OF DivideBlock_ok[OF assms]] subblock_unique[OF DivideBlock_ok[OF assms]]
    subblock_points_inside[OF DivideBlock_ok[OF assms]] by blast

theorem subblocks_partition_block_witness:
  "\<exists>info. DivideBlock [5] 2 Contiguous = Inr info \<and>
    (in_block [0] [5] [3] \<longleftrightarrow> (\<exists>!b. b < unat (NBlocks info) \<and>
      in_block (fst (GetSubBlock [5] info (of_nat b))) (snd (GetSubBlock [5] info (of_nat b))) [3]))"
proof -
  obtain info where "DivideBlock [5] 2 Contiguous = Inr info"
    by (simp add: DivideBlock_def GetTotalSize_def Let_def divide_loop.simps)
  then show ?thesis using subblocks_partition_block[of "[5]" 2 Contiguous info "[3]"] by auto
qed

text \<open>
  \<open>DivideBlock\<close> returns for every block and every non-zero sub-block size with the contiguous
  method (its divisions never meet a zero), and it never makes more than 4096 sub-blocks.
\<close>

theorem DivideBlock_total_and_capped:
  assumes "subblockSize \<noteq> 0"
  shows "\<exists>info. DivideBlock count subblockSize Contiguous = Inr info \<and>
    0 < unat (NBlocks info) \<and> unat (NBlocks info) \<le> 4096"
proof -
  have "\<exists>info. DivideBlock count subblockSize Contiguous = Inr info"
  proof (cases "solid count")
    case True
    then show ?thesis
      using assms divide_loop_no_error[OF True]
      by (auto simp: DivideBlock_def Let_def intro!: bindR_no_error)
  next
    case False
    then show ?thesis using assms by (simp add: DivideBlock_def Let_def GetTotalSize_zero)
  qed
  then obtain info where info: "DivideBlock count subblockSize Contiguous = Inr info" ..
  have ok: "info_ok count info" by (rule DivideBlock_ok[OF info])
  then have "0 < prod_list (map unat (Div info))"
    by (auto simp: info_ok_def Let_def prod_list_pos_iff in_set_conv_nth)
  then show ?thesis using info ok by (auto simp: info_ok_def Let_def)
qed

theorem DivideBlock_total_and_capped_witness:
  "\<exists>info. DivideBlock [100, 7] 3 Contiguous = Inr info \<and>
    0 < unat (NBlocks info) \<and> unat (NBlocks info) \<le> 4096"
  by (rule DivideBlock_total_and_capped) simp

end
