(* ===== verification/Adios_FilePool.thy ===== *)
theory Adios_FilePool
  imports Adios_Prelude
begin

section \<open>The pool of open files and the shared tar descriptors\<close>

text \<open>
  \<open>source/adios2/toolkit/filepool/\<close>: \<open>FilePool\<close> keeps the data files of a BP5 reader open between
  requests, under a limit on open descriptors, and \<open>SharedTarFDCache\<close> lets several pools share the
  descriptor of one tar file. The multimap \<open>m_Pool\<close> is the list of its entries in iteration order (a
  new entry goes to the end; the standard leaves the order open and no invariant depends on it). A
  \<open>PoolEntry*\<close> is the entry's number \<open>m_id\<close>, fresh for each entry, so that a handle whose entry was
  erased dangles. Opening a file is the parameter \<open>opener\<close>, which may throw. An operation that can
  throw returns its result beside the state it leaves, because the code keeps what it changed before
  the throw.
\<close>

type_synonym Params = "string \<rightharpoonup> string"

record Transport =
  tr_Name :: string
  m_ReentrantRead :: bool

type_synonym TransportOpener = "string \<Rightarrow> Params \<Rightarrow> Transport result"

subsection \<open>SharedTarFDCache\<close>

record CacheEntry =
  ce_transport :: Transport
  ce_refcount :: u64

record SharedTarFDCache =
  s_Enabled :: bool
  m_Cache :: "(string \<times> CacheEntry) list"

definition Cache_Enable :: "SharedTarFDCache \<Rightarrow> SharedTarFDCache" where
  "Cache_Enable c = c\<lparr>s_Enabled := True\<rparr>"

definition Cache_update :: "(CacheEntry \<Rightarrow> CacheEntry) \<Rightarrow> string \<Rightarrow> SharedTarFDCache \<Rightarrow> SharedTarFDCache" where
  "Cache_update f tarPath c =
     c\<lparr>m_Cache := map (\<lambda>(p, e). if p = tarPath then (p, f e) else (p, e)) (m_Cache c)\<rparr>"

definition Cache_Acquire ::
    "TransportOpener \<Rightarrow> Params \<Rightarrow> string \<Rightarrow> SharedTarFDCache \<Rightarrow> Transport result \<times> SharedTarFDCache" where
  "Cache_Acquire opener transportParams tarPath c =
     (case map_of (m_Cache c) tarPath of
        Some e \<Rightarrow>
          (Inr (ce_transport e), Cache_update (\<lambda>e. e\<lparr>ce_refcount := ce_refcount e + 1\<rparr>) tarPath c)
      | None \<Rightarrow>
          (case opener tarPath transportParams of
             Inl err \<Rightarrow> (Inl err, c)
           | Inr transport \<Rightarrow>
               (Inr transport,
                c\<lparr>m_Cache := m_Cache c @ [(tarPath, \<lparr>ce_transport = transport, ce_refcount = 1\<rparr>)]\<rparr>)))"

definition Cache_Release :: "string \<Rightarrow> SharedTarFDCache \<Rightarrow> SharedTarFDCache" where
  "Cache_Release tarPath c =
     (case map_of (m_Cache c) tarPath of
        Some e \<Rightarrow>
          (if ce_refcount e > 0
           then Cache_update (\<lambda>e. e\<lparr>ce_refcount := ce_refcount e - 1\<rparr>) tarPath c
           else c)
      | None \<Rightarrow> c)"

definition Cache_CloseIdle :: "SharedTarFDCache \<Rightarrow> SharedTarFDCache" where
  "Cache_CloseIdle c = c\<lparr>m_Cache := filter (\<lambda>(p, e). ce_refcount e \<noteq> 0) (m_Cache c)\<rparr>"

definition Cache_Size :: "SharedTarFDCache \<Rightarrow> nat" where
  "Cache_Size c = length (m_Cache c)"

subsection \<open>FilePool: state\<close>

record PoolEntry =
  m_id :: nat
  m_Name :: string
  m_File :: Transport
  m_InUseCount :: u64

record PoolableFile =
  pf_file :: Transport
  pf_Entry :: nat
  m_BaseOffset :: u64
  m_BaseSize :: u64

record FilePool =
  m_TransportParams :: Params
  m_TarInfoMap :: "(string \<times> (u64 \<times> u64)) list"
  m_Pool :: "PoolEntry list"
  m_OpenFileLimit :: u64
  m_OpenFileCount :: u64
  m_CanShare :: bool
  m_ShareTestDone :: bool
  m_MaxFileCount :: u64
  m_SharedTarPath :: string
  next_id :: nat

definition FilePool_new :: "Params \<Rightarrow> u64 \<Rightarrow> (string \<times> (u64 \<times> u64)) list \<Rightarrow> FilePool" where
  "FilePool_new params limit tar =
     \<lparr>m_TransportParams = params, m_TarInfoMap = tar, m_Pool = [], m_OpenFileLimit = limit,
      m_OpenFileCount = 0, m_CanShare = False, m_ShareTestDone = False, m_MaxFileCount = 0,
      m_SharedTarPath = [], next_id = 0\<rparr>"

subsection \<open>FilePool: operations\<close>

text \<open>
  \<open>SystemTools::GetFilenameName\<close> is what follows the last slash. A name found in the tar map is
  replaced by the directory part, the container; the length of that part is computed in \<open>size_t\<close>, so
  that a name without a slash gives the whole name.
\<close>

definition GetFilenameName :: "string \<Rightarrow> string" where
  "GetFilenameName filename = rev (takeWhile (\<lambda>c. c \<noteq> CHR ''/'') (rev filename))"

definition ResolveTarInfo ::
    "FilePool \<Rightarrow> string \<Rightarrow> bool \<Rightarrow> string \<times> u64 \<times> u64" where
  "ResolveTarInfo pool filename skipTarInfo =
     (if \<not> skipTarInfo \<and> m_TarInfoMap pool \<noteq> []
      then (let FilenameInTar = GetFilenameName filename
            in case map_of (m_TarInfoMap pool) FilenameInTar of
                 Some (offset, bytes) \<Rightarrow>
                   (take (unat (of_nat (length filename) - of_nat (length FilenameInTar) - 1 :: u64))
                      filename, offset, bytes)
               | None \<Rightarrow> (filename, 0, MaxSizeT))
      else (filename, 0, MaxSizeT))"

definition set_use :: "(u64 \<Rightarrow> u64) \<Rightarrow> nat \<Rightarrow> PoolEntry list \<Rightarrow> PoolEntry list" where
  "set_use f i es = map (\<lambda>e. if m_id e = i then e\<lparr>m_InUseCount := f (m_InUseCount e)\<rparr> else e) es"

fun erase_first_idle :: "PoolEntry list \<Rightarrow> PoolEntry list" where
  "erase_first_idle [] = []"
| "erase_first_idle (e # es) =
     (if m_InUseCount e = 0 then es else e # erase_first_idle es)"

definition FreeIdle :: "FilePool \<Rightarrow> FilePool" where
  "FreeIdle pool =
     (if m_OpenFileCount pool = m_OpenFileLimit pool
         \<and> list_ex (\<lambda>e. m_InUseCount e = 0) (m_Pool pool)
      then pool\<lparr>m_Pool := erase_first_idle (m_Pool pool),
                m_OpenFileCount := m_OpenFileCount pool - 1\<rparr>
      else pool)"

definition OpenEntry ::
    "TransportOpener \<Rightarrow> string \<Rightarrow> bool \<Rightarrow> FilePool \<Rightarrow> SharedTarFDCache
       \<Rightarrow> Transport result \<times> FilePool \<times> SharedTarFDCache" where
  "OpenEntry opener finalFileName isTarFile pool cache =
     (if isTarFile \<and> s_Enabled cache
      then (case Cache_Acquire opener (m_TransportParams pool) finalFileName cache of
              (Inl err, cache') \<Rightarrow> (Inl err, pool, cache')
            | (Inr file, cache') \<Rightarrow>
                (Inr file,
                 (if m_SharedTarPath pool = [] then pool\<lparr>m_SharedTarPath := finalFileName\<rparr> else pool),
                 cache'))
      else (opener finalFileName (m_TransportParams pool), pool, cache))"

definition AddEntry :: "string \<Rightarrow> Transport \<Rightarrow> bool \<Rightarrow> FilePool \<Rightarrow> FilePool" where
  "AddEntry finalFileName file counted pool =
     (let pool1 = pool\<lparr>m_Pool := m_Pool pool @
                         [\<lparr>m_id = next_id pool, m_Name = finalFileName, m_File = file,
                           m_InUseCount = 1\<rparr>],
                       next_id := next_id pool + 1\<rparr>;
          pool2 = (if m_ShareTestDone pool1 then pool1
                   else pool1\<lparr>m_ShareTestDone := True, m_CanShare := m_ReentrantRead file\<rparr>)
      in if counted
         then (let n = m_OpenFileCount pool2 + 1
               in pool2\<lparr>m_OpenFileCount := n,
                        m_MaxFileCount := (if n > m_MaxFileCount pool2 then n
                                           else m_MaxFileCount pool2)\<rparr>)
         else pool2)"

definition FilePool_Acquire ::
    "TransportOpener \<Rightarrow> string \<Rightarrow> bool \<Rightarrow> FilePool \<Rightarrow> SharedTarFDCache
       \<Rightarrow> PoolableFile result \<times> FilePool \<times> SharedTarFDCache" where
  "FilePool_Acquire opener filename skipTarInfo pool cache =
     (case ResolveTarInfo pool filename skipTarInfo of (finalFileName, offset, bytes) \<Rightarrow>
        (case find (\<lambda>e. m_Name e = finalFileName \<and> (m_InUseCount e = 0 \<or> m_CanShare pool))
                (m_Pool pool) of
           Some e \<Rightarrow>
             (Inr \<lparr>pf_file = m_File e, pf_Entry = m_id e, m_BaseOffset = offset, m_BaseSize = bytes\<rparr>,
              pool\<lparr>m_Pool := set_use (\<lambda>n. n + 1) (m_id e) (m_Pool pool)\<rparr>, cache)
         | None \<Rightarrow>
             (let pool1 = FreeIdle pool
              in if m_OpenFileCount pool1 = m_OpenFileLimit pool1
                 then (Inl RuntimeError, pool1, cache)
                 else (let isTarFile = (finalFileName \<noteq> filename)
                       in case OpenEntry opener finalFileName isTarFile pool1 cache of
                            (Inl err, pool2, cache2) \<Rightarrow> (Inl err, pool2, cache2)
                          | (Inr file, pool2, cache2) \<Rightarrow>
                              (Inr \<lparr>pf_file = file, pf_Entry = next_id pool2,
                                    m_BaseOffset = offset, m_BaseSize = bytes\<rparr>,
                               AddEntry finalFileName file
                                 (\<not> isTarFile \<or> \<not> s_Enabled cache) pool2,
                               cache2)))))"

definition FilePool_Release :: "nat \<Rightarrow> FilePool \<Rightarrow> FilePool" where
  "FilePool_Release obj pool = pool\<lparr>m_Pool := set_use (\<lambda>n. n - 1) obj (m_Pool pool)\<rparr>"

definition FilePool_Evict :: "string \<Rightarrow> FilePool \<Rightarrow> FilePool" where
  "FilePool_Evict filename pool =
     (if m_TarInfoMap pool \<noteq> [] \<and> map_of (m_TarInfoMap pool) (GetFilenameName filename) \<noteq> None
      then pool
      else (let gone = (\<lambda>e. m_Name e = filename \<and> m_InUseCount e = 0)
            in pool\<lparr>m_Pool := filter (\<lambda>e. \<not> gone e) (m_Pool pool),
                    m_OpenFileCount :=
                      m_OpenFileCount pool - of_nat (length (filter gone (m_Pool pool)))\<rparr>))"

definition FilePool_SetParameters :: "Params \<Rightarrow> FilePool \<Rightarrow> FilePool" where
  "FilePool_SetParameters params pool =
     pool\<lparr>m_TransportParams := params ++ m_TransportParams pool\<rparr>"

definition FilePool_ListOfTransports :: "FilePool \<Rightarrow> Transport list" where
  "FilePool_ListOfTransports pool = map m_File (m_Pool pool)"

definition FilePool_destroy :: "FilePool \<Rightarrow> SharedTarFDCache \<Rightarrow> SharedTarFDCache" where
  "FilePool_destroy pool cache =
     (if m_SharedTarPath pool \<noteq> [] then Cache_Release (m_SharedTarPath pool) cache else cache)"

text \<open>
  A handle reads through its entry, shifted by the offset in the container; the transport's \<open>Read\<close>
  and \<open>GetSize\<close> are parameters. A handle whose entry is gone is a dangling pointer.
\<close>

definition PoolableFile_Read ::
    "(Transport \<Rightarrow> u64 \<Rightarrow> u64 \<Rightarrow> u8 list result) \<Rightarrow> FilePool \<Rightarrow> PoolableFile \<Rightarrow> u64 \<Rightarrow> u64
       \<Rightarrow> u8 list result" where
  "PoolableFile_Read tr_read pool h bytes start =
     (case find (\<lambda>e. m_id e = pf_Entry h) (m_Pool pool) of
        Some e \<Rightarrow> tr_read (m_File e) bytes (start + m_BaseOffset h)
      | None \<Rightarrow> Inl UndefinedBehaviour)"

definition PoolableFile_GetSize ::
    "(Transport \<Rightarrow> u64) \<Rightarrow> FilePool \<Rightarrow> PoolableFile \<Rightarrow> u64 result" where
  "PoolableFile_GetSize getSize pool h =
     (if m_BaseSize h \<noteq> MaxSizeT then Inr (m_BaseSize h)
      else case find (\<lambda>e. m_id e = pf_Entry h) (m_Pool pool) of
             Some e \<Rightarrow> Inr (getSize (m_File e))
           | None \<Rightarrow> Inl UndefinedBehaviour)"

subsection \<open>The pool with the handles given out\<close>

text \<open>
  The steps of a running pool: a handle is acquired or the acquisition throws, a handle is destroyed
  (its destructor releases the entry), a file is evicted, parameters are added, and other pools of
  the process use the shared cache, which is never disabled again. Fewer than \<open>2^64\<close> handles exist
  at a time: each is an object in memory.
\<close>

record PoolSystem =
  ps_pool :: FilePool
  ps_cache :: SharedTarFDCache
  ps_handles :: "PoolableFile list"

definition handles_of :: "nat \<Rightarrow> PoolableFile list \<Rightarrow> nat" where
  "handles_of i hs = length (filter (\<lambda>h. pf_Entry h = i) hs)"

inductive pool_step :: "TransportOpener \<Rightarrow> PoolSystem \<Rightarrow> PoolSystem \<Rightarrow> bool"
  for opener :: TransportOpener where
  acquire_ok:
    "FilePool_Acquire opener filename skip (ps_pool s) (ps_cache s) = (Inr h, pool', cache')
      \<Longrightarrow> length (ps_handles s) < 18446744073709551615
      \<Longrightarrow> pool_step opener s
            \<lparr>ps_pool = pool', ps_cache = cache', ps_handles = h # ps_handles s\<rparr>"
| acquire_throws:
    "FilePool_Acquire opener filename skip (ps_pool s) (ps_cache s) = (Inl err, pool', cache')
      \<Longrightarrow> pool_step opener s \<lparr>ps_pool = pool', ps_cache = cache', ps_handles = ps_handles s\<rparr>"
| destroy:
    "h \<in> set (ps_handles s)
      \<Longrightarrow> pool_step opener s
            (s\<lparr>ps_pool := FilePool_Release (pf_Entry h) (ps_pool s),
               ps_handles := remove1 h (ps_handles s)\<rparr>)"
| evict: "pool_step opener s (s\<lparr>ps_pool := FilePool_Evict filename (ps_pool s)\<rparr>)"
| set_parameters:
    "pool_step opener s (s\<lparr>ps_pool := FilePool_SetParameters params (ps_pool s)\<rparr>)"
| other_pools:
    "(s_Enabled (ps_cache s) \<Longrightarrow> s_Enabled cache')
      \<Longrightarrow> pool_step opener s (s\<lparr>ps_cache := cache'\<rparr>)"

inductive pool_init :: "PoolSystem \<Rightarrow> bool" where
  "pool_init \<lparr>ps_pool = FilePool_new params limit tar, ps_cache = cache, ps_handles = []\<rparr>"

definition entries_ok :: "FilePool \<Rightarrow> PoolableFile list \<Rightarrow> bool" where
  "entries_ok pool hs \<longleftrightarrow>
     distinct (map m_id (m_Pool pool)) \<and>
     (\<forall>e\<in>set (m_Pool pool). m_id e < next_id pool \<and>
        unat (m_InUseCount e) = handles_of (m_id e) hs) \<and>
     (\<forall>h\<in>set hs. \<exists>e\<in>set (m_Pool pool). m_id e = pf_Entry h \<and> m_File e = pf_file h) \<and>
     (\<not> m_ShareTestDone pool \<longrightarrow> m_Pool pool = []) \<and>
     (\<not> m_CanShare pool \<longrightarrow> (\<forall>e\<in>set (m_Pool pool). m_InUseCount e \<le> 1)) \<and>
     length hs < 18446744073709551616"

definition count_ok :: "FilePool \<Rightarrow> bool" where
  "count_ok pool \<longleftrightarrow>
     m_OpenFileCount pool = of_nat (length (m_Pool pool)) \<and>
     length (m_Pool pool) \<le> unat (m_OpenFileLimit pool) \<and>
     m_OpenFileCount pool \<le> m_MaxFileCount pool \<and>
     m_MaxFileCount pool \<le> m_OpenFileLimit pool"

definition pool_inv :: "PoolSystem \<Rightarrow> bool" where
  "pool_inv s \<longleftrightarrow> entries_ok (ps_pool s) (ps_handles s) \<and>
     (\<not> s_Enabled (ps_cache s) \<longrightarrow> count_ok (ps_pool s))"

subsection \<open>Every operation keeps the entries consistent\<close>

lemma handles_of_simps [simp]:
  "handles_of i [] = 0"
  "handles_of i (h # hs) = (if pf_Entry h = i then 1 else 0) + handles_of i hs"
  by (auto simp: handles_of_def)

lemma handles_of_le: "handles_of i hs \<le> length hs"
  by (simp add: handles_of_def)

lemma handles_of_pos: "h \<in> set hs \<Longrightarrow> 0 < handles_of (pf_Entry h) hs"
  by (induction hs) auto

lemma handles_of_remove1:
  "h \<in> set hs \<Longrightarrow>
   handles_of i hs = handles_of i (remove1 h hs) + (if pf_Entry h = i then 1 else 0)"
  by (induction hs) auto

lemma set_use_ids [simp]: "map m_id (set_use f i es) = map m_id es"
  by (simp add: set_use_def)

lemma set_use_iff:
  "e \<in> set (set_use f i es) \<longleftrightarrow>
   (\<exists>e0\<in>set es. e = (if m_id e0 = i then e0\<lparr>m_InUseCount := f (m_InUseCount e0)\<rparr> else e0))"
  by (simp only: set_use_def set_map image_iff)

lemma set_use_handle:
  "(\<exists>e\<in>set (set_use f i es). m_id e = j \<and> m_File e = t) \<longleftrightarrow>
   (\<exists>e\<in>set es. m_id e = j \<and> m_File e = t)"
  by (induction es) (auto simp: set_use_def)

lemma set_use_Nil [simp]: "set_use f i es = [] \<longleftrightarrow> es = []"
  by (simp add: set_use_def)

lemma erase_first_idle_sub: "set (erase_first_idle es) \<subseteq> set es"
  by (induction es) auto

lemma erase_first_idle_distinct:
  "distinct (map m_id es) \<Longrightarrow> distinct (map m_id (erase_first_idle es))"
  using erase_first_idle_sub by (induction es) (auto 4 3)

lemma erase_first_idle_keeps: "e \<in> set es \<Longrightarrow> m_InUseCount e \<noteq> 0 \<Longrightarrow> e \<in> set (erase_first_idle es)"
  by (induction es) auto

lemma erase_first_idle_length:
  "list_ex (\<lambda>e. m_InUseCount e = 0) es \<Longrightarrow> length (erase_first_idle es) + 1 = length es"
  by (induction es) auto

lemma entries_okD:
  assumes "entries_ok pool hs"
  shows "distinct (map m_id (m_Pool pool))"
    and "e \<in> set (m_Pool pool) \<Longrightarrow> m_id e < next_id pool"
    and "e \<in> set (m_Pool pool) \<Longrightarrow> unat (m_InUseCount e) = handles_of (m_id e) hs"
    and "h \<in> set hs \<Longrightarrow> \<exists>e\<in>set (m_Pool pool). m_id e = pf_Entry h \<and> m_File e = pf_file h"
    and "m_Pool pool \<noteq> [] \<Longrightarrow> m_ShareTestDone pool"
    and "\<not> m_CanShare pool \<Longrightarrow> e \<in> set (m_Pool pool) \<Longrightarrow> m_InUseCount e \<le> 1"
    and "length hs < 18446744073709551616"
  using assms unfolding entries_ok_def by blast+

lemma entries_okI:
  assumes "distinct (map m_id (m_Pool pool))"
    and "\<And>e. e \<in> set (m_Pool pool) \<Longrightarrow> m_id e < next_id pool"
    and "\<And>e. e \<in> set (m_Pool pool) \<Longrightarrow> unat (m_InUseCount e) = handles_of (m_id e) hs"
    and "\<And>h. h \<in> set hs \<Longrightarrow> \<exists>e\<in>set (m_Pool pool). m_id e = pf_Entry h \<and> m_File e = pf_file h"
    and "m_Pool pool \<noteq> [] \<Longrightarrow> m_ShareTestDone pool"
    and "\<And>e. \<not> m_CanShare pool \<Longrightarrow> e \<in> set (m_Pool pool) \<Longrightarrow> m_InUseCount e \<le> 1"
    and "length hs < 18446744073709551616"
  shows "entries_ok pool hs"
  using assms unfolding entries_ok_def by blast

lemma same_id:
  "entries_ok pool hs \<Longrightarrow> e \<in> set (m_Pool pool) \<Longrightarrow> e' \<in> set (m_Pool pool) \<Longrightarrow> m_id e = m_id e'
   \<Longrightarrow> e = e'"
  using entries_okD(1) by (metis distinct_map inj_on_def)

lemma entries_ok_drop:
  assumes ok: "entries_ok pool hs" and sub: "set es \<subseteq> set (m_Pool pool)"
    and dist: "distinct (map m_id es)"
    and keep: "\<And>e. e \<in> set (m_Pool pool) \<Longrightarrow> m_InUseCount e \<noteq> 0 \<Longrightarrow> e \<in> set es"
  shows "entries_ok (pool\<lparr>m_Pool := es, m_OpenFileCount := n\<rparr>) hs" (is "entries_ok ?pool _")
proof (rule entries_okI)
  fix h assume h: "h \<in> set hs"
  obtain e where e: "e \<in> set (m_Pool pool)" "m_id e = pf_Entry h" "m_File e = pf_file h"
    using entries_okD(4) [OF ok h] by blast
  have "unat (m_InUseCount e) = handles_of (pf_Entry h) hs" using entries_okD(3) [OF ok e(1)] e(2) by simp
  then have "m_InUseCount e \<noteq> 0" using handles_of_pos [OF h] by auto
  then have "e \<in> set es" by (rule keep [OF e(1)])
  then show "\<exists>e\<in>set (m_Pool ?pool). m_id e = pf_Entry h \<and> m_File e = pf_file h" using e by auto
next
  show "m_Pool ?pool \<noteq> [] \<Longrightarrow> m_ShareTestDone ?pool"
    using sub entries_okD(5) [OF ok] by (cases "m_Pool pool") auto
qed (use sub dist entries_okD(1-3,6,7) [OF ok] in auto)

lemma entries_ok_FreeIdle: "entries_ok pool hs \<Longrightarrow> entries_ok (FreeIdle pool) hs"
  unfolding FreeIdle_def
  by (simp add: entries_ok_drop erase_first_idle_sub erase_first_idle_distinct
      erase_first_idle_keeps entries_okD(1))

lemma entries_ok_Evict: "entries_ok pool hs \<Longrightarrow> entries_ok (FilePool_Evict filename pool) hs"
  unfolding FilePool_Evict_def Let_def
  by (simp del: not_None_eq add: entries_ok_drop distinct_map_filter entries_okD(1))

lemma entries_ok_same [simp]:
  "entries_ok (pool\<lparr>m_SharedTarPath := p\<rparr>) hs = entries_ok pool hs"
  "entries_ok (FilePool_SetParameters q pool) hs = entries_ok pool hs"
  "entries_ok (pool\<lparr>m_OpenFileCount := n\<rparr>) hs = entries_ok pool hs"
  "entries_ok (pool\<lparr>m_MaxFileCount := n\<rparr>) hs = entries_ok pool hs"
  by (simp_all add: entries_ok_def FilePool_SetParameters_def)

lemma entries_ok_use:
  assumes ok: "entries_ok pool hs" and e: "e \<in> set (m_Pool pool)"
    and share: "m_InUseCount e = 0 \<or> m_CanShare pool" and small: "length hs < 18446744073709551615"
  shows "entries_ok (pool\<lparr>m_Pool := set_use (\<lambda>n. n + 1) (m_id e) (m_Pool pool)\<rparr>)
           (\<lparr>pf_file = m_File e, pf_Entry = m_id e, m_BaseOffset = off, m_BaseSize = sz\<rparr> # hs)"
    (is "entries_ok ?pool (?h # hs)")
proof (rule entries_okI)
  have use: "unat (m_InUseCount e) = handles_of (m_id e) hs"
    by (rule entries_okD(3) [OF ok e])
  have plus: "unat (m_InUseCount e + 1) = handles_of (m_id e) hs + 1"
    using use small handles_of_le [of "m_id e" hs] by (subst unat_add_small) auto
  fix x assume x: "x \<in> set (m_Pool ?pool)"
  then obtain x0 where x0: "x0 \<in> set (m_Pool pool)"
    and x_eq: "x = (if m_id x0 = m_id e then x0\<lparr>m_InUseCount := m_InUseCount x0 + 1\<rparr> else x0)"
    by (auto simp: set_use_iff)
  show "m_id x < next_id ?pool" using x_eq entries_okD(2) [OF ok x0] by simp
  show "unat (m_InUseCount x) = handles_of (m_id x) (?h # hs)"
    using x_eq plus same_id [OF ok x0 e] entries_okD(3) [OF ok x0] by auto
  show "m_InUseCount x \<le> 1" if "\<not> m_CanShare ?pool"
    using that share x_eq same_id [OF ok x0 e] entries_okD(6) [OF ok _ x0] by auto
next
  fix h assume "h \<in> set (?h # hs)"
  then have "\<exists>e\<in>set (m_Pool pool). m_id e = pf_Entry h \<and> m_File e = pf_file h"
    using e entries_okD(4) [OF ok] by auto
  then show "\<exists>e\<in>set (m_Pool ?pool). m_id e = pf_Entry h \<and> m_File e = pf_file h"
    by (simp add: set_use_handle)
qed (use entries_okD [OF ok] small e in auto)

lemma entries_ok_Release:
  assumes ok: "entries_ok pool hs" and h: "h \<in> set hs"
  shows "entries_ok (FilePool_Release (pf_Entry h) pool) (remove1 h hs)"
    (is "entries_ok ?pool _")
proof (rule entries_okI)
  fix x assume "x \<in> set (m_Pool ?pool)"
  then obtain x0 where x0: "x0 \<in> set (m_Pool pool)"
    and x_eq: "x = (if m_id x0 = pf_Entry h then x0\<lparr>m_InUseCount := m_InUseCount x0 - 1\<rparr> else x0)"
    by (auto simp: set_use_iff FilePool_Release_def)
  note use = entries_okD(3) [OF ok x0]
  note rem1 = handles_of_remove1 [OF h, of "m_id x0"]
  show "m_id x < next_id ?pool" using x_eq entries_okD(2) [OF ok x0] by (simp add: FilePool_Release_def)
  have minus: "unat (m_InUseCount x0 - 1) = unat (m_InUseCount x0) - 1" if "m_id x0 = pf_Entry h"
  proof -
    have "m_InUseCount x0 \<noteq> 0" using use rem1 that by auto
    then show ?thesis by (rule unat_minus_one)
  qed
  show "unat (m_InUseCount x) = handles_of (m_id x) (remove1 h hs)"
    using x_eq use rem1 minus by auto
  show "m_InUseCount x \<le> 1" if "\<not> m_CanShare ?pool"
    using x_eq minus entries_okD(6) [OF ok _ x0] that
    by (auto simp: FilePool_Release_def word_le_nat_alt)
next
  fix g assume "g \<in> set (remove1 h hs)"
  then have "g \<in> set hs" using set_remove1_subset by fast
  then show "\<exists>e\<in>set (m_Pool ?pool). m_id e = pf_Entry g \<and> m_File e = pf_file g"
    using entries_okD(4) [OF ok, of g] by (simp add: FilePool_Release_def set_use_handle)
next
  show "m_Pool ?pool \<noteq> [] \<Longrightarrow> m_ShareTestDone ?pool"
    using entries_okD(5) [OF ok] by (simp add: FilePool_Release_def)
  show "length (remove1 h hs) < 18446744073709551616"
    using entries_okD(7) [OF ok] h by (simp add: length_remove1)
qed (use entries_okD(1) [OF ok] in \<open>simp add: FilePool_Release_def\<close>)

lemma AddEntry_fields:
  "m_Pool (AddEntry name file counted pool) = m_Pool pool @
     [\<lparr>m_id = next_id pool, m_Name = name, m_File = file, m_InUseCount = 1\<rparr>]"
  "next_id (AddEntry name file counted pool) = next_id pool + 1"
  "m_ShareTestDone (AddEntry name file counted pool)"
  "m_ShareTestDone pool \<Longrightarrow> m_CanShare (AddEntry name file counted pool) = m_CanShare pool"
  "m_OpenFileLimit (AddEntry name file counted pool) = m_OpenFileLimit pool"
  "m_OpenFileCount (AddEntry name file counted pool) =
     m_OpenFileCount pool + (if counted then 1 else 0)"
  "m_MaxFileCount (AddEntry name file counted pool) =
     (if counted \<and> m_OpenFileCount pool + 1 > m_MaxFileCount pool
      then m_OpenFileCount pool + 1 else m_MaxFileCount pool)"
  by (simp_all add: AddEntry_def Let_def)

lemma entries_ok_AddEntry:
  assumes ok: "entries_ok pool hs" and small: "length hs < 18446744073709551615"
  shows "entries_ok (AddEntry name tr counted pool)
           (\<lparr>pf_file = tr, pf_Entry = next_id pool, m_BaseOffset = off, m_BaseSize = sz\<rparr> # hs)"
    (is "entries_ok ?pool (?h # hs)")
proof (rule entries_okI)
  have none: "handles_of (next_id pool) hs = 0"
    using entries_okD(2,4) [OF ok] by (fastforce simp: handles_of_def filter_empty_conv)
  have old: "m_id e \<noteq> next_id pool" if "e \<in> set (m_Pool pool)" for e
    using entries_okD(2) [OF ok that] by simp
  show "distinct (map m_id (m_Pool ?pool))"
    using entries_okD(1) [OF ok] old by (auto simp: AddEntry_fields) (metis old)
  fix e assume "e \<in> set (m_Pool ?pool)"
  then consider "e \<in> set (m_Pool pool)"
    | "e = \<lparr>m_id = next_id pool, m_Name = name, m_File = tr, m_InUseCount = 1\<rparr>"
    by (auto simp: AddEntry_fields)
  note e_cases = this
  show "m_id e < next_id ?pool"
    using e_cases entries_okD(2) [OF ok, of e] by (cases; simp add: AddEntry_fields)
  show "unat (m_InUseCount e) = handles_of (m_id e) (?h # hs)"
    using e_cases none old [of e] entries_okD(3) [OF ok, of e] by cases auto
  show "m_InUseCount e \<le> 1" if "\<not> m_CanShare ?pool"
    using e_cases
  proof cases
    case 1
    then have "m_ShareTestDone pool" using entries_okD(5) [OF ok] by (cases "m_Pool pool") auto
    then show ?thesis using that entries_okD(6) [OF ok _ 1] by (simp add: AddEntry_fields)
  qed simp
next
  fix h assume "h \<in> set (?h # hs)"
  then show "\<exists>e\<in>set (m_Pool ?pool). m_id e = pf_Entry h \<and> m_File e = pf_file h"
    using entries_okD(4) [OF ok, of h] by (auto simp: AddEntry_fields)
qed (use small in \<open>auto simp: AddEntry_fields\<close>)

lemma OpenEntry_pool:
  "OpenEntry opener name isTar pool cache = (r, pool', cache') \<Longrightarrow>
   pool' = pool \<or> pool' = pool\<lparr>m_SharedTarPath := name\<rparr>"
  by (auto simp: OpenEntry_def split: if_splits prod.splits sum.splits)

text \<open>The three outcomes of \<open>Acquire\<close>: an entry is reused, a new one is added, or it throws.\<close>

lemma Acquire_cases:
  assumes "FilePool_Acquire opener filename skip pool cache = (r, pool', cache')"
    and "ResolveTarInfo pool filename skip = (name, off, sz)"
  obtains (reuse) e where "e \<in> set (m_Pool pool)" "m_Name e = name"
      "m_InUseCount e = 0 \<or> m_CanShare pool"
      "r = Inr \<lparr>pf_file = m_File e, pf_Entry = m_id e, m_BaseOffset = off, m_BaseSize = sz\<rparr>"
      "pool' = pool\<lparr>m_Pool := set_use (\<lambda>n. n + 1) (m_id e) (m_Pool pool)\<rparr>" "cache' = cache"
  | (full) "\<forall>e\<in>set (m_Pool pool). m_Name e = name \<longrightarrow> m_InUseCount e \<noteq> 0 \<and> \<not> m_CanShare pool"
      "m_OpenFileCount (FreeIdle pool) = m_OpenFileLimit (FreeIdle pool)"
      "r = Inl RuntimeError" "pool' = FreeIdle pool" "cache' = cache"
  | (open_fails) err pool2 where
      "m_OpenFileCount (FreeIdle pool) \<noteq> m_OpenFileLimit (FreeIdle pool)"
      "OpenEntry opener name (name \<noteq> filename) (FreeIdle pool) cache = (Inl err, pool2, cache')"
      "r = Inl err" "pool' = pool2"
  | (new_entry) tr pool2 where
      "m_OpenFileCount (FreeIdle pool) \<noteq> m_OpenFileLimit (FreeIdle pool)"
      "OpenEntry opener name (name \<noteq> filename) (FreeIdle pool) cache = (Inr tr, pool2, cache')"
      "r = Inr \<lparr>pf_file = tr, pf_Entry = next_id pool2, m_BaseOffset = off, m_BaseSize = sz\<rparr>"
      "pool' = AddEntry name tr (name = filename \<or> \<not> s_Enabled cache) pool2"
proof (cases "find (\<lambda>e. m_Name e = name \<and> (m_InUseCount e = 0 \<or> m_CanShare pool)) (m_Pool pool)")
  case None
  then have no: "\<forall>e\<in>set (m_Pool pool). m_Name e = name \<longrightarrow> m_InUseCount e \<noteq> 0 \<and> \<not> m_CanShare pool"
    by (auto simp: find_None_iff)
  show ?thesis
  proof (cases "m_OpenFileCount (FreeIdle pool) = m_OpenFileLimit (FreeIdle pool)")
    case True
    then show ?thesis using full no assms None by (simp add: FilePool_Acquire_def Let_def)
  next
    case False
    obtain o2 pool2 cache2 where oe:
      "OpenEntry opener name (name \<noteq> filename) (FreeIdle pool) cache = (o2, pool2, cache2)"
      by (cases "OpenEntry opener name (name \<noteq> filename) (FreeIdle pool) cache") auto
    show ?thesis
      using open_fails [OF False] new_entry [OF False] assms None False oe
      by (cases o2) (auto simp: FilePool_Acquire_def Let_def)
  qed
next
  case (Some e)
  then have "e \<in> set (m_Pool pool)" "m_Name e = name" "m_InUseCount e = 0 \<or> m_CanShare pool"
    by (auto simp: find_Some_iff)
  then show ?thesis using reuse assms Some by (simp add: FilePool_Acquire_def)
qed

lemma entries_ok_Acquire:
  assumes ok: "entries_ok pool hs"
    and acq: "FilePool_Acquire opener filename skip pool cache = (r, pool', cache')"
  shows "r = Inl err \<Longrightarrow> entries_ok pool' hs"
    and "r = Inr h \<Longrightarrow> length hs < 18446744073709551615 \<Longrightarrow> entries_ok pool' (h # hs)"
proof -
  obtain name off sz where res: "ResolveTarInfo pool filename skip = (name, off, sz)"
    by (cases "ResolveTarInfo pool filename skip")
  note free = entries_ok_FreeIdle [OF ok]
  have opened: "entries_ok pool2 hs"
    if "OpenEntry opener name isTar (FreeIdle pool) cache = (o2, pool2, cache2)" for isTar o2 pool2 cache2
    using OpenEntry_pool [OF that] free by auto
  show "r = Inl err \<Longrightarrow> entries_ok pool' hs"
    using free opened by (cases rule: Acquire_cases [OF acq res]) auto
  show "r = Inr h \<Longrightarrow> length hs < 18446744073709551615 \<Longrightarrow> entries_ok pool' (h # hs)"
    using opened entries_ok_use [OF ok] entries_ok_AddEntry
    by (cases rule: Acquire_cases [OF acq res]) auto
qed

subsection \<open>The count of open files\<close>

lemma count_okD:
  assumes "count_ok pool"
  shows "m_OpenFileCount pool = of_nat (length (m_Pool pool))"
    and "length (m_Pool pool) \<le> unat (m_OpenFileLimit pool)"
    and "m_OpenFileCount pool \<le> m_MaxFileCount pool"
    and "m_MaxFileCount pool \<le> m_OpenFileLimit pool"
    and "unat (m_OpenFileCount pool) = length (m_Pool pool)"
proof -
  show "m_OpenFileCount pool = of_nat (length (m_Pool pool))"
    and len: "length (m_Pool pool) \<le> unat (m_OpenFileLimit pool)"
    and "m_OpenFileCount pool \<le> m_MaxFileCount pool"
    and "m_MaxFileCount pool \<le> m_OpenFileLimit pool"
    using assms unfolding count_ok_def by blast+
  then show "unat (m_OpenFileCount pool) = length (m_Pool pool)"
    using unat_u64_less [of "m_OpenFileLimit pool"] by (simp add: unat_of_nat_small)
qed

lemma count_ok_dec:
  assumes "count_ok pool" "length es + k = length (m_Pool pool)"
  shows "count_ok (pool\<lparr>m_Pool := es, m_OpenFileCount := m_OpenFileCount pool - of_nat k\<rparr>)"
proof -
  have eq: "m_OpenFileCount pool - of_nat k = of_nat (length es)"
    using count_okD(1) [OF assms(1)] by (simp flip: assms(2))
  have "unat (of_nat (length es) :: u64) = length es"
    using count_okD(2) [OF assms(1)] assms(2) unat_u64_less [of "m_OpenFileLimit pool"]
    by (intro unat_of_nat_small) simp
  then have "of_nat (length es) \<le> m_OpenFileCount pool"
    using count_okD(5) [OF assms(1)] assms(2) by (simp add: word_le_nat_alt)
  then show ?thesis
    using count_okD [OF assms(1)] assms(2) eq by (auto simp: count_ok_def)
qed

lemma count_ok_FreeIdle: "count_ok pool \<Longrightarrow> count_ok (FreeIdle pool)"
  using count_ok_dec [of pool "erase_first_idle (m_Pool pool)" 1]
    erase_first_idle_length [of "m_Pool pool"]
  unfolding FreeIdle_def by (cases "list_ex (\<lambda>e. m_InUseCount e = 0) (m_Pool pool)") auto

lemma count_ok_Evict: "count_ok pool \<Longrightarrow> count_ok (FilePool_Evict filename pool)"
  using count_ok_dec [of pool "filter (\<lambda>e. \<not> (m_Name e = filename \<and> m_InUseCount e = 0)) (m_Pool pool)"
      "length (filter (\<lambda>e. m_Name e = filename \<and> m_InUseCount e = 0) (m_Pool pool))"]
    sum_length_filter_compl [of "\<lambda>e. m_Name e = filename \<and> m_InUseCount e = 0" "m_Pool pool"]
  unfolding FilePool_Evict_def Let_def by (simp del: not_None_eq de_Morgan_conj)

lemma count_ok_AddEntry:
  assumes ok: "count_ok pool" and room: "m_OpenFileCount pool \<noteq> m_OpenFileLimit pool"
  shows "count_ok (AddEntry name tr True pool)"
proof -
  have lt: "length (m_Pool pool) < unat (m_OpenFileLimit pool)"
    using count_okD(2,5) [OF ok] room by (metis le_neq_implies_less word_unat_eq_iff)
  then have "unat (m_OpenFileCount pool + 1) = length (m_Pool pool) + 1"
    using count_okD(5) [OF ok] unat_u64_less [of "m_OpenFileLimit pool"]
    by (subst unat_add_small) auto
  then show ?thesis
    using count_okD [OF ok] lt by (auto simp: count_ok_def AddEntry_fields word_le_nat_alt word_less_nat_alt)
qed

lemma count_ok_same [simp]:
  "count_ok (pool\<lparr>m_Pool := set_use f i (m_Pool pool)\<rparr>) = count_ok pool"
  "count_ok (FilePool_SetParameters q pool) = count_ok pool"
  by (simp_all add: count_ok_def FilePool_SetParameters_def set_use_def)

lemma OpenEntry_local:
  "\<not> s_Enabled cache \<Longrightarrow>
   OpenEntry opener name isTar pool cache = (opener name (m_TransportParams pool), pool, cache)"
  by (simp add: OpenEntry_def)

lemma count_ok_Acquire:
  assumes ok: "count_ok pool" and off: "\<not> s_Enabled cache"
    and acq: "FilePool_Acquire opener filename skip pool cache = (r, pool', cache')"
  shows "count_ok pool'"
proof -
  obtain name off sz where res: "ResolveTarInfo pool filename skip = (name, off, sz)"
    by (cases "ResolveTarInfo pool filename skip")
  show ?thesis
    using ok off count_ok_FreeIdle [OF ok]
    by (cases rule: Acquire_cases [OF acq res]) (auto simp: OpenEntry_local count_ok_AddEntry)
qed

lemma Cache_Acquire_enabled:
  "Cache_Acquire opener params tar c = (r, c') \<Longrightarrow> s_Enabled c' = s_Enabled c"
  by (auto simp: Cache_Acquire_def Cache_update_def split: option.splits sum.splits)

lemma Acquire_enabled:
  assumes acq: "FilePool_Acquire opener filename skip pool cache = (r, pool', cache')"
  shows "s_Enabled cache' = s_Enabled cache"
proof -
  obtain name off sz where res: "ResolveTarInfo pool filename skip = (name, off, sz)"
    by (cases "ResolveTarInfo pool filename skip")
  show ?thesis
    by (cases rule: Acquire_cases [OF acq res])
      (auto simp: OpenEntry_def dest: Cache_Acquire_enabled split: if_splits prod.splits sum.splits)
qed

subsection \<open>The invariant of the running pool\<close>

inductive_cases pool_stepE: "pool_step opener s t"
inductive_simps pool_init_simp: "pool_init s"

lemma pool_inv_init: "pool_init s \<Longrightarrow> pool_inv s"
  by (auto simp: pool_init_simp pool_inv_def entries_ok_def count_ok_def FilePool_new_def)

lemma pool_inv_step: "pool_inv s \<Longrightarrow> pool_step opener s t \<Longrightarrow> pool_inv t"
  by (erule pool_stepE)
    (auto simp: pool_inv_def entries_ok_Evict count_ok_Evict entries_ok_Release FilePool_Release_def
      dest: entries_ok_Acquire count_ok_Acquire Acquire_enabled entries_ok_Release)

interpretation pool_ts: transition_system pool_init "pool_step opener" pool_inv
  for opener
  by unfold_locales (auto intro: pool_inv_init pool_inv_step)

lemma pool_inv_reach: "reach pool_init (pool_step opener) s \<Longrightarrow> pool_inv s"
  by (rule pool_ts.invariant_rule)

lemma distinct_entries: "(\<And>i. handles_of i hs \<le> 1) \<Longrightarrow> distinct (map pf_Entry hs)"
proof (induction hs)
  case (Cons h hs)
  have "handles_of i hs \<le> 1" for i using Cons.prems [of i] by simp
  moreover have "handles_of (pf_Entry h) hs = 0" using Cons.prems [of "pf_Entry h"] by simp
  then have "pf_Entry h \<notin> pf_Entry ` set hs" by (auto dest: handles_of_pos)
  ultimately show ?case using Cons.IH by simp
qed simp

lemma handles_of_unknown:
  assumes "entries_ok pool hs" "\<And>e. e \<in> set (m_Pool pool) \<Longrightarrow> m_id e \<noteq> i"
  shows "handles_of i hs = 0"
  using entries_okD(4) [OF assms(1)] assms(2) by (fastforce simp: handles_of_def filter_empty_conv)

lemma exclusive_handles:
  assumes ok: "entries_ok pool hs" and "\<not> m_CanShare pool"
  shows "distinct (map pf_Entry hs)"
proof (rule distinct_entries)
  fix i
  show "handles_of i hs \<le> 1"
  proof (cases "\<exists>e\<in>set (m_Pool pool). m_id e = i")
    case True
    then obtain e where e: "e \<in> set (m_Pool pool)" "m_id e = i" by blast
    then show ?thesis
      using entries_okD(3) [OF ok e(1)] entries_okD(6) [OF ok assms(2) e(1)]
      by (simp add: word_le_nat_alt)
  next
    case False
    then show ?thesis using handles_of_unknown [OF ok] by force
  qed
qed

lemma find_id:
  assumes ok: "entries_ok pool hs" and e: "e \<in> set (m_Pool pool)"
  shows "find (\<lambda>x. m_id x = m_id e) (m_Pool pool) = Some e"
proof -
  obtain x where x: "find (\<lambda>x. m_id x = m_id e) (m_Pool pool) = Some x"
    using e by (cases "find (\<lambda>x. m_id x = m_id e) (m_Pool pool)") (auto simp: find_None_iff)
  then have "x \<in> set (m_Pool pool)" "m_id x = m_id e" by (auto simp: find_Some_iff)
  then show ?thesis using x same_id [OF ok _ e] by simp
qed

lemma live_handle:
  assumes ok: "entries_ok pool hs" and h: "h \<in> set hs"
  shows "PoolableFile_Read tr_read pool h n start = tr_read (pf_file h) n (start + m_BaseOffset h)"
  using entries_okD(4) [OF ok h] find_id [OF ok]
  by (force simp: PoolableFile_Read_def)

lemma Acquire_full:
  assumes ok: "entries_ok pool hs" and cnt: "count_ok pool" and off: "\<not> s_Enabled cache"
    and opens: "\<And>name params. \<exists>tr. opener name params = Inr tr"
    and acq: "FilePool_Acquire opener filename skip pool cache = (Inl err, pool', cache')"
  shows "err = RuntimeError \<and> pool' = pool \<and> length (m_Pool pool) = unat (m_OpenFileLimit pool) \<and>
         (\<forall>e\<in>set (m_Pool pool). 0 < m_InUseCount e)"
proof -
  obtain name base sz where res: "ResolveTarInfo pool filename skip = (name, base, sz)"
    by (cases "ResolveTarInfo pool filename skip")
  show ?thesis
  proof (cases rule: Acquire_cases [OF acq res])
    case 2
    have no_idle: "\<not> list_ex (\<lambda>e. m_InUseCount e = 0) (m_Pool pool)"
    proof
      assume idle: "list_ex (\<lambda>e. m_InUseCount e = 0) (m_Pool pool)"
      show False
      proof (cases "m_OpenFileCount pool = m_OpenFileLimit pool")
        case True
        then have "m_OpenFileLimit pool - 1 = m_OpenFileLimit pool"
          using 2(2) idle by (simp add: FreeIdle_def)
        then show False by simp
      next
        case False
        then show False using 2(2) by (simp add: FreeIdle_def)
      qed
    qed
    then have "FreeIdle pool = pool" by (simp add: FreeIdle_def)
    then show ?thesis
      using 2 no_idle count_okD(5) [OF cnt] by (auto simp: list_ex_iff word_gt_0)
  next
    case (3 err pool2)
    then show ?thesis using off opens [of name "m_TransportParams (FreeIdle pool)"]
      by (auto simp: OpenEntry_local)
  qed auto
qed

subsection \<open>Concrete runs\<close>

definition do_acquire :: "TransportOpener \<Rightarrow> string \<Rightarrow> PoolSystem \<Rightarrow> PoolSystem" where
  "do_acquire opener filename s =
     (case FilePool_Acquire opener filename False (ps_pool s) (ps_cache s) of
        (Inr h, pool', cache') \<Rightarrow>
          \<lparr>ps_pool = pool', ps_cache = cache', ps_handles = h # ps_handles s\<rparr>
      | (Inl err, pool', cache') \<Rightarrow>
          \<lparr>ps_pool = pool', ps_cache = cache', ps_handles = ps_handles s\<rparr>)"

definition do_destroy :: "PoolSystem \<Rightarrow> PoolSystem" where
  "do_destroy s =
     (case ps_handles s of
        [] \<Rightarrow> s
      | h # hs \<Rightarrow> s\<lparr>ps_pool := FilePool_Release (pf_Entry h) (ps_pool s), ps_handles := hs\<rparr>)"

lemma reach_do_acquire:
  assumes "reach pool_init (pool_step opener) s" "length (ps_handles s) < 18446744073709551615"
  shows "reach pool_init (pool_step opener) (do_acquire opener filename s)"
proof -
  obtain r pool' cache' where acq:
    "FilePool_Acquire opener filename False (ps_pool s) (ps_cache s) = (r, pool', cache')"
    by (cases "FilePool_Acquire opener filename False (ps_pool s) (ps_cache s)") auto
  have "pool_step opener s (do_acquire opener filename s)"
    using acquire_ok [OF _ assms(2)] acquire_throws acq
    by (cases r) (auto simp: do_acquire_def)
  then show ?thesis by (rule reach_step [OF assms(1)])
qed

lemma reach_do_destroy:
  assumes "reach pool_init (pool_step opener) s"
  shows "reach pool_init (pool_step opener) (do_destroy s)"
proof (cases "ps_handles s")
  case (Cons h hs)
  then have "pool_step opener s (do_destroy s)"
    using destroy [of h s opener] by (simp add: do_destroy_def)
  then show ?thesis by (rule reach_step [OF assms])
qed (simp add: assms do_destroy_def)

definition demo_opener :: TransportOpener where
  "demo_opener name params = Inr \<lparr>tr_Name = name, m_ReentrantRead = False\<rparr>"

definition demo_start :: "bool \<Rightarrow> PoolSystem" where
  "demo_start enabled =
     \<lparr>ps_pool = FilePool_new (\<lambda>_. None) 1 [(''f'', (512, 10)), (''g'', (1024, 10))],
      ps_cache = \<lparr>s_Enabled = enabled, m_Cache = []\<rparr>, ps_handles = []\<rparr>"

lemma reach_demo_start: "reach pool_init (pool_step opener) (demo_start enabled)"
  by (rule reach_init) (simp add: demo_start_def pool_init.intros)

definition demo_one :: PoolSystem where
  "demo_one = do_acquire demo_opener ''x'' (demo_start False)"

lemma demo_one_reach: "reach pool_init (pool_step demo_opener) demo_one"
  unfolding demo_one_def
  by (rule reach_do_acquire [OF reach_demo_start]) (simp add: demo_start_def)

definition demo_over :: PoolSystem where
  "demo_over = do_acquire demo_opener ''b'' (do_acquire demo_opener ''a''
     (do_destroy (do_acquire demo_opener ''t.tar/f'' (demo_start True))))"

lemma do_acquire_length: "length (ps_handles (do_acquire opener f s)) \<le> length (ps_handles s) + 1"
  by (auto simp: do_acquire_def split: prod.splits sum.splits)

lemma do_destroy_length: "length (ps_handles (do_destroy s)) \<le> length (ps_handles s)"
  by (auto simp: do_destroy_def split: list.splits)

lemma demo_over_reach: "reach pool_init (pool_step demo_opener) demo_over"
proof -
  let ?s0 = "demo_start True" let ?s1 = "do_acquire demo_opener ''t.tar/f'' ?s0"
  let ?s2 = "do_destroy ?s1" let ?s3 = "do_acquire demo_opener ''a'' ?s2"
  have small: "length (ps_handles ?s0) < 18446744073709551615"
    "length (ps_handles ?s2) < 18446744073709551615" "length (ps_handles ?s3) < 18446744073709551615"
    using do_acquire_length [of demo_opener "''t.tar/f''" ?s0] do_destroy_length [of ?s1]
      do_acquire_length [of demo_opener "''a''" ?s2]
    by (simp_all add: demo_start_def)
  show ?thesis
    unfolding demo_over_def
    by (intro reach_do_acquire reach_do_destroy reach_demo_start small)
qed

text \<open>
  A pool that read from two tar files, closed every handle and was destroyed, seen by the cache
  after its idle entries are closed.
\<close>

definition demo_leak :: SharedTarFDCache where
  "demo_leak =
     (let s = do_destroy (do_acquire demo_opener ''u.tar/g''
                (do_destroy (do_acquire demo_opener ''t.tar/f'' (demo_start True))))
      in Cache_CloseIdle (FilePool_destroy (ps_pool s) (ps_cache s)))"

subsection \<open>Properties\<close>

text \<open>
  C5: A handle given out never dangles: in every state a pool reaches through any sequence of
  acquisitions (also throwing ones), destructions, evictions and uses of the shared cache, the entry
  of each live handle is still in the pool, its use count is the number of live handles on it, and a
  read through the handle is a read of the transport it was given, at the tar offset.
\<close>

theorem pool_handles_never_dangle:
  assumes "reach pool_init (pool_step opener) s" "h \<in> set (ps_handles s)"
  shows "(\<exists>e\<in>set (m_Pool (ps_pool s)). m_id e = pf_Entry h \<and> m_File e = pf_file h \<and>
            unat (m_InUseCount e) = handles_of (pf_Entry h) (ps_handles s)) \<and>
         PoolableFile_Read tr_read (ps_pool s) h n start =
           tr_read (pf_file h) n (start + m_BaseOffset h)"
proof -
  have ok: "entries_ok (ps_pool s) (ps_handles s)"
    using pool_inv_reach [OF assms(1)] by (simp add: pool_inv_def)
  then show ?thesis
    using entries_okD(3,4) [OF ok] assms(2) live_handle [OF ok assms(2)] by metis
qed

theorem pool_handles_never_dangle_witness:
  "(\<exists>e\<in>set (m_Pool (ps_pool demo_one)). m_id e = 0 \<and> tr_Name (m_File e) = ''x'' \<and>
      unat (m_InUseCount e) = 1)"
proof -
  let ?h = "hd (ps_handles demo_one)"
  have "?h \<in> set (ps_handles demo_one)" by code_simp
  from pool_handles_never_dangle [OF demo_one_reach this]
  have ex: "\<exists>e\<in>set (m_Pool (ps_pool demo_one)). m_id e = pf_Entry ?h \<and> m_File e = pf_file ?h \<and>
      unat (m_InUseCount e) = handles_of (pf_Entry ?h) (ps_handles demo_one)" by blast
  have "pf_Entry ?h = 0" "tr_Name (pf_file ?h) = ''x''" "handles_of (pf_Entry ?h) (ps_handles demo_one) = 1"
    by code_simp+
  with ex show ?thesis by metis
qed



text \<open>
  C7: While the shared tar cache is not enabled, the pool holds at most \<open>m_OpenFileLimit\<close> open
  files, \<open>m_OpenFileCount\<close> is their number and \<open>GetMax\<close> lies between the two.
\<close>

theorem open_files_within_limit:
  assumes "reach pool_init (pool_step opener) s" "\<not> s_Enabled (ps_cache s)"
  shows "unat (m_OpenFileCount (ps_pool s)) = length (m_Pool (ps_pool s)) \<and>
         length (m_Pool (ps_pool s)) \<le> unat (m_MaxFileCount (ps_pool s)) \<and>
         m_MaxFileCount (ps_pool s) \<le> m_OpenFileLimit (ps_pool s)"
proof -
  have ok: "count_ok (ps_pool s)"
    using pool_inv_reach [OF assms(1)] assms(2) by (simp add: pool_inv_def)
  then show ?thesis using count_okD [OF ok] by (metis word_le_nat_alt)
qed

theorem open_files_within_limit_witness:
  "length (m_Pool (ps_pool demo_one)) = 1 \<and>
   m_MaxFileCount (ps_pool demo_one) \<le> m_OpenFileLimit (ps_pool demo_one)"
proof -
  have "\<not> s_Enabled (ps_cache demo_one)" "m_OpenFileCount (ps_pool demo_one) = 1" by code_simp+
  then show ?thesis using open_files_within_limit [OF demo_one_reach] by simp
qed



text \<open>
  With the shared cache enabled the limit does not hold: an idle entry of a shared tar file was
  never counted, but its eviction is, so a pool of limit 1 reaches a state with two locally opened
  files in use and the count at 1.
\<close>

theorem shared_tar_breaks_file_limit:
  "reach pool_init (pool_step demo_opener) demo_over \<and>
   m_OpenFileLimit (ps_pool demo_over) = 1 \<and>
   m_OpenFileCount (ps_pool demo_over) = 1 \<and>
   map m_Name (m_Pool (ps_pool demo_over)) = [''a'', ''b''] \<and>
   map m_InUseCount (m_Pool (ps_pool demo_over)) = [1, 1]"
proof -
  have "m_OpenFileLimit (ps_pool demo_over) = 1" "m_OpenFileCount (ps_pool demo_over) = 1"
    "map m_Name (m_Pool (ps_pool demo_over)) = [''a'', ''b'']"
    "map m_InUseCount (m_Pool (ps_pool demo_over)) = [1, 1]"
    by code_simp+
  then show ?thesis using demo_over_reach by blast
qed

text \<open>
  The shared cache loses references: a pool takes one per entry it creates and its destructor
  gives one back, for the first tar file only. A pool that read from two tar files and is destroyed
  leaves the second one open for good.
\<close>

theorem pool_leaks_tar_reference:
  "map (\<lambda>(p, e). (p, ce_refcount e)) (m_Cache demo_leak) = [(''u.tar'', 1)]"
  by code_simp

end
