(* ===== verification/Adios_TokenChain.thy ===== *)
theory Adios_TokenChain
  imports Adios_Prelude
begin

section \<open>Passing a turn through shared memory\<close>

text \<open>
  \<open>source/adios2/toolkit/shm/\<close>: \<open>TokenChain\<close> passes a token of the writer's data position around the
  ranks of a node, \<open>SerializeProcesses\<close> passes the turn alone. Both keep the rank whose turn it is in
  one shared integer that every rank polls. The locale \<open>turn_passing\<close> states what they share and is
  interpreted on both. A rank's program is a loop of waiting, holding the turn, and giving it up;
  \<open>SendToken\<close> writes the token and then the rank, two steps that other ranks' polls can separate.
\<close>

subsection \<open>The interface: a turn that goes round\<close>

definition next_rank :: "int \<Rightarrow> int \<Rightarrow> int" where
  "next_rank nProc r = (if r < nProc - 1 then r + 1 else 0)"

lemma next_rank_mod: "0 < nProc \<Longrightarrow> next_rank nProc (i mod nProc) = (i + 1) mod nProc"
proof -
  assume pos: "0 < nProc"
  have "next_rank nProc (i mod nProc) = (i mod nProc + 1) mod nProc"
  proof (cases "i mod nProc = nProc - 1")
    case False
    then have "0 \<le> i mod nProc" "i mod nProc + 1 < nProc"
      using pos pos_mod_bound [of nProc i] pos_mod_sign [of nProc i] by linarith+
    then show ?thesis by (simp add: next_rank_def)
  qed (simp add: next_rank_def)
  then show ?thesis by (simp add: mod_simps)
qed

locale turn_passing =
  fixes nProc :: int
    and turn :: "'s \<Rightarrow> int"
    and my_turn :: "int \<Rightarrow> 's \<Rightarrow> bool"
    and pass :: "int \<Rightarrow> 's \<Rightarrow> 's"
  assumes my_turn_iff: "my_turn r s \<longleftrightarrow> turn s = r"
    and turn_pass: "turn s = r \<Longrightarrow> turn (pass r s) = next_rank nProc r"
begin

lemma one_rank: "my_turn r s \<Longrightarrow> my_turn r' s \<Longrightarrow> r = r'"
  by (simp add: my_turn_iff)

fun passes :: "nat \<Rightarrow> 's \<Rightarrow> 's" where
  "passes 0 s = s"
| "passes (Suc k) s = pass (turn (passes k s)) (passes k s)"

lemma passes_funpow: "passes k s = ((\<lambda>s. pass (turn s) s) ^^ k) s"
  by (induction k) simp_all

lemma round_robin:
  assumes nProc_pos: "0 < nProc" and "turn s \<in> {0..<nProc}"
  shows "turn (passes k s) = (turn s + int k) mod nProc"
proof (induction k)
  case 0
  then show ?case using assms by simp
next
  case (Suc k)
  have "turn (passes (Suc k) s) = next_rank nProc ((turn s + int k) mod nProc)"
    using Suc by (simp add: turn_pass)
  then show ?case using next_rank_mod [OF nProc_pos] by (simp add: add_ac)
qed

lemma everyone_gets_a_turn:
  assumes nProc_pos: "0 < nProc" and "turn s \<in> {0..<nProc}" and r: "r \<in> {0..<nProc}"
  shows "\<exists>k < nat nProc. my_turn r (passes k s)"
proof (intro exI conjI)
  let ?k = "nat ((r - turn s) mod nProc)"
  have "0 \<le> (r - turn s) mod nProc" "(r - turn s) mod nProc < nProc" using nProc_pos by simp_all
  then show "?k < nat nProc" by linarith
  have "turn (passes ?k s) = (turn s + (r - turn s) mod nProc) mod nProc"
    using round_robin [OF assms(1,2), of ?k] nProc_pos by simp
  also have "\<dots> = r" using r by (simp add: mod_simps)
  finally show "my_turn r (passes ?k s)" by (simp add: my_turn_iff)
qed

end

subsection \<open>SerializeProcesses\<close>

text \<open>
  The shared integer. With one process the constructor allocates it and leaves it as the allocator
  gave it: \<open>garbage\<close>.
\<close>

definition Serialize_new :: "int \<Rightarrow> int \<Rightarrow> int" where
  "Serialize_new nProc garbage = (if nProc > 1 then 0 else garbage)"

definition IsMyTurn :: "int \<Rightarrow> int \<Rightarrow> bool" where
  "IsMyTurn rank ShmValue = (ShmValue = rank)"

definition Done :: "int \<Rightarrow> int \<Rightarrow> int \<Rightarrow> int" where
  "Done nProc rank ShmValue = (if rank < nProc - 1 then ShmValue + 1 else 0)"

subsection \<open>TokenChain\<close>

record 'a segment =
  currentRank :: int
  token :: 'a

definition TokenChain_new :: "'a \<Rightarrow> 'a segment" where
  "TokenChain_new T = \<lparr>currentRank = 0, token = T\<rparr>"

definition CheckToken :: "int \<Rightarrow> 'a segment \<Rightarrow> bool" where
  "CheckToken rank shm = (currentRank shm = rank)"

text \<open>One poll of \<open>RecvToken\<close>: it returns the token, or the rank keeps waiting.\<close>

definition RecvToken :: "int \<Rightarrow> 'a segment \<Rightarrow> 'a option" where
  "RecvToken rank shm = (if currentRank shm \<noteq> rank then None else Some (token shm))"

definition advance :: "int \<Rightarrow> int \<Rightarrow> 'a segment \<Rightarrow> 'a segment" where
  "advance nProc rank shm =
     (if rank < nProc - 1 then shm\<lparr>currentRank := currentRank shm + 1\<rparr>
      else shm\<lparr>currentRank := 0\<rparr>)"

definition SendToken :: "int \<Rightarrow> int \<Rightarrow> 'a \<Rightarrow> 'a segment \<Rightarrow> 'a segment result" where
  "SendToken nProc rank t shm =
     (if rank \<noteq> currentRank shm then Inl RuntimeError
      else Inr (advance nProc rank (shm\<lparr>token := t\<rparr>)))"

interpretation chain: turn_passing nProc currentRank CheckToken "advance nProc"
  for nProc
  by unfold_locales (auto simp: CheckToken_def advance_def next_rank_def)

interpretation serial: turn_passing nProc "\<lambda>v. v" IsMyTurn "Done nProc"
  for nProc
  by unfold_locales (auto simp: IsMyTurn_def Done_def next_rank_def)

subsection \<open>The ranks running\<close>

text \<open>
  Each rank waits in \<open>RecvToken\<close>, holds the token, has stored the new token (the first half of
  \<open>SendToken\<close>), and passes the turn. \<open>received\<close> and \<open>sent\<close> are the history: who got which token and
  which token was passed on, oldest first.
\<close>

datatype rank_pc = Waiting | Holding | Stored

record 'a TokenSystem =
  shm :: "'a segment"
  rank_at :: "int \<Rightarrow> rank_pc"
  received :: "(int \<times> 'a) list"
  sent :: "'a list"

inductive token_step :: "int \<Rightarrow> 'a TokenSystem \<Rightarrow> 'a TokenSystem \<Rightarrow> bool" for nProc :: int where
  recv:
    "0 \<le> r \<Longrightarrow> r < nProc \<Longrightarrow> rank_at s r = Waiting \<Longrightarrow> RecvToken r (shm s) = Some t
      \<Longrightarrow> token_step nProc s
            (s\<lparr>rank_at := (rank_at s)(r := Holding), received := received s @ [(r, t)]\<rparr>)"
| store:
    "0 \<le> r \<Longrightarrow> r < nProc \<Longrightarrow> rank_at s r = Holding
      \<Longrightarrow> token_step nProc s
            (s\<lparr>rank_at := (rank_at s)(r := Stored), shm := (shm s)\<lparr>token := t\<rparr>\<rparr>)"
| pass:
    "0 \<le> r \<Longrightarrow> r < nProc \<Longrightarrow> rank_at s r = Stored
      \<Longrightarrow> token_step nProc s
            (s\<lparr>rank_at := (rank_at s)(r := Waiting), shm := advance nProc r (shm s),
               sent := sent s @ [token (shm s)]\<rparr>)"

inductive token_init :: "'a \<Rightarrow> 'a TokenSystem \<Rightarrow> bool" for T :: 'a where
  "token_init T \<lparr>shm = TokenChain_new T, rank_at = (\<lambda>_. Waiting), received = [], sent = []\<rparr>"

text \<open>The two halves of \<open>SendToken\<close> are the steps \<open>store\<close> and \<open>pass\<close> of the rank whose turn it is.\<close>

lemma SendToken_is_store_pass:
  "currentRank (shm s) = r \<Longrightarrow>
   SendToken nProc r t (shm s) = Inr (advance nProc r ((shm s)\<lparr>token := t\<rparr>))"
  by (simp add: SendToken_def)

definition token_inv :: "int \<Rightarrow> 'a \<Rightarrow> 'a TokenSystem \<Rightarrow> bool" where
  "token_inv nProc T s \<longleftrightarrow>
     (let cur = currentRank (shm s); n = length (sent s) in
      cur = int n mod nProc \<and>
      (\<forall>r. r \<noteq> cur \<longrightarrow> rank_at s r = Waiting) \<and>
      length (received s) = n + (if rank_at s cur = Waiting then 0 else 1) \<and>
      (rank_at s cur \<noteq> Stored \<longrightarrow> token (shm s) = (T # sent s) ! n) \<and>
      map fst (received s) = map (\<lambda>k. int k mod nProc) [0..<length (received s)] \<and>
      map snd (received s) = take (length (received s)) (T # sent s))"

inductive_simps token_init_simp: "token_init T s"

lemma token_invD:
  assumes "token_inv nProc T s"
  shows "currentRank (shm s) = int (length (sent s)) mod nProc"
    and "rank_at s r \<noteq> Waiting \<Longrightarrow> r = currentRank (shm s)"
    and "length (received s) =
           length (sent s) + (if rank_at s (currentRank (shm s)) = Waiting then 0 else 1)"
    and "rank_at s (currentRank (shm s)) \<noteq> Stored \<Longrightarrow>
           token (shm s) = (T # sent s) ! length (sent s)"
    and "map fst (received s) = map (\<lambda>k. int k mod nProc) [0..<length (received s)]"
    and "map snd (received s) = take (length (received s)) (T # sent s)"
  using assms unfolding token_inv_def Let_def by blast+

lemma token_invI:
  assumes "currentRank (shm s) = int (length (sent s)) mod nProc"
    and "\<And>r. r \<noteq> currentRank (shm s) \<Longrightarrow> rank_at s r = Waiting"
    and "length (received s) =
           length (sent s) + (if rank_at s (currentRank (shm s)) = Waiting then 0 else 1)"
    and "rank_at s (currentRank (shm s)) \<noteq> Stored \<Longrightarrow>
           token (shm s) = (T # sent s) ! length (sent s)"
    and "map fst (received s) = map (\<lambda>k. int k mod nProc) [0..<length (received s)]"
    and "map snd (received s) = take (length (received s)) (T # sent s)"
  shows "token_inv nProc T s"
  using assms unfolding token_inv_def Let_def by blast

lemma token_inv_init: "0 < nProc \<Longrightarrow> token_init T s \<Longrightarrow> token_inv nProc T s"
  by (simp add: token_init_simp token_inv_def TokenChain_new_def)

lemma advance_fields:
  "0 < nProc \<Longrightarrow> currentRank v = int n mod nProc \<Longrightarrow>
   currentRank (advance nProc (currentRank v) v) = int (Suc n) mod nProc"
  "token (advance nProc r v) = token v"
  by (simp_all add: chain.turn_pass next_rank_mod add.commute) (simp add: advance_def)

lemma token_inv_step:
  assumes pos: "0 < nProc" and inv: "token_inv nProc T s" and step: "token_step nProc s t"
  shows "token_inv nProc T t"
  using step
proof cases
  case (recv r tok)
  have r: "r = currentRank (shm s)" "tok = token (shm s)"
    using recv(5) by (auto simp: RecvToken_def split: if_splits)
  have len: "length (received s) = length (sent s)"
    using token_invD(3) [OF inv] recv(4) r by simp
  show ?thesis
  proof (rule token_invI)
    show "map snd (received t) = take (length (received t)) (T # sent t)"
      using token_invD(4,6) [OF inv] recv r len
        take_Suc_conv_app_nth [of "length (sent s)" "T # sent s"] by simp
  qed (use token_invD [OF inv] recv r len in auto)
next
  case (store r tok)
  then have r: "r = currentRank (shm s)" using token_invD(2) [OF inv] by auto
  show ?thesis
    by (rule token_invI) (use token_invD [OF inv] store r in auto)
next
  case (pass r)
  then have r: "r = currentRank (shm s)" using token_invD(2) [OF inv] by auto
  have cur: "currentRank (advance nProc r (shm s)) = int (Suc (length (sent s))) mod nProc"
    unfolding r by (rule advance_fields(1) [OF pos token_invD(1) [OF inv]])
  have len: "length (received s) = Suc (length (sent s))"
    using token_invD(3) [OF inv] pass(4) r by simp
  have wait: "rank_at t r' = Waiting" for r'
    using token_invD(2) [OF inv, of r'] pass r by auto
  show ?thesis
  proof (rule token_invI)
    show "currentRank (shm t) = int (length (sent t)) mod nProc" using cur pass(1) by simp
    show "length (received t) = length (sent t) +
        (if rank_at t (currentRank (shm t)) = Waiting then 0 else 1)"
      using len wait pass(1) by simp
    show "token (shm t) = (T # sent t) ! length (sent t)"
      using pass(1) by (simp add: advance_fields(2))
    show "map fst (received t) = map (\<lambda>k. int k mod nProc) [0..<length (received t)]"
      using token_invD(5) [OF inv] pass(1) by simp
    show "map snd (received t) = take (length (received t)) (T # sent t)"
      using token_invD(6) [OF inv] pass(1) len by simp
  qed (rule wait)
qed

interpretation token_ts: transition_system "token_init T" "token_step nProc"
    "\<lambda>s. 0 < nProc \<longrightarrow> token_inv nProc T s" for nProc T
  by unfold_locales (auto intro: token_inv_init token_inv_step)

lemma token_inv_reach:
  "0 < nProc \<Longrightarrow> reach (token_init T) (token_step nProc) s \<Longrightarrow> token_inv nProc T s"
  using token_ts.invariant_rule [of T nProc s] by simp

subsection \<open>A run of two ranks\<close>

definition demo_token0 :: "u64 TokenSystem" where
  "demo_token0 = \<lparr>shm = TokenChain_new 7, rank_at = (\<lambda>_. Waiting), received = [], sent = []\<rparr>"

definition demo_token1 :: "u64 TokenSystem" where
  "demo_token1 = demo_token0\<lparr>rank_at := (\<lambda>_. Waiting)(0 := Holding), received := [(0, 7)]\<rparr>"

lemma demo_token_reach: "reach (token_init 7) (token_step 2) demo_token1"
proof (rule reach_step)
  show "reach (token_init 7) (token_step 2) demo_token0"
    by (rule reach_init) (simp add: token_init_simp demo_token0_def)
  show "token_step 2 demo_token0 demo_token1"
    using recv [of 0 2 demo_token0 7]
    by (simp add: demo_token0_def demo_token1_def RecvToken_def TokenChain_new_def)
qed

subsection \<open>Properties\<close>

text \<open>
  C9: Mutual exclusion: at most one rank is past \<open>RecvToken\<close> and has not finished \<open>SendToken\<close>.
\<close>

theorem token_mutual_exclusion:
  assumes "0 < nProc" "reach (token_init T) (token_step nProc) s"
    and "rank_at s r \<noteq> Waiting" "rank_at s r' \<noteq> Waiting"
  shows "r = r'"
  using token_inv_reach [OF assms(1,2)] assms(3,4) token_invD(2) by metis

theorem token_mutual_exclusion_witness: "rank_at demo_token1 1 = Waiting"
proof (rule ccontr)
  assume "rank_at demo_token1 1 \<noteq> Waiting"
  moreover have "rank_at demo_token1 0 \<noteq> Waiting" by (simp add: demo_token1_def)
  ultimately have "(1::int) = 0" by (intro token_mutual_exclusion [OF _ demo_token_reach]) simp
  then show False by simp
qed

text \<open>
  C10: The token goes round in rank order and nothing is lost: the k-th token received is received
  by rank \<open>k mod nProc\<close>, and it is the token sent by the rank before (the initial \<open>T()\<close> for k = 0).
\<close>

theorem tokens_arrive_in_rank_order:
  assumes "0 < nProc" "reach (token_init T) (token_step nProc) s" "k < length (received s)"
  shows "received s ! k = (int k mod nProc, (T # sent s) ! k)"
proof -
  have inv: "token_inv nProc T s" by (rule token_inv_reach [OF assms(1,2)])
  then have "map fst (received s) ! k = int k mod nProc" "map snd (received s) ! k = (T # sent s) ! k"
    using assms(3) token_invD(5,6) [OF inv] by simp_all
  then show ?thesis using assms(3) by (simp add: prod_eq_iff)
qed

theorem tokens_arrive_in_rank_order_witness: "received demo_token1 ! 0 = (0, 7)"
  using tokens_arrive_in_rank_order [OF _ demo_token_reach, of 0] by (simp add: demo_token1_def)

text \<open>
  No deadlock and no starvation: in every reachable state some rank can move, the rank whose
  turn it is, and it is always one of the ranks of the communicator.
\<close>

theorem token_chain_never_stuck:
  assumes "0 < nProc" "reach (token_init T) (token_step nProc) s"
  shows "0 \<le> currentRank (shm s) \<and> currentRank (shm s) < nProc \<and>
         (\<exists>t. token_step nProc s t \<and>
              rank_at t (currentRank (shm s)) \<noteq> rank_at s (currentRank (shm s)))"
proof -
  let ?r = "currentRank (shm s)"
  have "?r = int (length (sent s)) mod nProc"
    using token_inv_reach [OF assms] by (simp add: token_inv_def Let_def)
  then have r: "0 \<le> ?r" "?r < nProc" using assms(1) by simp_all
  have recv_now: "RecvToken ?r (shm s) = Some (token (shm s))" by (simp add: RecvToken_def)
  have "\<exists>t. token_step nProc s t \<and> rank_at t ?r \<noteq> rank_at s ?r"
  proof (cases "rank_at s ?r")
    case Waiting
    then show ?thesis using recv [OF r Waiting recv_now] by (intro exI conjI) (assumption, simp)
  next
    case Holding
    then show ?thesis using store [OF r Holding] by (intro exI conjI) (assumption, simp)
  next
    case Stored
    then show ?thesis using pass [OF r Stored] by (intro exI conjI) (assumption, simp)
  qed
  then show ?thesis using r by blast
qed

theorem token_chain_never_stuck_witness: "\<exists>t. token_step 2 demo_token1 t"
  using token_chain_never_stuck [OF _ demo_token_reach] by simp blast

text \<open>
  \<open>SerializeProcesses\<close> gives the turn to rank \<open>k mod nProc\<close> after k calls of \<open>Done\<close>, but only
  with more than one process: a single process finds its turn, and \<open>Wait\<close> ever returns, exactly if
  the integer the constructor left uninitialised happens to be 0.
\<close>

theorem serialize_turns:
  "0 < nProc \<Longrightarrow>
   (if 1 < nProc
    then ((\<lambda>v. Done nProc v v) ^^ k) (Serialize_new nProc garbage) = int k mod nProc
    else IsMyTurn 0 (Serialize_new nProc garbage) \<longleftrightarrow> garbage = 0)"
  using serial.round_robin [of nProc "Serialize_new nProc garbage" k]
  by (auto simp: Serialize_new_def IsMyTurn_def serial.passes_funpow)

theorem serialize_turns_witness:
  "((\<lambda>v. Done 3 v v) ^^ 4) (Serialize_new 3 99) = 1 \<and> \<not> IsMyTurn 0 (Serialize_new 1 99)"
  using serialize_turns [of 3 4 99] serialize_turns [of 1 0 99] by simp

end
