(* ===== verification/Adios_ShmChain.thy ===== *)
theory Adios_ShmChain
  imports Adios_Prelude
begin

section \<open>The shared-memory segment of an aggregator chain\<close>

text \<open>
  \<open>source/adios2/toolkit/aggregator/mpi/MPIShmChain.cpp\<close>: the layout of the segment (\<open>CreateShm\<close>) and
  the double-buffering protocol between the rank that fills buffers (\<open>LockProducerBuffer\<close>,
  \<open>UnlockProducerBuffer\<close>) and the aggregator that empties them (\<open>LockConsumerBuffer\<close>,
  \<open>UnlockConsumerBuffer\<close>).

  The protocol is modelled one shared access at a time: each polling test, each try of a spin lock,
  the read and the write of \<open>++NumBuffersFull\<close>, each unlock is a step of its own, and the steps of
  the two sides interleave freely. The turn passing of \<open>TokenChain\<close> leaves one producer at a time.
\<close>

subsection \<open>Layout\<close>

definition PaddingToAlignOffset :: "u64 \<Rightarrow> u64 \<Rightarrow> u64" where
  "PaddingToAlignOffset offset alignment_size =
     (let padSize = alignment_size - (offset mod alignment_size)
      in if padSize = alignment_size then 0 else padSize)"

record ShmLayout =
  totalsize :: u64
  max_size :: u64
  off_bufA :: u64
  off_bufB :: u64

text \<open>\<open>sizeofShmSegment\<close> is \<open>sizeof(ShmSegment)\<close>, which the compiler fixes.\<close>

definition CreateShm :: "u64 \<Rightarrow> bool \<Rightarrow> u64 \<Rightarrow> u64 \<Rightarrow> u64 \<Rightarrow> ShmLayout result" where
  "CreateShm sizeofShmSegment IsMPI blocksize maxsegmentsize alignment_size =
     (if \<not> IsMPI then Inl RuntimeError
      else (let structsize = sizeofShmSegment + PaddingToAlignOffset sizeofShmSegment alignment_size;
                block1 = blocksize + PaddingToAlignOffset blocksize alignment_size;
                total1 = structsize + 2 * block1;
                (total, block) =
                  (if total1 > maxsegmentsize
                   then (let t = maxsegmentsize - alignment_size + 1;
                             t = t + PaddingToAlignOffset t alignment_size;
                             b = (t - structsize) div 2 - alignment_size + 1;
                             b = b + PaddingToAlignOffset b alignment_size
                         in (structsize + 2 * b, b))
                   else (total1, block1))
            in Inr \<lparr>totalsize = total, max_size = block, off_bufA = structsize,
                    off_bufB = structsize + block\<rparr>))"

text \<open>The other ranks compute the block size from the size of the window.\<close>

definition QueryShm_blocksize :: "u64 \<Rightarrow> u64 \<Rightarrow> u64 \<Rightarrow> u64" where
  "QueryShm_blocksize sizeofShmSegment shmsize alignment_size =
     (shmsize - (sizeofShmSegment + PaddingToAlignOffset sizeofShmSegment alignment_size)) div 2"

lemma padded:
  assumes "0 < a" "unat x + unat a \<le> 18446744073709551616"
  shows "unat (x + PaddingToAlignOffset x a) =
           (if unat x mod unat a = 0 then unat x else unat x - unat x mod unat a + unat a)"
proof (cases "unat x mod unat a = 0")
  case True
  then have "x mod a = 0" by (simp add: word_unat_eq_iff unat_mod)
  then show ?thesis using True by (simp add: PaddingToAlignOffset_def)
next
  case False
  have a: "0 < unat a" using assms(1) by (simp add: word_less_nat_alt)
  have lt: "unat x mod unat a < unat a" using a by simp
  have sub: "unat (a - x mod a) = unat a - unat x mod unat a"
    using lt by (subst unat_diff_le) (simp_all add: word_le_nat_alt unat_mod)
  have "a - x mod a \<noteq> a"
  proof
    assume "a - x mod a = a"
    then have "unat a - unat x mod unat a = unat a" using sub by simp
    then show False using False lt by linarith
  qed
  then have pad: "unat (PaddingToAlignOffset x a) = unat a - unat x mod unat a"
    using sub by (simp add: PaddingToAlignOffset_def Let_def)
  have "unat x mod unat a \<le> unat x" by simp
  then have "unat x + (unat a - unat x mod unat a) < 18446744073709551616"
    using assms(2) False lt by linarith
  then have "unat (x + PaddingToAlignOffset x a) = unat x + (unat a - unat x mod unat a)"
    using pad by (subst unat_add_small) simp_all
  then show ?thesis using False lt \<open>unat x mod unat a \<le> unat x\<close> by simp
qed

lemma padded_up:
  assumes "0 < a" "unat x + unat a \<le> 18446744073709551616"
  shows "unat a dvd unat (x + PaddingToAlignOffset x a)"
    and "unat x \<le> unat (x + PaddingToAlignOffset x a)"
    and "unat (x + PaddingToAlignOffset x a) < unat x + unat a"
proof -
  have a: "0 < unat a" using assms(1) by (simp add: word_less_nat_alt)
  have lt: "unat x mod unat a < unat a" "unat x mod unat a \<le> unat x" using a by simp_all
  show "unat a dvd unat (x + PaddingToAlignOffset x a)"
  proof (cases "unat x mod unat a = 0")
    case False
    have "unat a dvd (unat x - unat x mod unat a) + unat a"
      by (rule dvd_add [OF dvd_minus_mod dvd_refl])
    then show ?thesis unfolding padded [OF assms] if_not_P [OF False] .
  qed (use padded [OF assms] in \<open>simp add: mod_0_imp_dvd\<close>)
  have "unat x \<le> unat (x + PaddingToAlignOffset x a) \<and>
    unat (x + PaddingToAlignOffset x a) < unat x + unat a"
  proof (cases "unat x mod unat a = 0")
    case True
    then show ?thesis unfolding padded [OF assms] if_P [OF True] using a by simp
  next
    case False
    then show ?thesis
      unfolding padded [OF assms] if_not_P [OF False] using lt by (intro conjI; linarith)
  qed
  then show "unat x \<le> unat (x + PaddingToAlignOffset x a)"
    "unat (x + PaddingToAlignOffset x a) < unat x + unat a" by blast+
qed

text \<open>Rounding \<open>x - a + 1\<close> up to a multiple of \<open>a\<close> rounds \<open>x\<close> down.\<close>

lemma padded_down:
  assumes "0 < a" "a \<le> x"
  shows "unat ((x - a + 1) + PaddingToAlignOffset (x - a + 1) a) = unat x - unat x mod unat a"
proof -
  have a: "0 < unat a" "unat a \<le> unat x" using assms by (simp_all add: word_less_nat_alt word_le_nat_alt)
  have x: "unat x < 18446744073709551616" by (rule unat_u64_less)
  have e: "unat (x - a + 1) = unat x - unat a + 1"
    using a x assms(2) by (subst unat_add_small) (simp_all add: unat_diff_le)
  have le: "unat (x - a + 1) + unat a \<le> 18446744073709551616" using e a x by simp
  define q r where "q = unat x div unat a" and "r = unat x mod unat a"
  have xqr: "unat x = q * unat a + r" "r < unat a" using a by (simp_all add: q_def r_def)
  have q: "0 < q" using a by (simp add: q_def div_greater_zero_iff)
  then obtain p where p: "q = Suc p" by (cases q) auto
  have y: "unat (x - a + 1) = p * unat a + (r + 1)" using e xqr p by simp
  show ?thesis
  proof (cases "r + 1 = unat a")
    case True
    then have "unat (x - a + 1) = q * unat a" using y p by simp
    then show ?thesis using padded [OF assms(1) le] xqr by simp
  next
    case False
    then have m: "unat (x - a + 1) mod unat a = r + 1" using y xqr(2) by simp
    have "unat x mod unat a = r" by (simp add: r_def)
    then show ?thesis using padded [OF assms(1) le] y p xqr m by simp
  qed
qed

lemma CreateShm_ok:
  assumes a: "0 < a" and shm: "CreateShm hdr True bs mx a = Inr L"
    and small: "unat hdr + 2 * unat bs + 4 * unat a \<le> 18446744073709551615"
    and room: "unat hdr + 4 * unat a \<le> unat mx"
  shows "unat hdr \<le> unat (off_bufA L)"
    and "unat (off_bufB L) = unat (off_bufA L) + unat (max_size L)"
    and "unat (totalsize L) = unat (off_bufB L) + unat (max_size L)"
    and "unat (totalsize L) \<le> unat mx"
    and "unat a dvd unat (off_bufA L)" "unat a dvd unat (max_size L)"
    and "0 < bs \<Longrightarrow> 0 < max_size L"
    and "QueryShm_blocksize hdr (totalsize L) a = max_size L"
proof -
  define st where "st = hdr + PaddingToAlignOffset hdr a"
  define b1 where "b1 = bs + PaddingToAlignOffset bs a"
  define t where "t = (mx - a + 1) + PaddingToAlignOffset (mx - a + 1) a"
  define h where "h = (t - st) div 2"
  define b2 where "b2 = (h - a + 1) + PaddingToAlignOffset (h - a + 1) a"
  define b where "b = (if st + 2 * b1 > mx then b2 else b1)"
  have L: "L = \<lparr>totalsize = st + 2 * b, max_size = b, off_bufA = st, off_bufB = st + b\<rparr>"
    using shm unfolding b_def b2_def h_def t_def b1_def st_def
    by (auto simp: CreateShm_def Let_def split: if_splits)
  have ua: "0 < unat a" using a by (simp add: word_less_nat_alt)
  have mx: "unat mx < 18446744073709551616" by (rule unat_u64_less)
  have st: "unat a dvd unat st" "unat hdr \<le> unat st" "unat st < unat hdr + unat a"
    unfolding st_def using small by (intro padded_up [OF a]; simp)+
  have b1: "unat a dvd unat b1" "unat bs \<le> unat b1" "unat b1 < unat bs + unat a"
    unfolding b1_def using small by (intro padded_up [OF a]; simp)+
  have tb1: "unat (2 * b1) = 2 * unat b1"
    using b1 small by (subst unat_mult_small) simp_all
  have sum1: "unat (st + 2 * b1) = unat st + 2 * unat b1"
    using st b1 small tb1 by (subst unat_add_small) simp_all
  have b: "unat a dvd unat b \<and> unat st + 2 * unat b \<le> unat mx \<and> (0 < unat bs \<longrightarrow> 0 < unat b)"
  proof (cases "st + 2 * b1 > mx")
    case False
    then show ?thesis using sum1 b1 by (auto simp: b_def word_less_nat_alt)
  next
    case True
    have t: "unat t = unat mx - unat mx mod unat a"
      unfolding t_def using room by (intro padded_down [OF a]) (simp add: word_le_nat_alt)
    have "unat mx mod unat a < unat a" using ua by simp
    then have tst: "unat st + 2 * unat a \<le> unat t" "unat t \<le> unat mx"
      using t st room by linarith+
    then have "unat (t - st) = unat t - unat st" by (intro unat_diff_le) (simp add: word_le_nat_alt)
    then have h: "unat h = (unat t - unat st) div 2" by (simp add: h_def unat_div)
    then have "unat a \<le> unat h" using tst by linarith
    then have b2: "unat b2 = unat h - unat h mod unat a"
      unfolding b2_def by (intro padded_down [OF a]) (simp add: word_le_nat_alt)
    have "unat h mod unat a < unat a" using ua by simp
    then have "0 < unat b2" using b2 \<open>unat a \<le> unat h\<close> by linarith
    moreover have "unat a dvd unat b2" using b2 by (simp add: dvd_minus_mod)
    moreover have "unat st + 2 * unat b2 \<le> unat mx" using b2 h tst by linarith
    ultimately show ?thesis using True by (simp add: b_def)
  qed
  have tb: "unat (2 * b) = 2 * unat b" using b mx by (subst unat_mult_small) simp_all
  have sum: "unat (st + 2 * b) = unat st + 2 * unat b"
    using b tb mx by (subst unat_add_small) simp_all
  have sb: "unat (st + b) = unat st + unat b" using b mx by (subst unat_add_small) simp_all
  show "unat hdr \<le> unat (off_bufA L)"
    and "unat (off_bufB L) = unat (off_bufA L) + unat (max_size L)"
    and "unat (totalsize L) = unat (off_bufB L) + unat (max_size L)"
    and "unat (totalsize L) \<le> unat mx"
    and "unat a dvd unat (off_bufA L)" "unat a dvd unat (max_size L)"
    and "0 < bs \<Longrightarrow> 0 < max_size L"
    using L st b sum sb by (simp_all add: word_less_nat_alt)
  have "unat ((st + 2 * b - st) div 2) = unat b" using tb by (simp add: unat_div)
  then show "QueryShm_blocksize hdr (totalsize L) a = max_size L"
    using L by (simp add: QueryShm_blocksize_def word_unat_eq_iff flip: st_def)
qed

subsection \<open>The protocol\<close>

datatype LastBufferUsed = NoBuffer | A | B

record ShmSegment =
  producerBuffer :: LastBufferUsed
  consumerBuffer :: LastBufferUsed
  NumBuffersFull :: u32
  sdbA :: "u8 list"
  sdbB :: "u8 list"
  lockSegment :: bool
  lockA :: bool
  lockB :: bool

definition ShmSegment_new :: ShmSegment where
  "ShmSegment_new =
     \<lparr>producerBuffer = NoBuffer, consumerBuffer = NoBuffer, NumBuffersFull = 0, sdbA = [], sdbB = [],
      lockSegment = False, lockA = False, lockB = False\<rparr>"

definition other_buffer :: "LastBufferUsed \<Rightarrow> LastBufferUsed" where
  "other_buffer last_used = (if last_used = A then B else A)"

definition buf_locked :: "LastBufferUsed \<Rightarrow> ShmSegment \<Rightarrow> bool" where
  "buf_locked b g = (if b = A then lockA g else lockB g)"

definition set_buf_lock :: "LastBufferUsed \<Rightarrow> bool \<Rightarrow> ShmSegment \<Rightarrow> ShmSegment" where
  "set_buf_lock b v g = (if b = A then g\<lparr>lockA := v\<rparr> else g\<lparr>lockB := v\<rparr>)"

definition content :: "LastBufferUsed \<Rightarrow> ShmSegment \<Rightarrow> u8 list" where
  "content b g = (if b = A then sdbA g else sdbB g)"

definition fill :: "LastBufferUsed \<Rightarrow> u8 list \<Rightarrow> ShmSegment \<Rightarrow> ShmSegment" where
  "fill b d g = (if b = A then g\<lparr>sdbA := d\<rparr> else g\<lparr>sdbB := d\<rparr>)"

text \<open>
  Where each side is. The producer polls \<open>NumBuffersFull\<close>, takes the segment lock, flips its buffer,
  releases, takes the buffer's lock, and fills it; then it takes the segment lock, reads and writes
  \<open>NumBuffersFull\<close>, releases, and unlocks the buffer. The consumer does the same with a decrement.
\<close>

datatype producer_pc =
    PPoll | PSegLock | PFlip | PSegUnlock | PBufLock | PFill
  | PSegLock2 | PRead | PWrite u32 | PSegUnlock2 | PBufUnlock

datatype consumer_pc =
    CPoll | CSegLock | CFlip | CSegUnlock | CBufLock | CTake
  | CSegLock2 | CRead | CWrite u32 | CSegUnlock2 | CBufUnlock

record ShmSystem =
  seg :: ShmSegment
  p_at :: producer_pc
  c_at :: consumer_pc
  filled :: "u8 list list"
  taken :: "u8 list list"

inductive producer_step :: "ShmSystem \<Rightarrow> ShmSystem \<Rightarrow> bool" where
  p_poll: "p_at s = PPoll \<Longrightarrow> NumBuffersFull (seg s) \<noteq> 2 \<Longrightarrow> producer_step s (s\<lparr>p_at := PSegLock\<rparr>)"
| p_seg_lock: "p_at s = PSegLock \<Longrightarrow> \<not> lockSegment (seg s) \<Longrightarrow>
    producer_step s (s\<lparr>p_at := PFlip, seg := (seg s)\<lparr>lockSegment := True\<rparr>\<rparr>)"
| p_flip: "p_at s = PFlip \<Longrightarrow>
    producer_step s (s\<lparr>p_at := PSegUnlock,
      seg := (seg s)\<lparr>producerBuffer := other_buffer (producerBuffer (seg s))\<rparr>\<rparr>)"
| p_seg_unlock: "p_at s = PSegUnlock \<Longrightarrow>
    producer_step s (s\<lparr>p_at := PBufLock, seg := (seg s)\<lparr>lockSegment := False\<rparr>\<rparr>)"
| p_buf_lock: "p_at s = PBufLock \<Longrightarrow> \<not> buf_locked (producerBuffer (seg s)) (seg s) \<Longrightarrow>
    producer_step s (s\<lparr>p_at := PFill,
      seg := set_buf_lock (producerBuffer (seg s)) True (seg s)\<rparr>)"
| p_fill: "p_at s = PFill \<Longrightarrow>
    producer_step s (s\<lparr>p_at := PSegLock2, seg := fill (producerBuffer (seg s)) d (seg s),
      filled := filled s @ [d]\<rparr>)"
| p_seg_lock2: "p_at s = PSegLock2 \<Longrightarrow> \<not> lockSegment (seg s) \<Longrightarrow>
    producer_step s (s\<lparr>p_at := PRead, seg := (seg s)\<lparr>lockSegment := True\<rparr>\<rparr>)"
| p_read: "p_at s = PRead \<Longrightarrow> producer_step s (s\<lparr>p_at := PWrite (NumBuffersFull (seg s))\<rparr>)"
| p_write: "p_at s = PWrite n \<Longrightarrow>
    producer_step s (s\<lparr>p_at := PSegUnlock2, seg := (seg s)\<lparr>NumBuffersFull := n + 1\<rparr>\<rparr>)"
| p_seg_unlock2: "p_at s = PSegUnlock2 \<Longrightarrow>
    producer_step s (s\<lparr>p_at := PBufUnlock, seg := (seg s)\<lparr>lockSegment := False\<rparr>\<rparr>)"
| p_buf_unlock: "p_at s = PBufUnlock \<Longrightarrow>
    producer_step s (s\<lparr>p_at := PPoll,
      seg := set_buf_lock (producerBuffer (seg s)) False (seg s)\<rparr>)"

inductive consumer_step :: "ShmSystem \<Rightarrow> ShmSystem \<Rightarrow> bool" where
  c_poll: "c_at s = CPoll \<Longrightarrow> \<not> NumBuffersFull (seg s) < 1 \<Longrightarrow> consumer_step s (s\<lparr>c_at := CSegLock\<rparr>)"
| c_seg_lock: "c_at s = CSegLock \<Longrightarrow> \<not> lockSegment (seg s) \<Longrightarrow>
    consumer_step s (s\<lparr>c_at := CFlip, seg := (seg s)\<lparr>lockSegment := True\<rparr>\<rparr>)"
| c_flip: "c_at s = CFlip \<Longrightarrow>
    consumer_step s (s\<lparr>c_at := CSegUnlock,
      seg := (seg s)\<lparr>consumerBuffer := other_buffer (consumerBuffer (seg s))\<rparr>\<rparr>)"
| c_seg_unlock: "c_at s = CSegUnlock \<Longrightarrow>
    consumer_step s (s\<lparr>c_at := CBufLock, seg := (seg s)\<lparr>lockSegment := False\<rparr>\<rparr>)"
| c_buf_lock: "c_at s = CBufLock \<Longrightarrow> \<not> buf_locked (consumerBuffer (seg s)) (seg s) \<Longrightarrow>
    consumer_step s (s\<lparr>c_at := CTake,
      seg := set_buf_lock (consumerBuffer (seg s)) True (seg s)\<rparr>)"
| c_take: "c_at s = CTake \<Longrightarrow>
    consumer_step s (s\<lparr>c_at := CSegLock2,
      taken := taken s @ [content (consumerBuffer (seg s)) (seg s)]\<rparr>)"
| c_seg_lock2: "c_at s = CSegLock2 \<Longrightarrow> \<not> lockSegment (seg s) \<Longrightarrow>
    consumer_step s (s\<lparr>c_at := CRead, seg := (seg s)\<lparr>lockSegment := True\<rparr>\<rparr>)"
| c_read: "c_at s = CRead \<Longrightarrow> consumer_step s (s\<lparr>c_at := CWrite (NumBuffersFull (seg s))\<rparr>)"
| c_write: "c_at s = CWrite n \<Longrightarrow>
    consumer_step s (s\<lparr>c_at := CSegUnlock2, seg := (seg s)\<lparr>NumBuffersFull := n - 1\<rparr>\<rparr>)"
| c_seg_unlock2: "c_at s = CSegUnlock2 \<Longrightarrow>
    consumer_step s (s\<lparr>c_at := CBufUnlock, seg := (seg s)\<lparr>lockSegment := False\<rparr>\<rparr>)"
| c_buf_unlock: "c_at s = CBufUnlock \<Longrightarrow>
    consumer_step s (s\<lparr>c_at := CPoll,
      seg := set_buf_lock (consumerBuffer (seg s)) False (seg s)\<rparr>)"

definition shm_step :: "ShmSystem \<Rightarrow> ShmSystem \<Rightarrow> bool" where
  "shm_step s t \<longleftrightarrow> producer_step s t \<or> consumer_step s t"

definition shm_start :: ShmSystem where
  "shm_start = \<lparr>seg = ShmSegment_new, p_at = PPoll, c_at = CPoll, filled = [], taken = []\<rparr>"

subsection \<open>The invariant\<close>

text \<open>
  The phases of each side as numbers: \<open>p_want\<close> is 1 from the poll to the fill, \<open>p_flipped\<close> from the
  flip to the fill, \<open>p_pending\<close> from the fill to the increment; \<open>p_seg\<close> and \<open>p_buf\<close> say that the
  producer holds the segment or the buffer. The same for the consumer.
\<close>

definition p_want :: "producer_pc \<Rightarrow> nat" where
  "p_want pc = (case pc of PSegLock \<Rightarrow> 1 | PFlip \<Rightarrow> 1 | PSegUnlock \<Rightarrow> 1 | PBufLock \<Rightarrow> 1 | PFill \<Rightarrow> 1 | _ \<Rightarrow> 0)"

definition p_flipped :: "producer_pc \<Rightarrow> nat" where
  "p_flipped pc = (case pc of PSegUnlock \<Rightarrow> 1 | PBufLock \<Rightarrow> 1 | PFill \<Rightarrow> 1 | _ \<Rightarrow> 0)"

definition p_pending :: "producer_pc \<Rightarrow> nat" where
  "p_pending pc = (case pc of PSegLock2 \<Rightarrow> 1 | PRead \<Rightarrow> 1 | PWrite _ \<Rightarrow> 1 | _ \<Rightarrow> 0)"

definition p_seg :: "producer_pc \<Rightarrow> bool" where
  "p_seg pc = (case pc of PFlip \<Rightarrow> True | PSegUnlock \<Rightarrow> True | PRead \<Rightarrow> True | PWrite _ \<Rightarrow> True
     | PSegUnlock2 \<Rightarrow> True | _ \<Rightarrow> False)"

definition p_buf :: "producer_pc \<Rightarrow> bool" where
  "p_buf pc = (case pc of PFill \<Rightarrow> True | PSegLock2 \<Rightarrow> True | PRead \<Rightarrow> True | PWrite _ \<Rightarrow> True
     | PSegUnlock2 \<Rightarrow> True | PBufUnlock \<Rightarrow> True | _ \<Rightarrow> False)"

definition c_want :: "consumer_pc \<Rightarrow> nat" where
  "c_want pc = (case pc of CSegLock \<Rightarrow> 1 | CFlip \<Rightarrow> 1 | CSegUnlock \<Rightarrow> 1 | CBufLock \<Rightarrow> 1 | CTake \<Rightarrow> 1 | _ \<Rightarrow> 0)"

definition c_flipped :: "consumer_pc \<Rightarrow> nat" where
  "c_flipped pc = (case pc of CSegUnlock \<Rightarrow> 1 | CBufLock \<Rightarrow> 1 | CTake \<Rightarrow> 1 | _ \<Rightarrow> 0)"

definition c_pending :: "consumer_pc \<Rightarrow> nat" where
  "c_pending pc = (case pc of CSegLock2 \<Rightarrow> 1 | CRead \<Rightarrow> 1 | CWrite _ \<Rightarrow> 1 | _ \<Rightarrow> 0)"

definition c_seg :: "consumer_pc \<Rightarrow> bool" where
  "c_seg pc = (case pc of CFlip \<Rightarrow> True | CSegUnlock \<Rightarrow> True | CRead \<Rightarrow> True | CWrite _ \<Rightarrow> True
     | CSegUnlock2 \<Rightarrow> True | _ \<Rightarrow> False)"

definition c_buf :: "consumer_pc \<Rightarrow> bool" where
  "c_buf pc = (case pc of CTake \<Rightarrow> True | CSegLock2 \<Rightarrow> True | CRead \<Rightarrow> True | CWrite _ \<Rightarrow> True
     | CSegUnlock2 \<Rightarrow> True | CBufUnlock \<Rightarrow> True | _ \<Rightarrow> False)"

lemmas phases = p_want_def p_flipped_def p_pending_def p_seg_def p_buf_def
  c_want_def c_flipped_def c_pending_def c_seg_def c_buf_def

text \<open>The k-th buffer filled, from 1, is A for odd k.\<close>

definition nth_buffer :: "nat \<Rightarrow> LastBufferUsed" where
  "nth_buffer k = (if k = 0 then NoBuffer else if odd k then A else B)"

lemma other_nth_buffer: "other_buffer (nth_buffer k) = nth_buffer (Suc k)"
  by (simp add: nth_buffer_def other_buffer_def)

definition locks_ok :: "ShmSystem \<Rightarrow> bool" where
  "locks_ok s \<longleftrightarrow>
     (lockSegment (seg s) \<longleftrightarrow> p_seg (p_at s) \<or> c_seg (c_at s)) \<and>
     \<not> (p_seg (p_at s) \<and> c_seg (c_at s)) \<and>
     (lockA (seg s) \<longleftrightarrow> p_buf (p_at s) \<and> producerBuffer (seg s) = A \<or>
                       c_buf (c_at s) \<and> consumerBuffer (seg s) = A) \<and>
     (lockB (seg s) \<longleftrightarrow> p_buf (p_at s) \<and> producerBuffer (seg s) = B \<or>
                       c_buf (c_at s) \<and> consumerBuffer (seg s) = B) \<and>
     (p_buf (p_at s) \<longrightarrow> producerBuffer (seg s) \<noteq> NoBuffer) \<and>
     (c_buf (c_at s) \<longrightarrow> consumerBuffer (seg s) \<noteq> NoBuffer) \<and>
     \<not> (p_buf (p_at s) \<and> c_buf (c_at s) \<and> producerBuffer (seg s) = consumerBuffer (seg s))"

definition counts_ok :: "ShmSystem \<Rightarrow> bool" where
  "counts_ok s \<longleftrightarrow>
     (let nf = length (filled s); nt = length (taken s); full = unat (NumBuffersFull (seg s)) in
      producerBuffer (seg s) = nth_buffer (nf + p_flipped (p_at s)) \<and>
      consumerBuffer (seg s) = nth_buffer (nt + c_flipped (c_at s)) \<and>
      full \<le> 2 \<and>
      nt + p_pending (p_at s) + full = nf + c_pending (c_at s) \<and>
      nf + p_want (p_at s) + c_pending (c_at s) \<le> nt + 2 \<and>
      nt + c_want (c_at s) + p_pending (p_at s) \<le> nf \<and>
      (\<forall>n. p_at s = PWrite n \<longrightarrow> n = NumBuffersFull (seg s)) \<and>
      (\<forall>n. c_at s = CWrite n \<longrightarrow> n = NumBuffersFull (seg s)))"

definition contents_ok :: "ShmSystem \<Rightarrow> bool" where
  "contents_ok s \<longleftrightarrow>
     taken s = take (length (taken s)) (filled s) \<and>
     (\<forall>k. length (taken s) \<le> k \<and> k < length (filled s) \<longrightarrow>
        content (nth_buffer (Suc k)) (seg s) = filled s ! k)"

definition shm_inv :: "ShmSystem \<Rightarrow> bool" where
  "shm_inv s \<longleftrightarrow> locks_ok s \<and> counts_ok s \<and> contents_ok s"

lemma seg_ops [simp]:
  "producerBuffer (set_buf_lock b v g) = producerBuffer g"
  "consumerBuffer (set_buf_lock b v g) = consumerBuffer g"
  "NumBuffersFull (set_buf_lock b v g) = NumBuffersFull g"
  "lockSegment (set_buf_lock b v g) = lockSegment g"
  "content b' (set_buf_lock b v g) = content b' g"
  "producerBuffer (fill b d g) = producerBuffer g"
  "consumerBuffer (fill b d g) = consumerBuffer g"
  "NumBuffersFull (fill b d g) = NumBuffersFull g"
  "lockSegment (fill b d g) = lockSegment g"
  "lockA (fill b d g) = lockA g" "lockB (fill b d g) = lockB g"
  "content b' (g\<lparr>lockSegment := v\<rparr>) = content b' g"
  "content b' (g\<lparr>producerBuffer := pb\<rparr>) = content b' g"
  "content b' (g\<lparr>consumerBuffer := pb\<rparr>) = content b' g"
  "content b' (g\<lparr>NumBuffersFull := n\<rparr>) = content b' g"
  by (simp_all add: set_buf_lock_def fill_def content_def)

lemma nth_buffer_cases: "nth_buffer (Suc k) = A \<or> nth_buffer (Suc k) = B"
  by (simp add: nth_buffer_def)

lemma unat_inc: "unat (n :: u32) \<le> 2 \<Longrightarrow> unat (n + 1) = unat n + 1"
  by (subst unat_add_small) simp_all

lemma unat_dec: "0 < unat (n :: u32) \<Longrightarrow> unat (n - 1) = unat n - 1"
  by (rule unat_minus_one) auto

lemma full_not_2: "NumBuffersFull g \<noteq> 2 \<Longrightarrow> unat (NumBuffersFull g) \<le> 2 \<Longrightarrow> unat (NumBuffersFull g) < 2"
  by (simp add: word_unat_eq_iff)

text \<open>Only the phase of the side that moves is evaluated; the other side's stays a number.\<close>

lemmas p_phases = p_want_def p_flipped_def p_pending_def p_seg_def p_buf_def
lemmas c_phases = c_want_def c_flipped_def c_pending_def c_seg_def c_buf_def

lemma counts_ok_producer:
  assumes "counts_ok s" "locks_ok s" "producer_step s t"
  shows "counts_ok t"
proof -
  have ex: "\<not> (p_seg (p_at s) \<and> c_seg (c_at s))" using assms(2) by (simp add: locks_ok_def)
  show ?thesis
    using assms(3) ex assms(1)
    by (cases rule: producer_step.cases)
      (auto simp: counts_ok_def p_phases c_seg_def Let_def other_nth_buffer unat_inc dest: full_not_2)
qed

lemma counts_ok_consumer:
  assumes "counts_ok s" "locks_ok s" "consumer_step s t"
  shows "counts_ok t"
proof -
  have ex: "\<not> (p_seg (p_at s) \<and> c_seg (c_at s))" using assms(2) by (simp add: locks_ok_def)
  show ?thesis
    using assms(3) ex assms(1)
    by (cases rule: consumer_step.cases)
      (auto simp: counts_ok_def c_phases p_seg_def Let_def other_nth_buffer unat_dec word_less_nat_alt)
qed

lemma not_A_is_B: "b \<noteq> A \<Longrightarrow> b \<noteq> NoBuffer \<Longrightarrow> b = B"
  by (cases b) simp_all

lemma locks_ok_producer:
  assumes "locks_ok s" "counts_ok s" "producer_step s t"
  shows "locks_ok t"
proof -
  have ex: "p_at s = PBufLock \<Longrightarrow> producerBuffer (seg s) = A \<or> producerBuffer (seg s) = B"
    using assms(2) nth_buffer_cases by (simp add: counts_ok_def Let_def p_flipped_def)
  show ?thesis
    using assms(3) ex assms(1)
    by (cases rule: producer_step.cases)
      (auto simp: locks_ok_def p_phases set_buf_lock_def buf_locked_def fill_def split: if_splits
        dest: not_A_is_B)
qed

lemma locks_ok_consumer:
  assumes "locks_ok s" "counts_ok s" "consumer_step s t"
  shows "locks_ok t"
proof -
  have ex: "c_at s = CBufLock \<Longrightarrow> consumerBuffer (seg s) = A \<or> consumerBuffer (seg s) = B"
    using assms(2) nth_buffer_cases by (simp add: counts_ok_def Let_def c_flipped_def)
  show ?thesis
    using assms(3) ex assms(1)
    by (cases rule: consumer_step.cases)
      (auto simp: locks_ok_def c_phases set_buf_lock_def buf_locked_def split: if_splits
        dest: not_A_is_B)
qed

lemma content_fill:
  "content (nth_buffer (Suc j)) (fill (nth_buffer (Suc k)) d g) =
     (if even j = even k then d else content (nth_buffer (Suc j)) g)"
  by (simp add: content_def fill_def nth_buffer_def)

lemma contents_ok_producer:
  assumes "contents_ok s" "counts_ok s" "producer_step s t"
  shows "contents_ok t"
  using assms(3)
proof (cases rule: producer_step.cases)
  case (p_fill d)
  have buf: "producerBuffer (seg s) = nth_buffer (Suc (length (filled s)))"
    and room: "length (filled s) < length (taken s) + 2"
    and le: "length (taken s) \<le> length (filled s)"
    using assms(2) p_fill by (auto simp: counts_ok_def Let_def p_phases)
  have other: "even k \<noteq> even (length (filled s))"
    if "length (taken s) \<le> k" "k < length (filled s)" for k
  proof -
    have "length (filled s) = Suc k" using that room by linarith
    then show ?thesis by simp
  qed
  show ?thesis
    using assms(1) p_fill buf le other
    by (auto simp: contents_ok_def content_fill nth_append less_Suc_eq)
qed (use assms(1) in \<open>auto simp: contents_ok_def\<close>)

lemma contents_ok_consumer:
  assumes "contents_ok s" "counts_ok s" "consumer_step s t"
  shows "contents_ok t"
  using assms(3)
proof (cases rule: consumer_step.cases)
  case c_take
  have buf: "consumerBuffer (seg s) = nth_buffer (Suc (length (taken s)))"
    and lt: "length (taken s) < length (filled s)"
    using assms(2) c_take by (auto simp: counts_ok_def Let_def c_phases)
  then have "content (consumerBuffer (seg s)) (seg s) = filled s ! length (taken s)"
    using assms(1) by (simp add: contents_ok_def)
  then show ?thesis
    using assms(1) c_take lt by (simp add: contents_ok_def take_Suc_conv_app_nth)
qed (use assms(1) in \<open>auto simp: contents_ok_def\<close>)

lemma shm_inv_step: "shm_inv s \<Longrightarrow> shm_step s t \<Longrightarrow> shm_inv t"
  unfolding shm_inv_def shm_step_def
  by (blast intro: locks_ok_producer locks_ok_consumer counts_ok_producer counts_ok_consumer
      contents_ok_producer contents_ok_consumer)

lemma shm_inv_start: "shm_inv shm_start"
  by (simp add: shm_inv_def shm_start_def ShmSegment_new_def locks_ok_def counts_ok_def
      contents_ok_def phases nth_buffer_def)

interpretation shm_ts: transition_system "\<lambda>s. s = shm_start" shm_step shm_inv
  by unfold_locales (auto intro: shm_inv_start shm_inv_step)

definition shm_reachable :: "ShmSystem \<Rightarrow> bool" where
  "shm_reachable = reach (\<lambda>s. s = shm_start) shm_step"

lemma shm_inv_reachable: "shm_reachable s \<Longrightarrow> shm_inv s"
  unfolding shm_reachable_def by (rule shm_ts.invariant_rule)

subsection \<open>No deadlock\<close>

lemma producer_moves:
  assumes "p_at s \<notin> {PPoll, PSegLock, PSegLock2, PBufLock}"
  shows "\<exists>t. producer_step s t"
  using assms by (cases "p_at s") (auto intro: producer_step.intros)

lemma consumer_moves:
  assumes "c_at s \<notin> {CPoll, CSegLock, CSegLock2, CBufLock}"
  shows "\<exists>t. consumer_step s t"
  using assms by (cases "c_at s") (auto intro: consumer_step.intros)

lemma some_side_moves:
  assumes inv: "shm_inv s"
  shows "\<exists>t. shm_step s t"
proof (cases "(\<exists>t. producer_step s t) \<or> (\<exists>t. consumer_step s t)")
  case False
  then have p: "p_at s \<in> {PPoll, PSegLock, PSegLock2, PBufLock}"
    and c: "c_at s \<in> {CPoll, CSegLock, CSegLock2, CBufLock}"
    and noP: "\<nexists>t. producer_step s t" and noC: "\<nexists>t. consumer_step s t"
    using producer_moves consumer_moves by blast+
  have "\<not> p_seg (p_at s)" using p by (auto simp: p_seg_def)
  moreover have "\<not> c_seg (c_at s)" using c by (auto simp: c_seg_def)
  ultimately have seg_free: "\<not> lockSegment (seg s)" using inv by (simp add: shm_inv_def locks_ok_def)
  have "p_at s \<noteq> PSegLock" "p_at s \<noteq> PSegLock2" "c_at s \<noteq> CSegLock" "c_at s \<noteq> CSegLock2"
    using noP noC p_seg_lock [OF _ seg_free] p_seg_lock2 [OF _ seg_free]
      c_seg_lock [OF _ seg_free] c_seg_lock2 [OF _ seg_free] by metis+
  then have p': "p_at s = PPoll \<or> p_at s = PBufLock" and c': "c_at s = CPoll \<or> c_at s = CBufLock"
    using p c by blast+
  then have "\<not> p_buf (p_at s)" "\<not> c_buf (c_at s)" by (auto simp: p_buf_def c_buf_def)
  then have free: "\<not> buf_locked b (seg s)" for b
    using inv by (simp add: shm_inv_def locks_ok_def buf_locked_def)
  have p0: "p_at s = PPoll" using p' noP p_buf_lock [OF _ free] by metis
  have c0: "c_at s = CPoll" using c' noC c_buf_lock [OF _ free] by metis
  have "NumBuffersFull (seg s) = 2" using noP p_poll [OF p0] by blast
  moreover have "NumBuffersFull (seg s) < 1" using noC c_poll [OF c0] by blast
  ultimately show ?thesis by simp
qed (auto simp: shm_step_def)

subsection \<open>The steps as functions\<close>

text \<open>
  The next step of each side, if it can move. A schedule names at each point the side that tries to
  move: the producer with the data it would fill in (\<open>Some d\<close>) or the consumer (\<open>None\<close>).
\<close>

definition producer_next :: "u8 list \<Rightarrow> ShmSystem \<Rightarrow> ShmSystem option" where
  "producer_next d s =
     (let g = seg s; b = producerBuffer g in
      case p_at s of
        PPoll \<Rightarrow> if NumBuffersFull g \<noteq> 2 then Some (s\<lparr>p_at := PSegLock\<rparr>) else None
      | PSegLock \<Rightarrow> if lockSegment g then None else Some (s\<lparr>p_at := PFlip, seg := g\<lparr>lockSegment := True\<rparr>\<rparr>)
      | PFlip \<Rightarrow> Some (s\<lparr>p_at := PSegUnlock, seg := g\<lparr>producerBuffer := other_buffer b\<rparr>\<rparr>)
      | PSegUnlock \<Rightarrow> Some (s\<lparr>p_at := PBufLock, seg := g\<lparr>lockSegment := False\<rparr>\<rparr>)
      | PBufLock \<Rightarrow> if buf_locked b g then None else Some (s\<lparr>p_at := PFill, seg := set_buf_lock b True g\<rparr>)
      | PFill \<Rightarrow> Some (s\<lparr>p_at := PSegLock2, seg := fill b d g, filled := filled s @ [d]\<rparr>)
      | PSegLock2 \<Rightarrow> if lockSegment g then None else Some (s\<lparr>p_at := PRead, seg := g\<lparr>lockSegment := True\<rparr>\<rparr>)
      | PRead \<Rightarrow> Some (s\<lparr>p_at := PWrite (NumBuffersFull g)\<rparr>)
      | PWrite n \<Rightarrow> Some (s\<lparr>p_at := PSegUnlock2, seg := g\<lparr>NumBuffersFull := n + 1\<rparr>\<rparr>)
      | PSegUnlock2 \<Rightarrow> Some (s\<lparr>p_at := PBufUnlock, seg := g\<lparr>lockSegment := False\<rparr>\<rparr>)
      | PBufUnlock \<Rightarrow> Some (s\<lparr>p_at := PPoll, seg := set_buf_lock b False g\<rparr>))"

definition consumer_next :: "ShmSystem \<Rightarrow> ShmSystem option" where
  "consumer_next s =
     (let g = seg s; b = consumerBuffer g in
      case c_at s of
        CPoll \<Rightarrow> if NumBuffersFull g < 1 then None else Some (s\<lparr>c_at := CSegLock\<rparr>)
      | CSegLock \<Rightarrow> if lockSegment g then None else Some (s\<lparr>c_at := CFlip, seg := g\<lparr>lockSegment := True\<rparr>\<rparr>)
      | CFlip \<Rightarrow> Some (s\<lparr>c_at := CSegUnlock, seg := g\<lparr>consumerBuffer := other_buffer b\<rparr>\<rparr>)
      | CSegUnlock \<Rightarrow> Some (s\<lparr>c_at := CBufLock, seg := g\<lparr>lockSegment := False\<rparr>\<rparr>)
      | CBufLock \<Rightarrow> if buf_locked b g then None else Some (s\<lparr>c_at := CTake, seg := set_buf_lock b True g\<rparr>)
      | CTake \<Rightarrow> Some (s\<lparr>c_at := CSegLock2, taken := taken s @ [content b g]\<rparr>)
      | CSegLock2 \<Rightarrow> if lockSegment g then None else Some (s\<lparr>c_at := CRead, seg := g\<lparr>lockSegment := True\<rparr>\<rparr>)
      | CRead \<Rightarrow> Some (s\<lparr>c_at := CWrite (NumBuffersFull g)\<rparr>)
      | CWrite n \<Rightarrow> Some (s\<lparr>c_at := CSegUnlock2, seg := g\<lparr>NumBuffersFull := n - 1\<rparr>\<rparr>)
      | CSegUnlock2 \<Rightarrow> Some (s\<lparr>c_at := CBufUnlock, seg := g\<lparr>lockSegment := False\<rparr>\<rparr>)
      | CBufUnlock \<Rightarrow> Some (s\<lparr>c_at := CPoll, seg := set_buf_lock b False g\<rparr>))"

lemma producer_next_step: "producer_next d s = Some t \<Longrightarrow> producer_step s t"
  by (cases "p_at s")
    (auto simp: producer_next_def Let_def intro: producer_step.intros split: if_splits)

lemma consumer_next_step: "consumer_next s = Some t \<Longrightarrow> consumer_step s t"
  by (cases "c_at s")
    (auto simp: consumer_next_def Let_def intro: consumer_step.intros split: if_splits)

fun run_shm :: "u8 list option list \<Rightarrow> ShmSystem \<Rightarrow> ShmSystem" where
  "run_shm [] s = s"
| "run_shm (who # sched) s =
     run_shm sched
       (case (case who of Some d \<Rightarrow> producer_next d s | None \<Rightarrow> consumer_next s) of
          Some t \<Rightarrow> t
        | None \<Rightarrow> s)"

lemma run_shm_reachable: "shm_reachable s \<Longrightarrow> shm_reachable (run_shm sched s)"
proof (induction sched arbitrary: s)
  case (Cons who sched)
  define m where "m = (case who of Some d \<Rightarrow> producer_next d s | None \<Rightarrow> consumer_next s)"
  have "shm_step s t" if "m = Some t" for t
    using that producer_next_step consumer_next_step
    by (cases who) (auto simp: m_def shm_step_def)
  then have "shm_reachable (case m of Some t \<Rightarrow> t | None \<Rightarrow> s)"
    using Cons.prems reach_step [of "\<lambda>s. s = shm_start" shm_step s]
    by (cases m) (auto simp: shm_reachable_def)
  then show ?case using Cons.IH by (simp add: m_def)
qed simp

lemma shm_start_reachable: "shm_reachable shm_start"
  unfolding shm_reachable_def by (rule reach_init) simp

definition demo_shm :: ShmSystem where
  "demo_shm = run_shm (replicate 11 (Some [1, 2]) @ replicate 6 None @ replicate 6 (Some [3]))
                shm_start"

lemma demo_shm_reachable: "shm_reachable demo_shm"
  unfolding demo_shm_def by (rule run_shm_reachable [OF shm_start_reachable])

subsection \<open>Properties\<close>

text \<open>
  C11: The buffers are first in, first out, in every interleaving: what the aggregator has taken is
  exactly the first buffers filled, in order and intact, it is at most two behind, and the count of
  full buffers stays between 0 and 2 without wrapping.
\<close>

theorem shm_buffers_are_fifo:
  assumes "shm_reachable s"
  shows "taken s = take (length (taken s)) (filled s) \<and>
         length (taken s) \<le> length (filled s) \<and> length (filled s) \<le> length (taken s) + 2 \<and>
         unat (NumBuffersFull (seg s)) \<le> 2"
proof -
  have inv: "shm_inv s" by (rule shm_inv_reachable [OF assms])
  then have fifo: "taken s = take (length (taken s)) (filled s)"
    by (simp add: shm_inv_def contents_ok_def)
  have counts: "counts_ok s" using inv by (simp add: shm_inv_def)
  then have "length (taken s) + c_want (c_at s) + p_pending (p_at s) \<le> length (filled s)"
    "length (filled s) + p_want (p_at s) + c_pending (c_at s) \<le> length (taken s) + 2"
    "unat (NumBuffersFull (seg s)) \<le> 2"
    unfolding counts_ok_def Let_def by blast+
  then show ?thesis using fifo by linarith
qed

theorem shm_buffers_are_fifo_witness:
  "taken demo_shm = [[1, 2]] \<and> length (filled demo_shm) \<le> 3"
proof -
  have "length (taken demo_shm) = 1" "take 1 (filled demo_shm) = [[1, 2]]" by code_simp+
  then show ?thesis using shm_buffers_are_fifo [OF demo_shm_reachable] by auto
qed

text \<open>
  C12: While the producer writes into a buffer the consumer holds the other one or none: the two
  sides never hold the same buffer, nor the segment lock at the same time.
\<close>

theorem shm_buffers_are_exclusive:
  assumes "shm_reachable s"
  shows "\<not> (p_buf (p_at s) \<and> c_buf (c_at s) \<and> producerBuffer (seg s) = consumerBuffer (seg s)) \<and>
         \<not> (p_seg (p_at s) \<and> c_seg (c_at s))"
  using shm_inv_reachable [OF assms] unfolding shm_inv_def locks_ok_def by blast

theorem shm_buffers_are_exclusive_witness:
  "p_at demo_shm = PSegLock2 \<and> c_at demo_shm = CSegLock2 \<and>
   producerBuffer (seg demo_shm) \<noteq> consumerBuffer (seg demo_shm)"
proof -
  have "p_at demo_shm = PSegLock2" "c_at demo_shm = CSegLock2" by code_simp+
  then show ?thesis
    using shm_buffers_are_exclusive [OF demo_shm_reachable] by (simp add: p_buf_def c_buf_def)
qed



text \<open>
  The layout of the segment: with room for its header and four alignment units, the two buffers
  follow the header without overlap, fit in the segment, which fits in \<open>maxsegmentsize\<close>, start at
  aligned offsets, are not empty if anything is to be written, and every rank computes their size.
\<close>

theorem CreateShm_layout:
  assumes "0 < a" "CreateShm hdr True bs mx a = Inr L"
    and "unat hdr + 2 * unat bs + 4 * unat a \<le> 18446744073709551615"
    and "unat hdr + 4 * unat a \<le> unat mx"
  shows "unat hdr \<le> unat (off_bufA L) \<and>
         unat (off_bufB L) = unat (off_bufA L) + unat (max_size L) \<and>
         unat (totalsize L) = unat (off_bufB L) + unat (max_size L) \<and>
         unat (totalsize L) \<le> unat mx \<and>
         unat a dvd unat (off_bufA L) \<and> unat a dvd unat (off_bufB L) \<and>
         (0 < bs \<longrightarrow> 0 < max_size L) \<and>
         QueryShm_blocksize hdr (totalsize L) a = max_size L"
  using CreateShm_ok [OF assms] by simp

theorem CreateShm_layout_witness:
  "CreateShm 200 True 5000 4096 16 =
     Inr \<lparr>totalsize = 4080, max_size = 1936, off_bufA = 208, off_bufB = 2144\<rparr> \<and>
   QueryShm_blocksize 200 4080 16 = 1936"
proof -
  have L: "CreateShm 200 True 5000 4096 16 =
     Inr \<lparr>totalsize = 4080, max_size = 1936, off_bufA = 208, off_bufB = 2144\<rparr>"
    by (simp add: CreateShm_def PaddingToAlignOffset_def Let_def)
  then show ?thesis using CreateShm_layout [OF _ L] by simp
qed

end
