(* ===== verification/Adios_TwoLevelShm.thy ===== *)
theory Adios_TwoLevelShm
  imports Adios_ShmChain Adios_TokenChain
begin

section \<open>Writing a step through the aggregator (TwoLevelShm)\<close>

text \<open>
  \<open>source/adios2/engine/bp5/BP5Writer_TwoLevelShm.cpp\<close>: the aggregator of a chain writes its own
  data, the other ranks send theirs in rank order through the shared buffers, and every rank
  learns the position of its data in the file from the token. \<open>SendDataToAggregator\<close> cuts the blocks
  of \<open>DataVec\<close> into buffers; \<open>WriteOthersData_DrainOnError\<close> writes them and keeps consuming after a
  failed write. Blocks are byte lists; their lengths and offsets are \<open>nat\<close>, because a block lies in
  memory, and file positions and sizes are 64-bit words. Writing is the parameter \<open>Write\<close>, which
  appends to the file or throws.
\<close>

subsection \<open>The producer: cutting blocks into buffers\<close>

text \<open>
  The inner loop of \<open>SendDataToAggregator\<close>: \<open>buf\<close> is the content so far, its length the
  \<open>actual_size\<close>. It returns the content, the next block and the offset in it.
\<close>

definition copy_size :: "nat \<Rightarrow> nat \<Rightarrow> nat \<Rightarrow> nat \<Rightarrow> nat" where
  "copy_size maxsize actual_size iov_len temp_offset =
     (let n = iov_len - temp_offset
      in if n > maxsize - actual_size then maxsize - actual_size else n)"

function fill_loop :: "u8 list list \<Rightarrow> nat \<Rightarrow> nat \<Rightarrow> nat \<Rightarrow> u8 list \<Rightarrow> u8 list \<times> nat \<times> nat" where
  "fill_loop DataVec maxsize block temp_offset buf =
     (let n = copy_size maxsize (length buf) (length (DataVec ! block)) temp_offset;
          buf' = buf @ take n (drop temp_offset (DataVec ! block));
          (block', temp') = (if n + temp_offset < length (DataVec ! block)
                             then (block, temp_offset + n) else (block + 1, 0))
      in if length buf' \<ge> maxsize then (buf', block', temp')
         else if block' \<ge> length DataVec then (buf', block', temp')
         else fill_loop DataVec maxsize block' temp' buf')"
  by pat_completeness auto
termination
  by (relation "measure (\<lambda>(DataVec, maxsize, block, temp_offset, buf). length DataVec - block)")
    (auto simp: copy_size_def Let_def split: if_splits)

declare fill_loop.simps [simp del]

text \<open>
  The outer loop: one buffer per iteration. With a buffer size of 0 it never ends; \<open>None\<close> says that
  the fuel ran out.
\<close>

fun send_loop :: "nat \<Rightarrow> u8 list list \<Rightarrow> nat \<Rightarrow> nat \<Rightarrow> nat \<Rightarrow> u8 list list option" where
  "send_loop fuel DataVec maxsize block temp_offset =
     (if block < length DataVec
      then (case fuel of
              0 \<Rightarrow> None
            | Suc f \<Rightarrow>
                (case fill_loop DataVec maxsize block temp_offset [] of
                   (buf, block', temp') \<Rightarrow>
                     map_option ((#) buf) (send_loop f DataVec maxsize block' temp')))
      else Some [])"

declare send_loop.simps [simp del]

definition SendDataToAggregator :: "nat \<Rightarrow> u8 list list \<Rightarrow> nat \<Rightarrow> u8 list list option" where
  "SendDataToAggregator fuel DataVec maxsize = send_loop fuel DataVec maxsize 0 0"

text \<open>Enough fuel: one iteration per byte and per block.\<close>

definition send_fuel :: "u8 list list \<Rightarrow> nat" where
  "send_fuel DataVec = length (concat DataVec) + length DataVec"

definition todo :: "u8 list list \<Rightarrow> nat \<Rightarrow> nat \<Rightarrow> u8 list" where
  "todo DataVec block temp_offset = drop temp_offset (concat (drop block DataVec))"

lemma todo_block:
  assumes "block < length DataVec" "t \<le> length (DataVec ! block)"
  shows "todo DataVec block t = drop t (DataVec ! block) @ todo DataVec (Suc block) 0"
  using assms by (simp add: todo_def Cons_nth_drop_Suc [symmetric])

lemma copy_size_le:
  "copy_size m a l t \<le> m - a" "copy_size m a l t \<le> l - t"
  "copy_size m a l t + t < l \<Longrightarrow> copy_size m a l t = m - a"
  by (auto simp: copy_size_def Let_def split: if_splits)

text \<open>The three ways an iteration ends: in the middle of a block, at its end with the buffer full or
  the blocks used up, and at its end with more to copy.\<close>

lemma fill_loop_stop:
  assumes "n = copy_size maxsize (length buf) (length (DataVec ! block)) t"
    and "n + t < length (DataVec ! block)" "t \<le> length (DataVec ! block)" "length buf \<le> maxsize"
  shows "fill_loop DataVec maxsize block t buf = (buf @ take n (drop t (DataVec ! block)), block, t + n)"
    and "length (buf @ take n (drop t (DataVec ! block))) = maxsize"
proof -
  have "n = maxsize - length buf" "n \<le> length (DataVec ! block) - t"
    using copy_size_le assms by auto
  then show len: "length (buf @ take n (drop t (DataVec ! block))) = maxsize" using assms(4) by simp
  show "fill_loop DataVec maxsize block t buf = (buf @ take n (drop t (DataVec ! block)), block, t + n)"
    unfolding fill_loop.simps [of DataVec maxsize block t buf] Let_def assms(1) [symmetric]
    using assms(2) len by simp
qed

lemma fill_loop_next:
  assumes "n = copy_size maxsize (length buf) (length (DataVec ! block)) t"
    and "\<not> n + t < length (DataVec ! block)" "b1 = buf @ drop t (DataVec ! block)"
    and "t \<le> length (DataVec ! block)" "length buf \<le> maxsize"
  shows "length b1 \<le> maxsize"
    and "fill_loop DataVec maxsize block t buf =
           (if length b1 \<ge> maxsize \<or> Suc block \<ge> length DataVec then (b1, Suc block, 0)
            else fill_loop DataVec maxsize (Suc block) 0 b1)"
proof -
  have n: "n \<le> maxsize - length buf" "n = length (DataVec ! block) - t"
    using copy_size_le(1,2) [of maxsize "length buf" "length (DataVec ! block)" t] assms(1,2) by auto
  then have b1: "buf @ take n (drop t (DataVec ! block)) = b1" using assms(3) by simp
  show "length b1 \<le> maxsize" using n assms(3,5) by simp
  show "fill_loop DataVec maxsize block t buf =
           (if length b1 \<ge> maxsize \<or> Suc block \<ge> length DataVec then (b1, Suc block, 0)
            else fill_loop DataVec maxsize (Suc block) 0 b1)"
    unfolding fill_loop.simps [of DataVec maxsize block t buf] Let_def assms(1) [symmetric] b1
    using assms(2) by simp
qed

lemma fill_loop_correct:
  assumes "block < length DataVec" "t \<le> length (DataVec ! block)" "length buf \<le> maxsize"
    and "fill_loop DataVec maxsize block t buf = (buf', block', t')"
  shows "buf' @ todo DataVec block' t' = buf @ todo DataVec block t \<and> length buf' \<le> maxsize \<and>
         (block' < length DataVec \<longrightarrow> t' \<le> length (DataVec ! block') \<and> length buf' = maxsize) \<and>
         block \<le> block' \<and> block' \<le> length DataVec"
  using assms
proof (induction "length DataVec - block" arbitrary: block t buf rule: less_induct)
  case less
  define d where "d = DataVec ! block"
  define n where n_def: "n = copy_size maxsize (length buf) (length (DataVec ! block)) t"
  note td = todo_block [OF less.prems(1,2), folded d_def]
  show ?case
  proof (cases "n + t < length (DataVec ! block)")
    case True
    note stop = fill_loop_stop [OF n_def True less.prems(2,3), folded d_def]
    have res: "buf' = buf @ take n (drop t d)" "block' = block" "t' = t + n"
      using less.prems(4) stop(1) by simp_all
    have "drop t d = take n (drop t d) @ drop (t + n) d"
      by (metis append_take_drop_id drop_drop add.commute)
    then have "buf' @ todo DataVec block' t' = buf @ todo DataVec block t"
      using td res todo_block [OF less.prems(1), of "t + n", folded d_def] True
      by (simp add: d_def add.commute)
    then show ?thesis using res True less.prems(1) stop(2) by simp
  next
    case False
    note nxt = fill_loop_next [OF n_def False refl less.prems(2,3), folded d_def]
    define b1 where "b1 = buf @ drop t d"
    have eq: "b1 @ todo DataVec (Suc block) 0 = buf @ todo DataVec block t" using td by (simp add: b1_def)
    show ?thesis
    proof (cases "maxsize \<le> length b1 \<or> length DataVec \<le> Suc block")
      case True
      then have "buf' = b1" "block' = Suc block" "t' = 0"
        using less.prems(4) nxt(2) by (auto simp: b1_def)
      then show ?thesis using eq nxt(1) True less.prems(1) by (auto simp: b1_def)
    next
      case more: False
      have rest: "fill_loop DataVec maxsize (Suc block) 0 b1 = (buf', block', t')"
        using less.prems(4) nxt(2) more by (simp add: b1_def)
      have "length b1 \<le> maxsize" using nxt(1) by (simp add: b1_def)
      then show ?thesis
        using less.hyps [OF _ _ _ _ rest] more less.prems(1) eq by (simp add: diff_less_mono2)
    qed
  qed
qed

text \<open>Every iteration of the outer loop makes progress: it copies a byte or ends a block.\<close>

definition todo_size :: "u8 list list \<Rightarrow> nat \<Rightarrow> nat \<Rightarrow> nat" where
  "todo_size DataVec block t = length (todo DataVec block t) + (length DataVec - block)"

lemma send_loop_correct:
  assumes "0 < maxsize" "block \<le> length DataVec"
    and "block < length DataVec \<Longrightarrow> t \<le> length (DataVec ! block)"
    and "todo_size DataVec block t \<le> fuel"
  shows "\<exists>bufs. send_loop fuel DataVec maxsize block t = Some bufs \<and>
           concat bufs = todo DataVec block t \<and> (\<forall>b\<in>set bufs. length b \<le> maxsize)"
  using assms
proof (induction fuel arbitrary: block t)
  case 0
  then have "block = length DataVec" by (simp add: todo_size_def)
  then show ?case by (simp add: send_loop.simps [of 0] todo_def)
next
  case (Suc fuel)
  show ?case
  proof (cases "block < length DataVec")
    case False
    then have "block = length DataVec" using Suc.prems(2) by simp
    then show ?thesis by (simp add: send_loop.simps [of "Suc fuel"] todo_def)
  next
    case True
    obtain buf block' t' where f: "fill_loop DataVec maxsize block t [] = (buf, block', t')"
      by (cases "fill_loop DataVec maxsize block t []") auto
    have ok: "buf @ todo DataVec block' t' = todo DataVec block t" "length buf \<le> maxsize"
      "block' < length DataVec \<Longrightarrow> t' \<le> length (DataVec ! block') \<and> length buf = maxsize"
      "block \<le> block'" "block' \<le> length DataVec"
      using fill_loop_correct [OF True Suc.prems(3) [OF True] _ f] by simp_all
    have len: "length (todo DataVec block t) = length buf + length (todo DataVec block' t')"
      using ok(1) by (metis length_append)
    have "todo_size DataVec block' t' < todo_size DataVec block t"
      using len ok(3,4,5) True Suc.prems(1) by (cases "block' < length DataVec") (auto simp: todo_size_def)
    then obtain bufs where "send_loop fuel DataVec maxsize block' t' = Some bufs"
      "concat bufs = todo DataVec block' t'" "\<forall>b\<in>set bufs. length b \<le> maxsize"
      using Suc.IH [OF Suc.prems(1) ok(5)] ok(3) Suc.prems(4) by force
    then show ?thesis
      using True f ok by (simp add: send_loop.simps [of "Suc fuel"])
  qed
qed

lemma SendDataToAggregator_correct:
  assumes "0 < maxsize" "send_fuel DataVec \<le> fuel"
  shows "\<exists>bufs. SendDataToAggregator fuel DataVec maxsize = Some bufs \<and>
           concat bufs = concat DataVec \<and> (\<forall>b\<in>set bufs. length b \<le> maxsize)"
  using send_loop_correct [of maxsize 0 DataVec 0 fuel] assms
  by (simp add: SendDataToAggregator_def send_fuel_def todo_size_def todo_def)

text \<open>A buffer of size 0 takes nothing from a non-empty block, so the producer loops for ever.\<close>

lemma send_loop_stuck:
  assumes "block < length DataVec" "t < length (DataVec ! block)"
  shows "send_loop fuel DataVec 0 block t = None"
proof (induction fuel)
  case (Suc fuel)
  have "fill_loop DataVec 0 block t [] = ([], block, t)"
    using fill_loop_stop(1) [of 0 0 "[]" DataVec block t] assms by (simp add: copy_size_def)
  then show ?case using Suc assms by (simp add: send_loop.simps [of "Suc fuel"])
qed (use assms in \<open>simp add: send_loop.simps\<close>)

subsection \<open>The consumer: writing the buffers\<close>

text \<open>
  \<open>WriteOthersData_DrainOnError\<close> on the buffers the protocol delivers: it returns the file, the
  error captured in \<open>eptr\<close>, and the buffers it left. \<open>None\<close> says that it waits for a buffer that
  never comes.
\<close>

fun drain :: "(u8 list \<Rightarrow> u8 list \<Rightarrow> u8 list result) \<Rightarrow> u64 \<Rightarrow> u64 \<Rightarrow> u8 list list \<Rightarrow> u8 list
    \<Rightarrow> adios_error option \<Rightarrow> (u8 list \<times> adios_error option \<times> u8 list list) option" where
  "drain Write TotalSize wrote [] out eptr =
     (if wrote < TotalSize then None else Some (out, eptr, []))"
| "drain Write TotalSize wrote (b # bufs) out eptr =
     (if wrote < TotalSize
      then (let (out', eptr') =
                  (case eptr of
                     Some e \<Rightarrow> (out, Some e)
                   | None \<Rightarrow> (case Write out b of Inl e \<Rightarrow> (out, Some e) | Inr f \<Rightarrow> (f, None)))
            in drain Write TotalSize (wrote + of_nat (length b)) bufs out' eptr')
      else Some (out, eptr, b # bufs))"

definition WriteOthersData_DrainOnError ::
    "(u8 list \<Rightarrow> u8 list \<Rightarrow> u8 list result) \<Rightarrow> u64 \<Rightarrow> u8 list list \<Rightarrow> u8 list \<Rightarrow> adios_error option
       \<Rightarrow> (u8 list \<times> adios_error option \<times> u8 list list) option" where
  "WriteOthersData_DrainOnError Write TotalSize bufs out eptr =
     drain Write TotalSize 0 bufs out eptr"

text \<open>Whatever fails, the drain consumes every byte that was sent: only empty buffers may be left.\<close>

lemma drain_consumes:
  assumes "length (concat (past :: u8 list list)) + length (concat bufs) < 18446744073709551616"
    and "wrote = of_nat (length (concat past))"
    and "TotalSize = of_nat (length (concat past) + length (concat bufs))"
  shows "\<exists>out' eptr' rest. drain Write TotalSize wrote bufs out eptr = Some (out', eptr', rest) \<and>
           concat rest = []"
  using assms
proof (induction bufs arbitrary: wrote out eptr past)
  case (Cons b bufs)
  have tot: "unat TotalSize = length (concat past) + length (concat (b # bufs))"
    unfolding Cons.prems(3) using Cons.prems(1) by (intro unat_of_nat_small) simp
  have wr: "unat wrote = length (concat past)"
    unfolding Cons.prems(2) using Cons.prems(1) by (intro unat_of_nat_small) simp
  show ?case
  proof (cases "wrote < TotalSize")
    case True
    have "wrote + of_nat (length b) = of_nat (length (concat (past @ [b])))"
      using Cons.prems(2) by simp
    then show ?thesis
      using Cons.IH [of "past @ [b]" "wrote + of_nat (length b)"] Cons.prems True
      by (auto simp: split_beta Let_def)
  next
    case False
    then have "length (concat (b # bufs)) = 0" using tot wr by (simp add: word_less_nat_alt)
    then show ?thesis using False by simp
  qed
qed simp

lemma drain_writes:
  assumes "length (concat (past :: u8 list list)) + length (concat bufs) < 18446744073709551616"
    and "wrote = of_nat (length (concat past))"
    and "TotalSize = of_nat (length (concat past) + length (concat bufs))"
    and "drain Write TotalSize wrote bufs out None = Some (out', eptr', rest)"
    and "\<And>f d. Write f d = Inr (f @ d)"
  shows "out' = out @ concat bufs \<and> eptr' = None"
  using assms(1-4)
proof (induction bufs arbitrary: wrote out past)
  case (Cons b bufs)
  have tot: "unat TotalSize = length (concat past) + length (concat (b # bufs))"
    unfolding Cons.prems(3) using Cons.prems(1) by (intro unat_of_nat_small) simp
  have wr: "unat wrote = length (concat past)"
    unfolding Cons.prems(2) using Cons.prems(1) by (intro unat_of_nat_small) simp
  show ?case
  proof (cases "wrote < TotalSize")
    case True
    then show ?thesis
      using Cons.IH [of "past @ [b]" "wrote + of_nat (length b)" "out @ b"] Cons.prems
      by (simp add: assms(5))
  next
    case False
    then have "length (concat (b # bufs)) = 0" using tot wr by (simp add: word_less_nat_alt)
    then show ?thesis using False Cons.prems(4) by auto
  qed
qed (simp split: if_splits)

subsection \<open>A step of the whole chain\<close>

text \<open>
  The start positions the token carries: rank 0, the aggregator, has the file position, and each rank
  passes on its own start plus its size.
\<close>

fun start_positions :: "u64 \<Rightarrow> u64 list \<Rightarrow> u64 list" where
  "start_positions pos [] = []"
| "start_positions pos (s # ss) = pos # start_positions (pos + s) ss"

fun send_all :: "nat \<Rightarrow> nat \<Rightarrow> u8 list list list \<Rightarrow> u8 list list option" where
  "send_all fuel maxsize [] = Some []"
| "send_all fuel maxsize (d # ds) =
     (case SendDataToAggregator fuel d maxsize of
        None \<Rightarrow> None
      | Some bufs \<Rightarrow> map_option ((@) bufs) (send_all fuel maxsize ds))"

definition data_size :: "u8 list list \<Rightarrow> u64" where
  "data_size DataVec = of_nat (length (concat DataVec))"

definition WriteMyOwnData ::
    "(u8 list \<Rightarrow> u8 list \<Rightarrow> u8 list result) \<Rightarrow> u8 list list \<Rightarrow> u8 list \<Rightarrow> u8 list \<times> adios_error option" where
  "WriteMyOwnData Write DataVec out =
     (case Write out (concat DataVec) of Inl e \<Rightarrow> (out, Some e) | Inr f \<Rightarrow> (f, None))"

text \<open>
  \<open>WriteData_TwoLevelShm\<close> on a chain of ranks, the aggregator first: the start position of each rank
  (its \<open>m_StartDataPos\<close>), the file, and the error rethrown at the end.
\<close>

definition WriteData_TwoLevelShm ::
    "(u8 list \<Rightarrow> u8 list \<Rightarrow> u8 list result) \<Rightarrow> nat \<Rightarrow> nat \<Rightarrow> u64 \<Rightarrow> u8 list list \<Rightarrow> u8 list list list
       \<Rightarrow> u8 list \<Rightarrow> (u64 list \<times> u8 list \<times> adios_error option) option" where
  "WriteData_TwoLevelShm Write fuel maxsize DataPos own others out =
     (let mySizes = map data_size (own # others);
          myTotalSize = foldl (+) 0 mySizes;
          starts = start_positions DataPos mySizes;
          (out1, eptr) = WriteMyOwnData Write own out
      in if others = [] then Some (starts, out1, eptr)
         else (case send_all fuel maxsize others of
                 None \<Rightarrow> None
               | Some bufs \<Rightarrow>
                   (case WriteOthersData_DrainOnError Write (myTotalSize - data_size own) bufs out1 eptr of
                      None \<Rightarrow> None
                    | Some (out2, eptr2, rest) \<Rightarrow> Some (starts, out2, eptr2))))"

lemma send_all_correct:
  assumes "0 < maxsize" "\<And>d. d \<in> set ds \<Longrightarrow> send_fuel d \<le> fuel"
  shows "\<exists>bufs. send_all fuel maxsize ds = Some bufs \<and> concat bufs = concat (map concat ds)"
  using assms(2)
proof (induction ds)
  case (Cons d ds)
  then obtain bs where "send_all fuel maxsize ds = Some bs" "concat bs = concat (map concat ds)"
    by auto
  moreover obtain b where "SendDataToAggregator fuel d maxsize = Some b" "concat b = concat d"
    using SendDataToAggregator_correct [OF assms(1), of d fuel] Cons.prems by auto
  ultimately show ?case by simp
qed simp

lemma foldl_data_size:
  "foldl (+) (of_nat n) (map data_size ds) = of_nat (n + length (concat (map concat ds)))"
  by (induction ds arbitrary: n) (simp_all add: data_size_def add.assoc flip: of_nat_add)

lemma start_positions_nth:
  "r < length ds \<Longrightarrow>
   start_positions (of_nat n) (map data_size ds) ! r =
     of_nat (n + length (concat (map concat (take r ds))))"
proof (induction ds arbitrary: n r)
  case (Cons d ds)
  show ?case
    using Cons.IH [of "r - 1" "n + length (concat d)"] Cons.prems
    by (cases r) (simp_all add: data_size_def add.assoc)
qed simp

lemma length_start_positions [simp]: "length (start_positions pos ss) = length ss"
  by (induction pos ss rule: start_positions.induct) simp_all

lemma nth_of_concat:
  "r < length ds \<Longrightarrow>
   take (length (ds ! r)) (drop (length (concat (take r ds))) (concat ds)) = ds ! r"
  by (induction ds arbitrary: r) (auto simp: nth_Cons' take_Cons' split: nat.splits)

lemma WriteData_TwoLevelShm_ok:
  assumes max: "0 < maxsize"
    and fuel: "\<And>d. d \<in> set others \<Longrightarrow> send_fuel d \<le> fuel"
    and append: "\<And>f d. Write f d = Inr (f @ d)"
    and small: "length (concat (map concat (own # others))) < 18446744073709551616"
  shows "WriteData_TwoLevelShm Write fuel maxsize pos own others out =
    Some (start_positions pos (map data_size (own # others)),
          out @ concat (map concat (own # others)), None)"
proof (cases "others = []")
  case True
  then show ?thesis by (simp add: WriteData_TwoLevelShm_def WriteMyOwnData_def append)
next
  case False
  obtain bufs where bufs: "send_all fuel maxsize others = Some bufs"
    "concat bufs = concat (map concat others)"
    using send_all_correct [OF max fuel] by blast
  have tot: "foldl (+) 0 (map data_size (own # others)) - data_size own = of_nat (length (concat bufs))"
    using foldl_data_size [of 0 "own # others"] bufs(2) by (simp add: data_size_def)
  have sz: "length (concat bufs) < 18446744073709551616" using small bufs(2) by simp
  let ?out1 = "out @ concat own"
  obtain out' eptr' rest where drain:
    "drain Write (of_nat (length (concat bufs))) 0 bufs ?out1 None = Some (out', eptr', rest)"
    using drain_consumes [of "[]" bufs 0 _ Write ?out1 None] sz by auto
  then have "out' = ?out1 @ concat bufs" "eptr' = None"
    using drain_writes [of "[]" bufs 0 _ Write ?out1] sz append by auto
  then show ?thesis
    using False bufs drain tot
    by (simp add: WriteData_TwoLevelShm_def WriteMyOwnData_def append
        WriteOthersData_DrainOnError_def Let_def)
qed

subsection \<open>The chain of aggregators of one file\<close>

text \<open>
  Aggregators that share a file pass their end position down the line; each aligns it to the stripe
  size, and the last sends the final position back to the first.
\<close>

definition align_pos :: "u64 \<Rightarrow> u64 \<Rightarrow> u64" where
  "align_pos stripe pos = pos + PaddingToAlignOffset pos stripe"

fun aggregator_positions :: "u64 \<Rightarrow> u64 \<Rightarrow> u64 list \<Rightarrow> u64 list \<times> u64" where
  "aggregator_positions stripe pos [] = ([], pos)"
| "aggregator_positions stripe pos (tot # tots) =
     (let start = align_pos stripe pos;
          (starts, final) = aggregator_positions stripe (start + tot) tots
      in (start # starts, final))"

fun padded_total :: "u64 \<Rightarrow> u64 list \<Rightarrow> nat" where
  "padded_total stripe [] = 0"
| "padded_total stripe (tot # tots) = unat stripe + unat tot + padded_total stripe tots"

lemma aggregator_positions_ok:
  assumes "0 < stripe" "unat pos + padded_total stripe tots < 18446744073709551616"
    and "aggregator_positions stripe pos tots = (starts, final)"
  shows "length starts = length tots \<and> unat pos \<le> unat final \<and>
         (\<forall>i<length tots. unat stripe dvd unat (starts ! i) \<and> unat pos \<le> unat (starts ! i) \<and>
            unat (starts ! i) + unat (tots ! i) \<le>
              unat (if Suc i < length tots then starts ! Suc i else final))"
  using assms(2,3)
proof (induction tots arbitrary: pos starts)
  case (Cons tot tots)
  define st where "st = align_pos stripe pos"
  have le: "unat pos + unat stripe \<le> 18446744073709551616" using Cons.prems(1) by simp
  have st: "unat stripe dvd unat st" "unat pos \<le> unat st" "unat st < unat pos + unat stripe"
    using padded_up [OF assms(1) le] by (simp_all add: st_def align_pos_def)
  have sum: "unat (st + tot) = unat st + unat tot"
    using st Cons.prems(1) by (subst unat_add_small) simp_all
  obtain ss where ss: "aggregator_positions stripe (st + tot) tots = (ss, final)" "starts = st # ss"
    using Cons.prems(2) by (auto simp: st_def Let_def split: prod.splits)
  have "unat (st + tot) + padded_total stripe tots < 18446744073709551616"
    using sum st Cons.prems(1) by simp
  note IH = Cons.IH [OF this ss(1)]
  show ?case
  proof (intro conjI allI impI)
    show "length starts = length (tot # tots)" using IH ss(2) by simp
    show "unat pos \<le> unat final" using IH sum st by linarith
    fix i assume i: "i < length (tot # tots)"
    show "unat stripe dvd unat (starts ! i)" using i IH st ss(2) by (cases i) auto
    show "unat pos \<le> unat (starts ! i)"
    proof (cases i)
      case (Suc j)
      then have "unat (st + tot) \<le> unat (ss ! j)" using i IH by simp
      then show ?thesis using Suc ss(2) sum st by simp
    qed (use ss(2) st in simp)
    show "unat (starts ! i) + unat ((tot # tots) ! i)
        \<le> unat (if Suc i < length (tot # tots) then starts ! Suc i else final)"
    proof (cases i)
      case 0
      have "unat (st + tot) \<le> unat (if tots = [] then final else ss ! 0)"
        using IH by (cases tots) auto
      then show ?thesis using 0 ss(2) sum by (cases tots) auto
    next
      case (Suc j)
      then have "unat (ss ! j) + unat (tots ! j) \<le> unat (if Suc j < length tots then ss ! Suc j else final)"
        using i IH by simp
      then show ?thesis using Suc ss(2) by (cases "Suc j < length tots") simp_all
    qed
  qed
qed simp

subsection \<open>Properties\<close>



text \<open>
  C15: The producer returns: with enough fuel and a non-empty buffer \<open>SendDataToAggregator\<close> sends
  exactly the bytes of its blocks, in buffers no larger than the shared one; with a buffer of size 0
  and a first block that is not empty it never returns, whatever the fuel.
\<close>

theorem SendDataToAggregator_returns:
  "(0 < maxsize \<and> send_fuel DataVec \<le> fuel \<longrightarrow>
      (\<exists>bufs. SendDataToAggregator fuel DataVec maxsize = Some bufs \<and>
         concat bufs = concat DataVec \<and> (\<forall>b\<in>set bufs. length b \<le> maxsize))) \<and>
   (DataVec \<noteq> [] \<and> hd DataVec \<noteq> [] \<longrightarrow> SendDataToAggregator fuel DataVec 0 = None)"
  using SendDataToAggregator_correct [of maxsize DataVec fuel] send_loop_stuck [of 0 DataVec 0 fuel]
  by (cases DataVec) (auto simp: SendDataToAggregator_def)

theorem SendDataToAggregator_returns_witness:
  "(\<exists>bufs. SendDataToAggregator 6 [[1, 2, 3], [4]] 2 = Some bufs \<and> concat bufs = [1, 2, 3, 4]) \<and>
   SendDataToAggregator 6 [[1, 2, 3], [4]] 0 = None"
proof -
  have "send_fuel [[1, 2, 3], [4 :: u8]] \<le> 6" by (simp add: send_fuel_def)
  then show ?thesis using SendDataToAggregator_returns [of 2 "[[1, 2, 3], [4]]" 6] by auto
qed

text \<open>
  C16: The aggregator never strands a producer: whatever \<open>Write\<close> does, and also after an earlier
  failure, the drain ends and leaves no byte of what was sent.
\<close>

theorem drain_never_strands_producers:
  assumes "length (concat bufs) < 18446744073709551616"
  shows "\<exists>out' eptr' rest.
           WriteOthersData_DrainOnError Write (of_nat (length (concat bufs))) bufs out eptr =
             Some (out', eptr', rest) \<and> concat rest = []"
  using drain_consumes [of "[]" bufs 0 _ Write out eptr] assms
  by (simp add: WriteOthersData_DrainOnError_def)

theorem drain_never_strands_producers_witness:
  "\<exists>out' eptr' rest.
     WriteOthersData_DrainOnError (\<lambda>f d. Inl IosFailure) 3 [[1, 2], [3]] [] None =
       Some (out', eptr', rest) \<and> concat rest = []"
  using drain_never_strands_producers [of "[[1, 2], [3]]" "\<lambda>f d. Inl IosFailure" "[]" None] by simp

text \<open>
  C17: The aggregators that share a file write disjoint regions that start at multiples of the stripe
  size: each region ends before the next begins, and the last before the position of the next step.
\<close>

theorem aggregator_regions_disjoint:
  assumes "0 < stripe" "unat pos + padded_total stripe tots < 18446744073709551616"
    and "aggregator_positions stripe pos tots = (starts, final)"
  shows "length starts = length tots \<and>
         (\<forall>i<length tots. unat stripe dvd unat (starts ! i) \<and> unat pos \<le> unat (starts ! i) \<and>
            unat (starts ! i) + unat (tots ! i) \<le>
              unat (if Suc i < length tots then starts ! Suc i else final))"
  using aggregator_positions_ok [OF assms] by blast

theorem aggregator_regions_disjoint_witness:
  "aggregator_positions 4096 10 [5000, 3] = ([4096, 12288], 12291) \<and>
   unat (4096 :: u64) + unat (5000 :: u64) \<le> unat (12288 :: u64)"
proof -
  have e: "aggregator_positions 4096 10 [5000, 3] = ([4096, 12288], 12291)"
    by (simp add: align_pos_def PaddingToAlignOffset_def)
  then show ?thesis using aggregator_regions_disjoint [OF _ _ e] by force
qed

end
