(* ===== verification/Adios_Query.thy ===== *)
theory Adios_Query
  imports Adios_Subblock
begin

section \<open>Block queries\<close>

text \<open>
  \<open>source/adios2/toolkit/query/\<close>: a query is a tree of comparisons on a variable (\<open>RangeTree\<close>),
  evaluated on the minimum and maximum of blocks and sub-blocks (\<open>BlockIndex\<close>) to find the blocks a
  reader has to look at, cut to the selection, and combined by AND and OR (\<open>QueryComposite\<close>). What
  such an index owes its client is that no matching element is missed.

  Elements are of a linear order; \<open>conv\<close> stands for the extraction of a value of the variable's type
  from the comparison's string. The block lists come from the engine and are arguments.
\<close>

subsection \<open>Comparisons on an interval\<close>

datatype Op = GT | LT | GE | LE | NE | EQ

datatype Relation = AND | OR | NOT

definition strToRelation :: "string \<Rightarrow> Relation" where
  "strToRelation s = (if s = ''or'' \<or> s = ''OR'' then OR else AND)"

definition strToQueryOp :: "string \<Rightarrow> Op" where
  "strToQueryOp s =
     (if s = ''lt'' \<or> s = ''LT'' then LT
      else if s = ''gt'' \<or> s = ''GT'' then GT
      else if s = ''ge'' \<or> s = ''GE'' then GE
      else if s = ''le'' \<or> s = ''LE'' then LE
      else if s = ''eq'' \<or> s = ''EQ'' then EQ
      else if s = ''ne'' \<or> s = ''NE'' then NE
      else EQ)"

record Range =
  m_Op :: Op
  m_StrValue :: string

datatype RangeTree =
  RangeTree (m_Relation: Relation) (m_Leaves: "Range list") (m_SubNodes: "RangeTree list")

definition Range_CheckInterval :: "(string \<Rightarrow> 'a::linorder) \<Rightarrow> Range \<Rightarrow> 'a \<Rightarrow> 'a \<Rightarrow> bool" where
  "Range_CheckInterval conv r mn mx =
     (let value = conv (m_StrValue r) in
      case m_Op r of
        GT \<Rightarrow> mx > value
      | LT \<Rightarrow> mn < value
      | GE \<Rightarrow> mx \<ge> value
      | LE \<Rightarrow> mn \<le> value
      | EQ \<Rightarrow> mx \<ge> value \<and> mn \<le> value
      | NE \<Rightarrow> \<not> (mx = value \<and> mn = value))"

fun RangeTree_CheckInterval :: "(string \<Rightarrow> 'a::linorder) \<Rightarrow> RangeTree \<Rightarrow> 'a \<Rightarrow> 'a \<Rightarrow> bool" where
  "RangeTree_CheckInterval conv (RangeTree AND leaves nodes) mn mx =
     (list_all (\<lambda>r. Range_CheckInterval conv r mn mx) leaves \<and>
      list_all (\<lambda>t. RangeTree_CheckInterval conv t mn mx) nodes)"
| "RangeTree_CheckInterval conv (RangeTree OR leaves nodes) mn mx =
     (list_ex (\<lambda>r. Range_CheckInterval conv r mn mx) leaves \<or>
      list_ex (\<lambda>t. RangeTree_CheckInterval conv t mn mx) nodes)"
| "RangeTree_CheckInterval conv (RangeTree NOT leaves nodes) mn mx = False"

subsection \<open>Hits\<close>

record BlockHit =
  m_ID :: u64
  m_Regions :: "box list"

definition isLocalArrayBlock :: "BlockHit \<Rightarrow> bool" where
  "isLocalArrayBlock h = (m_Regions h = [])"

definition GetIntersection :: "box \<Rightarrow> box \<Rightarrow> box" where
  "GetIntersection box1 box2 =
     (let b1 = StartEndBox (fst box1) (snd box1) False;
          b2 = StartEndBox (fst box2) (snd box2) False;
          r = IntersectionBox b1 b2
      in StartCountBox (fst r) (snd r))"

text \<open>The two loops of \<open>applyIntersection\<close>: a region that meets a region of the other hit is replaced by
  the overlap before the next one is tried.\<close>

definition intersect_regions :: "box \<Rightarrow> box list \<Rightarrow> bool \<times> box list" where
  "intersect_regions b regions =
     (let cuts = map (\<lambda>r. GetIntersection r b) regions
      in (list_ex (\<lambda>c. fst c \<noteq> []) cuts,
          map2 (\<lambda>r c. if fst c \<noteq> [] then c else r) regions cuts))"

definition applyIntersection :: "BlockHit \<Rightarrow> BlockHit \<Rightarrow> bool \<times> BlockHit" where
  "applyIntersection h tmp =
     (if m_ID h \<noteq> m_ID tmp then (False, h)
      else if isLocalArrayBlock h \<or> isLocalArrayBlock tmp then (True, h)
      else (let (overlapped, regions) =
                  foldl (\<lambda>(ov, rs) b. let (o', rs') = intersect_regions b rs in (ov \<or> o', rs'))
                    (False, m_Regions h) (m_Regions tmp)
            in (overlapped, h\<lparr>m_Regions := regions\<rparr>)))"

definition applyExtension :: "BlockHit \<Rightarrow> BlockHit \<Rightarrow> bool \<times> BlockHit" where
  "applyExtension h tmp =
     (if m_ID h \<noteq> m_ID tmp then (False, h)
      else (True, h\<lparr>m_Regions :=
              foldl (\<lambda>rs b. if list_ex (\<lambda>r. IdenticalBoxes r b) rs then rs else rs @ [b])
                (m_Regions h) (m_Regions tmp)\<rparr>))"

subsection \<open>A query on one variable\<close>

record QueryVar =
  m_VarName :: string
  m_RangeTree :: RangeTree
  m_Selection :: box
  m_OutputRegion :: box

definition SetSelection :: "dims \<Rightarrow> dims \<Rightarrow> QueryVar \<Rightarrow> QueryVar" where
  "SetSelection start count q = q\<lparr>m_Selection := (start, count)\<rparr>"

definition IsSelectionValid :: "QueryVar \<Rightarrow> dims \<Rightarrow> bool" where
  "IsSelectionValid q shape =
     (if fst (m_Selection q) = [] then True
      else if length (fst (m_Selection q)) \<noteq> length shape then False
      else True)"

definition TouchSelection :: "QueryVar \<Rightarrow> dims \<Rightarrow> dims \<Rightarrow> bool" where
  "TouchSelection q start count =
     (if fst (m_Selection q) = [] then True
      else list_all (\<lambda>i.
             let end' = start ! i + count ! i;
                 selEnd = fst (m_Selection q) ! i + snd (m_Selection q) ! i
             in \<not> end' \<le> fst (m_Selection q) ! i \<and> \<not> selEnd \<le> start ! i) [0..<length start])"

definition IsCompatible :: "QueryVar \<Rightarrow> box \<Rightarrow> bool" where
  "IsCompatible q b =
     (if fst (m_Selection q) = [] \<or> fst b = [] then True
      else if length (fst b) \<noteq> length (fst (m_Selection q)) then False
      else list_all (\<lambda>n. snd b ! n = snd (m_Selection q) ! n) [0..<length (snd b)])"

text \<open>\<open>LimitToSelection\<close> runs from the last hit to the first and stops at one without regions.\<close>

definition limit_regions :: "box \<Rightarrow> box list \<Rightarrow> bool \<times> box list" where
  "limit_regions sel regions =
     (let cuts = map (GetIntersection sel) regions
      in (list_ex (\<lambda>c. fst c \<noteq> []) cuts,
          map2 (\<lambda>r c. if fst c \<noteq> [] then c else r) regions cuts))"

fun limit_rev :: "box \<Rightarrow> BlockHit list \<Rightarrow> BlockHit list" where
  "limit_rev sel [] = []"
| "limit_rev sel (h # hs) =
     (if isLocalArrayBlock h then h # hs
      else (let (keepBlk, regions) = limit_regions sel (m_Regions h)
            in (if keepBlk then [h\<lparr>m_Regions := regions\<rparr>] else []) @ limit_rev sel hs))"

definition LimitToSelection :: "QueryVar \<Rightarrow> BlockHit list \<Rightarrow> BlockHit list" where
  "LimitToSelection q hits = rev (limit_rev (m_Selection q) (rev hits))"

subsection \<open>BlockIndex\<close>

text \<open>What the engine reports of a block: its place, its minimum and maximum, and the minima and maxima
  of its sub-blocks, alternating.\<close>

record 'a BlockInfo =
  BlockID :: u64
  Start :: dims
  Count :: dims
  Min :: 'a
  Max :: 'a
  MinMaxs :: "'a list"
  SubBlockInfo :: BlockDivisionInfo

definition sub_block :: "'a BlockInfo \<Rightarrow> nat \<Rightarrow> box" where
  "sub_block b i =
     (let sb = GetSubBlock (Count b) (CalculateSubblockInfo (Count b) (SubBlockInfo b)) (of_nat i)
      in (map2 (+) (fst sb) (Start b), snd sb))"

definition sub_hit :: "(string \<Rightarrow> 'a::linorder) \<Rightarrow> QueryVar \<Rightarrow> 'a BlockInfo \<Rightarrow> nat \<Rightarrow> bool" where
  "sub_hit conv q b i =
     RangeTree_CheckInterval conv (m_RangeTree q) (MinMaxs b ! (2 * i)) (MinMaxs b ! (2 * i + 1))"

definition eval_block ::
    "(string \<Rightarrow> 'a::linorder) \<Rightarrow> QueryVar \<Rightarrow> bool \<Rightarrow> 'a BlockInfo \<Rightarrow> BlockHit list" where
  "eval_block conv q isLocalArray b =
     (if \<not> RangeTree_CheckInterval conv (m_RangeTree q) (Min b) (Max b) then []
      else if isLocalArray then [\<lparr>m_ID = BlockID b, m_Regions = []\<rparr>]
      else if \<not> TouchSelection q (Start b) (Count b) then []
      else (let numSubBlocks = length (MinMaxs b) div 2;
                allCovered = list_all (sub_hit conv q b) [0..<numSubBlocks];
                regions = filter (\<lambda>r. TouchSelection q (fst r) (snd r))
                            (map (sub_block b) (filter (sub_hit conv q b) [0..<numSubBlocks]))
            in if MinMaxs b \<noteq> [] \<and> \<not> allCovered then [\<lparr>m_ID = BlockID b, m_Regions = regions\<rparr>]
               else [\<lparr>m_ID = BlockID b, m_Regions = [(Start b, Count b)]\<rparr>]))"

definition RunStatBlocksInfo ::
    "(string \<Rightarrow> 'a::linorder) \<Rightarrow> QueryVar \<Rightarrow> bool \<Rightarrow> 'a BlockInfo list \<Rightarrow> BlockHit list" where
  "RunStatBlocksInfo conv q isLocalArray infos = concat (map (eval_block conv q isLocalArray) infos)"

text \<open>BP5 reports no sub-blocks.\<close>

definition RunStatMinBlocksInfo ::
    "(string \<Rightarrow> 'a::linorder) \<Rightarrow> QueryVar \<Rightarrow> bool \<Rightarrow> 'a BlockInfo list \<Rightarrow> BlockHit list" where
  "RunStatMinBlocksInfo conv q isLocalArray infos =
     concat (map (\<lambda>b.
       if \<not> RangeTree_CheckInterval conv (m_RangeTree q) (Min b) (Max b) then []
       else if \<not> isLocalArray
       then (if \<not> TouchSelection q (Start b) (Count b) then []
             else [\<lparr>m_ID = BlockID b, m_Regions = [(Start b, Count b)]\<rparr>])
       else [\<lparr>m_ID = BlockID b, m_Regions = []\<rparr>]) infos)"

record 'a VarBlocks =
  vb_Shape :: dims
  vb_isLocalArray :: bool
  vb_MinBlocksInfo :: "'a BlockInfo list option"
  vb_BlocksInfo :: "'a BlockInfo list"

definition Evaluate :: "(string \<Rightarrow> 'a::linorder) \<Rightarrow> QueryVar \<Rightarrow> 'a VarBlocks \<Rightarrow> BlockHit list" where
  "Evaluate conv q v =
     (if \<not> IsSelectionValid q (vb_Shape v) then []
      else case vb_MinBlocksInfo v of
             Some infos \<Rightarrow> RunStatMinBlocksInfo conv q (vb_isLocalArray v) infos
           | None \<Rightarrow> RunStatBlocksInfo conv q (vb_isLocalArray v) (vb_BlocksInfo v))"

text \<open>
  \<open>QueryVar::BlockIndexEvaluate\<close>. Its last loop applies \<open>ApplyOutputRegion\<close> to copies of the hits
  (\<open>for (auto blk : touchedBlocks)\<close>), so the regions it returns are not shifted.
\<close>

definition QueryVar_Evaluate :: "(string \<Rightarrow> 'a::linorder) \<Rightarrow> 'a VarBlocks \<Rightarrow> QueryVar \<Rightarrow> BlockHit list" where
  "QueryVar_Evaluate conv v q =
     (let touchedBlocks = Evaluate conv q v
      in if touchedBlocks \<noteq> [] then LimitToSelection q touchedBlocks else touchedBlocks)"

subsection \<open>Composite queries\<close>

datatype Query = QVar QueryVar | QComposite Relation "Query list"

definition AddNode :: "Query \<Rightarrow> Relation \<Rightarrow> Query list \<Rightarrow> Query list result" where
  "AddNode n rel nodes = (if rel = NOT then Inl IosFailure else Inr (nodes @ [n]))"

fun and_inner :: "BlockHit \<Rightarrow> BlockHit list \<Rightarrow> bool \<times> BlockHit" where
  "and_inner t [] = (False, t)"
| "and_inner t (b # cur) =
     (let (ok, t') = applyIntersection t b in if ok then (True, t') else and_inner t' cur)"

text \<open>\<open>lf_ApplyAND\<close>: the loop counts \<open>i\<close> from the size down to 1, reads \<open>touched[i]\<close> and erases the
  element before it.\<close>

fun and_loop :: "nat \<Rightarrow> BlockHit list \<Rightarrow> BlockHit list \<Rightarrow> BlockHit list result" where
  "and_loop 0 touched cur = Inr touched"
| "and_loop (Suc k) touched cur =
     (if length touched \<le> Suc k then Inl UndefinedBehaviour
      else (let (intersects, t') = and_inner (touched ! Suc k) cur;
                touched1 = touched[Suc k := t']
            in and_loop k (if intersects then touched1 else take k touched1 @ drop (Suc k) touched1)
                 cur))"

definition ApplyAND :: "BlockHit list \<Rightarrow> BlockHit list \<Rightarrow> BlockHit list result" where
  "ApplyAND touched cur = (if cur = [] then Inr [] else and_loop (length touched) touched cur)"

text \<open>\<open>lf_ApplyOR\<close>: the extension is made on a copy of the hit and lost.\<close>

definition ApplyOR :: "BlockHit list \<Rightarrow> BlockHit list \<Rightarrow> BlockHit list" where
  "ApplyOR touched cur =
     foldl (\<lambda>touched b. if list_ex (\<lambda>h. fst (applyExtension h b)) touched then touched
                       else touched @ [b]) touched cur"

fun BlockIndexEvaluate :: "(QueryVar \<Rightarrow> BlockHit list) \<Rightarrow> Query \<Rightarrow> BlockHit list result"
  and evaluate_nodes :: "(QueryVar \<Rightarrow> BlockHit list) \<Rightarrow> Relation \<Rightarrow> bool \<Rightarrow> BlockHit list \<Rightarrow> Query list
        \<Rightarrow> BlockHit list result" where
  "BlockIndexEvaluate var (QVar q) = Inr (var q)"
| "BlockIndexEvaluate var (QComposite rel nodes) = evaluate_nodes var rel True [] nodes"
| "evaluate_nodes var rel first touched [] = Inr touched"
| "evaluate_nodes var rel first touched (n # ns) =
     bindR (BlockIndexEvaluate var n) (\<lambda>cur.
       if first then evaluate_nodes var rel False cur ns
       else if cur = []
       then (if rel = AND then Inr [] else evaluate_nodes var rel False touched ns)
       else if rel = AND
       then bindR (ApplyAND touched cur) (\<lambda>t. evaluate_nodes var rel False t ns)
       else if rel = OR then evaluate_nodes var rel False (ApplyOR touched cur) ns
       else evaluate_nodes var rel False touched ns)"

definition GetResultCoverage :: "(QueryVar \<Rightarrow> BlockHit list) \<Rightarrow> Query \<Rightarrow> u64 list result" where
  "GetResultCoverage var q = bindR (BlockIndexEvaluate var q) (\<lambda>hits. Inr (map m_ID hits))"

subsection \<open>What a comparison means\<close>

definition Range_holds :: "(string \<Rightarrow> 'a::linorder) \<Rightarrow> Range \<Rightarrow> 'a \<Rightarrow> bool" where
  "Range_holds conv r v =
     (case m_Op r of
        GT \<Rightarrow> v > conv (m_StrValue r) | LT \<Rightarrow> v < conv (m_StrValue r)
      | GE \<Rightarrow> v \<ge> conv (m_StrValue r) | LE \<Rightarrow> v \<le> conv (m_StrValue r)
      | EQ \<Rightarrow> v = conv (m_StrValue r) | NE \<Rightarrow> v \<noteq> conv (m_StrValue r))"

fun RangeTree_holds :: "(string \<Rightarrow> 'a::linorder) \<Rightarrow> RangeTree \<Rightarrow> 'a \<Rightarrow> bool" where
  "RangeTree_holds conv (RangeTree rel leaves nodes) v =
     (case rel of
        AND \<Rightarrow> list_all (\<lambda>r. Range_holds conv r v) leaves \<and> list_all (\<lambda>t. RangeTree_holds conv t v) nodes
      | OR \<Rightarrow> list_ex (\<lambda>r. Range_holds conv r v) leaves \<or> list_ex (\<lambda>t. RangeTree_holds conv t v) nodes
      | NOT \<Rightarrow> False)"

lemma Range_sound:
  "mn \<le> v \<Longrightarrow> v \<le> mx \<Longrightarrow> Range_holds conv r v \<Longrightarrow> Range_CheckInterval conv r mn mx"
  by (cases "m_Op r") (auto simp: Range_holds_def Range_CheckInterval_def Let_def)

lemma Range_complete:
  "mn \<le> mx \<Longrightarrow> Range_CheckInterval conv r mn mx \<Longrightarrow> \<exists>v. mn \<le> v \<and> v \<le> mx \<and> Range_holds conv r v"
  by (cases "m_Op r") (auto simp: Range_holds_def Range_CheckInterval_def Let_def)

lemma RangeTree_sound:
  "RangeTree_holds conv T v \<Longrightarrow> mn \<le> v \<Longrightarrow> v \<le> mx \<Longrightarrow> RangeTree_CheckInterval conv T mn mx"
  by (induction conv T mn mx rule: RangeTree_CheckInterval.induct)
    (fastforce simp: list_all_iff list_ex_iff intro: Range_sound)+

subsection \<open>Blocks below the end of the address space\<close>

text \<open>\<open>below s c\<close>: the exclusive ends of the block do not wrap, as \<open>TouchSelection\<close> needs.\<close>

definition below :: "dims \<Rightarrow> dims \<Rightarrow> bool" where
  "below s c \<longleftrightarrow> length c = length s \<and>
     (\<forall>d<length s. unat (s ! d) + unat (c ! d) < 18446744073709551616)"

definition covers :: "box \<Rightarrow> dims \<Rightarrow> bool" where
  "covers r p \<longleftrightarrow> below (fst r) (snd r) \<and> in_block (fst r) (snd r) p"

lemma below_fits: "below s c \<Longrightarrow> fits s c"
  by (auto simp: below_def fits_def less_imp_le)

lemma in_block_solid: "in_block s c p \<Longrightarrow> length c = length s \<Longrightarrow> solid c"
  by (auto simp: in_block_def solid_def in_set_conv_nth) (metis word_gt_0 not_less_zero word_not_simps(1))

lemma in_block_unat:
  "in_block s c p \<Longrightarrow> d < length s \<Longrightarrow> unat (s ! d) \<le> unat (p ! d) \<and> unat (p ! d) < unat (s ! d) + unat (c ! d)"
  using in_blockD(1,2) [of s c p d] by (auto simp: word_nat unat_diff_le)

lemma GetIntersection_eq:
  "length (fst b2) = length (fst b1) \<Longrightarrow>
   GetIntersection b1 b2 = IntersectionStartCount (fst b1) (snd b1) (fst b2) (snd b2)"
  by (simp add: GetIntersection_def IntersectionStartCount_eq_composition Let_def)

lemma end_unat:
  "below s c \<Longrightarrow> d < length s \<Longrightarrow> unat (s ! d + c ! d) = unat (s ! d) + unat (c ! d)"
  by (subst unat_add_small) (simp_all add: below_def)

lemma TouchSelection_covers:
  assumes "covers (m_Selection q) p" "below s c" "in_block s c p" "length (fst (m_Selection q)) = length s"
  shows "TouchSelection q s c"
proof -
  have "\<not> s ! d + c ! d \<le> fst (m_Selection q) ! d \<and> \<not> fst (m_Selection q) ! d + snd (m_Selection q) ! d \<le> s ! d"
    if d: "d < length s" for d
  proof -
    have sel: "below (fst (m_Selection q)) (snd (m_Selection q))"
      "in_block (fst (m_Selection q)) (snd (m_Selection q)) p" using assms(1) by (auto simp: covers_def)
    show ?thesis
      using in_block_unat [OF assms(3) d] in_block_unat [OF sel(2), of d] end_unat [OF assms(2) d]
        end_unat [OF sel(1), of d] d assms(4) by (simp add: word_nat)
  qed
  then show ?thesis by (simp add: TouchSelection_def list_all_upt Let_def)
qed

lemma GetIntersection_covers:
  assumes "covers b1 p" "covers b2 p" "p \<noteq> []"
  shows "fst (GetIntersection b1 b2) \<noteq> [] \<and>
         in_block (fst (GetIntersection b1 b2)) (snd (GetIntersection b1 b2)) p"
proof -
  have b: "fits (fst b1) (snd b1)" "fits (fst b2) (snd b2)" "in_block (fst b1) (snd b1) p"
    "in_block (fst b2) (snd b2) p"
    using assms by (auto simp: covers_def below_fits)
  then have len: "length (fst b2) = length (fst b1)" by (metis in_blockD(3))
  have "in_block (fst (GetIntersection b1 b2)) (snd (GetIntersection b1 b2)) p"
    unfolding GetIntersection_eq [OF len]
    using IntersectionStartCount_points [OF len b(1) _ b(2) _ assms(3)] in_block_solid b
    by (simp add: fits_def)
  moreover from this have "fst (GetIntersection b1 b2) \<noteq> []" using assms(3) by (auto simp: in_block_def)
  ultimately show ?thesis by blast
qed

subsection \<open>No matching element is missed\<close>

text \<open>
  \<open>stats_ok f b\<close>: the minima and maxima of block \<open>b\<close> bound the data \<open>f\<close>, given on global
  coordinates, in the block and in each of its sub-blocks.
\<close>

definition stats_ok :: "(dims \<Rightarrow> 'a::linorder) \<Rightarrow> 'a BlockInfo \<Rightarrow> bool" where
  "stats_ok f b \<longleftrightarrow>
     below (Start b) (Count b) \<and>
     (\<forall>p. in_block (Start b) (Count b) p \<longrightarrow> Min b \<le> f p \<and> f p \<le> Max b) \<and>
     (MinMaxs b \<noteq> [] \<longrightarrow>
        (let info = CalculateSubblockInfo (Count b) (SubBlockInfo b) in
         length (Div info) = length (Count b) \<and> (\<forall>d\<in>set (Div info). 0 < d) \<and>
         prod_list (map unat (Div info)) \<le> 4096 \<and>
         length (MinMaxs b) = 2 * unat (NBlocks info) \<and>
         (\<forall>i<unat (NBlocks info). \<forall>p. in_block (fst (sub_block b i)) (snd (sub_block b i)) p \<longrightarrow>
            MinMaxs b ! (2 * i) \<le> f p \<and> f p \<le> MinMaxs b ! (2 * i + 1))))"

lemma CalculateSubblockInfo_Div [simp]: "Div (CalculateSubblockInfo c i) = Div i"
  by (simp add: CalculateSubblockInfo_def Let_def)

lemma shifted_in_block:
  assumes "in_block ss sc (map2 (-) p s)" "in_block s c p" "length ss = length s" "length sc = length s"
    and "\<And>d. d < length s \<Longrightarrow> unat (ss ! d) + unat (sc ! d) \<le> unat (c ! d)" "below s c"
  shows "covers (map2 (+) ss s, sc) p"
proof -
  have d: "unat (ss ! d + s ! d) = unat (ss ! d) + unat (s ! d) \<and>
      unat (ss ! d) + unat (s ! d) + unat (sc ! d) < 18446744073709551616 \<and>
      unat (ss ! d) + unat (s ! d) \<le> unat (p ! d) \<and> unat (p ! d) < unat (ss ! d) + unat (s ! d) + unat (sc ! d)"
    if "d < length s" for d
  proof -
    have "unat (s ! d) + unat (c ! d) < 18446744073709551616" using assms(6) that by (simp add: below_def)
    moreover have "unat (ss ! d) + unat (sc ! d) \<le> unat (c ! d)" by (rule assms(5) [OF that])
    moreover have "map2 (-) p s ! d = p ! d - s ! d" "s ! d \<le> p ! d"
      using that assms(2) by (auto simp: in_block_def)
    moreover from this have "unat (map2 (-) p s ! d) = unat (p ! d) - unat (s ! d)" "unat (s ! d) \<le> unat (p ! d)"
      by (simp_all add: unat_diff_le word_le_nat_alt)
    moreover have "unat (ss ! d) \<le> unat (map2 (-) p s ! d) \<and>
        unat (map2 (-) p s ! d) < unat (ss ! d) + unat (sc ! d)"
      using in_block_unat [OF assms(1), of d] that assms(3) by simp
    ultimately have "unat (ss ! d) + unat (s ! d) + unat (sc ! d) < 18446744073709551616 \<and>
      unat (ss ! d) + unat (s ! d) \<le> unat (p ! d) \<and> unat (p ! d) < unat (ss ! d) + unat (s ! d) + unat (sc ! d)"
      by linarith
    moreover from this have "unat (ss ! d + s ! d) = unat (ss ! d) + unat (s ! d)"
      by (intro unat_add_small) simp
    ultimately show ?thesis by blast
  qed
  have "length p = length s" using assms(2) by (simp add: in_block_def)
  then show ?thesis
    using d assms(3,4)
    by (simp add: covers_def below_def in_block_def word_le_nat_alt word_less_nat_alt unat_diff_le)
      (metis add.commute less_diff_conv2 unat_diff_le word_le_nat_alt)
qed

lemma sub_block_covers:
  assumes ok: "info_ok (Count b) (CalculateSubblockInfo (Count b) (SubBlockInfo b))"
    and blk: "below (Start b) (Count b)" "in_block (Start b) (Count b) p"
  shows "\<exists>i < unat (NBlocks (CalculateSubblockInfo (Count b) (SubBlockInfo b))). covers (sub_block b i) p"
proof -
  let ?info = "CalculateSubblockInfo (Count b) (SubBlockInfo b)" let ?c = "Count b" let ?q = "map2 (-) p (Start b)"
  have len: "length ?c = length (Start b)" "length p = length (Start b)"
    using blk by (auto simp: below_def in_block_def)
  have "in_block (replicate (length ?c) 0) ?c ?q"
    using blk(2) len by (auto simp: in_block_def)
  then obtain i where i: "i < unat (NBlocks ?info)"
    "in_block (fst (GetSubBlock ?c ?info (of_nat i))) (snd (GetSubBlock ?c ?info (of_nat i))) ?q"
    using subblock_covers [OF ok] by blast
  have "unat (fst (GetSubBlock ?c ?info (of_nat i)) ! d) + unat (snd (GetSubBlock ?c ?info (of_nat i)) ! d)
      \<le> unat (?c ! d)" if "d < length (Start b)" for d
    using GetSubBlock_piece [OF ok _ i(1), of d] that len
      cut_less [OF digit_less [OF ok _ i(1)], of d "unat (?c ! d)"]
    by (simp add: cut_Suc)
  then have "covers (sub_block b i) p"
    unfolding sub_block_def Let_def
    by (intro shifted_in_block [OF i(2) blk(2)]) (use len blk(1) in auto)
  then show ?thesis using i(1) by blast
qed

definition hit_covers :: "u64 \<Rightarrow> dims \<Rightarrow> BlockHit \<Rightarrow> bool" where
  "hit_covers i p h \<longleftrightarrow> m_ID h = i \<and> (\<exists>r\<in>set (m_Regions h). covers r p)"

lemma eval_block_covers:
  assumes stats: "stats_ok f b" and p: "in_block (Start b) (Count b) p"
    and sel: "covers (m_Selection q) p" and holds: "RangeTree_holds conv (m_RangeTree q) (f p)"
  shows "\<exists>h\<in>set (eval_block conv q False b). hit_covers (BlockID b) p h"
proof -
  have below: "below (Start b) (Count b)" using stats by (simp add: stats_ok_def)
  have len: "length (fst (m_Selection q)) = length p" "length (Start b) = length p"
    using sel p by (auto simp: covers_def in_block_def)
  have hit: "RangeTree_CheckInterval conv (m_RangeTree q) (Min b) (Max b)"
    using stats p holds by (auto simp: stats_ok_def intro: RangeTree_sound)
  have touch: "TouchSelection q (Start b) (Count b)"
    using TouchSelection_covers [OF sel below p] len by simp
  have whole: "covers (Start b, Count b) p" using below p by (simp add: covers_def)
  show ?thesis
  proof (cases "MinMaxs b \<noteq> [] \<and> \<not> list_all (sub_hit conv q b) [0..<length (MinMaxs b) div 2]")
    case False
    then show ?thesis using hit touch whole by (auto simp: eval_block_def Let_def hit_covers_def)
  next
    case True
    let ?info = "CalculateSubblockInfo (Count b) (SubBlockInfo b)"
    have st: "length (Div (SubBlockInfo b)) = length (Count b)" "\<forall>d\<in>set (Div (SubBlockInfo b)). 0 < d"
      "prod_list (map unat (Div (SubBlockInfo b))) \<le> 4096"
      "length (MinMaxs b) = 2 * unat (NBlocks ?info)"
      and bounds: "\<And>i. i < unat (NBlocks ?info) \<Longrightarrow> in_block (fst (sub_block b i)) (snd (sub_block b i)) p \<Longrightarrow>
            MinMaxs b ! (2 * i) \<le> f p \<and> f p \<le> MinMaxs b ! (2 * i + 1)"
      using stats True by (auto simp: stats_ok_def Let_def)
    have "info_ok (Count b) ?info" by (rule CalculateSubblockInfo_ok [OF st(1-3)])
    then obtain i where i: "i < unat (NBlocks ?info)" "covers (sub_block b i) p"
      using sub_block_covers below p by blast
    then have "sub_hit conv q b i"
      using bounds holds unfolding sub_hit_def covers_def by (blast intro: RangeTree_sound)
    moreover have "TouchSelection q (fst (sub_block b i)) (snd (sub_block b i))"
      using i(2) len by (intro TouchSelection_covers [OF sel]) (auto simp: covers_def in_block_def)
    ultimately show ?thesis
      using hit touch True i st(4) by (auto simp: eval_block_def Let_def hit_covers_def)
  qed
qed

lemma RunStatMin_covers:
  assumes "b \<in> set infos" "stats_ok f b" "in_block (Start b) (Count b) p"
    and "covers (m_Selection q) p" "RangeTree_holds conv (m_RangeTree q) (f p)"
  shows "\<exists>h\<in>set (RunStatMinBlocksInfo conv q False infos). hit_covers (BlockID b) p h"
proof -
  have "length (fst (m_Selection q)) = length (Start b)"
    using assms(3,4) by (auto simp: covers_def in_block_def)
  then have "TouchSelection q (Start b) (Count b)"
    using assms TouchSelection_covers by (auto simp: stats_ok_def)
  moreover have "RangeTree_CheckInterval conv (m_RangeTree q) (Min b) (Max b)"
    using assms by (auto simp: stats_ok_def intro: RangeTree_sound)
  moreover have "covers (Start b, Count b) p" using assms(2,3) by (simp add: covers_def stats_ok_def)
  ultimately show ?thesis using assms(1) by (force simp: RunStatMinBlocksInfo_def hit_covers_def)
qed

definition hit_has :: "u64 \<Rightarrow> dims \<Rightarrow> BlockHit \<Rightarrow> bool" where
  "hit_has i p h \<longleftrightarrow> m_ID h = i \<and> (\<exists>r\<in>set (m_Regions h). in_block (fst r) (snd r) p)"

lemma hit_covers_has: "hit_covers i p h \<Longrightarrow> hit_has i p h"
  by (auto simp: hit_covers_def hit_has_def covers_def)

lemma limit_regions_covers:
  assumes "r \<in> set regions" "covers r p" "covers sel p" "p \<noteq> []"
    and "limit_regions sel regions = (keep, regions')"
  shows "keep \<and> (\<exists>r\<in>set regions'. in_block (fst r) (snd r) p)"
proof -
  let ?c = "GetIntersection sel r"
  have c: "fst ?c \<noteq> []" "in_block (fst ?c) (snd ?c) p"
    using GetIntersection_covers [OF assms(3,2,4)] by auto
  have "?c \<in> set regions'"
    using assms(1,5) c(1) by (force simp: limit_regions_def Let_def map2_map_map in_set_zip in_set_conv_nth)
  moreover have keep using assms(1,5) c(1) by (auto simp: limit_regions_def Let_def list_ex_iff)
  ultimately show ?thesis using c(2) by blast
qed

lemma limit_rev_covers:
  assumes "h \<in> set hs" "hit_covers i p h" "covers sel p" "p \<noteq> []"
  shows "\<exists>h'\<in>set (limit_rev sel hs). hit_has i p h'"
  using assms(1)
proof (induction hs)
  case (Cons x hs)
  obtain keep regions where lr: "limit_regions sel (m_Regions x) = (keep, regions)"
    by (cases "limit_regions sel (m_Regions x)")
  show ?case
  proof (cases "isLocalArrayBlock x")
    case True
    then show ?thesis using Cons.prems hit_covers_has [OF assms(2)] by auto
  next
    case False
    show ?thesis
    proof (cases "h = x")
      case True
      then obtain r where r: "r \<in> set (m_Regions x)" "covers r p" "m_ID x = i"
        using assms(2) by (auto simp: hit_covers_def)
      have "keep \<and> (\<exists>r\<in>set regions. in_block (fst r) (snd r) p)"
        by (rule limit_regions_covers [OF r(1,2) assms(3,4) lr])
      then show ?thesis using False lr r(3) by (auto simp: hit_has_def)
    next
      case nx: False
      then show ?thesis using False Cons lr by auto
    qed
  qed
qed simp

lemma LimitToSelection_covers:
  assumes "h \<in> set hs" "hit_covers i p h" "covers (m_Selection q) p" "p \<noteq> []"
  shows "\<exists>h'\<in>set (LimitToSelection q hs). hit_has i p h'"
  using limit_rev_covers [of h "rev hs"] assms by (simp add: LimitToSelection_def)

text \<open>The blocks the engine reports: with sub-blocks, or from BP5 without.\<close>

definition reported :: "'a VarBlocks \<Rightarrow> 'a BlockInfo list" where
  "reported v = (case vb_MinBlocksInfo v of Some infos \<Rightarrow> infos | None \<Rightarrow> vb_BlocksInfo v)"

lemma QueryVar_Evaluate_covers:
  assumes "\<not> vb_isLocalArray v" "length (vb_Shape v) = length p" "p \<noteq> []"
    and "b \<in> set (reported v)" "stats_ok f b" "in_block (Start b) (Count b) p"
    and "covers (m_Selection q) p" "RangeTree_holds conv (m_RangeTree q) (f p)"
  shows "\<exists>h\<in>set (QueryVar_Evaluate conv v q). hit_has (BlockID b) p h"
proof -
  have "length (fst (m_Selection q)) = length (vb_Shape v)"
    using assms(2,7) by (simp add: covers_def in_block_def)
  then have valid: "IsSelectionValid q (vb_Shape v)" by (simp add: IsSelectionValid_def)
  have "\<exists>h\<in>set (Evaluate conv q v). hit_covers (BlockID b) p h"
    using assms valid eval_block_covers [OF assms(5-8)] RunStatMin_covers [OF _ assms(5-8)]
    by (cases "vb_MinBlocksInfo v") (auto simp: Evaluate_def reported_def RunStatBlocksInfo_def)
  then obtain h where h: "h \<in> set (Evaluate conv q v)" "hit_covers (BlockID b) p h" by blast
  then have "QueryVar_Evaluate conv v q = LimitToSelection q (Evaluate conv q v)"
    by (auto simp: QueryVar_Evaluate_def Let_def)
  then show ?thesis using LimitToSelection_covers [OF h assms(7,3)] by simp
qed

subsection \<open>Composite queries keep the blocks of OR\<close>

lemma ApplyOR_ids: "set (map m_ID touched) \<union> set (map m_ID cur) = set (map m_ID (ApplyOR touched cur))"
  unfolding ApplyOR_def
proof (induction cur arbitrary: touched)
  case (Cons b cur)
  show ?case
  proof (cases "list_ex (\<lambda>h. fst (applyExtension h b)) touched")
    case True
    then have "m_ID b \<in> m_ID ` set touched"
      by (auto simp: list_ex_iff applyExtension_def split: if_splits) (metis image_eqI)
    then show ?thesis using Cons.IH [of touched] True by auto
  next
    case False
    then show ?thesis using Cons.IH [of "touched @ [b]"] by auto
  qed
qed simp

lemma evaluate_nodes_or:
  assumes "evaluate_nodes var OR first touched nodes = Inr hits"
  shows "(\<not> first \<longrightarrow> m_ID ` set touched \<subseteq> m_ID ` set hits) \<and>
         (\<forall>n\<in>set nodes. \<exists>h. BlockIndexEvaluate var n = Inr h \<and> m_ID ` set h \<subseteq> m_ID ` set hits)"
  using assms
proof (induction nodes arbitrary: first touched)
  case (Cons n ns)
  then obtain h where h: "BlockIndexEvaluate var n = Inr h" by (auto simp: result_simps)
  have or: "m_ID ` set touched \<union> m_ID ` set h = m_ID ` set (ApplyOR touched h)"
    using ApplyOR_ids [of touched h] by simp
  show ?case
  proof (cases first)
    case True
    then have "evaluate_nodes var OR False h ns = Inr hits" using Cons.prems h by simp
    from Cons.IH [OF this] show ?thesis using h True by simp
  next
    case False
    show ?thesis
    proof (cases "h = []")
      case True
      then have "evaluate_nodes var OR False touched ns = Inr hits" using Cons.prems h False by simp
      from Cons.IH [OF this] show ?thesis using h True by simp
    next
      case ne: False
      then have "evaluate_nodes var OR False (ApplyOR touched h) ns = Inr hits"
        using Cons.prems h False by simp
      from Cons.IH [OF this] show ?thesis using h or by auto
    qed
  qed
qed simp

lemma ApplyAND_out_of_bounds:
  "touched \<noteq> [] \<Longrightarrow> cur \<noteq> [] \<Longrightarrow> ApplyAND touched cur = Inl UndefinedBehaviour"
  by (cases "length touched") (auto simp: ApplyAND_def)

subsection \<open>A block of four elements in two sub-blocks\<close>

definition demo_block :: "nat BlockInfo" where
  "demo_block =
     \<lparr>BlockID = 7, Start = [10], Count = [4], Min = 1, Max = 9, MinMaxs = [1, 2, 8, 9],
      SubBlockInfo = \<lparr>Div = [2], Rem = [0], ReverseDivProduct = [1], SubBlockSize = 2, NBlocks = 2,
        DivisionMethod = Contiguous\<rparr>\<rparr>"

definition demo_query :: QueryVar where
  "demo_query =
     \<lparr>m_VarName = ''T'', m_RangeTree = RangeTree AND [\<lparr>m_Op = GT, m_StrValue = ''7''\<rparr>] [],
      m_Selection = ([0], [20]), m_OutputRegion = ([], [])\<rparr>"

definition demo_data :: "dims \<Rightarrow> nat" where
  "demo_data p = (if unat (p ! 0) < 12 then 2 else 8)"

lemma demo_stats: "stats_ok demo_data demo_block"
proof -
  let ?info = "CalculateSubblockInfo [4] (SubBlockInfo demo_block)"
  have sub: "sub_block demo_block 0 = ([10], [2])" "sub_block demo_block 1 = ([12], [2])"
    "unat (NBlocks ?info) = 2"
    by code_simp+
  have pts: "unat s \<le> unat (p ! 0) \<and> unat (p ! 0) < unat s + unat c" if "in_block [s] [c] p" for s c p
    using in_block_unat [OF that, of 0] by simp
  have "MinMaxs demo_block ! (2 * i) \<le> demo_data p \<and> demo_data p \<le> MinMaxs demo_block ! (2 * i + 1)"
    if i: "i < 2" and p: "in_block (fst (sub_block demo_block i)) (snd (sub_block demo_block i)) p" for i p
  proof -
    consider "i = 0" | "i = 1" using i by linarith
    then show ?thesis
    proof cases
      case 1
      then show ?thesis using pts [of 10 2 p] p sub by (simp add: demo_block_def demo_data_def)
    next
      case 2
      then show ?thesis using pts [of 12 2 p] p sub by (simp add: demo_block_def demo_data_def)
    qed
  qed
  then show ?thesis
    using sub(3) by (auto simp: stats_ok_def Let_def below_def demo_block_def demo_data_def)
qed

subsection \<open>Properties\<close>

text \<open>
  C18: A comparison on an interval is decided exactly: it succeeds on the minimum and maximum of a
  block if and only if some value between them satisfies it.
\<close>

theorem Range_CheckInterval_exact:
  assumes "mn \<le> mx"
  shows "Range_CheckInterval conv r mn mx \<longleftrightarrow> (\<exists>v. mn \<le> v \<and> v \<le> mx \<and> Range_holds conv r v)"
  using Range_complete [OF assms] Range_sound by blast

theorem Range_CheckInterval_exact_witness:
  "\<exists>v. (3::nat) \<le> v \<and> v \<le> 5 \<and> Range_holds (\<lambda>_. 4) \<lparr>m_Op = GT, m_StrValue = ''4''\<rparr> v"
  using Range_CheckInterval_exact [of "3::nat" 5 "\<lambda>_. 4" "\<lparr>m_Op = GT, m_StrValue = ''4''\<rparr>"]
  by (simp add: Range_CheckInterval_def)

text \<open>
  C19: No matching element is missed: if the reported minima and maxima bound the data of a global
  array, every element of a reported block that lies in the selection and satisfies the query is in
  a region of a hit for that block, through sub-blocks, tree, and selection.
\<close>

theorem query_misses_no_element:
  assumes "\<not> vb_isLocalArray v" "length (vb_Shape v) = length p" "p \<noteq> []"
    and "b \<in> set (reported v)" "stats_ok f b" "in_block (Start b) (Count b) p"
    and "covers (m_Selection q) p" "RangeTree_holds conv (m_RangeTree q) (f p)"
  shows "\<exists>h\<in>set (QueryVar_Evaluate conv v q). hit_has (BlockID b) p h"
  by (rule QueryVar_Evaluate_covers [OF assms])

theorem query_misses_no_element_witness:
  "\<exists>h\<in>set (QueryVar_Evaluate (\<lambda>_. 7)
       \<lparr>vb_Shape = [20], vb_isLocalArray = False, vb_MinBlocksInfo = None, vb_BlocksInfo = [demo_block]\<rparr>
       demo_query). hit_has 7 [13] h"
proof -
  let ?v = "\<lparr>vb_Shape = [20], vb_isLocalArray = False, vb_MinBlocksInfo = None,
    vb_BlocksInfo = [demo_block]\<rparr>"
  have "in_block (Start demo_block) (Count demo_block) [13]" "covers (m_Selection demo_query) [13]"
    "RangeTree_holds (\<lambda>_. 7) (m_RangeTree demo_query) (demo_data [13])" "demo_block \<in> set (reported ?v)"
    by (simp_all add: demo_block_def demo_query_def demo_data_def in_block_def covers_def below_def
        reported_def Range_holds_def)
  then have "\<exists>h\<in>set (QueryVar_Evaluate (\<lambda>_. 7) ?v demo_query). hit_has (BlockID demo_block) [13] h"
    by (intro query_misses_no_element [OF _ _ _ _ demo_stats]) simp_all
  then show ?thesis by (simp add: demo_block_def)
qed

text \<open>
  A composite OR query returns every block that one of its parts returns. (Its regions are
  another matter: a block that is already there keeps the regions it has, because the extension is
  made on a copy.)
\<close>

theorem or_query_keeps_blocks:
  assumes "GetResultCoverage var (QComposite OR nodes) = Inr ids" "n \<in> set nodes"
  shows "\<exists>ids'. GetResultCoverage var n = Inr ids' \<and> set ids' \<subseteq> set ids"
proof -
  obtain hits where "BlockIndexEvaluate var (QComposite OR nodes) = Inr hits" "ids = map m_ID hits"
    using assms(1) by (auto simp: GetResultCoverage_def result_simps)
  then obtain h where "BlockIndexEvaluate var n = Inr h" "m_ID ` set h \<subseteq> m_ID ` set hits"
    using evaluate_nodes_or [of var True "[]" nodes hits] assms(2) by auto
  then show ?thesis using \<open>ids = _\<close> by (auto simp: GetResultCoverage_def)
qed

theorem or_query_keeps_blocks_witness:
  "\<exists>ids'. GetResultCoverage (\<lambda>q. [\<lparr>m_ID = of_nat (length (m_VarName q)), m_Regions = []\<rparr>])
      (QVar demo_query) = Inr ids' \<and> set ids' \<subseteq> {1, 4}"
proof -
  let ?var = "\<lambda>q. [\<lparr>m_ID = of_nat (length (m_VarName q)), m_Regions = []\<rparr>]"
  let ?q = "demo_query\<lparr>m_VarName := ''rho4''\<rparr>"
  have "GetResultCoverage ?var (QComposite OR [QVar demo_query, QVar ?q]) = Inr [1, 4]"
    by (simp add: GetResultCoverage_def ApplyOR_def applyExtension_def demo_query_def)
  from or_query_keeps_blocks [OF this, of "QVar demo_query"] show ?thesis by simp
qed

text \<open>
  A composite AND of two queries that both have hits always reads past the end of the first
  list: \<open>lf_ApplyAND\<close> starts with \<open>touched[i]\<close> at \<open>i = touched.size()\<close>.
\<close>

theorem and_query_reads_out_of_bounds:
  assumes "BlockIndexEvaluate var n1 = Inr (h1 # hs1)" "BlockIndexEvaluate var n2 = Inr (h2 # hs2)"
  shows "BlockIndexEvaluate var (QComposite AND (n1 # n2 # ns)) = Inl UndefinedBehaviour"
  using assms by (simp add: ApplyAND_out_of_bounds)

theorem and_query_reads_out_of_bounds_witness:
  "BlockIndexEvaluate (\<lambda>q. [\<lparr>m_ID = 0, m_Regions = []\<rparr>])
     (QComposite AND [QVar demo_query, QVar demo_query]) = Inl UndefinedBehaviour"
  by (rule and_query_reads_out_of_bounds) simp_all

text \<open>
  \<open>applyIntersection\<close> loses parts of the intersection: it cuts a region to the first region it
  meets, so points it shares with a later one are gone.
\<close>

theorem applyIntersection_loses_points:
  "applyIntersection \<lparr>m_ID = 1, m_Regions = [([0], [10])]\<rparr>
       \<lparr>m_ID = 1, m_Regions = [([0], [2]), ([5], [2])]\<rparr> =
     (True, \<lparr>m_ID = 1, m_Regions = [([0], [2])]\<rparr>) \<and>
   in_block [0] [10] [5] \<and> in_block [5] [2] [5] \<and> \<not> in_block [0] [2] [5]"
proof -
  have "applyIntersection \<lparr>m_ID = 1, m_Regions = [([0], [10])]\<rparr>
       \<lparr>m_ID = 1, m_Regions = [([0], [2]), ([5], [2])]\<rparr> =
     (True, \<lparr>m_ID = 1, m_Regions = [([0], [2])]\<rparr>)"
    by code_simp
  then show ?thesis by (simp add: in_block_def)
qed

end
