(* ===== verification/Adios_Types.thy ===== *)
theory Adios_Types
  imports Adios_Prelude
begin

section \<open>Element types\<close>

text \<open>
  \<open>enum class DataType\<close> of \<open>common/ADIOSBaseTypes.h\<close>, shared by the metadata of the SSC engine and the
  compiler of derived expressions. A byte that names no enumerator is kept as it is, as
  \<open>static_cast\<close> does. The sizes are those of a 64-bit Linux host, where \<open>long double\<close> has 16 bytes.
\<close>

datatype DataType =
    DT_None | DT_Int8 | DT_Int16 | DT_Int32 | DT_Int64
  | DT_UInt8 | DT_UInt16 | DT_UInt32 | DT_UInt64
  | DT_Float | DT_Double | DT_LongDouble | DT_FloatComplex | DT_DoubleComplex
  | DT_String | DT_Char | DT_Struct | DT_Other "8 word"

fun GetDataTypeSize :: "DataType \<Rightarrow> nat" where
  "GetDataTypeSize DT_Int8 = 1"
| "GetDataTypeSize DT_UInt8 = 1"
| "GetDataTypeSize DT_Char = 1"
| "GetDataTypeSize DT_Int16 = 2"
| "GetDataTypeSize DT_UInt16 = 2"
| "GetDataTypeSize DT_Int32 = 4"
| "GetDataTypeSize DT_UInt32 = 4"
| "GetDataTypeSize DT_Int64 = 8"
| "GetDataTypeSize DT_UInt64 = 8"
| "GetDataTypeSize DT_Float = 4"
| "GetDataTypeSize DT_Double = 8"
| "GetDataTypeSize DT_LongDouble = 16"
| "GetDataTypeSize DT_FloatComplex = 8"
| "GetDataTypeSize DT_DoubleComplex = 16"
| "GetDataTypeSize _ = 0"

end
