(* ===== verification/Adios_Bytes.thy ===== *)
theory Adios_Bytes
  imports Adios_Prelude
begin

section \<open>Bytes\<close>

text \<open>
  What the components that read and write bytes share: integers as bytes, in little-endian order and
  in the order of a file, strings as bytes, writing a piece into a buffer, and the predicate that a
  piece lies at a position of a buffer, with the lemmas to take such pieces apart.
\<close>

subsection \<open>Integers and strings as bytes\<close>

type_synonym bytes = "u8 list"

fun le_bytes :: "nat \<Rightarrow> nat \<Rightarrow> bytes" where
  "le_bytes 0 x = []"
| "le_bytes (Suc n) x = of_nat (x mod 256) # le_bytes n (x div 256)"

fun le_nat :: "bytes \<Rightarrow> nat" where
  "le_nat [] = 0"
| "le_nat (b # bs) = unat b + 256 * le_nat bs"

definition u64_bytes :: "u64 \<Rightarrow> bytes" where
  "u64_bytes x = le_bytes 8 (unat x)"

definition chars :: "string \<Rightarrow> bytes" where
  "chars s = map (\<lambda>c. of_nat (of_char c)) s"

definition of_chars :: "bytes \<Rightarrow> string" where
  "of_chars bs = map (\<lambda>b. char_of (unat b)) bs"

lemma length_le_bytes [simp]: "length (le_bytes n x) = n"
  by (induction n arbitrary: x) simp_all

lemma le_nat_le_bytes: "x < 256 ^ n \<Longrightarrow> le_nat (le_bytes n x) = x"
proof (induction n arbitrary: x)
  case (Suc n)
  have "unat (of_nat (x mod 256) :: u8) = x mod 256" by (intro unat_of_nat_small) simp
  moreover have "x div 256 < 256 ^ n" using Suc.prems by (simp add: less_mult_imp_div_less mult.commute)
  ultimately show ?case using Suc.IH by simp
qed simp

lemma u64_bytes_simps [simp]:
  "length (u64_bytes x) = 8" "of_nat (le_nat (u64_bytes x)) = x"
  using unat_u64_less [of x] by (simp_all add: u64_bytes_def le_nat_le_bytes)

lemma length_chars [simp]: "length (chars s) = length s"
  by (simp add: chars_def)

text \<open>Integers in the order of the host that wrote them.\<close>

definition ordered :: "bool \<Rightarrow> bytes \<Rightarrow> bytes" where
  "ordered little bs = (if little then bs else rev bs)"

lemma ordered_simps [simp]: "length (ordered l bs) = length bs" "ordered l (ordered l bs) = bs"
  by (simp_all add: ordered_def)

subsection \<open>Writing into a buffer\<close>

definition splice :: "bytes \<Rightarrow> nat \<Rightarrow> bytes \<Rightarrow> bytes" where
  "splice out b xs = take b out @ xs @ drop (b + length xs) out"

lemma length_splice [simp]: "b + length xs \<le> length out \<Longrightarrow> length (splice out b xs) = length out"
  by (simp add: splice_def)

lemma splice_nth:
  "b + length xs \<le> length out \<Longrightarrow> k < length out \<Longrightarrow>
    splice out b xs ! k = (if b \<le> k \<and> k < b + length xs then xs ! (k - b) else out ! k)"
  by (auto simp: splice_def nth_append)

lemma splice_append:
  assumes "b + length xs + length ys \<le> length out"
  shows "splice (splice out b xs) (b + length xs) ys = splice out b (xs @ ys)"
  using assms by (intro nth_equalityI) (auto simp: splice_nth nth_append)

subsection \<open>Pieces of a buffer\<close>

definition reads :: "bytes \<Rightarrow> nat \<Rightarrow> bytes \<Rightarrow> bool" where
  "reads input pos bs \<longleftrightarrow> take (length bs) (drop pos input) = bs \<and> pos + length bs \<le> length input"

lemma reads_append:
  "reads input pos (a @ b) \<longleftrightarrow> reads input pos a \<and> reads input (pos + length a) b"
  by (auto simp: reads_def take_add add.commute append_eq_append_conv)

lemma reads_Cons:
  "NO_MATCH [] xs \<Longrightarrow> reads input pos (x # xs) \<longleftrightarrow> reads input pos [x] \<and> reads input (pos + 1) xs"
  using reads_append [of input pos "[x]" xs] by simp

lemma length_concat_u64 [simp]: "length (concat (map u64_bytes d)) = 8 * length d"
  by (induction d) simp_all

end
