(* ===== verification/Adios_Ssc.thy ===== *)
theory Adios_Ssc
  imports Adios_Types Adios_Box Adios_Bytes
begin

section \<open>The metadata of the SSC engine\<close>

text \<open>
  \<open>source/adios2/engine/ssc/SscHelper.cpp\<close>: writers and readers of the SSC engine exchange the
  description of their blocks as bytes. Each rank appends struct definitions, attributes and blocks
  to a buffer whose first eight bytes hold the position of its end; the buffers are gathered behind
  a header of ten bytes, and every rank parses the result. The main result is that the parser
  returns what the ranks wrote.

  A \<open>Buffer\<close> is the list of its allocated bytes; what \<open>realloc\<close> adds is 0 here and never read. A
  write past the allocation, which C++ does not check, is the error \<open>UndefinedBehaviour\<close>. Integers
  lie in little-endian order, as on every host the engine runs on.
\<close>

text \<open>A size cast to \<open>uint8_t\<close>.\<close>

definition size8 :: "'a list \<Rightarrow> u8" where
  "size8 xs = of_nat (length xs)"

lemma of_chars_chars [simp]: "of_chars (chars s) = s"
proof -
  have "char_of (unat (of_nat (of_char c) :: u8)) = c" for c
  proof -
    have "of_char c mod 256 < (256 :: nat)" by simp
    then have "of_char c < (256 :: nat)" by (simp only: of_char_mod_256)
    then have "unat (of_nat (of_char c) :: u8) = of_char c" by (intro unat_of_nat_small) simp
    then show ?thesis by simp
  qed
  then show ?thesis by (simp add: chars_def of_chars_def o_def)
qed

lemma unat_size8: "length xs < 256 \<Longrightarrow> unat (size8 xs) = length xs"
  unfolding size8_def by (intro unat_of_nat_small) simp

subsection \<open>Types\<close>

definition data_types :: "DataType list" where
  "data_types = [DT_None, DT_Int8, DT_Int16, DT_Int32, DT_Int64, DT_UInt8, DT_UInt16, DT_UInt32, DT_UInt64, DT_Float, DT_Double,
     DT_LongDouble, DT_FloatComplex, DT_DoubleComplex, DT_String, DT_Char, DT_Struct]"

definition type_code :: "DataType \<Rightarrow> u8" where
  "type_code t =
     (case t of DT_None \<Rightarrow> 0 | DT_Int8 \<Rightarrow> 1 | DT_Int16 \<Rightarrow> 2 | DT_Int32 \<Rightarrow> 3 | DT_Int64 \<Rightarrow> 4 | DT_UInt8 \<Rightarrow> 5 | DT_UInt16 \<Rightarrow> 6
      | DT_UInt32 \<Rightarrow> 7 | DT_UInt64 \<Rightarrow> 8 | DT_Float \<Rightarrow> 9 | DT_Double \<Rightarrow> 10 | DT_LongDouble \<Rightarrow> 11 | DT_FloatComplex \<Rightarrow> 12
      | DT_DoubleComplex \<Rightarrow> 13 | DT_String \<Rightarrow> 14 | DT_Char \<Rightarrow> 15 | DT_Struct \<Rightarrow> 16 | DT_Other c \<Rightarrow> c)"

definition code_type :: "u8 \<Rightarrow> DataType" where
  "code_type c = (if c < 17 then data_types ! unat c else DT_Other c)"

definition known_type :: "DataType \<Rightarrow> bool" where
  "known_type t = (case t of DT_Other _ \<Rightarrow> False | _ \<Rightarrow> True)"

lemma code_type_code: "known_type t \<Longrightarrow> code_type (type_code t) = t"
  by (cases t) (simp_all add: known_type_def type_code_def code_type_def data_types_def)

datatype ShapeID =
    ShapeUnknown | GlobalValue | GlobalArray | JoinedArray | LocalValue | LocalArray | OtherShape u8

definition shape_code :: "ShapeID \<Rightarrow> u8" where
  "shape_code s =
     (case s of ShapeUnknown \<Rightarrow> 0 | GlobalValue \<Rightarrow> 1 | GlobalArray \<Rightarrow> 2 | JoinedArray \<Rightarrow> 3
      | LocalValue \<Rightarrow> 4 | LocalArray \<Rightarrow> 5 | OtherShape c \<Rightarrow> c)"

definition code_shape :: "u8 \<Rightarrow> ShapeID" where
  "code_shape c =
     (if c = 0 then ShapeUnknown else if c = 1 then GlobalValue else if c = 2 then GlobalArray
      else if c = 3 then JoinedArray else if c = 4 then LocalValue else if c = 5 then LocalArray
      else OtherShape c)"

definition known_shape :: "ShapeID \<Rightarrow> bool" where
  "known_shape s = (case s of OtherShape _ \<Rightarrow> False | _ \<Rightarrow> True)"

lemma code_shape_code: "known_shape s \<Longrightarrow> code_shape (shape_code s) = s"
  by (cases s) (simp_all add: known_shape_def shape_code_def code_shape_def)

lemma shape_code_small: "known_shape s \<Longrightarrow> shape_code s \<noteq> 65 \<and> shape_code s \<noteq> 66"
  by (cases s) (simp_all add: known_shape_def shape_code_def)

record SscBlockInfo =
  b_name :: string
  b_structDef :: string
  b_type :: DataType
  b_elementSize :: u64
  b_shapeId :: ShapeID
  b_shape :: dims
  b_start :: dims
  b_count :: dims
  b_bufferStart :: u64
  b_bufferCount :: u64
  b_value :: bytes

record SscAttribute =
  a_type :: DataType
  a_name :: string
  a_data :: bytes

record StructField =
  f_name :: string
  f_offset :: u64
  f_type :: DataType
  f_count :: u64

record StructDefinition =
  d_name :: string
  d_size :: u64
  d_fields :: "StructField list"
  d_frozen :: bool

subsection \<open>Sizes and overlaps\<close>

definition TotalDataSize_dims :: "dims \<Rightarrow> u64 \<Rightarrow> ShapeID \<Rightarrow> u64 result" where
  "TotalDataSize_dims dims elementSize shapeId =
     (if shapeId = GlobalArray \<or> shapeId = LocalArray then Inr (foldl (*) elementSize dims)
      else if shapeId = GlobalValue \<or> shapeId = LocalValue then Inr elementSize
      else Inl RuntimeError)"

fun TotalDataSize_from :: "u64 \<Rightarrow> SscBlockInfo list \<Rightarrow> u64 result" where
  "TotalDataSize_from s [] = Inr s"
| "TotalDataSize_from s (b # bv) =
     (if b_type b = DT_String then TotalDataSize_from (s + b_bufferCount b) bv
      else bindR (TotalDataSize_dims (b_count b) (b_elementSize b) (b_shapeId b)) (\<lambda>n.
             TotalDataSize_from (s + n) bv))"

definition TotalDataSize :: "SscBlockInfo list \<Rightarrow> u64 result" where
  "TotalDataSize bv = TotalDataSize_from 0 bv"

definition AreSameDims :: "dims \<Rightarrow> dims \<Rightarrow> bool" where
  "AreSameDims a b =
     (if length a \<noteq> length b then False else list_all (\<lambda>i. a ! i = b ! i) [0..<length a])"

definition hasOverlap :: "SscBlockInfo \<Rightarrow> SscBlockInfo \<Rightarrow> bool" where
  "hasOverlap g l =
     list_all (\<lambda>i. \<not> (b_start g ! i + b_count g ! i \<le> b_start l ! i \<or>
                       b_start l ! i + b_count l ! i \<le> b_start g ! i)) [0..<length (b_start g)]"

text \<open>The map holds the ranks with an overlap; the positions in it are filled in later.\<close>

definition CalculateOverlap :: "SscBlockInfo list list \<Rightarrow> SscBlockInfo list \<Rightarrow> nat \<rightharpoonup> u64 \<times> u64" where
  "CalculateOverlap globalVecVec localVec rank =
     (if rank < length globalVecVec \<and>
         list_ex (\<lambda>g. list_ex (\<lambda>l. b_name l = b_name g \<and>
             (b_shapeId g = GlobalValue \<or> b_shapeId g = GlobalArray \<and> hasOverlap g l)) localVec)
           (globalVecVec ! rank)
      then Some (0, 0) else None)"

lemma AreSameDims_iff: "AreSameDims a b \<longleftrightarrow> a = b"
  by (auto simp: AreSameDims_def list_all_upt intro: nth_equalityI)

definition block_ends :: "SscBlockInfo \<Rightarrow> bool" where
  "block_ends b \<longleftrightarrow> length (b_count b) = length (b_start b) \<and>
     (\<forall>d<length (b_start b). 0 < b_count b ! d \<and>
        unat (b_start b ! d) + unat (b_count b ! d) < 18446744073709551616)"

lemma hasOverlap_points:
  assumes "block_ends g" "block_ends l" "length (b_start l) = length (b_start g)"
  shows "hasOverlap g l \<longleftrightarrow> (\<exists>p. in_block (b_start g) (b_count g) p \<and> in_block (b_start l) (b_count l) p)"
proof -
  let ?n = "length (b_start g)"
  have e: "unat (b_start b ! d + b_count b ! d) = unat (b_start b ! d) + unat (b_count b ! d)"
    if "block_ends b" "d < length (b_start b)" for b d
    using that by (intro unat_add_small) (simp add: block_ends_def)
  have pos: "0 < unat (b_count b ! d)" if "block_ends b" "d < length (b_start b)" for b d
    using that by (auto simp: block_ends_def word_less_nat_alt)
  have in1: "(s \<le> x \<and> x - s < c) \<longleftrightarrow> unat s \<le> unat x \<and> unat x < unat s + unat c" for s c x :: u64
    by (auto simp: word_le_nat_alt word_less_nat_alt unat_diff_le)
  have inb: "in_block (b_start b) (b_count b) p \<longleftrightarrow> length p = length (b_start b) \<and>
      (\<forall>d<length (b_start b). unat (b_start b ! d) \<le> unat (p ! d) \<and>
         unat (p ! d) < unat (b_start b ! d) + unat (b_count b ! d))" for b p
    unfolding in_block_def in1 by blast
  have ov: "hasOverlap g l \<longleftrightarrow> (\<forall>d<?n.
      unat (b_start l ! d) < unat (b_start g ! d) + unat (b_count g ! d) \<and>
      unat (b_start g ! d) < unat (b_start l ! d) + unat (b_count l ! d))"
    using assms by (auto simp: hasOverlap_def list_all_upt word_le_nat_alt e)
  show ?thesis
  proof
    assume o: "hasOverlap g l"
    let ?p = "map (\<lambda>d. max (b_start g ! d) (b_start l ! d)) [0..<?n]"
    have m: "unat (max x y) = max (unat x) (unat y)" for x y :: u64
      by (auto simp: max_def word_le_nat_alt)
    have "in_block (b_start g) (b_count g) ?p \<and> in_block (b_start l) (b_count l) ?p"
      using o assms(3) pos [OF assms(1)] pos [OF assms(2)] unfolding ov inb by (auto simp: m)
    then show "\<exists>p. in_block (b_start g) (b_count g) p \<and> in_block (b_start l) (b_count l) p" by blast
  next
    assume "\<exists>p. in_block (b_start g) (b_count g) p \<and> in_block (b_start l) (b_count l) p"
    then show "hasOverlap g l" using assms(3) unfolding ov inb by (auto intro: le_less_trans)
  qed
qed

subsection \<open>The buffer\<close>

record Buffer =
  m_Buffer :: bytes
  m_Size :: nat

definition Buffer_new :: "nat \<Rightarrow> Buffer" where
  "Buffer_new capacity = \<lparr>m_Buffer = replicate capacity 0, m_Size = 0\<rparr>"

definition Buffer_resize :: "nat \<Rightarrow> Buffer \<Rightarrow> Buffer" where
  "Buffer_resize new_size b =
     (if new_size > length (m_Buffer b)
      then b\<lparr>m_Size := new_size,
             m_Buffer := m_Buffer b @ replicate (new_size * 2 - length (m_Buffer b)) 0\<rparr>
      else b\<lparr>m_Size := new_size\<rparr>)"

definition write_at :: "nat \<Rightarrow> bytes \<Rightarrow> Buffer \<Rightarrow> Buffer result" where
  "write_at pos bs b =
     (if pos + length bs \<le> length (m_Buffer b)
      then Inr (b\<lparr>m_Buffer := take pos (m_Buffer b) @ bs @ drop (pos + length bs) (m_Buffer b)\<rparr>)
      else Inl UndefinedBehaviour)"

definition get_bytes :: "nat \<Rightarrow> nat \<Rightarrow> bytes \<Rightarrow> bytes result" where
  "get_bytes n pos input =
     (if pos + n \<le> length input then Inr (take n (drop pos input)) else Inl UndefinedBehaviour)"

definition get_u8 :: "nat \<Rightarrow> bytes \<Rightarrow> u8 result" where
  "get_u8 pos input = bindR (get_bytes 1 pos input) (\<lambda>bs. Inr (bs ! 0))"

definition get_u64 :: "nat \<Rightarrow> bytes \<Rightarrow> u64 result" where
  "get_u64 pos input = bindR (get_bytes 8 pos input) (\<lambda>bs. Inr (of_nat (le_nat bs)))"

subsection \<open>Serialization\<close>

text \<open>The bytes of one block, attribute, or group of struct definitions, in the order they are written.\<close>

definition variable_bytes :: "u32 \<Rightarrow> SscBlockInfo \<Rightarrow> bytes" where
  "variable_bytes rank b =
     [shape_code (b_shapeId b)] @ le_bytes 4 (unat rank) @
     [size8 (b_name b)] @ chars (b_name b) @ [type_code (b_type b)] @
     (if b_type b = DT_Struct then [size8 (b_structDef b)] @ chars (b_structDef b) else []) @
     u64_bytes (b_elementSize b) @ [size8 (b_shape b)] @
     concat (map u64_bytes (b_shape b)) @ concat (map u64_bytes (b_start b)) @
     concat (map u64_bytes (b_count b)) @
     u64_bytes (b_bufferStart b) @ u64_bytes (b_bufferCount b) @ [size8 (b_value b)] @ b_value b"

definition attribute_bytes :: "SscAttribute \<Rightarrow> bytes" where
  "attribute_bytes a =
     [66, type_code (a_type a), size8 (a_name a)] @ chars (a_name a) @
     u64_bytes (of_nat (length (a_data a))) @ a_data a"

definition field_bytes :: "StructField \<Rightarrow> bytes" where
  "field_bytes f =
     [size8 (f_name f)] @ chars (f_name f) @ u64_bytes (f_offset f) @
     le_bytes 4 (unat (type_code (f_type f))) @ u64_bytes (f_count f)"

definition definition_bytes :: "StructDefinition \<Rightarrow> bytes" where
  "definition_bytes d =
     [size8 (d_name d)] @ chars (d_name d) @ u64_bytes (d_size d) @ [size8 (d_fields d)] @
     concat (map field_bytes (d_fields d))"

text \<open>
  Every block and attribute is written the same way: the end is read from the first eight bytes, the
  buffer is resized to 1024 bytes past it, the record is written, the new end is stored.
\<close>

definition append_record :: "bytes \<Rightarrow> Buffer \<Rightarrow> Buffer result" where
  "append_record bs output =
     bindR (get_u64 0 (m_Buffer output)) (\<lambda>pos.
     bindR (write_at (unat pos) bs (Buffer_resize (unat pos + 1024) output)) (\<lambda>out.
       write_at 0 (u64_bytes (pos + of_nat (length bs))) out))"

fun append_records :: "bytes list \<Rightarrow> Buffer \<Rightarrow> Buffer result" where
  "append_records [] output = Inr output"
| "append_records (r # rs) output = bindR (append_record r output) (append_records rs)"

definition SerializeVariables :: "SscBlockInfo list \<Rightarrow> Buffer \<Rightarrow> u32 \<Rightarrow> Buffer result" where
  "SerializeVariables input output rank = append_records (map (variable_bytes rank) input) output"

definition SerializeAttributes :: "SscAttribute list \<Rightarrow> Buffer \<Rightarrow> Buffer result" where
  "SerializeAttributes input output = append_records (map attribute_bytes input) output"

text \<open>
  Struct definitions: the tag and the number are written before any resize; then each definition is
  written after a resize to 1024 bytes past the position.
\<close>

fun write_definitions :: "nat \<Rightarrow> StructDefinition list \<Rightarrow> Buffer \<Rightarrow> (nat \<times> Buffer) result" where
  "write_definitions pos [] output = Inr (pos, output)"
| "write_definitions pos (d # ds) output =
     bindR (write_at pos (definition_bytes d) (Buffer_resize (pos + 1024) output))
       (write_definitions (pos + length (definition_bytes d)) ds)"

definition SerializeStructDefinitions :: "StructDefinition list \<Rightarrow> Buffer \<Rightarrow> Buffer result" where
  "SerializeStructDefinitions definitions output =
     (if definitions = [] then Inr output
      else bindR (get_u64 0 (m_Buffer output)) (\<lambda>pos.
           bindR (write_at (unat pos) [65, size8 definitions] output) (\<lambda>out.
           bindR (write_definitions (unat pos + 2) definitions out) (\<lambda>(end', out).
             write_at 0 (u64_bytes (of_nat end')) out))))"

subsection \<open>Gathering\<close>

definition local_payload :: "Buffer \<Rightarrow> bytes result" where
  "local_payload b =
     bindR (get_u64 0 (m_Buffer b)) (\<lambda>e. get_bytes (unat (e - 8)) 8 (m_Buffer b))"

text \<open>The sizes are added up as \<open>int\<close>, whose overflow is undefined.\<close>

definition AggregateMetadata :: "Buffer list \<Rightarrow> bool \<Rightarrow> bool \<Rightarrow> bytes result" where
  "AggregateMetadata locals finalStep locked =
     bindR (mapR local_payload locals) (\<lambda>ps.
       let globalSize = length (concat ps) in
       if globalSize \<ge> 2147483648 then Inl UndefinedBehaviour
       else Inr ([of_bool finalStep, of_bool locked] @ u64_bytes (of_nat globalSize) @ concat ps))"

subsection \<open>Parsing\<close>

definition get_string :: "nat \<Rightarrow> bytes \<Rightarrow> (string \<times> nat) result" where
  "get_string pos input =
     bindR (get_u8 pos input) (\<lambda>n.
     bindR (get_bytes (unat n) (pos + 1) input) (\<lambda>bs. Inr (of_chars bs, pos + 1 + unat n)))"

fun get_dims :: "nat \<Rightarrow> nat \<Rightarrow> bytes \<Rightarrow> (dims \<times> nat) result" where
  "get_dims 0 pos input = Inr ([], pos)"
| "get_dims (Suc n) pos input =
     bindR (get_u64 pos input) (\<lambda>x.
     bindR (get_dims n (pos + 8) input) (\<lambda>(xs, pos'). Inr (x # xs, pos')))"

text \<open>\<open>DeserializeVariable\<close>, from the byte after the rank, without the registration in the \<open>IO\<close>.\<close>

definition parse_variable :: "bytes \<Rightarrow> ShapeID \<Rightarrow> nat \<Rightarrow> (SscBlockInfo \<times> nat) result" where
  "parse_variable input shapeId pos =
     bindR (get_string pos input) (\<lambda>(name, pos).
     bindR (get_u8 pos input) (\<lambda>ty.
     bindR (if code_type ty = DT_Struct then get_string (pos + 1) input else Inr ([], pos + 1))
       (\<lambda>(sdef, pos).
     bindR (get_u64 pos input) (\<lambda>elementSize.
     bindR (get_u8 (pos + 8) input) (\<lambda>shapeSize.
     bindR (get_dims (unat shapeSize) (pos + 9) input) (\<lambda>(shape, pos).
     bindR (get_dims (unat shapeSize) pos input) (\<lambda>(start, pos).
     bindR (get_dims (unat shapeSize) pos input) (\<lambda>(count, pos).
     bindR (get_u64 pos input) (\<lambda>bufferStart.
     bindR (get_u64 (pos + 8) input) (\<lambda>bufferCount.
     bindR (get_u8 (pos + 16) input) (\<lambda>valueSize.
     bindR (get_bytes (unat valueSize) (pos + 17) input) (\<lambda>val.
       Inr (\<lparr>b_name = name, b_structDef = sdef, b_type = code_type ty, b_elementSize = elementSize,
             b_shapeId = shapeId, b_shape = shape, b_start = start, b_count = count,
             b_bufferStart = bufferStart, b_bufferCount = bufferCount, b_value = val\<rparr>,
            pos + 17 + unat valueSize)))))))))))))"

definition parse_attribute :: "bytes \<Rightarrow> nat \<Rightarrow> (SscAttribute \<times> nat) result" where
  "parse_attribute input pos =
     bindR (get_u8 pos input) (\<lambda>ty.
     bindR (get_string (pos + 1) input) (\<lambda>(name, pos).
     bindR (get_u64 pos input) (\<lambda>n.
     bindR (get_bytes (unat n) (pos + 8) input) (\<lambda>d.
       Inr (\<lparr>a_type = code_type ty, a_name = name, a_data = d\<rparr>, pos + 8 + unat n)))))"

text \<open>A counted sequence of items, as the loops over fields and definitions read it.\<close>

fun parse_many ::
    "(bytes \<Rightarrow> nat \<Rightarrow> ('a \<times> nat) result) \<Rightarrow> nat \<Rightarrow> bytes \<Rightarrow> nat \<Rightarrow> ('a list \<times> nat) result" where
  "parse_many item 0 input pos = Inr ([], pos)"
| "parse_many item (Suc n) input pos =
     bindR (item input pos) (\<lambda>(x, pos).
     bindR (parse_many item n input pos) (\<lambda>(xs, pos'). Inr (x # xs, pos')))"

definition parse_field :: "bytes \<Rightarrow> nat \<Rightarrow> (StructField \<times> nat) result" where
  "parse_field input pos =
     bindR (get_string pos input) (\<lambda>(name, pos).
     bindR (get_u64 pos input) (\<lambda>off.
     bindR (get_bytes 4 (pos + 8) input) (\<lambda>ty.
     bindR (get_u64 (pos + 12) input) (\<lambda>cnt.
       Inr (\<lparr>f_name = name, f_offset = off, f_type = code_type (of_nat (le_nat ty)), f_count = cnt\<rparr>,
            pos + 20)))))"

definition parse_definition :: "bytes \<Rightarrow> nat \<Rightarrow> (StructDefinition \<times> nat) result" where
  "parse_definition input pos =
     bindR (get_string pos input) (\<lambda>(name, pos).
     bindR (get_u64 pos input) (\<lambda>sz.
     bindR (get_u8 (pos + 8) input) (\<lambda>items.
     bindR (parse_many parse_field (unat items) input (pos + 9)) (\<lambda>(fs, pos').
       Inr (\<lparr>d_name = name, d_size = sz, d_fields = fs, d_frozen = False\<rparr>, pos')))))"

text \<open>An entry of the metadata: the tag 65 for struct definitions, 66 for an attribute, else a block.\<close>

datatype Entry =
    Definitions "StructDefinition list"
  | Attribute SscAttribute
  | Variable u32 SscBlockInfo

definition parse_entry :: "bytes \<Rightarrow> nat \<Rightarrow> (Entry \<times> nat) result" where
  "parse_entry input pos =
     bindR (get_u8 pos input) (\<lambda>shapeId.
       if shapeId = 65
       then bindR (get_u8 (pos + 1) input) (\<lambda>defs.
            bindR (parse_many parse_definition (unat defs) input (pos + 2)) (\<lambda>(ds, pos').
              Inr (Definitions ds, pos')))
       else if shapeId = 66
       then bindR (parse_attribute input (pos + 1)) (\<lambda>(a, pos'). Inr (Attribute a, pos'))
       else bindR (get_bytes 4 (pos + 1) input) (\<lambda>rank.
            bindR (parse_variable input (code_shape shapeId) (pos + 5)) (\<lambda>(b, pos').
              Inr (Variable (of_nat (le_nat rank)) b, pos'))))"

text \<open>
  What an entry does: blocks go to the list of their rank; with the registration flags on, a
  variable, attribute, or struct type not known yet is defined, the first definition wins.
\<close>

record SscState =
  s_output :: "SscBlockInfo list list"
  s_vars :: "string \<rightharpoonup> DataType \<times> dims \<times> dims \<times> dims"
  s_attrs :: "string \<rightharpoonup> DataType \<times> bytes"
  s_defs :: "string \<rightharpoonup> StructDefinition"
  s_rowMajor :: bool

record RegFlags =
  regVars :: bool
  regAttrs :: bool

definition attribute_types :: "DataType list" where
  "attribute_types = [DT_String, DT_Char, DT_Int8, DT_Int16, DT_Int32, DT_Int64, DT_UInt8, DT_UInt16, DT_UInt32, DT_UInt64,
     DT_Float, DT_Double, DT_LongDouble, DT_FloatComplex, DT_DoubleComplex]"

text \<open>
  A variable is its type, shape, start and count. \<open>InquireVariable\<close> finds only variables of the type
  asked for, \<open>DefineVariable\<close> refuses any name in use.
\<close>

definition InquireVariable :: "string \<Rightarrow> DataType \<Rightarrow> SscState \<Rightarrow> bool" where
  "InquireVariable nm ty s = (case s_vars s nm of Some (t, _) \<Rightarrow> t = ty | None \<Rightarrow> False)"

definition DefineVariable :: "string \<Rightarrow> DataType \<times> dims \<times> dims \<times> dims \<Rightarrow> SscState \<Rightarrow> SscState result" where
  "DefineVariable nm var s =
     (if s_vars s nm \<noteq> None then Inl InvalidArgument else Inr (s\<lparr>s_vars := (s_vars s)(nm \<mapsto> var)\<rparr>))"

abbreviation LocalValueDim :: u64 where
  "LocalValueDim \<equiv> 18446744073709551613"

definition register_variable :: "SscBlockInfo \<Rightarrow> SscState \<Rightarrow> SscState result" where
  "register_variable b s =
     (let order = (if s_rowMajor s then (\<lambda>d. d) else rev);
          vStart = order (b_start b); vShape = order (b_shape b); ty = b_type b in
      if ty = DT_Struct
      then (if InquireVariable (b_name b) ty s then Inr s
            else if b_shapeId b = GlobalArray
            then (if s_defs s (b_structDef b) = None then Inl RuntimeError
                  else DefineVariable (b_name b) (ty, vShape, vStart, vShape) s)
            else Inr s)
      else if ty \<in> set attribute_types
      then (if InquireVariable (b_name b) ty s then Inr s
            else if b_shapeId b = GlobalValue then DefineVariable (b_name b) (ty, [], [], []) s
            else if b_shapeId b = GlobalArray then DefineVariable (b_name b) (ty, vShape, vStart, vShape) s
            else if b_shapeId b = LocalValue then DefineVariable (b_name b) (ty, [LocalValueDim], [], []) s
            else if b_shapeId b = LocalArray then DefineVariable (b_name b) (ty, [], [], vShape) s
            else Inr s)
      else Inl RuntimeError)"

text \<open>Sizes as on a 64-bit host.\<close>

definition attribute_value :: "SscAttribute \<Rightarrow> bytes" where
  "attribute_value a =
     (if a_type a = DT_String then a_data a
      else take (length (a_data a) div GetDataTypeSize (a_type a) * GetDataTypeSize (a_type a))
             (a_data a))"

definition register_attribute :: "SscAttribute \<Rightarrow> SscState \<Rightarrow> SscState result" where
  "register_attribute a s =
     (if s_attrs s (a_name a) \<noteq> None then Inr s
      else if a_type a \<in> set attribute_types
      then Inr (s\<lparr>s_attrs := (s_attrs s)(a_name a \<mapsto> (a_type a, attribute_value a))\<rparr>)
      else Inl RuntimeError)"

definition AddField :: "StructField \<Rightarrow> StructDefinition \<Rightarrow> StructDefinition result" where
  "AddField f d =
     (if d_frozen d then Inl RuntimeError
      else if f_type f = DT_None \<or> f_type f = DT_Struct then Inl InvalidArgument
      else if f_offset f + of_nat (GetDataTypeSize (f_type f)) * f_count f > d_size d then Inl RuntimeError
      else Inr (d\<lparr>d_fields := d_fields d @ [f]\<rparr>))"

fun add_fields :: "StructField list \<Rightarrow> StructDefinition \<Rightarrow> StructDefinition result" where
  "add_fields [] d = Inr d"
| "add_fields (f # fs) d = bindR (AddField f d) (add_fields fs)"

definition register_definition :: "StructDefinition \<Rightarrow> SscState \<Rightarrow> SscState result" where
  "register_definition d s =
     (if s_defs s (d_name d) \<noteq> None then Inr s
      else bindR (add_fields (d_fields d) (d\<lparr>d_fields := []\<rparr>)) (\<lambda>d'.
             Inr (s\<lparr>s_defs := (s_defs s)(d_name d \<mapsto> d')\<rparr>)))"

fun register_definitions :: "StructDefinition list \<Rightarrow> SscState \<Rightarrow> SscState result" where
  "register_definitions [] s = Inr s"
| "register_definitions (d # ds) s = bindR (register_definition d s) (register_definitions ds)"

definition apply_entry :: "RegFlags \<Rightarrow> Entry \<Rightarrow> SscState \<Rightarrow> SscState result" where
  "apply_entry reg e s =
     (case e of
        Definitions ds \<Rightarrow> register_definitions ds s
      | Attribute a \<Rightarrow> (if regAttrs reg then register_attribute a s else Inr s)
      | Variable rank b \<Rightarrow>
          (if unat rank < length (s_output s)
           then (let s' = s\<lparr>s_output := (s_output s)[unat rank := s_output s ! unat rank @ [b]]\<rparr>
                 in if regVars reg then register_variable b s' else Inr s')
           else Inl UndefinedBehaviour))"

fun deserialize_loop :: "nat \<Rightarrow> RegFlags \<Rightarrow> bytes \<Rightarrow> nat \<Rightarrow> nat \<Rightarrow> SscState \<Rightarrow> SscState result option" where
  "deserialize_loop fuel reg input blockSize pos s =
     (if pos < blockSize
      then (case fuel of
              0 \<Rightarrow> None
            | Suc f \<Rightarrow>
                (case bindR (parse_entry input pos) (\<lambda>(e, pos').
                        bindR (apply_entry reg e s) (\<lambda>s'. Inr (s', pos'))) of
                   Inl err \<Rightarrow> Some (Inl err)
                 | Inr (s', pos') \<Rightarrow> deserialize_loop f reg input blockSize pos' s'))
      else Some (Inr s))"

declare deserialize_loop.simps [simp del]

text \<open>The loop reads an entry per iteration, so the size is enough fuel.\<close>

definition Deserialize :: "RegFlags \<Rightarrow> bytes \<Rightarrow> SscState \<Rightarrow> SscState result option" where
  "Deserialize reg input s =
     (let s0 = s\<lparr>s_output := map (\<lambda>_. []) (s_output s)\<rparr> in
      case get_u64 2 input of
        Inl err \<Rightarrow> Some (Inl err)
      | Inr blockSize \<Rightarrow> deserialize_loop (unat blockSize) reg input (unat blockSize) 10 s0)"

subsection \<open>Reading back what was written\<close>

lemma get_bytes_reads: "reads input pos bs \<Longrightarrow> n = length bs \<Longrightarrow> get_bytes n pos input = Inr bs"
  by (simp add: reads_def get_bytes_def)

lemma get_u8_reads: "reads input pos [x] \<Longrightarrow> get_u8 pos input = Inr x"
  using get_bytes_reads [of input pos "[x]" 1] by (simp add: get_u8_def)

lemma get_u64_reads: "reads input pos (u64_bytes x) \<Longrightarrow> get_u64 pos input = Inr x"
  using get_bytes_reads [of input pos "u64_bytes x" 8] by (simp add: get_u64_def)

lemma get_string_reads:
  assumes "reads input pos [size8 s]" "reads input (pos + 1) (chars s)" "length s < 256"
  shows "get_string pos input = Inr (s, pos + 1 + length s)"
  using get_u8_reads [OF assms(1)] get_bytes_reads [OF assms(2), of "length s"] assms(3)
  by (simp add: get_string_def unat_size8)

lemma get_dims_reads:
  "reads input pos (concat (map u64_bytes d)) \<Longrightarrow> n = length d \<Longrightarrow>
   get_dims n pos input = Inr (d, pos + 8 * length d)"
proof (induction d arbitrary: n pos)
  case (Cons x d)
  then have "reads input pos (u64_bytes x)" "reads input (pos + 8) (concat (map u64_bytes d))"
    by (simp_all add: reads_append)
  then show ?case using Cons.IH [of "pos + 8" "length d"] Cons.prems(2) by (simp add: get_u64_reads)
qed simp

definition variable_ok :: "SscBlockInfo \<Rightarrow> bool" where
  "variable_ok b \<longleftrightarrow>
     length (b_name b) < 256 \<and> length (b_value b) < 256 \<and> length (b_shape b) < 256 \<and>
     length (b_start b) = length (b_shape b) \<and> length (b_count b) = length (b_shape b) \<and>
     known_type (b_type b) \<and> known_shape (b_shapeId b) \<and>
     (if b_type b = DT_Struct then length (b_structDef b) < 256 else b_structDef b = [])"

definition variable_tail :: "SscBlockInfo \<Rightarrow> bytes" where
  "variable_tail b =
     [size8 (b_name b)] @ chars (b_name b) @ [type_code (b_type b)] @
     (if b_type b = DT_Struct then [size8 (b_structDef b)] @ chars (b_structDef b) else []) @
     u64_bytes (b_elementSize b) @ [size8 (b_shape b)] @
     concat (map u64_bytes (b_shape b)) @ concat (map u64_bytes (b_start b)) @
     concat (map u64_bytes (b_count b)) @
     u64_bytes (b_bufferStart b) @ u64_bytes (b_bufferCount b) @ [size8 (b_value b)] @ b_value b"

lemma parse_variable_reads:
  assumes ok: "variable_ok b" and r: "reads input pos (variable_tail b)"
  shows "parse_variable input (b_shapeId b) pos = Inr (b, pos + length (variable_tail b))"
proof -
  let ?m = "length (b_structDef b)"
  define p1 where "p1 = pos + 1 + length (b_name b)"
  define p2 where "p2 = p1 + 1 + (if b_type b = DT_Struct then 1 + ?m else 0)"
  define p3 where "p3 = p2 + 9 + 8 * length (b_shape b)"
  define p4 where "p4 = p3 + 8 * length (b_shape b)"
  define p5 where "p5 = p4 + 8 * length (b_shape b)"
  note sizes = ok [unfolded variable_ok_def]
  have parts: "reads input pos [size8 (b_name b)]" "reads input (pos + 1) (chars (b_name b))"
    "reads input p1 [type_code (b_type b)]"
    "b_type b = DT_Struct \<Longrightarrow> reads input (p1 + 1) [size8 (b_structDef b)]"
    "b_type b = DT_Struct \<Longrightarrow> reads input (p1 + 1 + 1) (chars (b_structDef b))"
    "reads input p2 (u64_bytes (b_elementSize b))" "reads input (p2 + 8) [size8 (b_shape b)]"
    "reads input (p2 + 9) (concat (map u64_bytes (b_shape b)))"
    "reads input p3 (concat (map u64_bytes (b_start b)))"
    "reads input p4 (concat (map u64_bytes (b_count b)))"
    "reads input p5 (u64_bytes (b_bufferStart b))" "reads input (p5 + 8) (u64_bytes (b_bufferCount b))"
    "reads input (p5 + 16) [size8 (b_value b)]" "reads input (p5 + 17) (b_value b)"
    using r sizes unfolding variable_tail_def p1_def p2_def p3_def p4_def p5_def
    by (auto simp: reads_append reads_Cons add_ac split: if_splits)
  have name: "get_string pos input = Inr (b_name b, p1)"
    using get_string_reads [OF parts(1,2)] sizes by (simp add: p1_def)
  have sdef: "(if b_type b = DT_Struct then get_string (p1 + 1) input else Inr ([], p1 + 1)) =
      Inr (b_structDef b, p2)"
    using get_string_reads [OF parts(4,5)] sizes by (auto simp: p2_def)
  have dims: "get_dims (length (b_shape b)) (p2 + 9) input = Inr (b_shape b, p3)"
    "get_dims (length (b_shape b)) p3 input = Inr (b_start b, p4)"
    "get_dims (length (b_shape b)) p4 input = Inr (b_count b, p5)"
    using get_dims_reads [OF parts(8)] get_dims_reads [OF parts(9)] get_dims_reads [OF parts(10)] sizes
    by (simp_all add: p3_def p4_def p5_def)
  have val: "get_bytes (length (b_value b)) (p5 + 17) input = Inr (b_value b)"
    by (rule get_bytes_reads [OF parts(14)]) simp
  have len: "pos + length (variable_tail b) = p5 + 17 + length (b_value b)"
    using sizes by (simp add: variable_tail_def p1_def p2_def p3_def p4_def p5_def)
  have ty: "code_type (type_code (b_type b)) = b_type b" using sizes by (simp add: code_type_code)
  show ?thesis
    unfolding len parse_variable_def name bindR.simps prod.case get_u8_reads [OF parts(3)] ty sdef
      get_u64_reads [OF parts(6)] get_u8_reads [OF parts(7)]
    using sizes
    by (simp add: unat_size8 dims get_u64_reads [OF parts(11)] get_u64_reads [OF parts(12)]
        get_u8_reads [OF parts(13)] val)
qed

subsection \<open>The interface of an item format\<close>

text \<open>
  An item has bytes and a parser that gets it back from anywhere they stand. What is common to the
  sequences of items, whatever their format, is proved here once.
\<close>

locale item_format =
  fixes enc :: "'a \<Rightarrow> bytes"
    and dec :: "bytes \<Rightarrow> nat \<Rightarrow> ('a \<times> nat) result"
    and ok :: "'a \<Rightarrow> bool"
  assumes dec_enc: "ok x \<Longrightarrow> reads input pos (enc x) \<Longrightarrow> dec input pos = Inr (x, pos + length (enc x))"
begin

lemma parse_many_enc:
  "(\<And>x. x \<in> set xs \<Longrightarrow> ok x) \<Longrightarrow> reads input pos (concat (map enc xs)) \<Longrightarrow>
   parse_many dec (length xs) input pos = Inr (xs, pos + length (concat (map enc xs)))"
proof (induction xs arbitrary: pos)
  case (Cons x xs)
  then have "dec input pos = Inr (x, pos + length (enc x))" by (auto simp: reads_append intro: dec_enc)
  moreover have "reads input (pos + length (enc x)) (concat (map enc xs))"
    using Cons.prems(2) by (simp add: reads_append)
  ultimately show ?case using Cons by simp
qed simp

end

definition field_ok :: "StructField \<Rightarrow> bool" where
  "field_ok f \<longleftrightarrow> length (f_name f) < 256 \<and> known_type (f_type f)"

definition definition_ok :: "StructDefinition \<Rightarrow> bool" where
  "definition_ok d \<longleftrightarrow> length (d_name d) < 256 \<and> length (d_fields d) < 256 \<and> list_all field_ok (d_fields d) \<and>
     \<not> d_frozen d"

lemma parse_field_reads:
  assumes ok: "field_ok f" and r: "reads input pos (field_bytes f)"
  shows "parse_field input pos = Inr (f, pos + length (field_bytes f))"
proof -
  define p1 where "p1 = pos + 1 + length (f_name f)"
  have parts: "reads input pos [size8 (f_name f)]" "reads input (pos + 1) (chars (f_name f))"
    "reads input p1 (u64_bytes (f_offset f))"
    "reads input (p1 + 8) (le_bytes 4 (unat (type_code (f_type f))))"
    "reads input (p1 + 12) (u64_bytes (f_count f))"
    using r unfolding field_bytes_def p1_def by (auto simp: reads_append reads_Cons add_ac)
  have small: "unat (type_code (f_type f)) < 256 ^ 4"
    using unsigned_less [of "type_code (f_type f)", where ?'a = nat] by simp
  have name: "get_string pos input = Inr (f_name f, p1)"
    using get_string_reads [OF parts(1,2)] ok by (simp add: p1_def field_ok_def)
  show ?thesis
    unfolding parse_field_def name
    using ok small get_u64_reads [OF parts(3)] get_u64_reads [OF parts(5)] get_bytes_reads [OF parts(4), of 4]
    by (simp add: le_nat_le_bytes field_ok_def code_type_code field_bytes_def p1_def)
qed

interpretation fields: item_format field_bytes parse_field field_ok
  by unfold_locales (rule parse_field_reads)

lemma parse_definition_reads:
  assumes ok: "definition_ok d" and r: "reads input pos (definition_bytes d)"
  shows "parse_definition input pos = Inr (d, pos + length (definition_bytes d))"
proof -
  define p1 where "p1 = pos + 1 + length (d_name d)"
  have parts: "reads input pos [size8 (d_name d)]" "reads input (pos + 1) (chars (d_name d))"
    "reads input p1 (u64_bytes (d_size d))" "reads input (p1 + 8) [size8 (d_fields d)]"
    "reads input (p1 + 8 + 1) (concat (map field_bytes (d_fields d)))"
    using r unfolding definition_bytes_def p1_def by (auto simp: reads_append reads_Cons add_ac)
  have name: "get_string pos input = Inr (d_name d, p1)"
    using get_string_reads [OF parts(1,2)] ok by (simp add: p1_def definition_ok_def)
  have "parse_many parse_field (length (d_fields d)) input (p1 + 8 + 1) =
      Inr (d_fields d, p1 + 8 + 1 + length (concat (map field_bytes (d_fields d))))"
    using ok by (intro fields.parse_many_enc parts(5)) (auto simp: definition_ok_def list_all_iff)
  then show ?thesis
    unfolding parse_definition_def name
    using ok get_u64_reads [OF parts(3)] get_u8_reads [OF parts(4)]
    by (simp add: unat_size8 definition_ok_def definition_bytes_def p1_def add_ac)
qed

interpretation definitions: item_format definition_bytes parse_definition definition_ok
  by unfold_locales (rule parse_definition_reads)

definition attribute_ok :: "SscAttribute \<Rightarrow> bool" where
  "attribute_ok a \<longleftrightarrow> length (a_name a) < 256 \<and> known_type (a_type a) \<and>
     length (a_data a) < 18446744073709551616"

lemma parse_attribute_reads:
  assumes ok: "attribute_ok a" and r: "reads input (pos + 1) (tl (attribute_bytes a))"
  shows "parse_attribute input (pos + 1) = Inr (a, pos + length (attribute_bytes a))"
proof -
  define p1 where "p1 = pos + 3 + length (a_name a)"
  have parts: "reads input (pos + 1) [type_code (a_type a)]" "reads input (pos + 1 + 1) [size8 (a_name a)]"
    "reads input (pos + 1 + 1 + 1) (chars (a_name a))"
    "reads input p1 (u64_bytes (of_nat (length (a_data a))))" "reads input (p1 + 8) (a_data a)"
    using r unfolding attribute_bytes_def p1_def
    by (auto simp: reads_append reads_Cons add_ac numeral_3_eq_3)
  have name: "get_string (pos + 1 + 1) input = Inr (a_name a, p1)"
    using get_string_reads [OF parts(2,3)] ok by (simp add: p1_def attribute_ok_def)
  have "unat (of_nat (length (a_data a)) :: u64) = length (a_data a)"
    using ok by (intro unat_of_nat_small) (simp add: attribute_ok_def)
  then show ?thesis
    unfolding parse_attribute_def
    using ok name get_u8_reads [OF parts(1)] get_u64_reads [OF parts(4)] get_bytes_reads [OF parts(5)]
    by (simp add: attribute_ok_def code_type_code attribute_bytes_def p1_def)
qed

definition entry_bytes :: "Entry \<Rightarrow> bytes" where
  "entry_bytes e =
     (case e of
        Definitions ds \<Rightarrow> [65, size8 ds] @ concat (map definition_bytes ds)
      | Attribute a \<Rightarrow> attribute_bytes a
      | Variable rank b \<Rightarrow> variable_bytes rank b)"

definition entry_ok :: "Entry \<Rightarrow> bool" where
  "entry_ok e =
     (case e of
        Definitions ds \<Rightarrow> ds \<noteq> [] \<and> length ds < 256 \<and> list_all definition_ok ds
      | Attribute a \<Rightarrow> attribute_ok a
      | Variable rank b \<Rightarrow> variable_ok b)"

lemma parse_entry_reads:
  assumes ok: "entry_ok e" and r: "reads input pos (entry_bytes e)"
  shows "parse_entry input pos = Inr (e, pos + length (entry_bytes e))"
proof (cases e)
  case (Definitions ds)
  have parts: "reads input pos [65]" "reads input (pos + 1) [size8 ds]"
    "reads input (pos + 2) (concat (map definition_bytes ds))"
    using r Definitions by (auto simp: entry_bytes_def reads_append reads_Cons)
  have "parse_many parse_definition (length ds) input (pos + 2) =
      Inr (ds, pos + 2 + length (concat (map definition_bytes ds)))"
    using ok Definitions
    by (intro definitions.parse_many_enc parts(3)) (auto simp: entry_ok_def list_all_iff)
  then show ?thesis
    using ok Definitions get_u8_reads [OF parts(1)] get_u8_reads [OF parts(2)]
    by (simp add: parse_entry_def unat_size8 entry_ok_def entry_bytes_def)
next
  case (Attribute a)
  have eq: "attribute_bytes a = 66 # tl (attribute_bytes a)" "tl (attribute_bytes a) \<noteq> []"
    by (simp_all add: attribute_bytes_def)
  then have parts: "reads input pos [66]" "reads input (pos + 1) (tl (attribute_bytes a))"
    using r Attribute reads_append [of input pos "[66]" "tl (attribute_bytes a)"]
    by (simp_all add: entry_bytes_def)
  have "attribute_ok a" using ok Attribute by (simp add: entry_ok_def)
  from parse_attribute_reads [OF this parts(2)] show ?thesis
    using get_u8_reads [OF parts(1)] Attribute by (simp add: parse_entry_def entry_bytes_def)
next
  case (Variable rank b)
  have vb: "variable_bytes rank b =
      [shape_code (b_shapeId b)] @ le_bytes 4 (unat rank) @ variable_tail b"
    by (simp add: variable_bytes_def variable_tail_def)
  have parts: "reads input pos [shape_code (b_shapeId b)]"
    "reads input (pos + 1) (le_bytes 4 (unat rank))" "reads input (pos + 5) (variable_tail b)"
    using r unfolding Variable entry_bytes_def Entry.case vb reads_append by (simp_all add: add.commute)
  have vok: "variable_ok b" using ok Variable by (simp add: entry_ok_def)
  then have shape: "known_shape (b_shapeId b)" by (simp add: variable_ok_def)
  have "unat rank < 256 ^ 4" using unsigned_less [of rank, where ?'a = nat] by simp
  then show ?thesis
    using parse_variable_reads [OF vok parts(3)] get_u8_reads [OF parts(1)] shape_code_small [OF shape]
      get_bytes_reads [OF parts(2), of 4] code_shape_code [OF shape]
    by (simp add: parse_entry_def Variable entry_bytes_def vb le_nat_le_bytes)
qed

interpretation entries: item_format entry_bytes parse_entry entry_ok
  by unfold_locales (rule parse_entry_reads)

text \<open>
  Every entry is longer than the ten bytes of the header. This is why the loop, which compares the
  position with the size of what follows the header, does not stop before the last entry.
\<close>

lemma entry_longer_than_header: "entry_ok e \<Longrightarrow> 10 < length (entry_bytes e)"
  by (cases e)
    (auto simp: entry_bytes_def entry_ok_def attribute_bytes_def variable_bytes_def definition_bytes_def
      neq_Nil_conv)

fun apply_entries :: "RegFlags \<Rightarrow> Entry list \<Rightarrow> SscState \<Rightarrow> SscState result" where
  "apply_entries reg [] s = Inr s"
| "apply_entries reg (e # es) s = bindR (apply_entry reg e s) (apply_entries reg es)"

lemma deserialize_loop_entries:
  assumes "\<And>e. e \<in> set es \<Longrightarrow> entry_ok e" "reads input pos (concat (map entry_bytes es))"
    and "pos + length (concat (map entry_bytes es)) = blockSize + 10" "length es \<le> fuel"
  shows "deserialize_loop fuel reg input blockSize pos s = Some (apply_entries reg es s)"
  using assms
proof (induction es arbitrary: pos s fuel)
  case Nil
  then show ?case by (simp add: deserialize_loop.simps)
next
  case (Cons e es)
  obtain f where f: "fuel = Suc f" using Cons.prems(4) by (cases fuel) auto
  have e: "entry_ok e" using Cons.prems(1) by simp
  have lt: "pos < blockSize"
    using entry_longer_than_header [OF e] Cons.prems(3) by simp
  have r: "reads input pos (entry_bytes e)"
    "reads input (pos + length (entry_bytes e)) (concat (map entry_bytes es))"
    using Cons.prems(2) by (simp_all add: reads_append)
  have IH: "deserialize_loop f reg input blockSize (pos + length (entry_bytes e)) s' =
      Some (apply_entries reg es s')" for s'
    using Cons.IH [OF _ r(2)] Cons.prems f by simp
  show ?case
    using lt f parse_entry_reads [OF e r(1)] IH
    by (cases "apply_entry reg e s") (simp_all add: deserialize_loop.simps [of "Suc f"])
qed

lemma entries_length:
  "(\<And>e. e \<in> set es \<Longrightarrow> entry_ok e) \<Longrightarrow> length es \<le> length (concat (map entry_bytes es))"
proof (induction es)
  case (Cons e es)
  then have "10 < length (entry_bytes e)" "length es \<le> length (concat (map entry_bytes es))"
    by (simp_all add: entry_longer_than_header)
  then show ?case by simp
qed simp

lemma Deserialize_entries:
  assumes "\<And>e. e \<in> set es \<Longrightarrow> entry_ok e" "length (concat (map entry_bytes es)) < 2147483648"
  shows "Deserialize reg ([x, y] @ u64_bytes (of_nat (length (concat (map entry_bytes es)))) @
            concat (map entry_bytes es)) s =
         Some (apply_entries reg es (s\<lparr>s_output := map (\<lambda>_. []) (s_output s)\<rparr>))"
proof -
  let ?p = "concat (map entry_bytes es)" let ?n = "length ?p"
  let ?input = "[x, y] @ u64_bytes (of_nat ?n) @ ?p"
  have n: "unat (of_nat ?n :: u64) = ?n" using assms(2) by (intro unat_of_nat_small) simp
  have "reads ?input 2 (u64_bytes (of_nat ?n))" "reads ?input 10 ?p"
    by (simp_all add: reads_def)
  moreover have "length es \<le> ?n" by (rule entries_length [OF assms(1)])
  ultimately show ?thesis
    unfolding Deserialize_def Let_def
    using n get_u64_reads [of ?input 2 "of_nat ?n"] deserialize_loop_entries [OF assms(1), where input = ?input and pos = 10 and blockSize = ?n and
        fuel = ?n]
    by simp
qed

subsection \<open>The buffer holds what was appended\<close>

definition holds :: "Buffer \<Rightarrow> bytes \<Rightarrow> nat \<Rightarrow> bool" where
  "holds b p spare \<longleftrightarrow>
     (\<exists>rest. m_Buffer b = u64_bytes (of_nat (8 + length p)) @ p @ rest \<and> spare \<le> length rest) \<and>
     8 + length p < 9223372036854775808"

lemma holds_end:
  assumes "holds b p spare"
  shows "get_u64 0 (m_Buffer b) = Inr (of_nat (8 + length p))"
    and "unat (of_nat (8 + length p) :: u64) = 8 + length p"
proof -
  obtain rest where "m_Buffer b = u64_bytes (of_nat (8 + length p)) @ p @ rest"
    using assms by (auto simp: holds_def)
  then have "reads (m_Buffer b) 0 (u64_bytes (of_nat (8 + length p)))" by (simp add: reads_def)
  then show "get_u64 0 (m_Buffer b) = Inr (of_nat (8 + length p))" by (rule get_u64_reads)
  have "8 + length p < 2 ^ LENGTH(64)" using assms by (simp add: holds_def)
  then show "unat (of_nat (8 + length p) :: u64) = 8 + length p" by (rule unat_of_nat_small)
qed

lemma resize_rest:
  assumes "m_Buffer b = h @ p @ rest" "length h = 8"
  shows "\<exists>rest'. m_Buffer (Buffer_resize (8 + length p + 1024) b) = h @ p @ rest' \<and> 1024 \<le> length rest'"
proof (cases "8 + length p + 1024 > length (m_Buffer b)")
  case True
  then have "m_Buffer (Buffer_resize (8 + length p + 1024) b) =
      h @ p @ (rest @ replicate ((8 + length p + 1024) * 2 - length (m_Buffer b)) 0)"
    using assms by (simp add: Buffer_resize_def)
  then show ?thesis using assms True by (intro exI conjI) (assumption, simp)
next
  case False
  then show ?thesis using assms by (simp add: Buffer_resize_def)
qed

lemma append_record_ok:
  assumes h: "holds b p spare" and small: "length bs \<le> 1024"
    and big: "8 + length p + length bs < 9223372036854775808"
  shows "\<exists>b'. append_record bs b = Inr b' \<and> holds b' (p @ bs) 0"
proof -
  let ?hdr = "u64_bytes (of_nat (8 + length p))"
  obtain rest where "m_Buffer b = ?hdr @ p @ rest" using h by (auto simp: holds_def)
  then obtain rest' where r: "m_Buffer (Buffer_resize (8 + length p + 1024) b) = ?hdr @ p @ rest'"
    "1024 \<le> length rest'"
    using resize_rest [of b ?hdr p rest] by auto
  let ?b1 = "Buffer_resize (8 + length p + 1024) b"
  define b2 where "b2 = ?b1\<lparr>m_Buffer := ?hdr @ p @ bs @ drop (length bs) rest'\<rparr>"
  have w1: "write_at (8 + length p) bs ?b1 = Inr b2"
    using r small by (simp add: write_at_def b2_def)
  define b3 where "b3 = b2\<lparr>m_Buffer := u64_bytes (of_nat (8 + length (p @ bs))) @ (p @ bs) @ drop (length bs) rest'\<rparr>"
  have w2: "write_at 0 (u64_bytes (of_nat (8 + length p) + of_nat (length bs))) b2 = Inr b3"
    by (simp add: write_at_def b2_def b3_def add.assoc)
  have "append_record bs b = Inr b3"
    unfolding append_record_def using holds_end [OF h] w1 w2 by (simp del: of_nat_add)
  moreover have "holds b3 (p @ bs) 0" using big by (auto simp: holds_def b3_def)
  ultimately show ?thesis by blast
qed

lemma append_records_ok:
  assumes "holds b p 0" "\<And>r. r \<in> set rs \<Longrightarrow> length r \<le> 1024"
    and "8 + length p + length (concat rs) < 9223372036854775808"
  shows "\<exists>b'. append_records rs b = Inr b' \<and> holds b' (p @ concat rs) 0"
  using assms
proof (induction rs arbitrary: b p)
  case (Cons r rs)
  have "\<exists>b1. append_record r b = Inr b1 \<and> holds b1 (p @ r) 0"
    by (rule append_record_ok) (use Cons.prems in auto)
  then obtain b1 where "append_record r b = Inr b1" "holds b1 (p @ r) 0" by blast
  then show ?case using Cons.IH [of b1 "p @ r"] Cons.prems by simp
qed auto

lemma holds_payload: "holds b p spare \<Longrightarrow> local_payload b = Inr p"
proof -
  assume h: "holds b p spare"
  then obtain rest where b: "m_Buffer b = u64_bytes (of_nat (8 + length p)) @ p @ rest"
    by (auto simp: holds_def)
  have "unat (of_nat (8 + length p) - 8 :: u64) = length p"
    using h by (simp add: holds_def unat_of_nat_small)
  then show "local_payload b = Inr p"
    unfolding local_payload_def holds_end(1) [OF h] using b by (simp add: get_bytes_def)
qed

text \<open>The buffer each rank starts with: eight bytes that say its end is 8.\<close>

definition localBuffer :: Buffer where
  "localBuffer = \<lparr>m_Buffer = u64_bytes 8, m_Size = 0\<rparr>"

lemma localBuffer_holds: "holds localBuffer [] 0"
  by (simp add: holds_def localBuffer_def)

subsection \<open>From the ranks' blocks to every rank's table\<close>

definition no_registration :: RegFlags where
  "no_registration = \<lparr>regVars = False, regAttrs = False\<rparr>"

lemma apply_rank_entries:
  assumes "r < length (s_output s)" "r < 4294967296"
  shows "apply_entries no_registration (map (Variable (of_nat r)) bs) s =
           Inr (s\<lparr>s_output := (s_output s)[r := s_output s ! r @ bs]\<rparr>)"
  using assms
proof (induction bs arbitrary: s)
  case (Cons b bs)
  have r: "unat (of_nat r :: u32) = r" using assms(2) by (intro unat_of_nat_small) simp
  let ?s1 = "s\<lparr>s_output := (s_output s)[r := s_output s ! r @ [b]]\<rparr>"
  have "apply_entry no_registration (Variable (of_nat r) b) s = Inr ?s1"
    using Cons.prems r by (simp add: apply_entry_def no_registration_def Let_def)
  then show ?case using Cons.IH [of ?s1] Cons.prems by simp
qed simp

lemma apply_entries_append:
  "apply_entries reg (es1 @ es2) s = bindR (apply_entries reg es1 s) (apply_entries reg es2)"
proof (induction es1 arbitrary: s)
  case (Cons e es1)
  then show ?case by (cases "apply_entry reg e s") simp_all
qed simp

definition rank_entries :: "SscBlockInfo list list \<Rightarrow> nat \<Rightarrow> Entry list" where
  "rank_entries vars k = concat (map (\<lambda>r. map (Variable (of_nat r)) (vars ! r)) [0..<k])"

lemma apply_all_ranks:
  assumes "k \<le> length vars" "length vars \<le> 4294967296" "s_output s = replicate (length vars) []"
  shows "apply_entries no_registration (rank_entries vars k) s =
           Inr (s\<lparr>s_output := take k vars @ replicate (length vars - k) []\<rparr>)"
  using assms(1)
proof (induction k)
  case 0
  then show ?case using assms(3) by (simp add: rank_entries_def)
next
  case (Suc k)
  let ?s = "s\<lparr>s_output := take k vars @ replicate (length vars - k) []\<rparr>"
  have "rank_entries vars (Suc k) = rank_entries vars k @ map (Variable (of_nat k)) (vars ! k)"
    by (simp add: rank_entries_def)
  moreover have "apply_entries no_registration (rank_entries vars k) s = Inr ?s" using Suc by simp
  moreover have "apply_entries no_registration (map (Variable (of_nat k)) (vars ! k)) ?s =
      Inr (?s\<lparr>s_output := (s_output ?s)[k := s_output ?s ! k @ vars ! k]\<rparr>)"
    using Suc.prems assms(2) by (intro apply_rank_entries) simp_all
  moreover have "(s_output ?s)[k := s_output ?s ! k @ vars ! k] =
      take (Suc k) vars @ replicate (length vars - Suc k) []"
  proof -
    obtain m where "length vars - k = Suc m" "length vars - Suc k = m"
      using Suc.prems by (cases "length vars - k") auto
    then show ?thesis using Suc.prems by (simp add: list_update_append nth_append take_Suc_conv_app_nth)
  qed
  ultimately show ?case by (simp add: apply_entries_append)
qed

lemma mapR_ok: "(\<And>x. x \<in> set xs \<Longrightarrow> f x = Inr (g x)) \<Longrightarrow> mapR f xs = Inr (map g xs)"
  by (induction xs) auto

lemma serialize_rank:
  assumes "\<And>b. b \<in> set bs \<Longrightarrow> length (variable_bytes rank b) \<le> 1024"
    and "length (concat (map (variable_bytes rank) bs)) < 2147483648"
  shows "\<exists>out. SerializeVariables bs localBuffer rank = Inr out \<and>
           local_payload out = Inr (concat (map (variable_bytes rank) bs))"
proof -
  obtain out where "append_records (map (variable_bytes rank) bs) localBuffer = Inr out"
    "holds out ([] @ concat (map (variable_bytes rank) bs)) 0"
    using append_records_ok [OF localBuffer_holds, of "map (variable_bytes rank) bs"] assms by auto
  then show ?thesis by (simp add: SerializeVariables_def holds_payload)
qed

text \<open>The exchange of one step: serialize on every rank, gather, parse.\<close>

definition exchange :: "SscBlockInfo list list \<Rightarrow> bool \<Rightarrow> bool \<Rightarrow> bytes result" where
  "exchange vars finalStep locked =
     bindR (mapR (\<lambda>r. SerializeVariables (vars ! r) localBuffer (of_nat r)) [0..<length vars])
       (\<lambda>bufs. AggregateMetadata bufs finalStep locked)"

lemma exchange_bytes:
  assumes ok: "\<And>bs b. bs \<in> set vars \<Longrightarrow> b \<in> set bs \<Longrightarrow> length (variable_bytes 0 b) \<le> 1024"
    and small: "length (concat (map entry_bytes (rank_entries vars (length vars)))) < 2147483648"
  shows "exchange vars finalStep locked = Inr ([of_bool finalStep, of_bool locked] @
     u64_bytes (of_nat (length (concat (map entry_bytes (rank_entries vars (length vars)))))) @
     concat (map entry_bytes (rank_entries vars (length vars))))"
proof -
  let ?payload = "\<lambda>r. concat (map (variable_bytes (of_nat r)) (vars ! r))"
  have "concat (map ?payload rs) =
      concat (map entry_bytes (concat (map (\<lambda>r. map (Variable (of_nat r)) (vars ! r)) rs)))" for rs
    by (induction rs) (simp_all add: o_def entry_bytes_def)
  then have all: "concat (map ?payload [0..<length vars]) =
      concat (map entry_bytes (rank_entries vars (length vars)))"
    by (simp add: rank_entries_def)
  have "length (?payload r) < 2147483648" if "r < length vars" for r
  proof -
    have "length (?payload r) \<le> sum_list (map (\<lambda>r. length (?payload r)) [0..<length vars])"
      using that by (intro member_le_sum_list) (auto simp: image_iff)
    also have "\<dots> = length (concat (map ?payload [0..<length vars]))"
      by (simp add: length_concat o_def)
    finally show ?thesis using small all by simp
  qed
  moreover have "length (variable_bytes (of_nat r) b) \<le> 1024" if "r < length vars" "b \<in> set (vars ! r)" for r b
    using ok [of "vars ! r" b] that by (simp add: variable_bytes_def)
  ultimately have "\<exists>out. SerializeVariables (vars ! r) localBuffer (of_nat r) = Inr out \<and>
      local_payload out = Inr (?payload r)" if "r < length vars" for r
    using that serialize_rank by blast
  then obtain out where out: "SerializeVariables (vars ! r) localBuffer (of_nat r) = Inr (out r)"
    "local_payload (out r) = Inr (?payload r)" if "r < length vars" for r by metis
  have "mapR (\<lambda>r. SerializeVariables (vars ! r) localBuffer (of_nat r)) [0..<length vars] =
      Inr (map out [0..<length vars])"
    using out(1) by (intro mapR_ok) auto
  moreover have "mapR local_payload (map out [0..<length vars]) = Inr (map (?payload \<circ> id) [0..<length vars])"
  proof -
    have "mapR local_payload (map out rs) = Inr (map ?payload rs)" if "\<forall>r\<in>set rs. r < length vars" for rs
      using that by (induction rs) (auto simp: out(2))
    then show ?thesis by simp
  qed
  ultimately show ?thesis
    using small all by (simp add: exchange_def AggregateMetadata_def Let_def o_def)
qed

subsection \<open>Properties\<close>


definition demo_vars :: "SscBlockInfo list list" where
  "demo_vars =
     [[\<lparr>b_name = ''T'', b_structDef = [], b_type = DT_Double, b_elementSize = 8, b_shapeId = GlobalArray,
        b_shape = [10], b_start = [0], b_count = [5], b_bufferStart = 0, b_bufferCount = 40,
        b_value = []\<rparr>],
      [\<lparr>b_name = ''t'', b_structDef = [], b_type = DT_Int32, b_elementSize = 4, b_shapeId = GlobalValue,
        b_shape = [], b_start = [], b_count = [], b_bufferStart = 40, b_bufferCount = 4,
        b_value = [7, 0, 0, 0]\<rparr>]]"

definition demo_ssc :: SscState where
  "demo_ssc = \<lparr>s_output = [[], []], s_vars = (\<lambda>_. None), s_attrs = (\<lambda>_. None), s_defs = (\<lambda>_. None),
     s_rowMajor = True\<rparr>"


text \<open>
  C24: A rank is in the overlap map exactly if one of its blocks can matter to this rank: it has the
  name of a local block and is a global value, or a global array that shares a point with the local
  block.
\<close>

theorem CalculateOverlap_exact:
  assumes "\<And>gs g l. gs \<in> set globalVecVec \<Longrightarrow> g \<in> set gs \<Longrightarrow> l \<in> set localVec \<Longrightarrow>
      b_name l = b_name g \<Longrightarrow> b_shapeId g = GlobalArray \<Longrightarrow>
      block_ends g \<and> block_ends l \<and> length (b_start l) = length (b_start g)"
  shows "rank \<in> dom (CalculateOverlap globalVecVec localVec) \<longleftrightarrow>
    rank < length globalVecVec \<and>
    (\<exists>g l. g \<in> set (globalVecVec ! rank) \<and> l \<in> set localVec \<and> b_name l = b_name g \<and>
       (b_shapeId g = GlobalValue \<or>
        b_shapeId g = GlobalArray \<and>
        (\<exists>p. in_block (b_start g) (b_count g) p \<and> in_block (b_start l) (b_count l) p)))"
proof (cases "rank < length globalVecVec")
  case True
  have "hasOverlap g l \<longleftrightarrow> (\<exists>p. in_block (b_start g) (b_count g) p \<and> in_block (b_start l) (b_count l) p)"
    if "g \<in> set (globalVecVec ! rank)" "l \<in> set localVec" "b_name l = b_name g" "b_shapeId g = GlobalArray" for g l
    using assms [OF nth_mem [OF True] that] by (intro hasOverlap_points) auto
  then have "(\<exists>g\<in>set (globalVecVec ! rank). \<exists>l\<in>set localVec. b_name l = b_name g \<and>
        (b_shapeId g = GlobalValue \<or> b_shapeId g = GlobalArray \<and> hasOverlap g l)) \<longleftrightarrow>
      (\<exists>g\<in>set (globalVecVec ! rank). \<exists>l\<in>set localVec. b_name l = b_name g \<and>
        (b_shapeId g = GlobalValue \<or> b_shapeId g = GlobalArray \<and>
         (\<exists>p. in_block (b_start g) (b_count g) p \<and> in_block (b_start l) (b_count l) p)))"
    by (intro bex_cong refl conj_cong disj_cong) auto
  then show ?thesis
    unfolding CalculateOverlap_def list_ex_iff dom_def using True by (simp add: Bex_def)
qed (auto simp: CalculateOverlap_def dom_def)

theorem CalculateOverlap_exact_witness:
  "0 \<in> dom (CalculateOverlap demo_vars (demo_vars ! 0)) \<longleftrightarrow>
    0 < length demo_vars \<and>
    (\<exists>g l. g \<in> set (demo_vars ! 0) \<and> l \<in> set (demo_vars ! 0) \<and> b_name l = b_name g \<and>
       (b_shapeId g = GlobalValue \<or>
        b_shapeId g = GlobalArray \<and>
        (\<exists>p. in_block (b_start g) (b_count g) p \<and> in_block (b_start l) (b_count l) p)))"
proof (rule CalculateOverlap_exact)
  let ?b = "hd (hd demo_vars)"
  show "block_ends g \<and> block_ends l \<and> length (b_start l) = length (b_start g)"
    if "gs \<in> set demo_vars" "g \<in> set gs" "l \<in> set (demo_vars ! 0)" "b_shapeId g = GlobalArray" for gs g l
  proof -
    have "g = ?b" "l = ?b" using that by (auto simp: demo_vars_def)
    then show ?thesis by (simp add: demo_vars_def block_ends_def)
  qed
qed

subsection \<open>Where the buffer is too small\<close>

text \<open>
  C25: On the buffer of eight bytes each rank starts with, writing any struct definition at all is a
  write past the allocation, and so is writing an attribute longer than the room made for it.
\<close>

theorem ssc_serialization_overruns:
  assumes "definitions \<noteq> []" "2056 < length (attribute_bytes a)"
  shows "SerializeStructDefinitions definitions localBuffer = Inl UndefinedBehaviour \<and>
    SerializeAttributes [a] localBuffer = Inl UndefinedBehaviour"
proof
  have e: "get_u64 0 (m_Buffer localBuffer) = Inr 8"
    using holds_end(1) [OF localBuffer_holds] by simp
  have l: "length (m_Buffer localBuffer) = 8" by (simp add: localBuffer_def)
  show "SerializeStructDefinitions definitions localBuffer = Inl UndefinedBehaviour"
    using assms(1) by (simp add: SerializeStructDefinitions_def e write_at_def l)
  show "SerializeAttributes [a] localBuffer = Inl UndefinedBehaviour"
    using assms(2) by (simp add: SerializeAttributes_def append_record_def e write_at_def Buffer_resize_def l)
qed

theorem ssc_serialization_overruns_witness:
  "SerializeStructDefinitions [\<lparr>d_name = ''particle'', d_size = 8, d_fields = [], d_frozen = False\<rparr>] localBuffer =
     Inl UndefinedBehaviour \<and>
   SerializeAttributes [\<lparr>a_type = DT_String, a_name = ''note'', a_data = replicate 3000 65\<rparr>] localBuffer =
     Inl UndefinedBehaviour"
  by (rule ssc_serialization_overruns) (simp_all add: attribute_bytes_def)

definition local_array_block :: SscBlockInfo where
  "local_array_block = \<lparr>b_name = ''L'', b_structDef = [], b_type = DT_Int8, b_elementSize = 1,
     b_shapeId = LocalArray, b_shape = [], b_start = [], b_count = [2], b_bufferStart = 1,
     b_bufferCount = 2, b_value = []\<rparr>"

text \<open>
  A local array has a count but no shape, and the number of dimensions sent is that of the
  shape: what the parser returns for such a block is another block, without error.
\<close>

theorem local_array_is_misread:
  "\<exists>b e. parse_entry (variable_bytes 0 local_array_block) 0 = Inr (Variable 0 b, e) \<and>
     b_count b = [] \<and> b_bufferStart b = 2 \<and> b_bufferCount b = 1 \<and>
     e < length (variable_bytes 0 local_array_block)"
proof -
  have *: "case parse_entry (variable_bytes 0 local_array_block) 0 of
      Inr (Variable r b, e) \<Rightarrow> r = 0 \<and> b_count b = [] \<and> b_bufferStart b = 2 \<and> b_bufferCount b = 1 \<and>
        e < length (variable_bytes 0 local_array_block)
    | _ \<Rightarrow> False"
    by code_simp
  show ?thesis
  proof (cases "parse_entry (variable_bytes 0 local_array_block) 0")
    case (Inl err)
    then show ?thesis using * by simp
  next
    case (Inr xe)
    obtain x e where "xe = (x, e)" by (cases xe)
    then show ?thesis using * Inr by (cases x) auto
  qed
qed

end
