(* ===== verification/Adios_SscData.thy ===== *)
theory Adios_SscData
  imports Adios_Ssc
begin

section \<open>The data of the SSC engine\<close>

text \<open>
  \<open>engine/ssc/SscWriterGeneric.cpp\<close> and \<open>SscReaderGeneric.cpp\<close>: a writer packs the blocks of a step
  into one buffer behind a flag byte; a reader takes the whole buffer of every writer it overlaps
  with and shifts the blocks' positions accordingly, while the writer computes the same slots on its
  side. The results: packing refines a map from blocks to their bytes, both sides compute the same
  slots, and the reader finds at the shifted positions what the writers put.

  \<open>MPI_Get\<close> and the message exchange deliver the bytes of the other side's buffer. The strided copy
  into the reader's memory is not modelled here. An unordered map is visited in rank order; its
  entries do not depend on each other.
\<close>

subsection \<open>The writer\<close>

record PutVariable =
  v_name :: string
  v_type :: DataType
  v_elementSize :: u64
  v_shapeId :: ShapeID
  v_shape :: dims
  v_start :: dims
  v_count :: dims
  v_structName :: string

text \<open>The state of a writer rank; \<open>w_pattern\<close> is the rank's own list in \<open>m_GlobalWritePattern\<close>.\<close>

record SscWriter =
  w_currentStep :: int
  w_writerLocked :: bool
  w_readerLocked :: bool
  w_writerRank :: nat
  w_rowMajor :: bool
  w_buffer :: Buffer
  w_pattern :: "SscBlockInfo list"

definition flexible :: "SscWriter \<Rightarrow> bool" where
  "flexible w \<longleftrightarrow> w_currentStep w = 0 \<or> \<not> w_writerLocked w \<or> \<not> w_readerLocked w"

definition Writer_BeginStep :: "SscWriter \<Rightarrow> SscWriter result" where
  "Writer_BeginStep w =
     (let w = w\<lparr>w_currentStep := w_currentStep w + 1\<rparr> in
      if flexible w
      then bindR (write_at 0 [0] (Buffer_resize 1 (w_buffer w))) (\<lambda>buf.
             Inr (w\<lparr>w_buffer := buf, w_pattern := []\<rparr>))
      else Inr w)"

text \<open>\<open>memcpy\<close> of \<open>n\<close> bytes from \<open>data\<close>.\<close>

definition copy_in :: "nat \<Rightarrow> nat \<Rightarrow> bytes \<Rightarrow> Buffer \<Rightarrow> Buffer result" where
  "copy_in pos n data buf =
     (if n \<le> length data then write_at pos (take n data) buf else Inl UndefinedBehaviour)"

text \<open>The loops over the blocks already there; a string may get shorter but not longer.\<close>

fun overwrite_string :: "string \<Rightarrow> bytes \<Rightarrow> SscBlockInfo list \<Rightarrow> Buffer \<Rightarrow> Buffer result" where
  "overwrite_string nm data [] buf = Inr buf"
| "overwrite_string nm data (b # bs) buf =
     (if b_name b = nm
      then (if unat (b_bufferCount b) < length data then Inl InvalidArgument
            else bindR (copy_in (unat (b_bufferStart b)) (length data) data buf)
                   (overwrite_string nm data bs))
      else overwrite_string nm data bs buf)"

definition same_block :: "string \<Rightarrow> dims \<Rightarrow> dims \<Rightarrow> dims \<Rightarrow> SscBlockInfo \<Rightarrow> bool" where
  "same_block nm vStart vCount vShape b \<longleftrightarrow>
     b_name b = nm \<and> AreSameDims vStart (b_start b) \<and> AreSameDims vCount (b_count b) \<and>
     AreSameDims vShape (b_shape b)"

fun overwrite :: "(SscBlockInfo \<Rightarrow> bool) \<Rightarrow> bytes \<Rightarrow> SscBlockInfo list \<Rightarrow> Buffer \<Rightarrow> Buffer result" where
  "overwrite same data [] buf = Inr buf"
| "overwrite same data (b # bs) buf =
     (if same b
      then bindR (copy_in (unat (b_bufferStart b)) (unat (b_bufferCount b)) data buf)
             (overwrite same data bs)
      else overwrite same data bs buf)"

definition append_string :: "PutVariable \<Rightarrow> bytes \<Rightarrow> SscWriter \<Rightarrow> SscWriter result" where
  "append_string v data w =
     (let b = \<lparr>b_name = v_name v, b_structDef = [], b_type = DT_String, b_elementSize = 0,
               b_shapeId = v_shapeId v, b_shape = v_shape v, b_start = v_start v,
               b_count = v_count v, b_bufferStart = of_nat (m_Size (w_buffer w)),
               b_bufferCount = of_nat (length data), b_value = data\<rparr> in
      bindR (copy_in (unat (b_bufferStart b)) (length data) data
               (Buffer_resize (unat (b_bufferStart b + b_bufferCount b)) (w_buffer w))) (\<lambda>buf.
        Inr (w\<lparr>w_buffer := buf, w_pattern := w_pattern w @ [b]\<rparr>)))"

definition append_block :: "PutVariable \<Rightarrow> dims \<Rightarrow> dims \<Rightarrow> dims \<Rightarrow> bytes \<Rightarrow> SscWriter \<Rightarrow> SscWriter result" where
  "append_block v vStart vCount vShape data w =
     bindR (TotalDataSize_dims vCount (v_elementSize v) (v_shapeId v)) (\<lambda>n.
       let b = \<lparr>b_name = v_name v,
                b_structDef = (if v_type v = DT_Struct then v_structName v else []),
                b_type = v_type v, b_elementSize = v_elementSize v, b_shapeId = v_shapeId v,
                b_shape = vShape, b_start = vStart, b_count = vCount,
                b_bufferStart = of_nat (m_Size (w_buffer w)), b_bufferCount = n,
                b_value = (if v_shapeId v = GlobalValue \<or> v_shapeId v = LocalValue
                           then take (unat n) data else [])\<rparr> in
       bindR (copy_in (unat (b_bufferStart b)) (unat n) data
                (Buffer_resize (unat (b_bufferStart b + n)) (w_buffer w))) (\<lambda>buf.
         Inr (w\<lparr>w_buffer := buf, w_pattern := w_pattern w @ [b]\<rparr>)))"

definition Writer_PutDeferred :: "PutVariable \<Rightarrow> bytes \<Rightarrow> SscWriter \<Rightarrow> SscWriter result" where
  "Writer_PutDeferred v data w =
     (if v_type v = DT_String
      then bindR (overwrite_string (v_name v) data (w_pattern w) (w_buffer w)) (\<lambda>buf.
             if list_ex (\<lambda>b. b_name b = v_name v) (w_pattern w) then Inr (w\<lparr>w_buffer := buf\<rparr>)
             else if flexible w then append_string v data w
             else Inl InvalidArgument)
      else if (v_shapeId v = GlobalValue \<or> v_shapeId v = LocalValue) \<and> w_writerRank w \<noteq> 0 then Inr w
      else
        (let order = (if w_rowMajor w then (\<lambda>d. d) else rev);
             vStart = order (v_start v); vCount = order (v_count v); vShape = order (v_shape v);
             same = same_block (v_name v) vStart vCount vShape in
         bindR (overwrite same data (w_pattern w) (w_buffer w)) (\<lambda>buf.
           if list_ex same (w_pattern w) then Inr (w\<lparr>w_buffer := buf\<rparr>)
           else if flexible w then append_block v vStart vCount vShape data w
           else Inl InvalidArgument)))"

subsection \<open>Slots\<close>

text \<open>
  Both sides give every writer that overlaps with a reader the next free bytes of the reader's
  buffer, one more than the data for the flag. The reader also shifts the blocks of the writer.
\<close>

type_synonym slots = "nat \<rightharpoonup> u64 \<times> u64"

fun reader_positions ::
    "nat \<Rightarrow> SscBlockInfo list list \<Rightarrow> slots \<Rightarrow> u64 \<Rightarrow> (SscBlockInfo list list \<times> slots) result" where
  "reader_positions rank [] allRanks bufferPosition = Inr ([], allRanks)"
| "reader_positions rank (bv # bvv) allRanks bufferPosition =
     (if allRanks rank \<noteq> None
      then (let bv' = map (\<lambda>b. b\<lparr>b_bufferStart := b_bufferStart b + bufferPosition\<rparr>) bv in
            bindR (TotalDataSize bv') (\<lambda>n.
            bindR (reader_positions (rank + 1) bvv (allRanks(rank \<mapsto> (bufferPosition, n + 1)))
                     (bufferPosition + (n + 1))) (\<lambda>(bvv', m).
              Inr (bv' # bvv', m))))
      else bindR (reader_positions (rank + 1) bvv allRanks bufferPosition) (\<lambda>(bvv', m).
             Inr (bv # bvv', m)))"

definition Reader_CalculatePosition ::
    "SscBlockInfo list list \<Rightarrow> slots \<Rightarrow> (SscBlockInfo list list \<times> slots) result" where
  "Reader_CalculatePosition bvv allRanks = reader_positions 0 bvv allRanks 0"

fun writer_positions :: "nat \<Rightarrow> SscBlockInfo list list \<Rightarrow> slots \<Rightarrow> u64 \<Rightarrow> slots result" where
  "writer_positions rank [] cur bufferPosition = Inr cur"
| "writer_positions rank (bv # bvv) cur bufferPosition =
     (if cur rank \<noteq> None
      then bindR (TotalDataSize bv) (\<lambda>n.
             let currentRankTotalSize = n + 1 in
             writer_positions (rank + 1) bvv (cur(rank \<mapsto> (bufferPosition, currentRankTotalSize)))
               (bufferPosition + currentRankTotalSize))
      else writer_positions (rank + 1) bvv cur bufferPosition)"

text \<open>\<open>currentReaderOverlapWriterRanks[writerRank]\<close> is \<open>(0, 0)\<close> if there is no entry.\<close>

fun writer_slots ::
    "SscBlockInfo list list \<Rightarrow> SscBlockInfo list list \<Rightarrow> nat \<Rightarrow> nat list \<Rightarrow> slots \<Rightarrow> slots result" where
  "writer_slots writerVecVec readerVecVec writerRank [] all = Inr all"
| "writer_slots writerVecVec readerVecVec writerRank (r # rs) all =
     (if all r \<noteq> None
      then bindR (writer_positions 0 writerVecVec (CalculateOverlap writerVecVec (readerVecVec ! r)) 0)
             (\<lambda>cur. writer_slots writerVecVec readerVecVec writerRank rs
                (all(r \<mapsto> (case cur writerRank of Some s \<Rightarrow> s | None \<Rightarrow> (0, 0)))))
      else writer_slots writerVecVec readerVecVec writerRank rs all)"

definition Writer_CalculatePosition ::
    "SscBlockInfo list list \<Rightarrow> SscBlockInfo list list \<Rightarrow> nat \<Rightarrow> slots \<Rightarrow> slots result" where
  "Writer_CalculatePosition writerVecVec readerVecVec writerRank allOverlapRanks =
     writer_slots writerVecVec readerVecVec writerRank [0..<length readerVecVec] allOverlapRanks"

definition Writer_SyncReadPattern ::
    "SscBlockInfo list list \<Rightarrow> SscBlockInfo list list \<Rightarrow> nat \<Rightarrow> nat \<Rightarrow> slots result" where
  "Writer_SyncReadPattern writePattern readPattern streamRank writerRank =
     Writer_CalculatePosition writePattern readPattern writerRank
       (CalculateOverlap readPattern (writePattern ! streamRank))"

subsection \<open>The reader\<close>

text \<open>
  \<open>r_written\<close> is what \<open>Deserialize\<close> reads from \<open>m_GlobalWritePatternBuffer\<close>, \<open>r_pattern\<close> the table
  with the shifted positions, \<open>r_local\<close> the list \<open>m_LocalReadPattern\<close>.
\<close>

record SscReader =
  r_written :: "SscBlockInfo list list"
  r_pattern :: "SscBlockInfo list list"
  r_local :: "SscBlockInfo list"
  r_slots :: slots
  r_buffer :: Buffer

text \<open>\<open>BeginStepFlexible\<close>, when the metadata received is not that of the final step.\<close>

definition Reader_BeginStepFlexible :: "SscBlockInfo list list \<Rightarrow> SscReader \<Rightarrow> SscReader result" where
  "Reader_BeginStepFlexible written r =
     bindR (write_at 0 [0] (Buffer_resize 1 (r_buffer r))) (\<lambda>buf.
       Inr (r\<lparr>r_written := written, r_pattern := written, r_local := [], r_slots := Map.empty,
              r_buffer := buf\<rparr>))"

text \<open>The block is in the list when the exception is thrown: it is returned with the flag.\<close>

definition GetDeferredDeltaCommon :: "bool \<Rightarrow> PutVariable \<Rightarrow> SscReader \<Rightarrow> SscReader \<times> bool" where
  "GetDeferredDeltaCommon rowMajor v r =
     (let order = (if rowMajor then (\<lambda>d. d) else rev);
          b = \<lparr>b_name = v_name v, b_structDef = [], b_type = v_type v,
               b_elementSize = v_elementSize v, b_shapeId = v_shapeId v, b_shape = order (v_shape v),
               b_start = order (v_start v), b_count = order (v_count v), b_bufferStart = 0,
               b_bufferCount = 0, b_value = []\<rparr> in
      (r\<lparr>r_local := r_local r @ [b]\<rparr>, list_ex (\<lambda>d. d = 0) (b_count b)))"

definition slots_size :: "nat \<Rightarrow> slots \<Rightarrow> nat" where
  "slots_size n m = length (filter (\<lambda>r. m r \<noteq> None) [0..<n])"

definition totalDataSize :: "nat \<Rightarrow> slots \<Rightarrow> u64" where
  "totalDataSize n m = sum_list (map (\<lambda>r. case m r of Some (first, second) \<Rightarrow> second | None \<Rightarrow> 0) [0..<n])"

text \<open>One-sided reads of the writers' windows; a read past a window is an error.\<close>

fun fetch_windows :: "nat list \<Rightarrow> slots \<Rightarrow> (nat \<Rightarrow> bytes) \<Rightarrow> Buffer \<Rightarrow> Buffer result" where
  "fetch_windows [] m window buf = Inr buf"
| "fetch_windows (r # rs) m window buf =
     (case m r of
        None \<Rightarrow> fetch_windows rs m window buf
      | Some (first, second) \<Rightarrow>
          bindR (get_bytes (unat second) 0 (window r)) (\<lambda>bs.
          bindR (write_at (unat first) bs buf) (fetch_windows rs m window)))"

text \<open>\<open>PerformGets\<close> while definitions or selections may change, up to the copies to the user.\<close>

definition PerformGets :: "(nat \<Rightarrow> bytes) \<Rightarrow> SscReader \<Rightarrow> SscReader result" where
  "PerformGets window r =
     (let n = length (r_written r) in
      bindR (Reader_CalculatePosition (r_written r) (CalculateOverlap (r_written r) (r_local r)))
        (\<lambda>(bvv, slots).
          let r' = r\<lparr>r_pattern := bvv, r_slots := slots\<rparr> in
          if slots_size n (r_slots r) \<noteq> slots_size n slots
          then bindR (fetch_windows [0..<n] slots window
                        (Buffer_resize (unat (totalDataSize n slots)) (r_buffer r))) (\<lambda>buf.
                 Inr (r'\<lparr>r_buffer := buf\<rparr>))
          else Inr r'))"

text \<open>\<open>GetDeferred\<close> of a string once definitions and selections are locked: the last match wins.\<close>

definition get_string_locked :: "nat list \<Rightarrow> SscReader \<Rightarrow> string \<Rightarrow> bytes \<Rightarrow> bytes" where
  "get_string_locked ranks r nm dataString =
     foldl (\<lambda>d b. if b_name b = nm then b_value b else d) dataString
       (concat (map (\<lambda>i. r_pattern r ! i) (filter (\<lambda>i. r_slots r i \<noteq> None) ranks)))"

text \<open>The strings as \<open>BeginStep\<close> sees them: from the data of this step once locked.\<close>

definition value_at_BeginStep :: "bool \<Rightarrow> SscReader \<Rightarrow> SscBlockInfo \<Rightarrow> bytes result" where
  "value_at_BeginStep flex r v =
     (if flex then Inr (b_value v @ replicate (unat (b_bufferCount v) - length (b_value v)) 0)
      else get_bytes (unat (b_bufferCount v)) (unat (b_bufferStart v)) (m_Buffer (r_buffer r)))"

subsection \<open>Contents of blocks\<close>

definition contents :: "SscBlockInfo \<Rightarrow> Buffer \<Rightarrow> bytes" where
  "contents b buf = take (unat (b_bufferCount b)) (drop (unat (b_bufferStart b)) (m_Buffer buf))"

lemma write_at_ok:
  "pos + length bs \<le> length (m_Buffer buf) \<Longrightarrow>
   write_at pos bs buf =
     Inr (buf\<lparr>m_Buffer := take pos (m_Buffer buf) @ bs @ drop (pos + length bs) (m_Buffer buf)\<rparr>)"
  by (simp add: write_at_def)

text \<open>What a write of \<open>bs\<close> at \<open>pos\<close> leaves before, at, and behind it.\<close>

lemma write_at_parts:
  assumes "write_at pos bs buf = Inr buf'"
  shows "m_Size buf' = m_Size buf" and "length (m_Buffer buf') = length (m_Buffer buf)"
    and "n \<le> pos \<Longrightarrow> take n (m_Buffer buf') = take n (m_Buffer buf)"
    and "take (length bs) (drop pos (m_Buffer buf')) = bs"
    and "pos + length bs \<le> n \<Longrightarrow> drop n (m_Buffer buf') = drop n (m_Buffer buf)"
proof -
  have l: "pos + length bs \<le> length (m_Buffer buf)"
    and b: "buf' = buf\<lparr>m_Buffer := take pos (m_Buffer buf) @ bs @ drop (pos + length bs) (m_Buffer buf)\<rparr>"
    using assms by (auto simp: write_at_def split: if_splits)
  show "m_Size buf' = m_Size buf" "length (m_Buffer buf') = length (m_Buffer buf)"
    "take (length bs) (drop pos (m_Buffer buf')) = bs"
    using l by (simp_all add: b)
  show "n \<le> pos \<Longrightarrow> take n (m_Buffer buf') = take n (m_Buffer buf)" using l by (simp add: b)
  show "pos + length bs \<le> n \<Longrightarrow> drop n (m_Buffer buf') = drop n (m_Buffer buf)"
    using l by (simp add: b)
qed

subsection \<open>Packing is a map update\<close>

definition size_ok :: "SscBlockInfo \<Rightarrow> bool" where
  "size_ok b \<longleftrightarrow> b_type b = DT_String \<or>
     TotalDataSize_dims (b_count b) (b_elementSize b) (b_shapeId b) = Inr (b_bufferCount b)"

fun placed_from :: "nat \<Rightarrow> SscBlockInfo list \<Rightarrow> nat \<Rightarrow> bool" where
  "placed_from p [] e \<longleftrightarrow> p = e"
| "placed_from p (b # bs) e \<longleftrightarrow>
     unat (b_bufferStart b) = p \<and> size_ok b \<and> placed_from (p + unat (b_bufferCount b)) bs e"

definition block_key :: "SscBlockInfo \<Rightarrow> string \<times> dims \<times> dims \<times> dims" where
  "block_key b =
     (if b_type b = DT_String then (b_name b, [], [], []) else (b_name b, b_start b, b_count b, b_shape b))"

definition placed :: "SscWriter \<Rightarrow> bool" where
  "placed w \<longleftrightarrow>
     placed_from 1 (w_pattern w) (m_Size (w_buffer w)) \<and>
     m_Size (w_buffer w) \<le> length (m_Buffer (w_buffer w)) \<and>
     m_Size (w_buffer w) < 18446744073709551616 \<and> distinct (map block_key (w_pattern w))"

lemma placed_from_le: "placed_from p bs e \<Longrightarrow> p \<le> e"
  by (induction bs arbitrary: p) force+

lemma placed_from_block:
  "placed_from p bs e \<Longrightarrow> b \<in> set bs \<Longrightarrow>
   p \<le> unat (b_bufferStart b) \<and> unat (b_bufferStart b) + unat (b_bufferCount b) \<le> e"
proof (induction bs arbitrary: p)
  case (Cons a bs)
  then show ?case using placed_from_le [of "p + unat (b_bufferCount a)" bs e] by auto force+
qed simp

lemma placed_from_append:
  "placed_from p (bs @ [b]) e' \<longleftrightarrow>
   placed_from p bs (unat (b_bufferStart b)) \<and> size_ok b \<and>
   e' = unat (b_bufferStart b) + unat (b_bufferCount b)"
  by (induction bs arbitrary: p) auto

lemma TotalDataSize_placed:
  "placed_from p bs e \<Longrightarrow> e < 18446744073709551616 \<Longrightarrow>
   TotalDataSize_from s bs = Inr (s + of_nat (e - p))"
proof (induction bs arbitrary: p s)
  case (Cons b bs)
  let ?p = "p + unat (b_bufferCount b)"
  have le: "?p \<le> e" using Cons.prems by (auto dest: placed_from_le)
  have "of_nat (e - p) = (of_nat (unat (b_bufferCount b)) + of_nat (e - ?p) :: u64)"
    using le by (simp only: of_nat_add [symmetric]) (simp add: algebra_simps)
  then have "s + b_bufferCount b + of_nat (e - ?p) = s + of_nat (e - p)" by (simp add: add.assoc)
  moreover have "TotalDataSize_from (s + b_bufferCount b) bs = Inr (s + b_bufferCount b + of_nat (e - ?p))"
    using Cons by simp
  ultimately show ?case using Cons.prems(1) by (auto simp: size_ok_def)
qed simp

text \<open>A write inside a block shows in that block only.\<close>

lemma contents_before:
  "unat (b_bufferStart b) + unat (b_bufferCount b) \<le> n \<Longrightarrow>
   take n (m_Buffer buf') = take n (m_Buffer buf) \<Longrightarrow> contents b buf' = contents b buf"
proof -
  assume le: "unat (b_bufferStart b) + unat (b_bufferCount b) \<le> n"
    and eq: "take n (m_Buffer buf') = take n (m_Buffer buf)"
  have "take (unat (b_bufferCount b)) (drop (unat (b_bufferStart b)) (take n xs)) =
      take (unat (b_bufferCount b)) (drop (unat (b_bufferStart b)) xs)" for xs :: bytes
    using le by (simp add: drop_take min_def)
  from this [of "m_Buffer buf"] this [of "m_Buffer buf'"] show "contents b buf' = contents b buf"
    using eq by (simp add: contents_def)
qed

lemma contents_behind:
  "n \<le> unat (b_bufferStart b) \<Longrightarrow> drop n (m_Buffer buf') = drop n (m_Buffer buf) \<Longrightarrow>
   contents b buf' = contents b buf"
proof -
  assume le: "n \<le> unat (b_bufferStart b)" and eq: "drop n (m_Buffer buf') = drop n (m_Buffer buf)"
  have "drop (unat (b_bufferStart b)) xs = drop (unat (b_bufferStart b) - n) (drop n xs)" for xs :: bytes
    using le by simp
  from this [of "m_Buffer buf"] this [of "m_Buffer buf'"] show "contents b buf' = contents b buf"
    using eq by (simp add: contents_def)
qed

text \<open>
  Both loops over the blocks: \<open>f b buf\<close> overwrites the first bytes of a matching block. \<open>new b old\<close>
  is what the block holds then.
\<close>

fun overwrite_with :: "(SscBlockInfo \<Rightarrow> bool) \<Rightarrow> (SscBlockInfo \<Rightarrow> nat) \<Rightarrow> bytes \<Rightarrow> SscBlockInfo list \<Rightarrow>
    Buffer \<Rightarrow> Buffer result" where
  "overwrite_with same len data [] buf = Inr buf"
| "overwrite_with same len data (b # bs) buf =
     (if same b
      then bindR (copy_in (unat (b_bufferStart b)) (len b) data buf) (overwrite_with same len data bs)
      else overwrite_with same len data bs buf)"

lemma overwrite_with_ok:
  assumes "placed_from p bs e" "e \<le> length (m_Buffer buf)"
    and "\<And>b. b \<in> set bs \<Longrightarrow> same b \<Longrightarrow> len b \<le> length data \<and> len b \<le> unat (b_bufferCount b)"
  shows "\<exists>buf'. overwrite_with same len data bs buf = Inr buf' \<and> m_Size buf' = m_Size buf \<and>
    length (m_Buffer buf') = length (m_Buffer buf) \<and> take p (m_Buffer buf') = take p (m_Buffer buf) \<and>
    (\<forall>b\<in>set bs. contents b buf' =
       (if same b then take (len b) data @ drop (len b) (contents b buf) else contents b buf))"
  using assms
proof (induction bs arbitrary: p buf)
  case (Cons b bs)
  let ?p = "p + unat (b_bufferCount b)"
  have pl: "unat (b_bufferStart b) = p" "placed_from ?p bs e" using Cons.prems(1) by auto
  have le: "?p \<le> length (m_Buffer buf)" using placed_from_le [OF pl(2)] Cons.prems(2) by simp
  define buf1 where "buf1 = (if same b
      then buf\<lparr>m_Buffer := take p (m_Buffer buf) @ take (len b) data @ drop (p + len b) (m_Buffer buf)\<rparr> else buf)"
  have len: "same b \<Longrightarrow> len b \<le> length data \<and> len b \<le> unat (b_bufferCount b)" using Cons.prems(3) by simp
  have step: "overwrite_with same len data (b # bs) buf = overwrite_with same len data bs buf1"
  proof (cases "same b")
    case True
    then have "p + len b \<le> length (m_Buffer buf)" using len le by simp
    then show ?thesis using True pl(1) len by (simp add: copy_in_def write_at_def buf1_def)
  qed (simp add: buf1_def)
  have b1: "m_Size buf1 = m_Size buf" "length (m_Buffer buf1) = length (m_Buffer buf)"
    "take p (m_Buffer buf1) = take p (m_Buffer buf)" "drop ?p (m_Buffer buf1) = drop ?p (m_Buffer buf)"
    "contents b buf1 = (if same b then take (len b) data @ drop (len b) (contents b buf) else contents b buf)"
    using le len pl(1) by (auto simp: buf1_def contents_def drop_take add.commute)
  obtain buf' where IH: "overwrite_with same len data bs buf1 = Inr buf'" "m_Size buf' = m_Size buf1"
    "length (m_Buffer buf') = length (m_Buffer buf1)" "take ?p (m_Buffer buf') = take ?p (m_Buffer buf1)"
    "\<And>c. c \<in> set bs \<Longrightarrow> contents c buf' =
       (if same c then take (len c) data @ drop (len c) (contents c buf1) else contents c buf1)"
    using Cons.IH [OF pl(2), of buf1] Cons.prems(2,3) b1(2) by (metis list.set_intros(2))
  have "contents b buf' = contents b buf1"
    by (rule contents_before [where n = ?p]) (use pl(1) IH(4) in simp_all)
  moreover have "contents c buf1 = contents c buf" if "c \<in> set bs" for c
    by (rule contents_behind [where n = ?p]) (use placed_from_block [OF pl(2) that] b1(4) in simp_all)
  moreover have "take p (m_Buffer buf') = take p (m_Buffer buf1)"
    using arg_cong [where f = "take p", OF IH(4)] by simp
  ultimately show ?case using IH b1 step by auto
qed auto

lemma overwrite_with_cong:
  "(\<And>b. b \<in> set bs \<Longrightarrow> same b \<Longrightarrow> len b = len' b) \<Longrightarrow>
   overwrite_with same len data bs buf = overwrite_with same len' data bs buf"
proof (induction bs arbitrary: buf)
  case (Cons b bs)
  then have "overwrite_with same len data bs = overwrite_with same len' data bs" by (intro ext) simp
  then show ?case using Cons.prems by simp
qed simp

lemma overwrite_is_with:
  "overwrite same data bs buf = overwrite_with same (\<lambda>b. unat (b_bufferCount b)) data bs buf"
proof (induction bs arbitrary: buf)
  case (Cons b bs)
  then have "overwrite same data bs = overwrite_with same (\<lambda>b. unat (b_bufferCount b)) data bs" by blast
  then show ?case by simp
qed simp

lemma overwrite_needs: "overwrite same data bs buf = Inr buf' \<Longrightarrow> b \<in> set bs \<Longrightarrow> same b \<Longrightarrow>
    unat (b_bufferCount b) \<le> length data"
  by (induction bs arbitrary: buf) (auto simp: result_simps copy_in_def split: if_splits)

lemma overwrite_string_is_with:
  "overwrite_string nm data bs buf = Inr buf' \<Longrightarrow>
   overwrite_with (\<lambda>b. b_name b = nm) (\<lambda>b. length data) data bs buf = Inr buf'"
  by (induction bs arbitrary: buf) (auto simp: result_simps split: if_splits)

lemma overwrite_string_needs: "overwrite_string nm data bs buf = Inr buf' \<Longrightarrow> b \<in> set bs \<Longrightarrow>
    b_name b = nm \<Longrightarrow> length data \<le> unat (b_bufferCount b)"
  by (induction bs arbitrary: buf) (auto simp: result_simps split: if_splits)

text \<open>What the user put, by the key of the block.\<close>

definition stored :: "SscWriter \<Rightarrow> string \<times> dims \<times> dims \<times> dims \<rightharpoonup> bytes" where
  "stored w k = map_option (\<lambda>b. contents b (w_buffer w)) (List.find (\<lambda>b. block_key b = k) (w_pattern w))"

definition put_key :: "SscWriter \<Rightarrow> PutVariable \<Rightarrow> string \<times> dims \<times> dims \<times> dims" where
  "put_key w v =
     (let order = (if w_rowMajor w then (\<lambda>d. d) else rev) in
      if v_type v = DT_String then (v_name v, [], [], [])
      else (v_name v, order (v_start v), order (v_count v), order (v_shape v)))"

text \<open>
  The bytes under the key afterwards: a new block takes its size from the variable, one that is
  there keeps its size; a shorter string leaves the rest of the longer one.
\<close>

definition put_value :: "SscWriter \<Rightarrow> PutVariable \<Rightarrow> bytes \<Rightarrow> bytes" where
  "put_value w v data =
     (case stored w (put_key w v) of
        None \<Rightarrow>
          (if v_type v = DT_String then data
           else case TotalDataSize_dims (if w_rowMajor w then v_count v else rev (v_count v))
                       (v_elementSize v) (v_shapeId v) of
                  Inr n \<Rightarrow> take (unat n) data
                | Inl _ \<Rightarrow> [])
      | Some old \<Rightarrow>
          (if v_type v = DT_String then data @ drop (length data) old
           else take (length old) data))"

text \<open>A variable has one type.\<close>

definition one_type :: "PutVariable \<Rightarrow> SscWriter \<Rightarrow> bool" where
  "one_type v w \<longleftrightarrow>
     list_all (\<lambda>b. b_name b = v_name v \<longrightarrow> (b_type b = DT_String \<longleftrightarrow> v_type v = DT_String)) (w_pattern w)"

lemma find_key:
  "distinct (map block_key bs) \<Longrightarrow> b \<in> set bs \<Longrightarrow> List.find (\<lambda>c. block_key c = block_key b) bs = Some b"
  by (induction bs) (auto simp: image_iff)

lemma find_none: "List.find P bs = None \<longleftrightarrow> (\<forall>b\<in>set bs. \<not> P b)"
  by (induction bs) auto

lemma find_append: "List.find P (bs @ cs) = (case List.find P bs of None \<Rightarrow> List.find P cs | Some b \<Rightarrow> Some b)"
  by (induction bs) auto

lemma stored_block:
  "placed w \<Longrightarrow> b \<in> set (w_pattern w) \<Longrightarrow> stored w (block_key b) = Some (contents b (w_buffer w))"
  by (simp add: stored_def placed_def find_key)

text \<open>The test of either loop is equality of keys.\<close>

lemma match_is_key:
  assumes "one_type v w" "b \<in> set (w_pattern w)"
  shows "v_type v = DT_String \<Longrightarrow> b_name b = v_name v \<longleftrightarrow> block_key b = put_key w v"
    and "v_type v \<noteq> DT_String \<Longrightarrow> order = (if w_rowMajor w then (\<lambda>d. d) else rev) \<Longrightarrow>
      same_block (v_name v) (order (v_start v)) (order (v_count v)) (order (v_shape v)) b \<longleftrightarrow>
      block_key b = put_key w v"
proof -
  have t: "b_name b = v_name v \<Longrightarrow> b_type b = DT_String \<longleftrightarrow> v_type v = DT_String"
    using assms by (auto simp: one_type_def list_all_iff)
  show "v_type v = DT_String \<Longrightarrow> b_name b = v_name v \<longleftrightarrow> block_key b = put_key w v"
    using t by (auto simp: block_key_def put_key_def)
  show "v_type v \<noteq> DT_String \<Longrightarrow> order = (if w_rowMajor w then (\<lambda>d. d) else rev) \<Longrightarrow>
      same_block (v_name v) (order (v_start v)) (order (v_count v)) (order (v_shape v)) b \<longleftrightarrow>
      block_key b = put_key w v"
    using t by (auto simp: block_key_def put_key_def same_block_def AreSameDims_iff Let_def)
qed

text \<open>The two ways a put ends: the bytes of the block that is there change, or a block is appended.\<close>

lemma stored_overwritten:
  assumes pl: "placed w" and ow: "overwrite_with same len data (w_pattern w) (w_buffer w) = Inr buf"
    and same: "\<And>b. b \<in> set (w_pattern w) \<Longrightarrow> same b \<longleftrightarrow> block_key b = k"
    and len: "\<And>b. b \<in> set (w_pattern w) \<Longrightarrow> same b \<Longrightarrow> len b \<le> length data \<and> len b \<le> unat (b_bufferCount b)"
    and b: "b \<in> set (w_pattern w)" "same b"
  shows "placed (w\<lparr>w_buffer := buf\<rparr>) \<and>
    stored (w\<lparr>w_buffer := buf\<rparr>) = (stored w)(k \<mapsto> take (len b) data @ drop (len b) (contents b (w_buffer w)))"
proof -
  have "\<exists>buf'. overwrite_with same len data (w_pattern w) (w_buffer w) = Inr buf' \<and>
      m_Size buf' = m_Size (w_buffer w) \<and> length (m_Buffer buf') = length (m_Buffer (w_buffer w)) \<and>
      take 1 (m_Buffer buf') = take 1 (m_Buffer (w_buffer w)) \<and>
      (\<forall>b\<in>set (w_pattern w). contents b buf' =
        (if same b then take (len b) data @ drop (len b) (contents b (w_buffer w)) else contents b (w_buffer w)))"
    using pl len by (intro overwrite_with_ok [where e = "m_Size (w_buffer w)"]) (auto simp: placed_def)
  then have buf: "m_Size buf = m_Size (w_buffer w)" "length (m_Buffer buf) = length (m_Buffer (w_buffer w))"
    "\<And>b. b \<in> set (w_pattern w) \<Longrightarrow> contents b buf =
        (if same b then take (len b) data @ drop (len b) (contents b (w_buffer w)) else contents b (w_buffer w))"
    using ow by auto
  let ?w = "w\<lparr>w_buffer := buf\<rparr>"
  have placed': "placed ?w" using pl buf by (simp add: placed_def)
  have "stored ?w k' = ((stored w)(k \<mapsto> take (len b) data @ drop (len b) (contents b (w_buffer w)))) k'" for k'
  proof (cases "k' = k")
    case True
    then show ?thesis using stored_block [OF placed', of b] b same buf(3) by simp
  next
    case False
    show ?thesis
    proof (cases "List.find (\<lambda>b. block_key b = k') (w_pattern w)")
      case None
      then show ?thesis using False by (simp add: stored_def)
    next
      case (Some c)
      then have "c \<in> set (w_pattern w)" "block_key c = k'" by (auto simp: find_Some_iff)
      then show ?thesis using False Some buf(3) [of c] same by (simp add: stored_def)
    qed
  qed
  then show ?thesis using placed' by blast
qed

lemma Buffer_resize_parts:
  "m_Size (Buffer_resize n buf) = n" "n \<le> length (m_Buffer (Buffer_resize n buf))"
  "k \<le> length (m_Buffer buf) \<Longrightarrow> take k (m_Buffer (Buffer_resize n buf)) = take k (m_Buffer buf)"
  by (simp_all add: Buffer_resize_def)

lemma stored_appended:
  assumes pl: "placed w" and fresh: "\<And>c. c \<in> set (w_pattern w) \<Longrightarrow> block_key c \<noteq> block_key b"
    and start: "b_bufferStart b = of_nat (m_Size (w_buffer w))" and ok: "size_ok b"
    and len: "n = unat (b_bufferCount b)"
    and fits: "m_Size (w_buffer w) + n < 18446744073709551616"
    and buf: "copy_in (unat (b_bufferStart b)) n data
      (Buffer_resize (unat (b_bufferStart b + b_bufferCount b)) (w_buffer w)) = Inr buf"
  shows "placed (w\<lparr>w_buffer := buf, w_pattern := w_pattern w @ [b]\<rparr>) \<and>
    stored (w\<lparr>w_buffer := buf, w_pattern := w_pattern w @ [b]\<rparr>) = (stored w)(block_key b \<mapsto> take n data)"
proof -
  let ?w = "w\<lparr>w_buffer := buf, w_pattern := w_pattern w @ [b]\<rparr>"
  let ?s = "m_Size (w_buffer w)"
  note p = pl [unfolded placed_def]
  have s: "unat (b_bufferStart b) = ?s" unfolding start using p by (intro unat_of_nat_small) simp
  have e: "unat (b_bufferStart b + b_bufferCount b) = ?s + n"
    using s fits len by (subst unat_add_small) simp_all
  let ?buf1 = "Buffer_resize (?s + n) (w_buffer w)"
  have nd: "n \<le> length data" and wr: "write_at ?s (take n data) ?buf1 = Inr buf"
    using buf s e by (auto simp: copy_in_def split: if_splits)
  note parts = write_at_parts [OF wr]
  have sz: "m_Size buf = ?s + n" "?s + n \<le> length (m_Buffer buf)"
    using parts(1,2) Buffer_resize_parts(1,2) [of "?s + n" "w_buffer w"] by simp_all
  have "take ?s (m_Buffer buf) = take ?s (m_Buffer (w_buffer w))"
    using parts(3) [of ?s] Buffer_resize_parts(3) [of ?s "w_buffer w" "?s + n"] p by simp
  then have old: "contents c buf = contents c (w_buffer w)" if "c \<in> set (w_pattern w)" for c
    using placed_from_block [of 1 "w_pattern w" ?s c] p that by (intro contents_before [where n = ?s]) auto
  have mine: "contents b buf = take n data" using parts(4) s len nd by (simp add: contents_def)
  have fr: "block_key b \<notin> block_key ` set (w_pattern w)" using fresh by force
  have placed': "placed ?w"
    using p sz fits s ok len fr by (simp add: placed_def placed_from_append)
  have "stored ?w k = ((stored w)(block_key b \<mapsto> take n data)) k" for k
  proof (cases "List.find (\<lambda>c. block_key c = k) (w_pattern w)")
    case None
    then show ?thesis by (simp add: stored_def find_append mine)
  next
    case (Some c)
    then have "c \<in> set (w_pattern w)" "block_key c = k" by (auto simp: find_Some_iff)
    then show ?thesis using Some fresh [of c] by (simp add: stored_def find_append old)
  qed
  then show ?thesis using placed' by blast
qed

lemma append_string_Inr:
  assumes "append_string v data w = Inr w'"
  shows "\<exists>buf b. w' = w\<lparr>w_buffer := buf, w_pattern := w_pattern w @ [b]\<rparr> \<and>
    b_bufferStart b = of_nat (m_Size (w_buffer w)) \<and>
    copy_in (unat (b_bufferStart b)) (length data) data
      (Buffer_resize (unat (b_bufferStart b + b_bufferCount b)) (w_buffer w)) = Inr buf \<and>
    b_name b = v_name v \<and> b_type b = DT_String \<and> b_bufferCount b = of_nat (length data)"
proof -
  define b where "b = \<lparr>b_name = v_name v, b_structDef = [], b_type = DT_String, b_elementSize = 0,
     b_shapeId = v_shapeId v, b_shape = v_shape v, b_start = v_start v,
     b_count = v_count v, b_bufferStart = of_nat (m_Size (w_buffer w)),
     b_bufferCount = of_nat (length data), b_value = data\<rparr>"
  obtain buf where "copy_in (unat (b_bufferStart b)) (length data) data
      (Buffer_resize (unat (b_bufferStart b + b_bufferCount b)) (w_buffer w)) = Inr buf"
    "w' = w\<lparr>w_buffer := buf, w_pattern := w_pattern w @ [b]\<rparr>"
    using assms unfolding append_string_def Let_def b_def [symmetric] bindR_Inr_iff by blast
  moreover have "b_bufferStart b = of_nat (m_Size (w_buffer w))" "b_name b = v_name v"
    "b_type b = DT_String" "b_bufferCount b = of_nat (length data)" by (simp_all add: b_def)
  ultimately show ?thesis by blast
qed

lemma append_block_Inr:
  assumes "append_block v vStart vCount vShape data w = Inr w'"
  shows "\<exists>buf b n. w' = w\<lparr>w_buffer := buf, w_pattern := w_pattern w @ [b]\<rparr> \<and>
    b_bufferStart b = of_nat (m_Size (w_buffer w)) \<and> b_bufferCount b = n \<and> size_ok b \<and>
    copy_in (unat (b_bufferStart b)) (unat n) data
      (Buffer_resize (unat (b_bufferStart b + b_bufferCount b)) (w_buffer w)) = Inr buf \<and>
    b_name b = v_name v \<and> b_type b = v_type v \<and> b_start b = vStart \<and> b_count b = vCount \<and>
    b_shape b = vShape \<and> TotalDataSize_dims vCount (v_elementSize v) (v_shapeId v) = Inr n"
proof -
  obtain n where n: "TotalDataSize_dims vCount (v_elementSize v) (v_shapeId v) = Inr n"
    using assms unfolding append_block_def bindR_Inr_iff by blast
  define b where "b = \<lparr>b_name = v_name v,
     b_structDef = (if v_type v = DT_Struct then v_structName v else []),
     b_type = v_type v, b_elementSize = v_elementSize v, b_shapeId = v_shapeId v,
     b_shape = vShape, b_start = vStart, b_count = vCount,
     b_bufferStart = of_nat (m_Size (w_buffer w)), b_bufferCount = n,
     b_value = (if v_shapeId v = GlobalValue \<or> v_shapeId v = LocalValue
                then take (unat n) data else [])\<rparr>"
  have f: "b_bufferStart b = of_nat (m_Size (w_buffer w))" "b_bufferCount b = n" "size_ok b"
    "b_name b = v_name v" "b_type b = v_type v" "b_start b = vStart" "b_count b = vCount" "b_shape b = vShape"
    using n by (simp_all add: b_def size_ok_def)
  obtain buf where "copy_in (unat (b_bufferStart b)) (unat n) data
      (Buffer_resize (unat (b_bufferStart b + n)) (w_buffer w)) = Inr buf"
    "w' = w\<lparr>w_buffer := buf, w_pattern := w_pattern w @ [b]\<rparr>"
    using assms unfolding append_block_def n bindR.simps Let_def b_def [symmetric] bindR_Inr_iff by blast
  then show ?thesis
    using n f by (intro exI [where x = buf] exI [where x = b] exI [where x = n]) simp
qed

subsection \<open>Properties of the writer\<close>

text \<open>
  C21: Putting refines a map update: when a put succeeds, the blocks still lie one behind the other
  from byte 1 on, the bytes under the key of the variable are what was put, and every other block
  keeps its bytes.
\<close>

theorem PutDeferred_refines:
  assumes pl: "placed w" and put: "Writer_PutDeferred v data w = Inr w'" and one: "one_type v w"
    and sent: "v_type v = DT_String \<or> v_shapeId v \<noteq> GlobalValue \<and> v_shapeId v \<noteq> LocalValue \<or> w_writerRank w = 0"
    and fits: "m_Size (w_buffer w) + length data < 18446744073709551616"
  shows "placed w' \<and> stored w' = (stored w)(put_key w v \<mapsto> put_value w v data)"
proof -
  let ?k = "put_key w v"
  have get: "stored w ?k = Some (contents b (w_buffer w))" if "b \<in> set (w_pattern w)" "block_key b = ?k" for b
    using stored_block [OF pl that(1)] that(2) by simp
  have none: "stored w ?k = None" if "\<And>b. b \<in> set (w_pattern w) \<Longrightarrow> block_key b \<noteq> ?k"
    using that by (auto simp: stored_def find_none)
  have clen: "length (contents b (w_buffer w)) = unat (b_bufferCount b)" if "b \<in> set (w_pattern w)" for b
    using that pl placed_from_block [of 1 "w_pattern w" "m_Size (w_buffer w)" b]
    by (auto simp: contents_def placed_def)
  show ?thesis
  proof (cases "v_type v = DT_String")
    case str: True
    note key = match_is_key(1) [OF one _ str]
    obtain buf where ow: "overwrite_string (v_name v) data (w_pattern w) (w_buffer w) = Inr buf"
      and rest: "(if list_ex (\<lambda>b. b_name b = v_name v) (w_pattern w) then Inr (w\<lparr>w_buffer := buf\<rparr>)
             else if flexible w then append_string v data w else Inl InvalidArgument) = Inr w'"
      using put str by (auto simp: Writer_PutDeferred_def bindR_Inr_iff)
    show ?thesis
    proof (cases "list_ex (\<lambda>b. b_name b = v_name v) (w_pattern w)")
      case True
      then obtain b where b: "b \<in> set (w_pattern w)" "b_name b = v_name v" by (auto simp: list_ex_iff)
      then have w': "w' = w\<lparr>w_buffer := buf\<rparr>" using True rest by simp
      have "put_value w v data = take (length data) data @ drop (length data) (contents b (w_buffer w))"
        using get [OF b(1)] key [OF b(1)] b(2) str by (simp add: put_value_def)
      then show ?thesis
        using stored_overwritten [OF pl overwrite_string_is_with [OF ow] key _ b]
          overwrite_string_needs [OF ow] w' by simp
    next
      case False
      then have fresh: "block_key c \<noteq> ?k" if "c \<in> set (w_pattern w)" for c
        using that key by (auto simp: list_ex_iff)
      have n: "unat (of_nat (length data) :: u64) = length data"
        using fits by (intro unat_of_nat_small) simp
      have "append_string v data w = Inr w'" using rest False by (auto split: if_splits)
      from append_string_Inr [OF this] obtain buf b where
        b: "w' = w\<lparr>w_buffer := buf, w_pattern := w_pattern w @ [b]\<rparr>"
        "b_bufferStart b = of_nat (m_Size (w_buffer w))"
        "copy_in (unat (b_bufferStart b)) (length data) data
          (Buffer_resize (unat (b_bufferStart b + b_bufferCount b)) (w_buffer w)) = Inr buf"
        "b_name b = v_name v" "b_type b = DT_String" "b_bufferCount b = of_nat (length data)" by blast
      have bk: "block_key b = ?k" using b(4,5) str by (simp add: block_key_def put_key_def)
      have "put_value w v data = data" using none [OF fresh] str by (simp add: put_value_def)
      moreover have "placed w' \<and> stored w' = (stored w)(block_key b \<mapsto> take (length data) data)"
        unfolding b(1)
      proof (rule stored_appended [OF pl _ b(2) _ _ fits b(3)])
        show "block_key c \<noteq> block_key b" if "c \<in> set (w_pattern w)" for c
          using fresh [OF that] bk by simp
        show "size_ok b" using b(5) by (simp add: size_ok_def)
        show "length data = unat (b_bufferCount b)" unfolding b(6) by (rule n [symmetric])
      qed
      ultimately show ?thesis using bk by simp
    qed
  next
    case nstr: False
    define order :: "dims \<Rightarrow> dims" where "order = (if w_rowMajor w then (\<lambda>d. d) else rev)"
    let ?same = "same_block (v_name v) (order (v_start v)) (order (v_count v)) (order (v_shape v))"
    note key = match_is_key(2) [OF one _ nstr order_def]
    obtain buf where ow: "overwrite ?same data (w_pattern w) (w_buffer w) = Inr buf"
      and rest: "(if list_ex ?same (w_pattern w) then Inr (w\<lparr>w_buffer := buf\<rparr>)
             else if flexible w then append_block v (order (v_start v)) (order (v_count v)) (order (v_shape v)) data w
             else Inl InvalidArgument) = Inr w'"
      using put nstr sent unfolding order_def
      by (auto simp: Writer_PutDeferred_def bindR_Inr_iff Let_def)
    show ?thesis
    proof (cases "list_ex ?same (w_pattern w)")
      case True
      then obtain b where b: "b \<in> set (w_pattern w)" "?same b" by (auto simp: list_ex_iff)
      then have w': "w' = w\<lparr>w_buffer := buf\<rparr>" using True rest by simp
      have "put_value w v data = take (unat (b_bufferCount b)) data @
          drop (unat (b_bufferCount b)) (contents b (w_buffer w))"
        using get [OF b(1)] key [OF b(1)] b(2) nstr clen [OF b(1)] by (simp add: put_value_def)
      then show ?thesis
        using stored_overwritten [OF pl ow [unfolded overwrite_is_with] key _ b]
          overwrite_needs [OF ow] w' by simp
    next
      case False
      then have fresh: "block_key c \<noteq> ?k" if "c \<in> set (w_pattern w)" for c
        using that key by (auto simp: list_ex_iff)
      have "append_block v (order (v_start v)) (order (v_count v)) (order (v_shape v)) data w = Inr w'"
        using rest False by (auto split: if_splits)
      from append_block_Inr [OF this] obtain buf b n where
        b: "w' = w\<lparr>w_buffer := buf, w_pattern := w_pattern w @ [b]\<rparr>"
        "b_bufferStart b = of_nat (m_Size (w_buffer w))" "b_bufferCount b = n" "size_ok b"
        "copy_in (unat (b_bufferStart b)) (unat n) data
          (Buffer_resize (unat (b_bufferStart b + b_bufferCount b)) (w_buffer w)) = Inr buf"
        "b_name b = v_name v" "b_type b = v_type v" "b_start b = order (v_start v)"
        "b_count b = order (v_count v)" "b_shape b = order (v_shape v)"
        and n: "TotalDataSize_dims (order (v_count v)) (v_elementSize v) (v_shapeId v) = Inr n"
        by blast
      have bk: "block_key b = ?k"
        using b(6-10) nstr by (simp add: block_key_def put_key_def order_def Let_def)
      have "unat n \<le> length data" using b(5) by (auto simp: copy_in_def split: if_splits)
      moreover have "put_value w v data = take (unat n) data"
        using none [OF fresh] nstr n by (cases "w_rowMajor w") (simp_all add: put_value_def order_def)
      moreover have "placed w' \<and> stored w' = (stored w)(block_key b \<mapsto> take (unat n) data)"
        unfolding b(1)
      proof (rule stored_appended [OF pl _ b(2,4) _ _ b(5)])
        show "block_key c \<noteq> block_key b" if "c \<in> set (w_pattern w)" for c
          using fresh [OF that] bk by simp
      qed (use b(3) fits \<open>unat n \<le> length data\<close> in simp_all)
      ultimately show ?thesis using bk by simp
    qed
  qed
qed

lemma Writer_BeginStep_placed:
  assumes "Writer_BeginStep w = Inr w'" "flexible (w\<lparr>w_currentStep := w_currentStep w + 1\<rparr>)"
    "m_Buffer (w_buffer w) \<noteq> []"
  shows "placed w' \<and> stored w' = Map.empty"
proof -
  obtain buf where wr: "write_at 0 [0] (Buffer_resize 1 (w_buffer w)) = Inr buf"
    "w' = w\<lparr>w_currentStep := w_currentStep w + 1, w_buffer := buf, w_pattern := []\<rparr>"
    using assms(1,2) by (auto simp: Writer_BeginStep_def Let_def bindR_Inr_iff)
  have "m_Size buf = 1" "1 \<le> length (m_Buffer buf)"
    using write_at_parts(1,2) [OF wr(1)] Buffer_resize_parts(1,2) [of 1 "w_buffer w"] by simp_all
  then show ?thesis using wr(2) by (auto simp: placed_def stored_def)
qed

definition demo_writer :: SscWriter where
  "demo_writer = \<lparr>w_currentStep = 0, w_writerLocked = False, w_readerLocked = False, w_writerRank = 0,
     w_rowMajor = True, w_buffer = \<lparr>m_Buffer = [0], m_Size = 1\<rparr>, w_pattern = []\<rparr>"

definition demo_array :: PutVariable where
  "demo_array = \<lparr>v_name = ''T'', v_type = DT_Int8, v_elementSize = 1, v_shapeId = GlobalArray,
     v_shape = [4], v_start = [0], v_count = [2], v_structName = []\<rparr>"

definition demo_writer' :: SscWriter where
  "demo_writer' = (case Writer_PutDeferred demo_array [5, 6] demo_writer of Inr w \<Rightarrow> w | Inl _ \<Rightarrow> demo_writer)"

theorem PutDeferred_refines_witness:
  "placed demo_writer' \<and>
   stored demo_writer' = (stored demo_writer)(put_key demo_writer demo_array \<mapsto>
     put_value demo_writer demo_array [5, 6])"
proof (rule PutDeferred_refines)
  show "placed demo_writer" by (simp add: placed_def demo_writer_def)
  have "isl (Writer_PutDeferred demo_array [5, 6] demo_writer) = False" by code_simp
  then show "Writer_PutDeferred demo_array [5, 6] demo_writer = Inr demo_writer'"
    by (auto simp: demo_writer'_def split: sum.splits)
  show "one_type demo_array demo_writer" by (simp add: one_type_def demo_writer_def)
qed (simp_all add: demo_writer_def demo_array_def)

subsection \<open>Both sides compute the same slots\<close>

lemma TotalDataSize_shift:
  "TotalDataSize_from s (map (\<lambda>b. b\<lparr>b_bufferStart := b_bufferStart b + q\<rparr>) bs) = TotalDataSize_from s bs"
proof (induction bs arbitrary: s)
  case (Cons b bs)
  have "TotalDataSize_from t (map (\<lambda>b. b\<lparr>b_bufferStart := b_bufferStart b + q\<rparr>) bs) = TotalDataSize_from t bs" for t
    by (rule Cons.IH)
  then show ?case by (simp cong: if_cong)
qed simp

lemma reader_writer_positions:
  "reader_positions rank bvv m p = Inr (bvv', m') \<Longrightarrow> writer_positions rank bvv m p = Inr m'"
proof (induction bvv arbitrary: rank m p bvv')
  case (Cons bv bvv)
  then show ?case
    by (auto simp: bindR_Inr_iff Let_def TotalDataSize_def TotalDataSize_shift split: if_splits)
qed simp

lemma writer_positions_dom:
  "writer_positions rank bvv m p = Inr m' \<Longrightarrow> m' r = None \<longleftrightarrow> m r = None"
proof (induction bvv arbitrary: rank m p)
  case (Cons bv bvv)
  then show ?case by (force simp: bindR_Inr_iff Let_def split: if_splits)
qed simp

lemma writer_slots_at:
  assumes "writer_slots wvv rvv me rs all = Inr all'" "distinct rs"
  shows "all' r = (if r \<in> set rs \<and> all r \<noteq> None
      then (case writer_positions 0 wvv (CalculateOverlap wvv (rvv ! r)) 0 of
              Inr cur \<Rightarrow> Some (case cur me of Some s \<Rightarrow> s | None \<Rightarrow> (0, 0)) | Inl _ \<Rightarrow> None)
      else all r)"
  using assms
proof (induction rs arbitrary: all)
  case (Cons a rs)
  show ?case
  proof (cases "all a = None")
    case True
    then show ?thesis using Cons by auto
  next
    case False
    then obtain cur where cur: "writer_positions 0 wvv (CalculateOverlap wvv (rvv ! a)) 0 = Inr cur"
      "writer_slots wvv rvv me rs (all(a \<mapsto> (case cur me of Some s \<Rightarrow> s | None \<Rightarrow> (0, 0)))) = Inr all'"
      using Cons.prems(1) by (auto simp: bindR_Inr_iff)
    then show ?thesis using Cons.IH [OF cur(2)] Cons.prems(2) False by auto
  qed
qed simp

text \<open>
  Blocks of one name have one shape id and number of dimensions: then overlapping is symmetric.
\<close>

definition same_kind :: "SscBlockInfo list list \<Rightarrow> SscBlockInfo list list \<Rightarrow> bool" where
  "same_kind wvv rvv \<longleftrightarrow>
     (\<forall>ws\<in>set wvv. \<forall>rs\<in>set rvv. \<forall>b\<in>set ws. \<forall>c\<in>set rs. b_name b = b_name c \<longrightarrow>
        b_shapeId b = b_shapeId c \<and> length (b_start b) = length (b_start c))"

lemma hasOverlap_commute:
  "length (b_start a) = length (b_start b) \<Longrightarrow> hasOverlap a b \<longleftrightarrow> hasOverlap b a"
  by (auto simp: hasOverlap_def list_all_upt)

lemma CalculateOverlap_symmetric:
  assumes "same_kind wvv rvv" "me < length wvv" "r < length rvv"
  shows "CalculateOverlap rvv (wvv ! me) r = None \<longleftrightarrow> CalculateOverlap wvv (rvv ! r) me = None"
proof -
  have k: "b_name b = b_name c \<Longrightarrow> b_shapeId b = b_shapeId c \<and> (hasOverlap b c \<longleftrightarrow> hasOverlap c b)"
    if "b \<in> set (wvv ! me)" "c \<in> set (rvv ! r)" for b c
  proof -
    assume "b_name b = b_name c"
    then have "b_shapeId b = b_shapeId c \<and> length (b_start b) = length (b_start c)"
      using assms that nth_mem unfolding same_kind_def by blast
    then show ?thesis using hasOverlap_commute by blast
  qed
  have "(\<exists>c\<in>set (rvv ! r). \<exists>b\<in>set (wvv ! me). b_name b = b_name c \<and>
          (b_shapeId c = GlobalValue \<or> b_shapeId c = GlobalArray \<and> hasOverlap c b)) \<longleftrightarrow>
        (\<exists>b\<in>set (wvv ! me). \<exists>c\<in>set (rvv ! r). b_name c = b_name b \<and>
          (b_shapeId b = GlobalValue \<or> b_shapeId b = GlobalArray \<and> hasOverlap b c))"
    using k by metis
  then show ?thesis using assms(2,3) unfolding CalculateOverlap_def list_ex_iff by simp
qed


subsection \<open>The reader finds what was put\<close>

text \<open>
  \<open>needs\<close> is the room the windows of the overlapping writers take, from a rank on.
\<close>

fun needs :: "nat \<Rightarrow> 'a list \<Rightarrow> slots \<Rightarrow> (nat \<Rightarrow> bytes) \<Rightarrow> nat" where
  "needs rank [] m window = 0"
| "needs rank (bv # bvv) m window =
     (if m rank = None then 0 else length (window rank)) + needs (rank + 1) bvv m window"

lemma needs_cong: "(\<And>r. m' r = None \<longleftrightarrow> m r = None) \<Longrightarrow> needs rank bvv m' window = needs rank bvv m window"
  by (induction bvv arbitrary: rank) simp_all

definition shift :: "u64 \<Rightarrow> SscBlockInfo list \<Rightarrow> SscBlockInfo list" where
  "shift q = map (\<lambda>b. b\<lparr>b_bufferStart := b_bufferStart b + q\<rparr>)"

text \<open>The window of an overlapping writer at position \<open>q\<close> of the reader's buffer, its blocks shifted by \<open>q\<close>.\<close>

definition window_at :: "bytes \<Rightarrow> SscBlockInfo list \<Rightarrow> SscBlockInfo list \<Rightarrow> u64 \<Rightarrow> bytes \<Rightarrow> bool" where
  "window_at win bv bv' q buf \<longleftrightarrow>
     bv' = shift q bv \<and> unat q + length win \<le> length buf \<and> unat q + length win < 18446744073709551616 \<and>
     take (length win) (drop (unat q) buf) = win"

lemma window_at_contents:
  assumes "window_at win bv bv' q (m_Buffer buf)" "placed_from 1 bv (length win)" "i < length bv"
    and "win = take (length win) (m_Buffer wbuf)"
  shows "contents (bv' ! i) buf = contents (bv ! i) wbuf"
proof -
  let ?b = "bv ! i"
  have b: "unat (b_bufferStart ?b) + unat (b_bufferCount ?b) \<le> length win"
    using placed_from_block [OF assms(2) nth_mem [OF assms(3)]] by simp
  have q: "unat q + length win \<le> length (m_Buffer buf)" "unat q + length win < 18446744073709551616"
    "take (length win) (drop (unat q) (m_Buffer buf)) = win" and bv': "bv' ! i = ?b\<lparr>b_bufferStart := b_bufferStart ?b + q\<rparr>"
    using assms(1,3) by (auto simp: window_at_def shift_def)
  have st: "unat (b_bufferStart ?b + q) = unat (b_bufferStart ?b) + unat q"
    using b q by (intro unat_add_small) simp
  have cut: "take (unat (b_bufferCount ?b)) (drop (unat (b_bufferStart ?b)) (take (length win) xs)) =
      take (unat (b_bufferCount ?b)) (drop (unat (b_bufferStart ?b)) xs)" for xs :: bytes
    using b by (simp add: drop_take min_def)
  have "contents (bv' ! i) buf = take (unat (b_bufferCount ?b)) (drop (unat (b_bufferStart ?b)) win)"
    using cut [of "drop (unat q) (m_Buffer buf)"] q(3) by (simp add: contents_def bv' st)
  moreover have "contents ?b wbuf = take (unat (b_bufferCount ?b)) (drop (unat (b_bufferStart ?b)) win)"
    using cut [of "m_Buffer wbuf"] assms(4) by (simp add: contents_def)
  ultimately show ?thesis by simp
qed

text \<open>\<open>window_sized\<close>: a window holds the flag and the data of the blocks.\<close>

definition window_sized :: "bytes \<Rightarrow> SscBlockInfo list \<Rightarrow> bool" where
  "window_sized win bv \<longleftrightarrow> placed_from 1 bv (length win) \<and> length win < 18446744073709551616"

lemma window_sized_total: "window_sized win bv \<Longrightarrow> TotalDataSize bv = Inr (of_nat (length win - 1))"
  using TotalDataSize_placed [of 1 bv "length win" 0] by (simp add: window_sized_def TotalDataSize_def)

lemma window_sized_word:
  assumes "window_sized win bv"
  shows "of_nat (length win - 1) + 1 = (of_nat (length win) :: u64)"
    and "unat (of_nat (length win) :: u64) = length win"
proof -
  have l: "1 \<le> length win" using assms placed_from_le unfolding window_sized_def by blast
  have "of_nat (length win - 1) + 1 = (of_nat (length win - 1 + 1) :: u64)" by (simp only: of_nat_add of_nat_1)
  then show "of_nat (length win - 1) + 1 = (of_nat (length win) :: u64)" using l by simp
  show "unat (of_nat (length win) :: u64) = length win"
    using assms by (intro unat_of_nat_small) (simp add: window_sized_def)
qed

lemma reader_positions_Some:
  assumes "window_sized (window rank) bv" "m rank \<noteq> None"
  shows "reader_positions rank (bv # bvv) m p =
    bindR (reader_positions (rank + 1) bvv (m(rank \<mapsto> (p, of_nat (length (window rank)))))
             (p + of_nat (length (window rank)))) (\<lambda>(bvv', m'). Inr (shift p bv # bvv', m'))"
  using assms window_sized_total [OF assms(1)] window_sized_word(1) [OF assms(1)]
  by (simp add: TotalDataSize_def TotalDataSize_shift [of _ p bv, simplified] shift_def [symmetric] Let_def
      del: of_nat_diff) (simp add: shift_def TotalDataSize_shift)

lemma upt_rank: "[rank..<rank + length (x # xs)] = rank # [rank + 1..<rank + 1 + length xs]"
  using upt_conv_Cons [of rank "rank + length (x # xs)"] by simp

lemma positions_ok:
  assumes "\<And>i. i < length bvv \<Longrightarrow> m (rank + i) \<noteq> None \<Longrightarrow> window_sized (window (rank + i)) (bvv ! i)"
  shows "\<exists>bvv' m'. reader_positions rank bvv m p = Inr (bvv', m') \<and> length bvv' = length bvv \<and>
    (\<forall>r<rank. m' r = m r) \<and> (\<forall>r. m' r = None \<longleftrightarrow> m r = None) \<and>
    sum_list (map (\<lambda>r. case m' r of Some (first, second) \<Rightarrow> second | None \<Rightarrow> 0) [rank..<rank + length bvv]) =
      of_nat (needs rank bvv m window)"
  using assms
proof (induction bvv arbitrary: rank m p)
  case (Cons bv bvv)
  have ok: "window_sized (window (rank + 1 + i)) (bvv ! i)" if "i < length bvv" "m (rank + 1 + i) \<noteq> None" for i
    using Cons.prems [of "Suc i"] that by simp
  have up: "[rank..<rank + length (bv # bvv)] = rank # [rank + 1..<rank + 1 + length bvv]"
    by (rule upt_rank)
  show ?case
  proof (cases "m rank = None")
    case True
    obtain bvv' m' where "reader_positions (rank + 1) bvv m p = Inr (bvv', m')" "length bvv' = length bvv"
      "\<forall>r<rank + 1. m' r = m r" "\<forall>r. m' r = None \<longleftrightarrow> m r = None"
      "sum_list (map (\<lambda>r. case m' r of Some (first, second) \<Rightarrow> second | None \<Rightarrow> 0)
         [rank + 1..<rank + 1 + length bvv]) = of_nat (needs (rank + 1) bvv m window)"
      using Cons.IH [of m "rank + 1" p] ok by blast
    then show ?thesis using True unfolding up by simp
  next
    case False
    let ?m = "m(rank \<mapsto> (p, of_nat (length (window rank))))"
    have sized: "window_sized (window rank) bv" using Cons.prems [of 0] False by simp
    have "\<exists>bvv' m'. reader_positions (rank + 1) bvv ?m (p + of_nat (length (window rank))) = Inr (bvv', m') \<and>
      length bvv' = length bvv \<and> (\<forall>r<rank + 1. m' r = ?m r) \<and> (\<forall>r. m' r = None \<longleftrightarrow> ?m r = None) \<and>
      sum_list (map (\<lambda>r. case m' r of Some (first, second) \<Rightarrow> second | None \<Rightarrow> 0)
         [rank + 1..<rank + 1 + length bvv]) = of_nat (needs (rank + 1) bvv ?m window)"
      using ok by (intro Cons.IH) simp
    then obtain bvv' m' where m': "reader_positions (rank + 1) bvv ?m (p + of_nat (length (window rank))) = Inr (bvv', m')"
      "length bvv' = length bvv" "\<forall>r<rank + 1. m' r = ?m r" "\<forall>r. m' r = None \<longleftrightarrow> ?m r = None"
      "sum_list (map (\<lambda>r. case m' r of Some (first, second) \<Rightarrow> second | None \<Rightarrow> 0)
         [rank + 1..<rank + 1 + length bvv]) = of_nat (needs (rank + 1) bvv ?m window)" by blast
    have "needs (rank + 1) bvv ?m window = needs (rank + 1) bvv m window"
      using False by (intro needs_cong) auto
    moreover have "m' rank = Some (p, of_nat (length (window rank)))" using m'(3) by simp
    ultimately show ?thesis
      using reader_positions_Some [where window = window and rank = rank and m = m and bvv = bvv and p = p, OF sized False]
        m' False unfolding up by (auto simp: bindR_Inr_iff)
  qed
qed simp

lemma fetch_ok:
  assumes "\<And>i. i < length bvv \<Longrightarrow> m (rank + i) \<noteq> None \<Longrightarrow> window_sized (window (rank + i)) (bvv ! i)"
    and "reader_positions rank bvv m p = Inr (bvv', m')"
    and "unat p + needs rank bvv m window \<le> length (m_Buffer buf)"
    and "unat p + needs rank bvv m window < 18446744073709551616"
  shows "\<exists>buf'. fetch_windows [rank..<rank + length bvv] m' window buf = Inr buf' \<and>
    length (m_Buffer buf') = length (m_Buffer buf) \<and>
    take (unat p) (m_Buffer buf') = take (unat p) (m_Buffer buf) \<and>
    (\<forall>i<length bvv. m (rank + i) \<noteq> None \<longrightarrow>
       (\<exists>q. window_at (window (rank + i)) (bvv ! i) (bvv' ! i) q (m_Buffer buf')))"
  using assms
proof (induction bvv arbitrary: rank m p bvv' buf)
  case (Cons bv bvv)
  have ok: "window_sized (window (rank + 1 + i)) (bvv ! i)" if "i < length bvv" "m (rank + 1 + i) \<noteq> None" for i
    using Cons.prems(1) [of "Suc i"] that by simp
  have up: "[rank..<rank + length (bv # bvv)] = rank # [rank + 1..<rank + 1 + length bvv]"
    by (rule upt_rank)
  show ?case
  proof (cases "m rank = None")
    case True
    obtain cvv where c: "reader_positions (rank + 1) bvv m p = Inr (cvv, m')" "bvv' = bv # cvv"
      using Cons.prems(2) True by (auto simp: bindR_Inr_iff)
    have "m' rank = None" using positions_ok [of bvv m "rank + 1" window p] ok c(1) True by auto
    then show ?thesis
      using Cons.IH [OF ok c(1), of buf] Cons.prems(3,4) True c(2) unfolding up
      by (auto simp: less_Suc_eq_0_disj)
  next
    case False
    let ?win = "window rank" let ?q = "p + of_nat (length ?win)"
    let ?m = "m(rank \<mapsto> (p, of_nat (length ?win)))"
    have sized: "window_sized ?win bv" using Cons.prems(1) [of 0] False by simp
    obtain cvv where c: "reader_positions (rank + 1) bvv ?m ?q = Inr (cvv, m')" "bvv' = shift p bv # cvv"
      using Cons.prems(2) unfolding reader_positions_Some [where window = window and rank = rank and m = m, OF sized False]
      by (auto simp: bindR_Inr_iff)
    have ok': "window_sized (window (rank + 1 + i)) (bvv ! i)" if "i < length bvv" "?m (rank + 1 + i) \<noteq> None" for i
      using ok that by simp
    have m'r: "m' rank = Some (p, of_nat (length ?win))"
      using positions_ok [of bvv ?m "rank + 1" window ?q] ok' c(1) by auto
    have n: "needs (rank + 1) bvv ?m window = needs (rank + 1) bvv m window"
      using False by (intro needs_cong) auto
    have room: "unat p + length ?win + needs (rank + 1) bvv m window \<le> length (m_Buffer buf)"
      "unat p + length ?win + needs (rank + 1) bvv m window < 18446744073709551616"
      using Cons.prems(3,4) False by simp_all
    have q: "unat ?q = unat p + length ?win"
      using room(2) window_sized_word(2) [OF sized] by (subst unat_add_small) simp_all
    have get: "get_bytes (length ?win) 0 ?win = Inr ?win" by (simp add: get_bytes_def)
    obtain buf1 where wr: "write_at (unat p) ?win buf = Inr buf1"
      using write_at_ok [of "unat p" ?win buf] room by auto
    note parts = write_at_parts [OF wr]
    have "unat ?q + needs (rank + 1) bvv ?m window \<le> length (m_Buffer buf1)"
      "unat ?q + needs (rank + 1) bvv ?m window < 18446744073709551616"
      using room parts(2) n q by simp_all
    from Cons.IH [OF ok' c(1) this] obtain buf' where b: "fetch_windows [rank + 1..<rank + 1 + length bvv] m' window buf1 = Inr buf'"
      "length (m_Buffer buf') = length (m_Buffer buf1)"
      "take (unat ?q) (m_Buffer buf') = take (unat ?q) (m_Buffer buf1)"
      "\<forall>i<length bvv. ?m (rank + 1 + i) \<noteq> None \<longrightarrow>
       (\<exists>q. window_at (window (rank + 1 + i)) (bvv ! i) (cvv ! i) q (m_Buffer buf'))"
      by blast
    have "take (length ?win) (drop (unat p) (take (unat ?q) xs)) = take (length ?win) (drop (unat p) xs)" for xs :: bytes
      by (simp add: q drop_take)
    from this [of "m_Buffer buf'"] this [of "m_Buffer buf1"]
    have "take (length ?win) (drop (unat p) (m_Buffer buf')) = ?win" using b(3) parts(4) by simp
    then have here: "window_at ?win bv (shift p bv) p (m_Buffer buf')"
      using room b(2) parts(2) by (simp add: window_at_def)
    have "take (unat p) (take (unat ?q) xs) = take (unat p) xs" for xs :: bytes by (simp add: q)
    from this [of "m_Buffer buf'"] this [of "m_Buffer buf1"]
    have "take (unat p) (m_Buffer buf') = take (unat p) (m_Buffer buf)" using b(3) parts(3) [of "unat p"] by simp
    moreover have "fetch_windows (rank # [rank + 1..<rank + 1 + length bvv]) m' window buf = Inr buf'"
      using m'r get wr b(1) window_sized_word(2) [OF sized] by simp
    moreover have "\<exists>q. window_at (window (rank + i)) ((bv # bvv) ! i) (bvv' ! i) q (m_Buffer buf')"
      if "i < length (bv # bvv)" "m (rank + i) \<noteq> None" for i
      using that here b(4) c(2) by (cases i) auto
    ultimately show ?thesis using b(2) parts(2) unfolding up by auto
  qed
qed simp

text \<open>More blocks asked for, more writers overlap; no more of them, the same ones.\<close>

lemma CalculateOverlap_mono:
  "set local \<subseteq> set local' \<Longrightarrow> CalculateOverlap bvv local r \<noteq> None \<Longrightarrow> CalculateOverlap bvv local' r \<noteq> None"
  unfolding CalculateOverlap_def list_ex_iff by (auto split: if_splits)

lemma CalculateOverlap_value: "CalculateOverlap bvv local r \<in> {None, Some (0, 0)}"
  by (simp add: CalculateOverlap_def)

lemma CalculateOverlap_bound: "CalculateOverlap bvv local r \<noteq> None \<Longrightarrow> r < length bvv"
  by (simp add: CalculateOverlap_def split: if_splits)

lemma filter_same_length:
  "\<forall>x\<in>set xs. P x \<longrightarrow> Q x \<Longrightarrow> length (filter P xs) = length (filter Q xs) \<Longrightarrow> \<forall>x\<in>set xs. P x \<longleftrightarrow> Q x"
proof (induction xs)
  case (Cons a xs)
  have le: "length (filter P xs) \<le> length (filter Q xs)"
    using Cons.prems(1) by (induction xs) auto
  have pq: "P a \<Longrightarrow> Q a" using Cons.prems(1) by simp
  have eq: "length (filter P xs) = length (filter Q xs)" and a: "P a = Q a"
    using Cons.prems(2) le pq by (cases "P a"; cases "Q a"; simp)+
  have "\<forall>x\<in>set xs. P x \<longrightarrow> Q x" using Cons.prems(1) by simp
  from Cons.IH [OF this eq] a show ?case by (simp only: list.set ball_simps)
qed simp

lemma same_size_same_overlap:
  assumes "set local \<subseteq> set local'" "slots_size (length bvv) (CalculateOverlap bvv local) =
    slots_size (length bvv) (CalculateOverlap bvv local')"
  shows "CalculateOverlap bvv local' = CalculateOverlap bvv local"
proof
  fix r
  have "\<forall>r\<in>set [0..<length bvv]. CalculateOverlap bvv local r \<noteq> None \<longleftrightarrow> CalculateOverlap bvv local' r \<noteq> None"
    using assms(2) CalculateOverlap_mono [OF assms(1)] unfolding slots_size_def
    by (intro filter_same_length) blast+
  then have "CalculateOverlap bvv local r \<noteq> None \<longleftrightarrow> CalculateOverlap bvv local' r \<noteq> None"
    using CalculateOverlap_bound by (metis atLeastLessThan_iff le0 set_upt)
  then show "CalculateOverlap bvv local' r = CalculateOverlap bvv local r"
    using CalculateOverlap_value [of bvv local r] CalculateOverlap_value [of bvv local' r] by auto
qed

text \<open>
  The reader's state between calls: nothing fetched yet, or the windows of all writers that overlap
  with the first blocks asked for are in the buffer.
\<close>

definition has_windows :: "(nat \<Rightarrow> bytes) \<Rightarrow> SscReader \<Rightarrow> SscBlockInfo list list \<Rightarrow> slots \<Rightarrow> bool" where
  "has_windows window r bvv m \<longleftrightarrow>
     (\<forall>i<length (r_written r). m i \<noteq> None \<longrightarrow>
        (\<exists>q. window_at (window i) (r_written r ! i) (bvv ! i) q (m_Buffer (r_buffer r))))"

definition reader_ok :: "(nat \<Rightarrow> bytes) \<Rightarrow> SscReader \<Rightarrow> bool" where
  "reader_ok window r \<longleftrightarrow>
     r_slots r = Map.empty \<or>
     (\<exists>local bvv. set local \<subseteq> set (r_local r) \<and>
        Reader_CalculatePosition (r_written r) (CalculateOverlap (r_written r) local) = Inr (bvv, r_slots r) \<and>
        has_windows window r bvv (CalculateOverlap (r_written r) local))"

definition writers_ok :: "(nat \<Rightarrow> bytes) \<Rightarrow> SscReader \<Rightarrow> bool" where
  "writers_ok window r \<longleftrightarrow>
     (\<forall>i<length (r_written r). window_sized (window i) (r_written r ! i)) \<and>
     needs 0 (r_written r) (CalculateOverlap (r_written r) (r_local r)) window < 18446744073709551616"

lemma slots_size_cong: "(\<And>r. m r = None \<longleftrightarrow> m' r = None) \<Longrightarrow> slots_size n m = slots_size n m'"
  by (simp add: slots_size_def)

lemma PerformGets_windows:
  assumes r: "reader_ok window r" and w: "writers_ok window r"
  shows "\<exists>r'. PerformGets window r = Inr r' \<and> reader_ok window r' \<and> r_written r' = r_written r \<and>
    r_local r' = r_local r \<and> has_windows window r' (r_pattern r') (CalculateOverlap (r_written r) (r_local r)) \<and>
    (\<forall>i. r_slots r' i = None \<longleftrightarrow> CalculateOverlap (r_written r) (r_local r) i = None)"
proof -
  let ?bvv = "r_written r" let ?m = "CalculateOverlap ?bvv (r_local r)" let ?n = "length ?bvv"
  have sized: "\<And>i. i < ?n \<Longrightarrow> ?m (0 + i) \<noteq> None \<Longrightarrow> window_sized (window (0 + i)) (?bvv ! i)"
    using w by (simp add: writers_ok_def)
  obtain bvv' m' where p: "reader_positions 0 ?bvv ?m 0 = Inr (bvv', m')" "\<And>i. m' i = None \<longleftrightarrow> ?m i = None"
    and total: "totalDataSize ?n m' = of_nat (needs 0 ?bvv ?m window)"
    using positions_ok [of ?bvv ?m 0 window 0, OF sized] unfolding totalDataSize_def by auto
  have pos: "Reader_CalculatePosition ?bvv ?m = Inr (bvv', m')"
    using p(1) by (simp add: Reader_CalculatePosition_def)
  let ?r = "r\<lparr>r_pattern := bvv', r_slots := m'\<rparr>"
  show ?thesis
  proof (cases "slots_size ?n (r_slots r) = slots_size ?n m'")
    case False
    have lt: "needs 0 ?bvv ?m window < 18446744073709551616" using w by (simp add: writers_ok_def)
    then have "unat (of_nat (needs 0 ?bvv ?m window) :: u64) = needs 0 ?bvv ?m window"
      by (intro unat_of_nat_small) simp
    then obtain buf' where b: "fetch_windows [0..<0 + ?n] m' window
        (Buffer_resize (unat (totalDataSize ?n m')) (r_buffer r)) = Inr buf'"
      "\<forall>i<?n. ?m (0 + i) \<noteq> None \<longrightarrow> (\<exists>q. window_at (window (0 + i)) (?bvv ! i) (bvv' ! i) q (m_Buffer buf'))"
      using fetch_ok [of ?bvv ?m 0 window 0 bvv' m' "Buffer_resize (unat (totalDataSize ?n m')) (r_buffer r)",
          OF sized p(1)] Buffer_resize_parts(2) lt total by auto
    let ?r' = "?r\<lparr>r_buffer := buf'\<rparr>"
    have "PerformGets window r = Inr ?r'" using False b(1) by (simp add: PerformGets_def pos)
    moreover have h: "has_windows window ?r' bvv' ?m" using b(2) by (simp add: has_windows_def)
    moreover have "reader_ok window ?r'"
      unfolding reader_ok_def using pos h by (intro disjI2 exI [where x = "r_local r"] exI [where x = bvv']) simp
    ultimately show ?thesis using p(2) by auto
  next
    case True
    have res: "PerformGets window r = Inr ?r" using True by (simp add: PerformGets_def pos)
    show ?thesis
    proof (cases "r_slots r = Map.empty")
      case e: True
      then have "filter (\<lambda>i. m' i \<noteq> None) [0..<?n] = []"
        using True by (simp add: slots_size_def)
      then have "m' i = None" for i
        using p(2) CalculateOverlap_bound [of ?bvv "r_local r" i] unfolding filter_empty_conv
        by (metis atLeastLessThan_iff le0 set_upt)
      then have "m' = Map.empty" "has_windows window ?r bvv' ?m"
        using p(2) by (auto simp: has_windows_def)
      then show ?thesis using res p(2) by (auto simp: reader_ok_def)
    next
      case False
      then obtain loc bvv where l: "set loc \<subseteq> set (r_local r)"
        "Reader_CalculatePosition ?bvv (CalculateOverlap ?bvv loc) = Inr (bvv, r_slots r)"
        "has_windows window r bvv (CalculateOverlap ?bvv loc)"
        using r by (auto simp: reader_ok_def)
      have "r_slots r i = None \<longleftrightarrow> CalculateOverlap ?bvv loc i = None" for i
        using l(2) unfolding Reader_CalculatePosition_def
        by (intro writer_positions_dom reader_writer_positions)
      then have "slots_size ?n (CalculateOverlap ?bvv loc) = slots_size ?n ?m"
        using True p(2) slots_size_cong by metis
      then have same: "?m = CalculateOverlap ?bvv loc" by (rule same_size_same_overlap [OF l(1)])
      then have "bvv = bvv'" "r_slots r = m'" using l(2) pos by auto
      then have "has_windows window ?r bvv' ?m" using l(3) same by (simp add: has_windows_def)
      moreover from this have "reader_ok window ?r"
        unfolding reader_ok_def using pos by (intro disjI2 exI [where x = "r_local r"] exI [where x = bvv']) simp
      ultimately show ?thesis using res p(2) by auto
    qed
  qed
qed

subsection \<open>Properties of the reader\<close>

definition window_of :: "SscWriter \<Rightarrow> bytes" where
  "window_of w = take (m_Size (w_buffer w)) (m_Buffer (w_buffer w))"

lemma window_of_sized:
  assumes "placed w"
  shows "window_sized (window_of w) (w_pattern w)"
    "window_of w = take (length (window_of w)) (m_Buffer (w_buffer w))"
proof -
  have "length (window_of w) = m_Size (w_buffer w)"
    using assms by (simp add: placed_def window_of_def)
  then show "window_sized (window_of w) (w_pattern w)"
    "window_of w = take (length (window_of w)) (m_Buffer (w_buffer w))"
    using assms by (simp_all add: window_sized_def placed_def) (simp add: window_of_def)
qed

text \<open>
  C22: Whatever sequence of calls the reader makes in a step, after \<open>PerformGets\<close> every block of
  every writer it overlaps with is found at its shifted position with the bytes the writer holds for
  it, also when the windows are not read again.
\<close>

theorem PerformGets_finds_data:
  assumes ws: "\<And>w. w \<in> set ws \<Longrightarrow> placed w"
    and r: "reader_ok window r" "r_written r = map w_pattern ws"
    and win: "\<And>i. i < length ws \<Longrightarrow> window i = window_of (ws ! i)"
    and fits: "needs 0 ws (CalculateOverlap (r_written r) (r_local r)) window < 18446744073709551616"
  shows "\<exists>r'. PerformGets window r = Inr r' \<and> reader_ok window r' \<and>
    (\<forall>i<length ws. \<forall>j<length (w_pattern (ws ! i)).
       CalculateOverlap (r_written r) (r_local r) i \<noteq> None \<longrightarrow>
       contents (r_pattern r' ! i ! j) (r_buffer r') = contents (w_pattern (ws ! i) ! j) (w_buffer (ws ! i)))"
proof -
  have nm: "needs k (map f xs) m window = needs k xs m window" for k f xs m
    by (induction xs arbitrary: k) simp_all
  have sized: "window_sized (window i) (w_pattern (ws ! i))"
    "window i = take (length (window i)) (m_Buffer (w_buffer (ws ! i)))" if "i < length ws" for i
    using window_of_sized [OF ws [OF nth_mem [OF that]]] win [OF that] by simp_all
  have "writers_ok window r"
    using sized fits r(2) by (simp add: writers_ok_def nm)
  from PerformGets_windows [OF r(1) this] obtain r' where r': "PerformGets window r = Inr r'"
    "reader_ok window r'" "r_written r' = r_written r"
    "has_windows window r' (r_pattern r') (CalculateOverlap (r_written r) (r_local r))" by blast
  have "contents (r_pattern r' ! i ! j) (r_buffer r') = contents (w_pattern (ws ! i) ! j) (w_buffer (ws ! i))"
    if ij: "i < length ws" "j < length (w_pattern (ws ! i))"
      "CalculateOverlap (r_written r) (r_local r) i \<noteq> None" for i j
  proof -
    have "length (r_written r') = length ws" "r_written r' ! i = w_pattern (ws ! i)"
      using r(2) r'(3) ij(1) by simp_all
    then obtain q where "window_at (window i) (w_pattern (ws ! i)) (r_pattern r' ! i) q (m_Buffer (r_buffer r'))"
      using r'(4) ij(1,3) unfolding has_windows_def by metis
    then show ?thesis
      using sized [OF ij(1)] ij(2) by (intro window_at_contents) (auto simp: window_sized_def)
  qed
  then show ?thesis using r' by blast
qed

definition demo_reader :: SscReader where
  "demo_reader = fst (GetDeferredDeltaCommon True demo_array
     \<lparr>r_written = [w_pattern demo_writer'], r_pattern = [w_pattern demo_writer'], r_local = [],
      r_slots = Map.empty, r_buffer = \<lparr>m_Buffer = [0], m_Size = 1\<rparr>\<rparr>)"

lemma demo_writer'_eq:
  "demo_writer' = demo_writer\<lparr>w_buffer := \<lparr>m_Buffer = [0, 5, 6, 0, 0, 0], m_Size = 3\<rparr>,
     w_pattern := [\<lparr>b_name = ''T'', b_structDef = [], b_type = DT_Int8, b_elementSize = 1,
       b_shapeId = GlobalArray, b_shape = [4], b_start = [0], b_count = [2], b_bufferStart = 1,
       b_bufferCount = 2, b_value = []\<rparr>]\<rparr>"
  by code_simp

theorem PerformGets_finds_data_witness:
  "\<exists>r'. PerformGets (\<lambda>_. window_of demo_writer') demo_reader = Inr r' \<and>
     reader_ok (\<lambda>_. window_of demo_writer') r' \<and>
     (\<forall>i<length [demo_writer']. \<forall>j<length (w_pattern ([demo_writer'] ! i)).
        CalculateOverlap (r_written demo_reader) (r_local demo_reader) i \<noteq> None \<longrightarrow>
        contents (r_pattern r' ! i ! j) (r_buffer r') =
          contents (w_pattern ([demo_writer'] ! i) ! j) (w_buffer ([demo_writer'] ! i)))"
proof (rule PerformGets_finds_data)
  show "placed w" if "w \<in> set [demo_writer']" for w
    using that by (simp add: placed_def demo_writer'_eq size_ok_def TotalDataSize_dims_def)
  show "reader_ok (\<lambda>_. window_of demo_writer') demo_reader"
    by (simp add: reader_ok_def demo_reader_def GetDeferredDeltaCommon_def Let_def)
  show "needs 0 [demo_writer'] (CalculateOverlap (r_written demo_reader) (r_local demo_reader))
      (\<lambda>_. window_of demo_writer') < 18446744073709551616"
    by (simp add: window_of_def demo_writer'_eq)
qed (simp_all add: demo_reader_def GetDeferredDeltaCommon_def Let_def)

definition demo_sending :: slots where
  "demo_sending = (case Writer_SyncReadPattern [w_pattern demo_writer'] [r_local demo_reader] 0 0 of
     Inr m \<Rightarrow> m | Inl _ \<Rightarrow> Map.empty)"

definition demo_receiving :: "SscBlockInfo list list \<times> slots" where
  "demo_receiving = (case Reader_CalculatePosition [w_pattern demo_writer']
      (CalculateOverlap [w_pattern demo_writer'] ([r_local demo_reader] ! 0)) of
     Inr x \<Rightarrow> x | Inl _ \<Rightarrow> ([], Map.empty))"


subsection \<open>Strings once the definitions are locked\<close>

definition demo_string :: PutVariable where
  "demo_string = \<lparr>v_name = ''s'', v_type = DT_String, v_elementSize = 0, v_shapeId = GlobalValue,
     v_shape = [], v_start = [], v_count = [], v_structName = []\<rparr>"

text \<open>
  A step in which \<open>first\<close> is put and read, the locks, the next step, in which \<open>second\<close> is put and
  received: what \<open>Get\<close> returns then, and what the value of the variable is set to.
\<close>

definition locked_string_run :: "string \<Rightarrow> string \<Rightarrow> (bytes \<times> bytes) result" where
  "locked_string_run first second =
     bindR (Writer_PutDeferred demo_string (chars first) demo_writer) (\<lambda>w.
     let r = fst (GetDeferredDeltaCommon True demo_string (demo_reader\<lparr>r_written := [w_pattern w], r_local := []\<rparr>)) in
     bindR (PerformGets (\<lambda>_. window_of w) r) (\<lambda>r.
     bindR (Writer_BeginStep (w\<lparr>w_writerLocked := True, w_readerLocked := True\<rparr>)) (\<lambda>w.
     bindR (Writer_PutDeferred demo_string (chars second) w) (\<lambda>w.
     bindR (fetch_windows [0] (r_slots r) (\<lambda>_. window_of w) (r_buffer r)) (\<lambda>buf.
     let r = r\<lparr>r_buffer := buf\<rparr> in
     bindR (value_at_BeginStep False r (r_pattern r ! 0 ! 0)) (\<lambda>v.
       Inr (get_string_locked [0] r ''s'' [], v)))))))"

text \<open>
  Once definitions and selections are locked, getting a string returns the string of the step
  before the locks, although the string of the current step has arrived.
\<close>

theorem locked_string_is_stale:
  "locked_string_run ''aa'' ''bb'' = Inr (chars ''aa'', chars ''bb'')"
  by code_simp

end
