(* ===== verification/Adios_Buffers.thy ===== *)
theory Adios_Buffers
  imports Adios_Prelude
begin

section \<open>The data buffers of BP5\<close>

text \<open>
  \<open>toolkit/format/buffer/BufferV.cpp\<close>, \<open>chunk/ChunkV.cpp\<close> and \<open>malloc/MallocV.cpp\<close>: the data of a
  step is a vector of entries, some in memory of the buffer, some (deferred puts) in memory of the
  user. \<open>ChunkV\<close> keeps its bytes in chunks that it shrinks when they are full and takes again after
  \<open>Reset\<close>, \<open>MallocV\<close> in one block that grows. Both promise the same: the entries, one behind the
  other, are the data added, at the offsets returned. The promise is the locale \<open>buffer_vec\<close>; both
  buffers are interpretations of it.

  A pointer is a block of the heap or of the user and an offset in it. Allocation succeeds, and
  \<open>realloc\<close> moves the block, as it may. Bytes the allocator does not set are 0. A chunk is as large as
  its \<open>Size\<close>; the alignment slack in front of it is not counted. Sizes are natural numbers: they are
  bounded by the memory. Host memory only.
\<close>

type_synonym memory = "nat \<Rightarrow> u8 list"

datatype pointer = NullPtr | UserPtr nat nat | HeapPtr nat nat | RawAddr nat

record VecEntry =
  ve_External :: bool
  ve_Base :: pointer
  ve_Offset :: nat
  ve_Size :: nat

record BufferV =
  m_MemBlockSize :: nat
  m_AlwaysCopy :: bool
  DataV :: "VecEntry list"
  CurOffset :: nat
  m_internalPos :: nat

record BufferPos =
  bufferIdx :: int
  posInBuffer :: nat
  globalPos :: nat

definition BufferV_Reset :: "('a BufferV_scheme) \<Rightarrow> 'a BufferV_scheme" where
  "BufferV_Reset b = b\<lparr>CurOffset := 0, m_internalPos := 0, DataV := []\<rparr>"

text \<open>The number of zeros \<open>AlignBuffer\<close> adds.\<close>

definition align_pad :: "nat \<Rightarrow> nat \<Rightarrow> nat" where
  "align_pad align offset = (if offset mod align = 0 then 0 else align - offset mod align)"

text \<open>
  Both classes share \<open>AlignBuffer\<close>, which calls \<open>AddToVec\<close> with a copy and alignment 1: the argument
  \<open>add\<close> is \<open>AddToVec\<close> behind its own call of \<open>AlignBuffer\<close>.
\<close>

definition AlignBuffer ::
    "(nat \<Rightarrow> u8 list \<Rightarrow> 'a BufferV_scheme \<Rightarrow> (nat \<times> 'a BufferV_scheme) result) \<Rightarrow> nat \<Rightarrow>
     'a BufferV_scheme \<Rightarrow> 'a BufferV_scheme result" where
  "AlignBuffer add align b =
     (let addAlign = align_pad align (CurOffset b) in
      if align = 0 then Inl UndefinedBehaviour
      else if addAlign \<noteq> 0 then bindR (add addAlign (replicate addAlign 0) b) (\<lambda>(_, b'). Inr b') else Inr b)"

definition last_update :: "(VecEntry \<Rightarrow> VecEntry) \<Rightarrow> VecEntry list \<Rightarrow> VecEntry list" where
  "last_update f es = butlast es @ [f (last es)]"

subsection \<open>ChunkV\<close>

record Chunk =
  c_Ptr :: nat
  c_Size :: nat

record ChunkV = BufferV +
  m_ChunkSize :: nat
  m_NoShrink :: bool
  m_Chunks :: "Chunk list"
  m_TailChunkPos :: nat
  m_TailChunk :: "nat option"
  m_NextActiveChunk :: nat
  m_FreshAllocCount :: nat
  heap :: "nat \<Rightarrow> u8 list"
  heap_next :: nat

definition ChunkV_Reset :: "ChunkV \<Rightarrow> ChunkV" where
  "ChunkV_Reset s = (BufferV_Reset s)\<lparr>m_TailChunk := None, m_TailChunkPos := 0, m_NextActiveChunk := 0\<rparr>"

definition block_round :: "nat \<Rightarrow> nat \<Rightarrow> nat" where
  "block_round blockSize n = (if n mod blockSize \<noteq> 0 then n + (blockSize - n mod blockSize) else n)"

text \<open>\<open>ChunkAlloc\<close> on a chunk that holds \<open>old\<close>: the new chunk and the heap with it.\<close>

definition ChunkAlloc :: "u8 list \<Rightarrow> nat \<Rightarrow> ChunkV \<Rightarrow> Chunk \<times> ChunkV" where
  "ChunkAlloc old n s =
     (let actualsize = block_round (m_MemBlockSize s) n;
          b = heap_next s in
      (\<lparr>c_Ptr = b, c_Size = actualsize\<rparr>,
       s\<lparr>heap := (heap s)(b := take actualsize old @ replicate (actualsize - length old) 0),
         heap_next := b + 1\<rparr>))"

definition heap_write :: "nat \<Rightarrow> nat \<Rightarrow> u8 list \<Rightarrow> ChunkV \<Rightarrow> ChunkV result" where
  "heap_write b pos bs s =
     (if pos + length bs \<le> length (heap s b)
      then Inr (s\<lparr>heap := (heap s)(b := take pos (heap s b) @ bs @ drop (pos + length bs) (heap s b))\<rparr>)
      else Inl UndefinedBehaviour)"

definition tail_ptr :: "ChunkV \<Rightarrow> nat result" where
  "tail_ptr s =
     (case m_TailChunk s of
        Some i \<Rightarrow> (if i < length (m_Chunks s) then Inr (c_Ptr (m_Chunks s ! i)) else Inl UndefinedBehaviour)
      | None \<Rightarrow> Inl UndefinedBehaviour)"

text \<open>\<open>m_TailChunk->Ptr + m_TailChunkPos - DataV.back().Size == DataV.back().Base\<close>\<close>

definition AppendPossible :: "ChunkV \<Rightarrow> bool result" where
  "AppendPossible s =
     (if DataV s \<noteq> [] \<and> \<not> ve_External (last (DataV s))
      then bindR (tail_ptr s) (\<lambda>p.
             Inr (case ve_Base (last (DataV s)) of
                    HeapPtr b off \<Rightarrow> p = b \<and> m_TailChunkPos s = ve_Size (last (DataV s)) + off
                  | _ \<Rightarrow> False))
      else Inr False)"

text \<open>
  Closing the tail chunk: unless \<open>m_NoShrink\<close> is set the chunk is shrunk to its used size, rounded to
  blocks, the rest is zeroed and belongs to the last entry. Returned with the number of these zeros.
\<close>

definition close_chunk :: "nat \<Rightarrow> ChunkV \<Rightarrow> nat \<times> ChunkV" where
  "close_chunk i s =
     (let (alignment, s1) =
        (if m_NoShrink s then (0, s)
         else (case ChunkAlloc (take (m_TailChunkPos s) (heap s (c_Ptr (m_Chunks s ! i)))) (m_TailChunkPos s) s of
                 (c, s') \<Rightarrow>
                   (c_Size c - m_TailChunkPos s,
                    s'\<lparr>m_Chunks := (m_Chunks s')[i := c],
                       DataV := last_update (\<lambda>e. e\<lparr>ve_Size := c_Size c, ve_Base := HeapPtr (c_Ptr c) 0\<rparr>)
                                  (DataV s')\<rparr>)))
      in (alignment, s1\<lparr>m_TailChunkPos := 0, m_TailChunk := None\<rparr>))"

text \<open>A chunk of an earlier step that is large enough, or a new one inserted in its place.\<close>

definition claim_chunk :: "nat \<Rightarrow> ChunkV \<Rightarrow> ChunkV" where
  "claim_chunk n s =
     (let NewSize = (if n > m_ChunkSize s then n else m_ChunkSize s);
          i = m_NextActiveChunk s;
          s1 = (if i < length (m_Chunks s) \<and> c_Size (m_Chunks s ! i) \<ge> n then s
                else (case ChunkAlloc [] NewSize s of
                        (c, s') \<Rightarrow> s'\<lparr>m_FreshAllocCount := m_FreshAllocCount s' + 1,
                                     m_Chunks := take i (m_Chunks s') @ [c] @ drop i (m_Chunks s')\<rparr>))
      in s1\<lparr>m_TailChunk := Some i, m_NextActiveChunk := i + 1\<rparr>)"

text \<open>The branch of \<open>AddToVec\<close> that copies.\<close>

definition ChunkV_copy :: "nat \<Rightarrow> u8 list \<Rightarrow> ChunkV \<Rightarrow> (nat \<times> ChunkV) result" where
  "ChunkV_copy n data s =
     bindR (AppendPossible s) (\<lambda>possible.
       let (retOffset, s1, append) =
         (if possible \<and> m_TailChunkPos s + n > m_ChunkSize s
          then (case close_chunk (the (m_TailChunk s)) s of (alignment, s') \<Rightarrow> (CurOffset s + alignment, s', False))
          else (CurOffset s, s, possible))
       in bindR
         (if append
          then bindR (tail_ptr s1) (\<lambda>p. bindR (heap_write p (m_TailChunkPos s1) data s1) (\<lambda>s2.
                 Inr (s2\<lparr>DataV := last_update (\<lambda>e. e\<lparr>ve_Size := ve_Size e + n\<rparr>) (DataV s2),
                         m_TailChunkPos := m_TailChunkPos s2 + n\<rparr>)))
          else (let s2 = claim_chunk n s1 in
                bindR (tail_ptr s2) (\<lambda>p. bindR (heap_write p 0 data s2) (\<lambda>s3.
                  Inr (s3\<lparr>m_TailChunkPos := n,
                          DataV := DataV s3 @ [\<lparr>ve_External = False, ve_Base = HeapPtr p 0,
                                                ve_Offset = 0, ve_Size = n\<rparr>]\<rparr>)))))
         (\<lambda>s4. Inr (retOffset, s4\<lparr>CurOffset := retOffset + n\<rparr>)))"

definition push_external :: "nat \<Rightarrow> nat \<Rightarrow> 'a BufferV_scheme \<Rightarrow> nat \<times> 'a BufferV_scheme" where
  "push_external n buf s =
     (CurOffset s, s\<lparr>DataV := DataV s @ [\<lparr>ve_External = True, ve_Base = UserPtr buf 0, ve_Offset = 0,
                                          ve_Size = n\<rparr>],
                     CurOffset := CurOffset s + n\<rparr>)"

definition ChunkV_AddToVec ::
    "memory \<Rightarrow> nat \<Rightarrow> nat \<Rightarrow> nat \<Rightarrow> bool \<Rightarrow> ChunkV \<Rightarrow> (nat \<times> ChunkV) result" where
  "ChunkV_AddToVec mem n buf align CopyReqd s =
     bindR (AlignBuffer ChunkV_copy align s) (\<lambda>s.
       if n = 0 then Inr (CurOffset s, s)
       else if \<not> CopyReqd \<and> \<not> m_AlwaysCopy s then Inr (push_external n buf s)
       else if length (mem buf) < n then Inl UndefinedBehaviour
       else ChunkV_copy n (take n (mem buf)) s)"

text \<open>\<open>Allocate\<close>: room for the user to write to later.\<close>

definition ChunkV_Allocate :: "nat \<Rightarrow> nat \<Rightarrow> ChunkV \<Rightarrow> (BufferPos \<times> ChunkV) result" where
  "ChunkV_Allocate n align s =
     (if n = 0 then Inr (\<lparr>bufferIdx = -1, posInBuffer = 0, globalPos = CurOffset s\<rparr>, s)
      else bindR (AlignBuffer ChunkV_copy align s) (\<lambda>s.
           bindR (AppendPossible s) (\<lambda>possible.
             let (s1, append) =
               (if possible \<and> m_TailChunkPos s + n > m_ChunkSize s
                then (case close_chunk (the (m_TailChunk s)) s of
                        (alignment, s') \<Rightarrow> (s'\<lparr>CurOffset := CurOffset s' + alignment\<rparr>, False))
                else (s, possible))
             in bindR
               (if append
                then Inr (m_TailChunkPos s1,
                          s1\<lparr>DataV := last_update (\<lambda>e. e\<lparr>ve_Size := ve_Size e + n\<rparr>) (DataV s1),
                             m_TailChunkPos := m_TailChunkPos s1 + n\<rparr>)
                else (let s2 = claim_chunk n s1 in
                      bindR (tail_ptr s2) (\<lambda>p.
                        Inr (0, s2\<lparr>m_TailChunkPos := n,
                                   DataV := DataV s2 @ [\<lparr>ve_External = False, ve_Base = HeapPtr p 0,
                                                         ve_Offset = 0, ve_Size = n\<rparr>]\<rparr>))))
               (\<lambda>(bufferPos, s3).
                 Inr (\<lparr>bufferIdx = int (length (DataV s3)) - 1, posInBuffer = bufferPos,
                       globalPos = CurOffset s3\<rparr>,
                      s3\<lparr>CurOffset := CurOffset s3 + n\<rparr>)))))"

definition ChunkV_DownsizeLastAlloc :: "nat \<Rightarrow> nat \<Rightarrow> ChunkV \<Rightarrow> ChunkV result" where
  "ChunkV_DownsizeLastAlloc oldSize newSize s =
     (if DataV s = [] then Inl UndefinedBehaviour
      else let d = oldSize - newSize in
           Inr (s\<lparr>DataV := last_update (\<lambda>e. e\<lparr>ve_Size := ve_Size e - d\<rparr>) (DataV s),
                  CurOffset := CurOffset s - d, m_TailChunkPos := m_TailChunkPos s - d\<rparr>))"

fun offset_ptr :: "pointer \<Rightarrow> nat \<Rightarrow> pointer" where
  "offset_ptr (UserPtr p off) n = UserPtr p (off + n)"
| "offset_ptr (HeapPtr b off) n = HeapPtr b (off + n)"
| "offset_ptr (RawAddr a) n = RawAddr (a + n)"
| "offset_ptr NullPtr n = RawAddr n"

text \<open>The index equal to the size passes the test of the code and is read past the end.\<close>

definition ChunkV_GetPtr :: "int \<Rightarrow> nat \<Rightarrow> ChunkV \<Rightarrow> pointer result" where
  "ChunkV_GetPtr idx pos s =
     (if idx = -1 then Inr NullPtr
      else if idx < -1 \<or> nat idx > length (DataV s) then Inl InvalidArgument
      else if nat idx = length (DataV s) then Inl UndefinedBehaviour
      else if ve_External (DataV s ! nat idx) then Inl InvalidArgument
      else Inr (offset_ptr (ve_Base (DataV s ! nat idx)) pos))"

text \<open>For an external entry the code adds the position to the flag, not to the base.\<close>

fun getptr_loop :: "VecEntry list \<Rightarrow> nat \<Rightarrow> pointer result" where
  "getptr_loop [] pos = Inl UndefinedBehaviour"
| "getptr_loop (e # es) pos =
     (if ve_Size e \<le> pos then getptr_loop es (pos - ve_Size e)
      else if ve_External e then Inr (RawAddr (1 + pos))
      else Inr (offset_ptr (ve_Base e) pos))"

definition ChunkV_GetPtr_overall :: "nat \<Rightarrow> ChunkV \<Rightarrow> pointer result" where
  "ChunkV_GetPtr_overall pos s = (if DataV s = [] then Inr NullPtr else getptr_loop (DataV s) pos)"

definition ChunkV_DataVec :: "ChunkV \<Rightarrow> (pointer \<times> nat) list" where
  "ChunkV_DataVec s = map (\<lambda>e. (ve_Base e, ve_Size e)) (DataV s)"

subsection \<open>The bytes an iovec gives\<close>

definition entry_bytes :: "memory \<Rightarrow> (nat \<Rightarrow> u8 list) \<Rightarrow> VecEntry \<Rightarrow> u8 list" where
  "entry_bytes mem h e =
     (case ve_Base e of
        UserPtr p off \<Rightarrow> take (ve_Size e) (drop off (mem p))
      | HeapPtr b off \<Rightarrow> take (ve_Size e) (drop off (h b))
      | _ \<Rightarrow> [])"

definition ChunkV_stream :: "memory \<Rightarrow> ChunkV \<Rightarrow> u8 list" where
  "ChunkV_stream mem s = concat (map (entry_bytes mem (heap s)) (DataV s))"

definition sizes :: "VecEntry list \<Rightarrow> nat" where
  "sizes es = sum_list (map ve_Size es)"

text \<open>
  The invariant. Entries are external or the first bytes of a chunk in use, no two of the same; the
  chunks have the size they say. \<open>tail_inv\<close>: if the last entry is internal, its chunk is the last
  one taken, used up to the end of the entry, and has the full chunk size.
\<close>

abbreviation used_chunks :: "ChunkV \<Rightarrow> Chunk list" where
  "used_chunks s \<equiv> take (m_NextActiveChunk s) (m_Chunks s)"

definition entry_ok :: "Chunk list \<Rightarrow> VecEntry \<Rightarrow> bool" where
  "entry_ok cs e \<longleftrightarrow>
     (if ve_External e then \<exists>p. ve_Base e = UserPtr p 0
      else \<exists>c\<in>set cs. ve_Base e = HeapPtr (c_Ptr c) 0 \<and> ve_Size e \<le> c_Size c)"

definition base_inv :: "ChunkV \<Rightarrow> bool" where
  "base_inv s \<longleftrightarrow>
     0 < m_MemBlockSize s \<and> m_NextActiveChunk s \<le> length (m_Chunks s) \<and>
     distinct (map c_Ptr (m_Chunks s)) \<and>
     (\<forall>c\<in>set (m_Chunks s). c_Ptr c < heap_next s \<and> length (heap s (c_Ptr c)) = c_Size c) \<and>
     (\<forall>e\<in>set (DataV s). entry_ok (used_chunks s) e) \<and>
     distinct (map ve_Base (filter (\<lambda>e. \<not> ve_External e) (DataV s))) \<and>
     (if m_NoShrink s then \<forall>c\<in>set (m_Chunks s). m_ChunkSize s \<le> c_Size c
      else m_NextActiveChunk s = length (m_Chunks s))"

definition tail_inv :: "ChunkV \<Rightarrow> bool" where
  "tail_inv s \<longleftrightarrow>
     (DataV s \<noteq> [] \<and> \<not> ve_External (last (DataV s)) \<longrightarrow>
       (\<exists>i. m_TailChunk s = Some i \<and> Suc i = m_NextActiveChunk s \<and>
          ve_Base (last (DataV s)) = HeapPtr (c_Ptr (m_Chunks s ! i)) 0 \<and>
          m_TailChunkPos s = ve_Size (last (DataV s)) \<and>
          m_TailChunkPos s \<le> c_Size (m_Chunks s ! i) \<and> m_ChunkSize s \<le> c_Size (m_Chunks s ! i)))"

definition ChunkV_inv :: "ChunkV \<Rightarrow> bool" where
  "ChunkV_inv s \<longleftrightarrow> base_inv s \<and> tail_inv s \<and> CurOffset s = sizes (DataV s)"

lemma sizes_simps [simp]: "sizes [] = 0" "sizes (e # es) = ve_Size e + sizes es"
  "sizes (es @ fs) = sizes es + sizes fs"
  by (simp_all add: sizes_def)

lemma block_round_ge: "0 < B \<Longrightarrow> n \<le> block_round B n"
proof -
  assume "0 < B"
  then have "n mod B < B" by simp
  then show "n \<le> block_round B n" by (simp add: block_round_def) linarith
qed

lemma last_update_snoc [simp]: "last_update f (es @ [e]) = es @ [f e]"
  by (simp add: last_update_def)

lemma entry_bytes_cong:
  "(\<And>b off. ve_Base e = HeapPtr b off \<Longrightarrow> h b = h' b) \<Longrightarrow> entry_bytes mem h e = entry_bytes mem h' e"
  by (auto simp: entry_bytes_def split: pointer.splits)

lemma stream_cong:
  "(\<And>e b off. e \<in> set es \<Longrightarrow> ve_Base e = HeapPtr b off \<Longrightarrow> h b = h' b) \<Longrightarrow>
   concat (map (entry_bytes mem h) es) = concat (map (entry_bytes mem h') es)"
  by (intro arg_cong [where f = concat] map_cong refl entry_bytes_cong) auto

lemma heap_write_Inr:
  "pos + length bs \<le> length (heap s b) \<Longrightarrow>
   heap_write b pos bs s =
     Inr (s\<lparr>heap := (heap s)(b := take pos (heap s b) @ bs @ drop (pos + length bs) (heap s b))\<rparr>)"
  by (simp add: heap_write_def)

text \<open>An external entry is pushed.\<close>

lemma push_external_ok:
  assumes "ChunkV_inv s" "push_external n buf s = (off, s')"
  shows "off = CurOffset s \<and> ChunkV_inv s' \<and>
    ChunkV_stream mem s' = ChunkV_stream mem s @ take n (mem buf)"
proof -
  let ?e = "\<lparr>ve_External = True, ve_Base = UserPtr buf 0, ve_Offset = 0, ve_Size = n\<rparr>"
  have "entry_ok (used_chunks s) ?e" by (simp add: entry_ok_def)
  then show ?thesis
    using assms by (auto simp: push_external_def ChunkV_inv_def base_inv_def tail_inv_def ChunkV_stream_def
        entry_bytes_def)
qed

text \<open>With the invariant, appending is possible exactly if the last entry is internal.\<close>

lemma AppendPossible_ok:
  assumes "ChunkV_inv s"
  shows "AppendPossible s = Inr (DataV s \<noteq> [] \<and> \<not> ve_External (last (DataV s)))"
proof (cases "DataV s \<noteq> [] \<and> \<not> ve_External (last (DataV s))")
  case True
  then obtain i where "m_TailChunk s = Some i" "Suc i = m_NextActiveChunk s"
    "ve_Base (last (DataV s)) = HeapPtr (c_Ptr (m_Chunks s ! i)) 0" "m_TailChunkPos s = ve_Size (last (DataV s))"
    using assms by (auto simp: ChunkV_inv_def tail_inv_def)
  moreover have "m_NextActiveChunk s \<le> length (m_Chunks s)"
    using assms by (simp add: ChunkV_inv_def base_inv_def)
  ultimately show ?thesis using True by (simp add: AppendPossible_def tail_ptr_def)
qed (auto simp: AppendPossible_def)

text \<open>Data appended to the tail chunk.\<close>

lemma append_ok:
  assumes inv: "ChunkV_inv s" and last: "DataV s \<noteq> []" "\<not> ve_External (last (DataV s))"
    and room: "m_TailChunkPos s + length data \<le> m_ChunkSize s" "n = length data"
  shows "\<exists>p s2. tail_ptr s = Inr p \<and> heap_write p (m_TailChunkPos s) data s = Inr s2 \<and>
    (let s' = s2\<lparr>DataV := last_update (\<lambda>e. e\<lparr>ve_Size := ve_Size e + n\<rparr>) (DataV s2),
                 m_TailChunkPos := m_TailChunkPos s2 + n\<rparr> in
     base_inv s' \<and> tail_inv s' \<and> sizes (DataV s') = sizes (DataV s) + n \<and>
     (\<forall>mem. ChunkV_stream mem s' = ChunkV_stream mem s @ data))"
proof -
  obtain es e where es: "DataV s = es @ [e]" using last(1) by (meson rev_exhaust)
  obtain i where i: "m_TailChunk s = Some i" "Suc i = m_NextActiveChunk s"
    "ve_Base e = HeapPtr (c_Ptr (m_Chunks s ! i)) 0" "m_TailChunkPos s = ve_Size e"
    "m_ChunkSize s \<le> c_Size (m_Chunks s ! i)"
    using inv last es by (auto simp: ChunkV_inv_def tail_inv_def)
  have b: "base_inv s" using inv by (simp add: ChunkV_inv_def)
  note bi = b [unfolded base_inv_def]
  have il: "i < length (m_Chunks s)" using bi i(2) by simp
  let ?c = "m_Chunks s ! i" let ?p = "c_Ptr ?c"
  have cl: "length (heap s ?p) = c_Size ?c" using bi il by simp
  have room': "ve_Size e + n \<le> c_Size ?c" using room i(4,5) by simp
  have wr: "heap_write ?p (m_TailChunkPos s) data s =
      Inr (s\<lparr>heap := (heap s)(?p := take (m_TailChunkPos s) (heap s ?p) @ data @
                drop (m_TailChunkPos s + length data) (heap s ?p))\<rparr>)"
    using room room' cl i(4) by (intro heap_write_Inr) simp
  define h where "h = (heap s)(?p := take (ve_Size e) (heap s ?p) @ data @ drop (ve_Size e + n) (heap s ?p))"
  have wr': "heap_write ?p (m_TailChunkPos s) data s = Inr (s\<lparr>heap := h\<rparr>)"
    using wr i(4) room(2) by (simp add: h_def)
  have lenh: "length (h b) = length (heap s b)" for b
    using room room' cl by (simp add: h_def)
  have ext: "\<not> ve_External e" using last es by simp
  have dist: "ve_Base f \<noteq> HeapPtr ?p off" if f: "f \<in> set es" for f off
  proof
    assume fb: "ve_Base f = HeapPtr ?p off"
    have "entry_ok (used_chunks s) f" using bi es f by auto
    then have "\<not> ve_External f" "off = 0" using fb by (auto simp: entry_ok_def split: if_splits)
    then show False using bi es f fb i(3) ext by (auto simp: image_iff)
  qed
  have st: "concat (map (entry_bytes mem h) es) = concat (map (entry_bytes mem (heap s)) es)" for mem
    using dist by (intro stream_cong) (auto simp: h_def)
  have eb: "entry_bytes mem h (e\<lparr>ve_Size := ve_Size e + n\<rparr>) = entry_bytes mem (heap s) e @ data" for mem
    using i(3) room room' cl by (simp add: entry_bytes_def h_def)
  have ci: "?c \<in> set (used_chunks s)"
    using i(2) il by (metis in_set_conv_nth length_take lessI min_less_iff_conj nth_take)
  let ?s' = "s\<lparr>heap := h, DataV := es @ [e\<lparr>ve_Size := ve_Size e + n\<rparr>], m_TailChunkPos := m_TailChunkPos s + n\<rparr>"
  have lok: "entry_ok (used_chunks s) (e\<lparr>ve_Size := ve_Size e + n\<rparr>)"
    using ext ci i(3) room' by (auto simp: entry_ok_def)
  have "base_inv ?s'"
    using bi lok ext unfolding base_inv_def es by (simp add: lenh)
  moreover have "tail_inv ?s'" using i room' by (simp add: tail_inv_def)
  moreover have "tail_ptr s = Inr ?p" using i(1) il by (simp add: tail_ptr_def)
  moreover have "ChunkV_stream mem ?s' = ChunkV_stream mem s @ data" for mem
    using st eb by (simp add: ChunkV_stream_def es)
  ultimately show ?thesis using wr' room(2) by (auto simp: Let_def es i(4))
qed

text \<open>A chunk for new data: an old one or a new one, not used by any entry.\<close>

lemma ChunkAlloc_parts:
  assumes "ChunkAlloc old n s = (c, s')"
  shows "c = \<lparr>c_Ptr = heap_next s, c_Size = block_round (m_MemBlockSize s) n\<rparr>"
    and "s' = s\<lparr>heap := (heap s)(heap_next s := take (c_Size c) old @ replicate (c_Size c - length old) 0),
      heap_next := heap_next s + 1\<rparr>"
  using assms by (auto simp: ChunkAlloc_def Let_def)

lemma claim_chunk_parts:
  assumes b: "base_inv s"
  shows "\<exists>s1 i. i = m_NextActiveChunk s \<and>
    claim_chunk n s = s1\<lparr>m_TailChunk := Some i, m_NextActiveChunk := i + 1\<rparr> \<and>
    DataV s1 = DataV s \<and> m_NoShrink s1 = m_NoShrink s \<and> m_ChunkSize s1 = m_ChunkSize s \<and>
    m_MemBlockSize s1 = m_MemBlockSize s \<and> m_NextActiveChunk s1 = i \<and>
    i < length (m_Chunks s1) \<and> take i (m_Chunks s1) = used_chunks s \<and> distinct (map c_Ptr (m_Chunks s1)) \<and>
    (\<forall>d\<in>set (m_Chunks s1). c_Ptr d < heap_next s1 \<and> length (heap s1 (c_Ptr d)) = c_Size d) \<and>
    (if m_NoShrink s then \<forall>d\<in>set (m_Chunks s1). m_ChunkSize s \<le> c_Size d else i + 1 = length (m_Chunks s1)) \<and>
    n \<le> c_Size (m_Chunks s1 ! i) \<and> m_ChunkSize s \<le> c_Size (m_Chunks s1 ! i) \<and>
    (\<forall>b<heap_next s. heap s1 b = heap s b)"
proof -
  let ?i = "m_NextActiveChunk s" let ?big = "if n > m_ChunkSize s then n else m_ChunkSize s"
  note bi = b [unfolded base_inv_def]
  define reuse where "reuse \<longleftrightarrow> ?i < length (m_Chunks s) \<and> c_Size (m_Chunks s ! ?i) \<ge> n"
  define s1 where "s1 = (if reuse then s else (case ChunkAlloc [] ?big s of
      (c, s') \<Rightarrow> s'\<lparr>m_FreshAllocCount := m_FreshAllocCount s' + 1,
                   m_Chunks := take ?i (m_Chunks s') @ [c] @ drop ?i (m_Chunks s')\<rparr>))"
  have claim: "claim_chunk n s = s1\<lparr>m_TailChunk := Some ?i, m_NextActiveChunk := ?i + 1\<rparr>"
    by (simp add: claim_chunk_def s1_def reuse_def Let_def)
  let ?cs = "m_Chunks s1" let ?c = "?cs ! ?i" let ?p = "c_Ptr ?c"
  obtain c s' where ca: "ChunkAlloc [] ?big s = (c, s')" by (cases "ChunkAlloc [] ?big s")
  note parts = ChunkAlloc_parts [OF ca]
  have big: "?big \<le> c_Size c" "n \<le> c_Size c" "m_ChunkSize s \<le> c_Size c"
    using block_round_ge [of "m_MemBlockSize s" ?big] bi parts(1) by (auto split: if_splits)
  have s1n: "\<not> reuse \<Longrightarrow> s1 = s\<lparr>heap := (heap s)(heap_next s := replicate (c_Size c) 0), heap_next := heap_next s + 1,
      m_FreshAllocCount := m_FreshAllocCount s + 1,
      m_Chunks := take ?i (m_Chunks s) @ [c] @ drop ?i (m_Chunks s)\<rparr>"
    using ca parts(2) by (simp add: s1_def)
  have same: "DataV s1 = DataV s" "m_NoShrink s1 = m_NoShrink s" "m_ChunkSize s1 = m_ChunkSize s"
    "m_MemBlockSize s1 = m_MemBlockSize s" "m_NextActiveChunk s1 = ?i"
    using s1n by (cases reuse; simp add: s1_def)+
  have fresh: "c_Ptr c = heap_next s" using parts(1) by simp
  have il: "?i < length ?cs" and prefix: "take ?i ?cs = used_chunks s"
    using s1n bi by (cases reuse; simp add: s1_def reuse_def)+
  have cs: "distinct (map c_Ptr ?cs)" "\<forall>d\<in>set ?cs. c_Ptr d < heap_next s1 \<and> length (heap s1 (c_Ptr d)) = c_Size d"
    "if m_NoShrink s then \<forall>d\<in>set ?cs. m_ChunkSize s \<le> c_Size d else ?i + 1 = length ?cs"
    "n \<le> c_Size ?c" "m_ChunkSize s \<le> c_Size ?c"
  proof -
    have new: "\<not> reuse \<Longrightarrow> ?c = c" using s1n bi by (simp add: nth_append)
    have old: "set (take ?i (m_Chunks s)) \<union> set (drop ?i (m_Chunks s)) = set (m_Chunks s)"
      by (metis append_take_drop_id set_append)
    have nm: "heap_next s \<notin> c_Ptr ` set (m_Chunks s)" using bi by auto
    have d: "distinct (map c_Ptr (take ?i (m_Chunks s) @ drop ?i (m_Chunks s)))" using bi by simp
    show "distinct (map c_Ptr ?cs)"
    proof (cases reuse)
      case False
      have "c_Ptr ` set (take ?i (m_Chunks s)) \<subseteq> c_Ptr ` set (m_Chunks s)"
        "c_Ptr ` set (drop ?i (m_Chunks s)) \<subseteq> c_Ptr ` set (m_Chunks s)" using old by auto
      then show ?thesis using d nm fresh False s1n by (simp only: map_append distinct_append) auto
    qed (use bi in \<open>simp add: s1_def\<close>)
    have "length (heap s1 (c_Ptr d)) = c_Size d \<and> c_Ptr d < heap_next s1" if "d \<in> set ?cs" for d
    proof (cases reuse)
      case False
      then have "d = c \<or> d \<in> set (m_Chunks s)" using that s1n old by auto
      then show ?thesis using bi fresh nm False s1n by (auto simp: image_iff less_Suc_eq)
    qed (use bi that in \<open>simp add: s1_def\<close>)
    then show "\<forall>d\<in>set ?cs. c_Ptr d < heap_next s1 \<and> length (heap s1 (c_Ptr d)) = c_Size d" by blast
    show "if m_NoShrink s then \<forall>d\<in>set ?cs. m_ChunkSize s \<le> c_Size d else ?i + 1 = length ?cs"
    proof (cases reuse)
      case True
      then show ?thesis using bi by (auto simp: s1_def reuse_def)
    next
      case False
      then show ?thesis using bi s1n big(3) old by auto
    qed
    show "n \<le> c_Size ?c" using new big(2) by (cases reuse) (auto simp: s1_def reuse_def)
    show "m_ChunkSize s \<le> c_Size ?c"
    proof (cases reuse)
      case True
      then have "m_NoShrink s" "s1 = s" using bi by (auto simp: reuse_def s1_def split: if_splits)
      then show ?thesis using bi il by simp
    qed (use new big in auto)
  qed
  have "heap s1 b = heap s b" if "b < heap_next s" for b
    using that s1n by (cases reuse) (auto simp: s1_def)
  then show ?thesis using claim same il prefix cs by blast
qed

lemma claim_ok:
  assumes b: "base_inv s" and n: "n = length data"
  shows "\<exists>p s3. tail_ptr (claim_chunk n s) = Inr p \<and> heap_write p 0 data (claim_chunk n s) = Inr s3 \<and>
    (let s' = s3\<lparr>m_TailChunkPos := n,
                 DataV := DataV s3 @ [\<lparr>ve_External = False, ve_Base = HeapPtr p 0, ve_Offset = 0, ve_Size = n\<rparr>]\<rparr> in
     base_inv s' \<and> tail_inv s' \<and> sizes (DataV s') = sizes (DataV s) + n \<and>
     (\<forall>mem. ChunkV_stream mem s' = ChunkV_stream mem s @ data))"
proof -
  let ?i = "m_NextActiveChunk s"
  note bi = b [unfolded base_inv_def]
  obtain s1 where claim: "claim_chunk n s = s1\<lparr>m_TailChunk := Some ?i, m_NextActiveChunk := ?i + 1\<rparr>"
    and same: "DataV s1 = DataV s" "m_NoShrink s1 = m_NoShrink s" "m_ChunkSize s1 = m_ChunkSize s"
      "m_MemBlockSize s1 = m_MemBlockSize s" "m_NextActiveChunk s1 = ?i"
    and il: "?i < length (m_Chunks s1)" and prefix: "take ?i (m_Chunks s1) = used_chunks s"
    and cs: "distinct (map c_Ptr (m_Chunks s1))"
      "\<forall>d\<in>set (m_Chunks s1). c_Ptr d < heap_next s1 \<and> length (heap s1 (c_Ptr d)) = c_Size d"
      "if m_NoShrink s then \<forall>d\<in>set (m_Chunks s1). m_ChunkSize s \<le> c_Size d else ?i + 1 = length (m_Chunks s1)"
      "n \<le> c_Size (m_Chunks s1 ! ?i)" "m_ChunkSize s \<le> c_Size (m_Chunks s1 ! ?i)"
    and oldh: "\<forall>b<heap_next s. heap s1 b = heap s b"
    using claim_chunk_parts [OF b, of n] by blast
  let ?cs = "m_Chunks s1" let ?c = "?cs ! ?i" let ?p = "c_Ptr ?c"
  define h where "h = (heap s1)(?p := data @ drop n (heap s1 ?p))"
  have cl: "length (heap s1 ?p) = c_Size ?c" using cs(2) il nth_mem by blast
  have lenh: "length (h b) = length (heap s1 b)" for b using n cl cs(4) by (simp add: h_def)
  let ?e = "\<lparr>ve_External = False, ve_Base = HeapPtr ?p 0, ve_Offset = 0, ve_Size = n\<rparr>"
  let ?s' = "s1\<lparr>m_TailChunk := Some ?i, m_NextActiveChunk := ?i + 1, heap := h, m_TailChunkPos := n, DataV := DataV s @ [?e]\<rparr>"
  have unused: "ve_Base f \<noteq> HeapPtr ?p off" if f: "f \<in> set (DataV s)" for f off
  proof
    assume fb: "ve_Base f = HeapPtr ?p off"
    have "entry_ok (used_chunks s) f" using bi f by auto
    then obtain d where "d \<in> set (take ?i ?cs)" "c_Ptr d = ?p"
      using fb by (auto simp: entry_ok_def prefix split: if_splits)
    then obtain k where "k < ?i" "k < length ?cs" "map c_Ptr ?cs ! k = map c_Ptr ?cs ! ?i"
      using il by (auto simp: in_set_conv_nth)
    then show False using cs(1) il by (simp add: nth_eq_iff_index_eq del: nth_map)
  qed
  have old_heap: "heap s1 b = heap s b" if f: "f \<in> set (DataV s)" and fb: "ve_Base f = HeapPtr b off" for f b off
  proof -
    have "entry_ok (used_chunks s) f" using bi f by auto
    then obtain d where "d \<in> set (m_Chunks s)" "c_Ptr d = b"
      using fb by (auto simp: entry_ok_def split: if_splits dest: in_set_takeD)
    then have "b < heap_next s" using bi by auto
    then show ?thesis using oldh by blast
  qed
  have st: "concat (map (entry_bytes mem h) (DataV s)) = concat (map (entry_bytes mem (heap s)) (DataV s))" for mem
    using unused old_heap by (intro stream_cong) (auto simp: h_def)
  have eb: "entry_bytes mem h ?e = data" for mem using n by (simp add: entry_bytes_def h_def)
  have used': "take (?i + 1) ?cs = used_chunks s @ [?c]"
    using il prefix by (simp add: take_Suc_conv_app_nth)
  have mono: "entry_ok (used_chunks s) f \<Longrightarrow> entry_ok (take (?i + 1) ?cs) f" for f
    unfolding used' by (auto simp: entry_ok_def)
  have lok: "entry_ok (take (?i + 1) ?cs) ?e" unfolding used' using cs(4) by (simp add: entry_ok_def)
  have "distinct (map ve_Base (filter (\<lambda>e. \<not> ve_External e) (DataV s) @ [?e]))"
    using bi unused by (auto simp: image_iff dest: not_sym)
  then have "base_inv ?s'"
    using bi cs mono lok il unfolding base_inv_def by (cases "m_NoShrink s"; simp add: lenh same)
  moreover have "tail_inv ?s'" using cs(4,5) same by (simp add: tail_inv_def)
  moreover have "tail_ptr (claim_chunk n s) = Inr ?p" using il by (simp add: claim tail_ptr_def)
  moreover have "heap_write ?p 0 data (claim_chunk n s) =
      Inr (s1\<lparr>m_TailChunk := Some ?i, m_NextActiveChunk := ?i + 1, heap := h\<rparr>)"
    unfolding claim heap_write_def h_def using n cl cs(4) by simp
  moreover have "ChunkV_stream mem ?s' = ChunkV_stream mem s @ data" for mem
    using st eb by (simp add: ChunkV_stream_def)
  ultimately show ?thesis by (auto simp: Let_def same)
qed

text \<open>Closing the tail chunk adds the zeros up to the end of the chunk to the last entry.\<close>

lemma close_ok:
  assumes inv: "ChunkV_inv s" and last: "DataV s \<noteq> []" "\<not> ve_External (last (DataV s))"
    and close: "close_chunk (the (m_TailChunk s)) s = (alignment, s')"
  shows "base_inv s' \<and> sizes (DataV s') = sizes (DataV s) + alignment \<and> CurOffset s' = CurOffset s \<and>
    m_AlwaysCopy s' = m_AlwaysCopy s \<and>
    (\<forall>mem. ChunkV_stream mem s' = ChunkV_stream mem s @ replicate alignment 0)"
proof (cases "m_NoShrink s")
  case True
  then show ?thesis
    using inv close by (auto simp: close_chunk_def ChunkV_inv_def base_inv_def ChunkV_stream_def)
next
  case False
  obtain es e where es: "DataV s = es @ [e]" using last(1) by (meson rev_exhaust)
  obtain i where i: "m_TailChunk s = Some i" "Suc i = m_NextActiveChunk s"
    "ve_Base e = HeapPtr (c_Ptr (m_Chunks s ! i)) 0" "m_TailChunkPos s = ve_Size e"
    "ve_Size e \<le> c_Size (m_Chunks s ! i)"
    using inv last es by (auto simp: ChunkV_inv_def tail_inv_def)
  have b: "base_inv s" using inv by (simp add: ChunkV_inv_def)
  note bi = b [unfolded base_inv_def]
  have il: "i < length (m_Chunks s)" "m_NextActiveChunk s = length (m_Chunks s)" using bi i(2) False by simp_all
  let ?p = "c_Ptr (m_Chunks s ! i)" let ?n = "ve_Size e" let ?q = "heap_next s"
  have cl: "length (heap s ?p) = c_Size (m_Chunks s ! i)" using bi il by simp
  obtain c s1 where ca: "ChunkAlloc (take ?n (heap s ?p)) ?n s = (c, s1)"
    by (cases "ChunkAlloc (take ?n (heap s ?p)) ?n s")
  note parts = ChunkAlloc_parts [OF ca]
  have n: "?n \<le> c_Size c" using block_round_ge [of "m_MemBlockSize s" ?n] bi parts(1) by simp
  let ?h = "(heap s)(?q := take ?n (heap s ?p) @ replicate (c_Size c - ?n) 0)"
  let ?e = "e\<lparr>ve_Size := c_Size c, ve_Base := HeapPtr ?q 0\<rparr>"
  have s1: "s1 = s\<lparr>heap := ?h, heap_next := ?q + 1\<rparr>" and c: "c_Ptr c = ?q"
    using parts i(5) cl n by (simp_all add: min_def)
  have al: "alignment = c_Size c - ?n"
    and s': "s' = s\<lparr>heap := ?h, heap_next := ?q + 1, m_Chunks := (m_Chunks s)[i := c], DataV := es @ [?e],
      m_TailChunkPos := 0, m_TailChunk := None\<rparr>"
    using close False i(1,4) ca s1 c by (auto simp: close_chunk_def es)
  have below: "c_Ptr d < ?q" if "d \<in> set (m_Chunks s)" for d using bi that by blast
  have set': "set ((m_Chunks s)[i := c]) \<subseteq> insert c (set (m_Chunks s))" by (rule set_update_subset_insert)
  have ext: "\<not> ve_External e" using last es by simp
  have kept: "entry_ok ((m_Chunks s)[i := c]) f \<and> (\<forall>b off. ve_Base f = HeapPtr b off \<longrightarrow> b \<noteq> ?q)"
    if f: "f \<in> set es" for f
  proof (cases "ve_External f")
    case True
    then show ?thesis using bi es f by (auto simp: entry_ok_def)
  next
    case fe: False
    have "entry_ok (m_Chunks s) f" using bi es f il(2) by auto
    then obtain d where d: "d \<in> set (m_Chunks s)" "ve_Base f = HeapPtr (c_Ptr d) 0" "ve_Size f \<le> c_Size d"
      using fe by (auto simp: entry_ok_def)
    have "ve_Base f \<noteq> ve_Base e" using bi es f fe ext by (auto simp: image_iff)
    then have "d \<noteq> m_Chunks s ! i" using d(2) i(3) by auto
    then obtain k where "k < length (m_Chunks s)" "k \<noteq> i" "m_Chunks s ! k = d"
      using d(1) by (auto simp: in_set_conv_nth)
    then have "d \<in> set ((m_Chunks s)[i := c])"
      by (metis length_list_update nth_list_update_neq nth_mem)
    then show ?thesis using d fe below [OF d(1)] by (auto simp: entry_ok_def)
  qed
  have "?q \<notin> set (map c_Ptr (m_Chunks s))" using below by force
  then have "distinct ((map c_Ptr (m_Chunks s))[i := ?q])"
    using bi by (intro distinct_list_update) auto
  then have "distinct (map c_Ptr ((m_Chunks s)[i := c]))" by (simp add: map_update c)
  moreover have "\<forall>d\<in>set ((m_Chunks s)[i := c]). c_Ptr d < ?q + 1 \<and> length (?h (c_Ptr d)) = c_Size d"
  proof
    fix d assume "d \<in> set ((m_Chunks s)[i := c])"
    then consider "d = c" | "d \<in> set (m_Chunks s)" using set' by blast
    then show "c_Ptr d < ?q + 1 \<and> length (?h (c_Ptr d)) = c_Size d"
    proof cases
      case 1
      then show ?thesis using c n i(5) cl by simp
    next
      case 2
      then show ?thesis using below [OF 2] bi by auto
    qed
  qed
  moreover have "entry_ok ((m_Chunks s)[i := c]) ?e"
    using set_update_memI [OF il(1), of c] c ext by (auto simp: entry_ok_def intro!: bexI [where x = c])
  moreover have "distinct (map ve_Base (filter (\<lambda>e. \<not> ve_External e) (es @ [?e])))"
  proof -
    have "ve_Base f \<noteq> HeapPtr ?q 0" if "f \<in> set es" for f using kept [OF that] by blast
    then have "HeapPtr ?q 0 \<notin> ve_Base ` {f \<in> set es. \<not> ve_External f}" by force
    then show ?thesis using bi es ext by simp
  qed
  ultimately have "base_inv s'"
    using bi kept False il unfolding s' base_inv_def by (auto simp: entry_ok_def)
  moreover have "concat (map (entry_bytes mem ?h) es) = concat (map (entry_bytes mem (heap s)) es)" for mem
    using kept by (intro stream_cong) auto
  then have "ChunkV_stream mem s' = ChunkV_stream mem s @ replicate alignment 0" for mem
    using n al i(3,5) cl by (simp add: s' ChunkV_stream_def es entry_bytes_def)
  ultimately show ?thesis using n al by (simp add: s' es)
qed

lemma ChunkV_copy_ok:
  assumes inv: "ChunkV_inv s" and n: "n = length data"
  shows "\<exists>s' pad. ChunkV_copy n data s = Inr (CurOffset s + pad, s') \<and> ChunkV_inv s' \<and>
    CurOffset s' = CurOffset s + pad + n \<and>
    (\<forall>mem. ChunkV_stream mem s' = ChunkV_stream mem s @ replicate pad 0 @ data)"
proof -
  let ?last = "DataV s \<noteq> [] \<and> \<not> ve_External (last (DataV s))"
  have b: "base_inv s" and off: "CurOffset s = sizes (DataV s)" using inv by (simp_all add: ChunkV_inv_def)
  consider "?last" "m_TailChunkPos s + n > m_ChunkSize s" | "?last" "m_TailChunkPos s + n \<le> m_ChunkSize s" | "\<not> ?last"
    by linarith
  then show ?thesis
  proof cases
    case 1
    obtain pad s1 where close: "close_chunk (the (m_TailChunk s)) s = (pad, s1)"
      by (cases "close_chunk (the (m_TailChunk s)) s")
    have s1: "base_inv s1" "sizes (DataV s1) = sizes (DataV s) + pad"
      "\<forall>mem. ChunkV_stream mem s1 = ChunkV_stream mem s @ replicate pad 0"
      using close_ok [OF inv _ _ close] 1(1) by simp_all
    obtain p s3 where "tail_ptr (claim_chunk n s1) = Inr p" "heap_write p 0 data (claim_chunk n s1) = Inr s3"
      "let s' = s3\<lparr>m_TailChunkPos := n,
          DataV := DataV s3 @ [\<lparr>ve_External = False, ve_Base = HeapPtr p 0, ve_Offset = 0, ve_Size = n\<rparr>]\<rparr> in
       base_inv s' \<and> tail_inv s' \<and> sizes (DataV s') = sizes (DataV s1) + n \<and>
       (\<forall>mem. ChunkV_stream mem s' = ChunkV_stream mem s1 @ data)"
      using claim_ok [OF s1(1) n] by blast
    then show ?thesis
      using 1 AppendPossible_ok [OF inv] close s1 off
      by (auto simp: ChunkV_copy_def Let_def ChunkV_inv_def base_inv_def tail_inv_def ChunkV_stream_def)
  next
    case 2
    obtain p s2 where "tail_ptr s = Inr p" "heap_write p (m_TailChunkPos s) data s = Inr s2"
      "let s' = s2\<lparr>DataV := last_update (\<lambda>e. e\<lparr>ve_Size := ve_Size e + n\<rparr>) (DataV s2),
                  m_TailChunkPos := m_TailChunkPos s2 + n\<rparr> in
       base_inv s' \<and> tail_inv s' \<and> sizes (DataV s') = sizes (DataV s) + n \<and>
       (\<forall>mem. ChunkV_stream mem s' = ChunkV_stream mem s @ data)"
      using append_ok [OF inv _ _ _ n] 2 n by auto
    then show ?thesis
      using 2 AppendPossible_ok [OF inv] off
      by (intro exI [where x = "s2\<lparr>DataV := last_update (\<lambda>e. e\<lparr>ve_Size := ve_Size e + n\<rparr>) (DataV s2),
                  m_TailChunkPos := m_TailChunkPos s2 + n, CurOffset := CurOffset s + n\<rparr>"] exI [where x = 0])
        (auto simp: ChunkV_copy_def Let_def ChunkV_inv_def base_inv_def tail_inv_def ChunkV_stream_def)
  next
    case 3
    obtain p s3 where "tail_ptr (claim_chunk n s) = Inr p" "heap_write p 0 data (claim_chunk n s) = Inr s3"
      "let s' = s3\<lparr>m_TailChunkPos := n,
          DataV := DataV s3 @ [\<lparr>ve_External = False, ve_Base = HeapPtr p 0, ve_Offset = 0, ve_Size = n\<rparr>]\<rparr> in
       base_inv s' \<and> tail_inv s' \<and> sizes (DataV s') = sizes (DataV s) + n \<and>
       (\<forall>mem. ChunkV_stream mem s' = ChunkV_stream mem s @ data)"
      using claim_ok [OF b n] by blast
    then show ?thesis
      using 3 AppendPossible_ok [OF inv] off
      by (intro exI [where x = "s3\<lparr>m_TailChunkPos := n, DataV := DataV s3 @ [\<lparr>ve_External = False,
            ve_Base = HeapPtr p 0, ve_Offset = 0, ve_Size = n\<rparr>], CurOffset := CurOffset s + n\<rparr>"] exI [where x = 0])
        (auto simp: ChunkV_copy_def Let_def ChunkV_inv_def base_inv_def tail_inv_def ChunkV_stream_def)
  qed
qed

subsection \<open>MallocV\<close>

text \<open>
  One block, \<open>m_AllocatedSize\<close> bytes long. \<open>grown\<close> stands for \<open>(size_t)(m_AllocatedSize *
  m_GrowthFactor)\<close>, a floating-point product.
\<close>

record MallocV = BufferV +
  m_InternalBlock :: "u8 list"

definition make_room :: "(nat \<Rightarrow> nat) \<Rightarrow> nat \<Rightarrow> MallocV \<Rightarrow> MallocV" where
  "make_room grown n s =
     (let need = m_internalPos s + n; allocated = length (m_InternalBlock s) in
      if need > allocated
      then (let NewSize = (if need > grown allocated then need else grown allocated) in
            s\<lparr>m_InternalBlock := take NewSize (m_InternalBlock s) @ replicate (NewSize - allocated) 0\<rparr>)
      else s)"

definition push_internal :: "nat \<Rightarrow> MallocV \<Rightarrow> MallocV" where
  "push_internal n s =
     s\<lparr>DataV :=
        (if DataV s \<noteq> [] \<and> \<not> ve_External (last (DataV s)) \<and>
            m_internalPos s = ve_Offset (last (DataV s)) + ve_Size (last (DataV s))
         then last_update (\<lambda>e. e\<lparr>ve_Size := ve_Size e + n\<rparr>) (DataV s)
         else DataV s @ [\<lparr>ve_External = False, ve_Base = NullPtr, ve_Offset = m_internalPos s, ve_Size = n\<rparr>]),
       m_internalPos := m_internalPos s + n\<rparr>"

definition MallocV_copy :: "(nat \<Rightarrow> nat) \<Rightarrow> nat \<Rightarrow> u8 list \<Rightarrow> MallocV \<Rightarrow> (nat \<times> MallocV) result" where
  "MallocV_copy grown n data s =
     (let s1 = make_room grown n s; pos = m_internalPos s1 in
      if pos + length data \<le> length (m_InternalBlock s1)
      then (let s2 = s1\<lparr>m_InternalBlock := take pos (m_InternalBlock s1) @ data @
                                          drop (pos + length data) (m_InternalBlock s1)\<rparr> in
            Inr (CurOffset s, (push_internal n s2)\<lparr>CurOffset := CurOffset s + n\<rparr>))
      else Inl UndefinedBehaviour)"

definition MallocV_AddToVec ::
    "(nat \<Rightarrow> nat) \<Rightarrow> memory \<Rightarrow> nat \<Rightarrow> nat \<Rightarrow> nat \<Rightarrow> bool \<Rightarrow> MallocV \<Rightarrow> (nat \<times> MallocV) result" where
  "MallocV_AddToVec grown mem n buf align CopyReqd s =
     bindR (AlignBuffer (MallocV_copy grown) align s) (\<lambda>s.
       if n = 0 then Inr (CurOffset s, s)
       else if \<not> CopyReqd \<and> \<not> m_AlwaysCopy s then Inr (push_external n buf s)
       else if length (mem buf) < n then Inl UndefinedBehaviour
       else MallocV_copy grown n (take n (mem buf)) s)"

definition MallocV_Allocate :: "(nat \<Rightarrow> nat) \<Rightarrow> nat \<Rightarrow> nat \<Rightarrow> MallocV \<Rightarrow> (BufferPos \<times> MallocV) result" where
  "MallocV_Allocate grown n align s =
     (if n = 0 then Inr (\<lparr>bufferIdx = -1, posInBuffer = 0, globalPos = CurOffset s\<rparr>, s)
      else bindR (AlignBuffer (MallocV_copy grown) align s) (\<lambda>s.
             let s1 = make_room grown n s in
             Inr (\<lparr>bufferIdx = 0, posInBuffer = m_internalPos s1, globalPos = CurOffset s1\<rparr>,
                  (push_internal n s1)\<lparr>CurOffset := CurOffset s1 + n\<rparr>)))"

definition MallocV_DownsizeLastAlloc :: "nat \<Rightarrow> nat \<Rightarrow> MallocV \<Rightarrow> MallocV result" where
  "MallocV_DownsizeLastAlloc oldSize newSize s =
     (if DataV s = [] then Inl UndefinedBehaviour
      else let d = oldSize - newSize in
           Inr (s\<lparr>DataV := last_update (\<lambda>e. e\<lparr>ve_Size := ve_Size e - d\<rparr>) (DataV s),
                  CurOffset := CurOffset s - d, m_internalPos := m_internalPos s - d\<rparr>))"

text \<open>A position in the internal block, or the null pointer.\<close>

definition MallocV_GetPtr :: "int \<Rightarrow> nat \<Rightarrow> MallocV \<Rightarrow> nat option" where
  "MallocV_GetPtr idx pos s = (if idx = -1 then None else Some pos)"

definition MallocV_entry :: "memory \<Rightarrow> u8 list \<Rightarrow> VecEntry \<Rightarrow> u8 list" where
  "MallocV_entry mem block e =
     (if ve_External e then entry_bytes mem (\<lambda>_. []) e else take (ve_Size e) (drop (ve_Offset e) block))"

definition MallocV_stream :: "memory \<Rightarrow> MallocV \<Rightarrow> u8 list" where
  "MallocV_stream mem s = concat (map (MallocV_entry mem (m_InternalBlock s)) (DataV s))"

definition MallocV_inv :: "MallocV \<Rightarrow> bool" where
  "MallocV_inv s \<longleftrightarrow>
     m_internalPos s \<le> length (m_InternalBlock s) \<and> CurOffset s = sizes (DataV s) \<and>
     (\<forall>e\<in>set (DataV s). if ve_External e then \<exists>p. ve_Base e = UserPtr p 0
        else ve_Offset e + ve_Size e \<le> m_internalPos s)"

lemma make_room_parts:
  assumes "m_internalPos s \<le> length (m_InternalBlock s)"
  shows "\<exists>tail. make_room grown n s = s\<lparr>m_InternalBlock := m_InternalBlock s @ tail\<rparr>"
    and "m_internalPos s + n \<le> length (m_InternalBlock (make_room grown n s))"
proof -
  show "\<exists>tail. make_room grown n s = s\<lparr>m_InternalBlock := m_InternalBlock s @ tail\<rparr>"
  proof (cases "m_internalPos s + n > length (m_InternalBlock s)")
    case True
    then show ?thesis by (auto simp: make_room_def Let_def)
  next
    case False
    then show ?thesis by (intro exI [where x = "[]"]) (simp add: make_room_def)
  qed
  show "m_internalPos s + n \<le> length (m_InternalBlock (make_room grown n s))"
    using assms by (auto simp: make_room_def Let_def)
qed

text \<open>Bytes before the position are the old ones; the data is behind them.\<close>

lemma push_internal_stream:
  assumes inv: "MallocV_inv s" and block: "take (m_internalPos s) b = take (m_internalPos s) (m_InternalBlock s)"
    "take n (drop (m_internalPos s) b) = data" "m_internalPos s + n \<le> length b"
    and s': "s' = (push_internal n (s\<lparr>m_InternalBlock := b\<rparr>))\<lparr>CurOffset := CurOffset s + n\<rparr>"
  shows "MallocV_inv s' \<and> CurOffset s' = CurOffset s + n \<and>
    (\<forall>mem. MallocV_stream mem s' = MallocV_stream mem s @ data)"
proof -
  let ?p = "m_internalPos s"
  note i = inv [unfolded MallocV_inv_def]
  have cut: "take k (drop j b) = take k (drop j (m_InternalBlock s))" if "j + k \<le> ?p" for j k
  proof -
    have "take k (drop j (take ?p xs)) = take k (drop j xs)" for xs :: "u8 list"
      using that by (simp add: drop_take min_def)
    from this [of b] this [of "m_InternalBlock s"] show ?thesis using block(1) by simp
  qed
  have old: "MallocV_entry mem b e = MallocV_entry mem (m_InternalBlock s) e" if "e \<in> set (DataV s)" for mem e
    using that i cut by (auto simp: MallocV_entry_def split: if_splits)
  then have st: "concat (map (MallocV_entry mem b) es) = concat (map (MallocV_entry mem (m_InternalBlock s)) es)"
    if "set es \<subseteq> set (DataV s)" for mem es
    using that by (intro arg_cong [where f = concat] map_cong) auto
  show ?thesis
  proof (cases "DataV s \<noteq> [] \<and> \<not> ve_External (last (DataV s)) \<and> ?p = ve_Offset (last (DataV s)) + ve_Size (last (DataV s))")
    case True
    then obtain es e where es: "DataV s = es @ [e]" by (meson rev_exhaust)
    then have e: "\<not> ve_External e" "?p = ve_Offset e + ve_Size e" using True by simp_all
    have "MallocV_entry mem b (e\<lparr>ve_Size := ve_Size e + n\<rparr>) = MallocV_entry mem b e @ data" for mem
      using e block(2) take_add [of "ve_Size e" n "drop (ve_Offset e) b"]
      by (simp add: MallocV_entry_def add.commute)
    then show ?thesis
      using i e es True block(3) st [of es] old [of e]
      by (auto simp: s' push_internal_def MallocV_inv_def MallocV_stream_def)
  next
    case False
    then show ?thesis
      using i block(2,3) st [OF order_refl]
      by (auto simp: s' push_internal_def MallocV_inv_def MallocV_stream_def MallocV_entry_def)
  qed
qed

lemma MallocV_copy_ok:
  assumes inv: "MallocV_inv s" and n: "n = length data"
  shows "\<exists>s'. MallocV_copy grown n data s = Inr (CurOffset s, s') \<and> MallocV_inv s' \<and>
    CurOffset s' = CurOffset s + n \<and> (\<forall>mem. MallocV_stream mem s' = MallocV_stream mem s @ data)"
proof -
  let ?p = "m_internalPos s"
  have p: "?p \<le> length (m_InternalBlock s)" using inv by (simp add: MallocV_inv_def)
  obtain tail where r: "make_room grown n s = s\<lparr>m_InternalBlock := m_InternalBlock s @ tail\<rparr>"
    "?p + n \<le> length (m_InternalBlock s @ tail)"
    using make_room_parts [OF p, where grown = grown and n = n] by auto
  define b where "b = take ?p (m_InternalBlock s) @ data @ drop (?p + n) (m_InternalBlock s @ tail)"
  have "take ?p (m_InternalBlock s @ tail) = take ?p (m_InternalBlock s)" using p by simp
  then have "MallocV_copy grown n data s =
      Inr (CurOffset s, (push_internal n (s\<lparr>m_InternalBlock := b\<rparr>))\<lparr>CurOffset := CurOffset s + n\<rparr>)"
    using r n p by (simp add: MallocV_copy_def Let_def b_def)
  moreover have "take ?p b = take ?p (m_InternalBlock s)" "take n (drop ?p b) = data" "?p + n \<le> length b"
    using p r(2) n by (simp_all add: b_def)
  ultimately show ?thesis using push_internal_stream [OF inv] by blast
qed

lemma MallocV_push_external_ok:
  assumes "MallocV_inv s" "push_external n buf s = (off, s')"
  shows "off = CurOffset s \<and> MallocV_inv s' \<and> CurOffset s' = CurOffset s + n \<and>
    MallocV_stream mem s' = MallocV_stream mem s @ take n (mem buf)"
  using assms
  by (auto simp: push_external_def MallocV_inv_def MallocV_stream_def MallocV_entry_def entry_bytes_def)

subsection \<open>The promise both make\<close>

text \<open>A sequence of calls, each with its size, user block, alignment and copy flag.\<close>

type_synonym add_op = "nat \<times> nat \<times> nat \<times> bool"

fun add_all ::
    "(nat \<Rightarrow> nat \<Rightarrow> nat \<Rightarrow> bool \<Rightarrow> 's \<Rightarrow> (nat \<times> 's) result) \<Rightarrow> add_op list \<Rightarrow> 's \<Rightarrow> (nat list \<times> 's) result" where
  "add_all add [] s = Inr ([], s)"
| "add_all add ((n, buf, align, copy) # ops) s =
     bindR (add n buf align copy s) (\<lambda>(off, s').
     bindR (add_all add ops s') (\<lambda>(offs, s''). Inr (off # offs, s'')))"

definition op_ok :: "memory \<Rightarrow> add_op \<Rightarrow> bool" where
  "op_ok mem p = (case p of (n, buf, align, copy) \<Rightarrow> n \<le> length (mem buf) \<and> 0 < align)"

definition op_copy :: "add_op \<Rightarrow> bool" where
  "op_copy p = (case p of (n, buf, align, copy) \<Rightarrow> copy)"

definition found :: "memory \<Rightarrow> u8 list \<Rightarrow> add_op \<Rightarrow> nat \<Rightarrow> bool" where
  "found mem bytes p off =
     (case p of (n, buf, align, copy) \<Rightarrow>
        off + n \<le> length bytes \<and> take n (drop off bytes) = take n (mem buf))"

text \<open>
  \<open>add mem n buf align copy\<close> is \<open>AddToVec\<close>; \<open>stream mem s\<close> are the bytes the entries give if the user
  memory is \<open>mem\<close>. The data stands at the offset returned, behind the bytes of before and zeros; a
  copy does not depend on the user memory any more.
\<close>

locale buffer_vec =
  fixes add :: "memory \<Rightarrow> nat \<Rightarrow> nat \<Rightarrow> nat \<Rightarrow> bool \<Rightarrow> 's \<Rightarrow> (nat \<times> 's) result"
    and stream :: "memory \<Rightarrow> 's \<Rightarrow> u8 list"
    and good :: "memory \<Rightarrow> 's \<Rightarrow> bool"
  assumes add_ok: "good mem s \<Longrightarrow> n \<le> length (mem buf) \<Longrightarrow> 0 < align \<Longrightarrow>
      \<exists>s' pad. add mem n buf align copy s = Inr (length (stream mem s) + pad, s') \<and> good mem s' \<and>
        stream mem s' = stream mem s @ replicate pad 0 @ take n (mem buf) \<and>
        (copy \<longrightarrow> (\<forall>mem'. stream mem' s' = stream mem' s @ replicate pad 0 @ take n (mem buf)))"
begin

lemma add_all_ok:
  "good mem s \<Longrightarrow> list_all (op_ok mem) ops \<Longrightarrow>
   \<exists>offs s'. add_all (add mem) ops s = Inr (offs, s') \<and> good mem s' \<and>
     (\<exists>more. stream mem s' = stream mem s @ more) \<and>
     list_all2 (found mem (stream mem s')) ops offs \<and>
     (list_all op_copy ops \<longrightarrow>
        (\<exists>more. \<forall>mem'. stream mem' s' = stream mem' s @ more))"
proof (induction ops arbitrary: s)
  case Nil
  then show ?case by auto
next
  case (Cons p ops)
  obtain n buf align copy where p: "p = (n, buf, align, copy)" by (cases p) auto
  have len: "n \<le> length (mem buf)" "0 < align" using Cons.prems(2) by (simp_all add: p op_ok_def)
  obtain s1 pad where s1: "add mem n buf align copy s = Inr (length (stream mem s) + pad, s1)" "good mem s1"
    "stream mem s1 = stream mem s @ replicate pad 0 @ take n (mem buf)"
    "copy \<longrightarrow> (\<forall>mem'. stream mem' s1 = stream mem' s @ replicate pad 0 @ take n (mem buf))"
    using add_ok [OF Cons.prems(1) len] by blast
  obtain offs s' where s': "add_all (add mem) ops s1 = Inr (offs, s')" "good mem s'"
    "\<exists>more. stream mem s' = stream mem s1 @ more" "list_all2 (found mem (stream mem s')) ops offs"
    "list_all op_copy ops \<longrightarrow> (\<exists>more. \<forall>mem'. stream mem' s' = stream mem' s1 @ more)"
    using Cons.IH [OF s1(2)] Cons.prems(2) by auto
  obtain more where more: "stream mem s' = stream mem s1 @ more" using s'(3) by blast
  have "found mem (stream mem s') p (length (stream mem s) + pad)"
    using len by (simp add: found_def p more s1(3))
  moreover have "\<exists>more. \<forall>mem'. stream mem' s' = stream mem' s @ more" if "list_all op_copy (p # ops)"
  proof -
    have "copy" "list_all op_copy ops" using that by (simp_all add: p op_copy_def)
    then obtain more where "\<forall>mem'. stream mem' s' = stream mem' s1 @ more" using s'(5) by blast
    then show ?thesis using s1(4) \<open>copy\<close> by auto
  qed
  moreover have "\<exists>more. stream mem s' = stream mem s @ more" using more s1(3) by auto
  ultimately show ?case using s1(1) s'(1,2,4) by (auto simp: p)
qed

end

subsection \<open>ChunkV keeps it\<close>

definition ChunkV_good :: "memory \<Rightarrow> ChunkV \<Rightarrow> bool" where
  "ChunkV_good mem s \<longleftrightarrow> ChunkV_inv s \<and> length (ChunkV_stream mem s) = CurOffset s"

lemma ChunkV_align_ok:
  assumes "ChunkV_inv s" "0 < align"
  shows "\<exists>s' pad. AlignBuffer ChunkV_copy align s = Inr s' \<and> ChunkV_inv s' \<and> CurOffset s' = CurOffset s + pad \<and>
    (\<forall>mem. ChunkV_stream mem s' = ChunkV_stream mem s @ replicate pad 0)"
proof (cases "align_pad align (CurOffset s) = 0")
  case True
  then show ?thesis using assms by (intro exI [where x = s] exI [where x = 0]) (simp add: AlignBuffer_def)
next
  case False
  let ?a = "align_pad align (CurOffset s)"
  obtain s' pad where "ChunkV_copy ?a (replicate ?a 0) s = Inr (CurOffset s + pad, s')" "ChunkV_inv s'"
    "CurOffset s' = CurOffset s + pad + ?a"
    "\<forall>mem. ChunkV_stream mem s' = ChunkV_stream mem s @ replicate pad 0 @ replicate ?a 0"
    using ChunkV_copy_ok [OF assms(1), of ?a "replicate ?a 0"] by auto
  then show ?thesis
    using False assms(2)
    by (intro exI [where x = s'] exI [where x = "pad + ?a"]) (simp add: AlignBuffer_def Let_def replicate_add)
qed

lemma ChunkV_AddToVec_ok:
  assumes good: "ChunkV_good mem s" and len: "n \<le> length (mem buf)" and align: "0 < align"
  shows "\<exists>s' pad. ChunkV_AddToVec mem n buf align copy s = Inr (length (ChunkV_stream mem s) + pad, s') \<and>
    ChunkV_good mem s' \<and> ChunkV_stream mem s' = ChunkV_stream mem s @ replicate pad 0 @ take n (mem buf) \<and>
    (copy \<longrightarrow> (\<forall>mem'. ChunkV_stream mem' s' = ChunkV_stream mem' s @ replicate pad 0 @ take n (mem buf)))"
proof -
  note g = good [unfolded ChunkV_good_def]
  obtain s1 pad where s1: "AlignBuffer ChunkV_copy align s = Inr s1" "ChunkV_inv s1"
    "CurOffset s1 = CurOffset s + pad" "\<forall>mem. ChunkV_stream mem s1 = ChunkV_stream mem s @ replicate pad 0"
    using ChunkV_align_ok [of s align] g align by blast
  consider "n = 0" | "n \<noteq> 0" "\<not> copy" "\<not> m_AlwaysCopy s1" | "n \<noteq> 0" "copy \<or> m_AlwaysCopy s1" by blast
  then show ?thesis
  proof cases
    case 1
    then show ?thesis
      using s1 g by (intro exI [where x = s1] exI [where x = pad]) (simp add: ChunkV_AddToVec_def ChunkV_good_def)
  next
    case 2
    obtain off s2 where p: "push_external n buf s1 = (off, s2)" by (cases "push_external n buf s1")
    have "CurOffset s2 = CurOffset s1 + n" using p by (auto simp: push_external_def)
    then show ?thesis
      using s1 g 2 len push_external_ok [OF s1(2) p, of mem] p
      by (intro exI [where x = s2] exI [where x = pad]) (simp add: ChunkV_AddToVec_def ChunkV_good_def)
  next
    case 3
    obtain s2 pad2 where "ChunkV_copy n (take n (mem buf)) s1 = Inr (CurOffset s1 + pad2, s2)" "ChunkV_inv s2"
      "CurOffset s2 = CurOffset s1 + pad2 + n"
      "\<forall>mem'. ChunkV_stream mem' s2 = ChunkV_stream mem' s1 @ replicate pad2 0 @ take n (mem buf)"
      using ChunkV_copy_ok [OF s1(2), of n "take n (mem buf)"] len by auto
    then show ?thesis
      using s1 g 3 len
      by (intro exI [where x = s2] exI [where x = "pad + pad2"])
        (auto simp: ChunkV_AddToVec_def ChunkV_good_def replicate_add)
  qed
qed

interpretation chunkv: buffer_vec ChunkV_AddToVec ChunkV_stream ChunkV_good
  by unfold_locales (rule ChunkV_AddToVec_ok)

subsection \<open>MallocV keeps it\<close>

definition MallocV_good :: "memory \<Rightarrow> MallocV \<Rightarrow> bool" where
  "MallocV_good mem s \<longleftrightarrow> MallocV_inv s \<and> length (MallocV_stream mem s) = CurOffset s"

lemma MallocV_AddToVec_ok:
  assumes good: "MallocV_good mem s" and len: "n \<le> length (mem buf)" and align: "0 < align"
  shows "\<exists>s' pad. MallocV_AddToVec grown mem n buf align copy s = Inr (length (MallocV_stream mem s) + pad, s') \<and>
    MallocV_good mem s' \<and> MallocV_stream mem s' = MallocV_stream mem s @ replicate pad 0 @ take n (mem buf) \<and>
    (copy \<longrightarrow> (\<forall>mem'. MallocV_stream mem' s' = MallocV_stream mem' s @ replicate pad 0 @ take n (mem buf)))"
proof -
  note g = good [unfolded MallocV_good_def]
  let ?pad = "align_pad align (CurOffset s)"
  obtain s1 where s1: "AlignBuffer (MallocV_copy grown) align s = Inr s1" "MallocV_inv s1"
    "CurOffset s1 = CurOffset s + ?pad" "\<forall>mem. MallocV_stream mem s1 = MallocV_stream mem s @ replicate ?pad 0"
  proof (cases "?pad = 0")
    case True
    then show ?thesis using g align that [of s] by (simp add: AlignBuffer_def)
  next
    case False
    obtain s1 where "MallocV_copy grown ?pad (replicate ?pad 0) s = Inr (CurOffset s, s1)" "MallocV_inv s1"
      "CurOffset s1 = CurOffset s + ?pad" "\<forall>mem. MallocV_stream mem s1 = MallocV_stream mem s @ replicate ?pad 0"
      using MallocV_copy_ok [of s ?pad "replicate ?pad 0" grown] g by auto
    then show ?thesis using that [of s1] False align by (simp add: AlignBuffer_def Let_def)
  qed
  consider "n = 0" | "n \<noteq> 0" "\<not> copy" "\<not> m_AlwaysCopy s1" | "n \<noteq> 0" "copy \<or> m_AlwaysCopy s1" by blast
  then show ?thesis
  proof cases
    case 1
    then show ?thesis
      using s1 g by (intro exI [where x = s1] exI [where x = ?pad]) (simp add: MallocV_AddToVec_def MallocV_good_def)
  next
    case 2
    obtain off s2 where p: "push_external n buf s1 = (off, s2)" by (cases "push_external n buf s1")
    then show ?thesis
      using s1 g 2 len MallocV_push_external_ok [OF s1(2) p, of mem]
      by (intro exI [where x = s2] exI [where x = ?pad]) (simp add: MallocV_AddToVec_def MallocV_good_def)
  next
    case 3
    obtain s2 where "MallocV_copy grown n (take n (mem buf)) s1 = Inr (CurOffset s1, s2)" "MallocV_inv s2"
      "CurOffset s2 = CurOffset s1 + n"
      "\<forall>mem'. MallocV_stream mem' s2 = MallocV_stream mem' s1 @ take n (mem buf)"
      using MallocV_copy_ok [OF s1(2), of n "take n (mem buf)"] len by auto
    then show ?thesis
      using s1 g 3 len
      by (intro exI [where x = s2] exI [where x = ?pad]) (auto simp: MallocV_AddToVec_def MallocV_good_def)
  qed
qed

interpretation mallocv: buffer_vec "MallocV_AddToVec grown" MallocV_stream MallocV_good
  for grown
  by unfold_locales (rule MallocV_AddToVec_ok)

subsection \<open>Properties\<close>

definition ChunkV_new :: "bool \<Rightarrow> nat \<Rightarrow> nat \<Rightarrow> bool \<Rightarrow> ChunkV" where
  "ChunkV_new alwaysCopy memBlockSize chunkSize noShrink =
     \<lparr>m_MemBlockSize = memBlockSize, m_AlwaysCopy = alwaysCopy, DataV = [], CurOffset = 0, m_internalPos = 0,
      m_ChunkSize = chunkSize, m_NoShrink = noShrink, m_Chunks = [], m_TailChunkPos = 0, m_TailChunk = None,
      m_NextActiveChunk = 0, m_FreshAllocCount = 0, heap = (\<lambda>_. []), heap_next = 0\<rparr>"

lemma ChunkV_new_good: "0 < b \<Longrightarrow> ChunkV_good mem (ChunkV_new always b chunk noShrink)"
  by (simp add: ChunkV_good_def ChunkV_inv_def base_inv_def tail_inv_def ChunkV_new_def ChunkV_stream_def)

lemma ChunkV_Reset_good:
  assumes "ChunkV_good mem s" "m_NoShrink s"
  shows "ChunkV_good mem (ChunkV_Reset s)"
  using assms
  by (auto simp: ChunkV_good_def ChunkV_inv_def base_inv_def tail_inv_def ChunkV_Reset_def BufferV_Reset_def
      ChunkV_stream_def)


definition demo_mem :: memory where
  "demo_mem p = replicate 8 (of_nat p)"


text \<open>
  C27: The same for \<open>MallocV\<close>, however its block grows and moves.
\<close>

theorem MallocV_offsets_locate_data:
  assumes "MallocV_good mem s" "list_all (op_ok mem) ops"
  shows "\<exists>offs s'. add_all (MallocV_AddToVec grown mem) ops s = Inr (offs, s') \<and> MallocV_good mem s' \<and>
     (\<exists>more. MallocV_stream mem s' = MallocV_stream mem s @ more) \<and>
     list_all2 (found mem (MallocV_stream mem s')) ops offs \<and>
     (list_all op_copy ops \<longrightarrow> (\<exists>more. \<forall>mem'. MallocV_stream mem' s' = MallocV_stream mem' s @ more))"
  by (rule mallocv.add_all_ok [OF assms])

definition MallocV_new :: "bool \<Rightarrow> nat \<Rightarrow> MallocV" where
  "MallocV_new alwaysCopy memBlockSize =
     \<lparr>m_MemBlockSize = memBlockSize, m_AlwaysCopy = alwaysCopy, DataV = [], CurOffset = 0, m_internalPos = 0,
      m_InternalBlock = []\<rparr>"

theorem MallocV_offsets_locate_data_witness:
  "\<exists>offs s'. add_all (MallocV_AddToVec (\<lambda>n. n + n div 20) demo_mem) [(6, 1, 4, True), (6, 2, 4, True), (3, 3, 1, False)]
       (MallocV_new False 1) = Inr (offs, s') \<and>
     list_all2 (found demo_mem (MallocV_stream demo_mem s'))
       [(6, 1, 4, True), (6, 2, 4, True), (3, 3, 1, False)] offs"
  using MallocV_offsets_locate_data [of demo_mem "MallocV_new False 1"
      "[(6, 1, 4, True), (6, 2, 4, True), (3, 3, 1, False)]" "\<lambda>n. n + n div 20"]
  by (auto simp: op_ok_def demo_mem_def MallocV_good_def MallocV_inv_def MallocV_new_def MallocV_stream_def)

text \<open>Two puts fill a chunk and shrink it; after \<open>Reset\<close> it is claimed again.\<close>

definition recycled_run :: "(nat \<times> ChunkV) result" where
  "recycled_run =
     bindR (add_all (ChunkV_AddToVec demo_mem) [(6, 1, 1, True), (6, 2, 1, True)] (ChunkV_new False 1 10 False))
       (\<lambda>(offs, s).
     bindR (ChunkV_AddToVec demo_mem 5 1 1 True (ChunkV_Reset s)) (\<lambda>(off, s).
       ChunkV_AddToVec demo_mem 4 2 1 True s))"


text \<open>A position in an external entry gives an address made of the flag.\<close>

lemma GetPtr_of_external_is_wild:
  "DataV s = \<lparr>ve_External = True, ve_Base = b, ve_Offset = off, ve_Size = n\<rparr> # es \<Longrightarrow> pos < n \<Longrightarrow>
   ChunkV_GetPtr_overall pos s = Inr (RawAddr (1 + pos))"
  by (simp add: ChunkV_GetPtr_overall_def)

end
