(* ===== verification/Adios_Expr.thy ===== *)
theory Adios_Expr
  imports Adios_Types
begin

section \<open>Derived expressions: trees and their types\<close>

text \<open>
  \<open>toolkit/derived/ExprNode.h\<close> and the first half of \<open>toolkit/derived/ExprCodeStream.cpp\<close>: the
  expression tree the parser hands over, the promotion of element types and \<open>ResolveTreeTypes\<close>,
  which gives every node its type or throws. The tree is mutated in the code; here the function
  returns the tree with the types filled in. Maps with a string key are functions to an option.
\<close>

datatype ExpressionOperator =
    OP_NULL | OP_ALIAS | OP_PATH | OP_NUM | OP_INDEX | OP_ADD | OP_SUBTRACT | OP_NEGATE | OP_MULT
  | OP_DIV | OP_SQRT | OP_POW | OP_SIN | OP_COS | OP_TAN | OP_ASIN | OP_ACOS | OP_ATAN | OP_MAGN
  | OP_CROSS | OP_CURL | OP_PROMOTE

datatype ExprNode =
  ExprNode (n_Op: ExpressionOperator) (n_Children: "ExprNode list") (n_VarName: string)
    (n_Const: string) (n_Type: DataType)

definition IsLeaf :: "ExprNode \<Rightarrow> bool" where
  "IsLeaf n = (n_Children n = [])"

definition IsVar :: "ExprNode \<Rightarrow> bool" where
  "IsVar n = (IsLeaf n \<and> n_VarName n \<noteq> [])"

definition IsConst :: "ExprNode \<Rightarrow> bool" where
  "IsConst n = (IsLeaf n \<and> n_Const n \<noteq> [])"

definition set_Type :: "DataType \<Rightarrow> ExprNode \<Rightarrow> ExprNode" where
  "set_Type t n = ExprNode (n_Op n) (n_Children n) (n_VarName n) (n_Const n) t"

text \<open>The leaves and the operator nodes as the parser builds them.\<close>

abbreviation var_leaf :: "string \<Rightarrow> ExprNode" where
  "var_leaf x \<equiv> ExprNode OP_NULL [] x [] DT_None"

abbreviation const_leaf :: "string \<Rightarrow> ExprNode" where
  "const_leaf c \<equiv> ExprNode OP_NULL [] [] c DT_None"

abbreviation op_node :: "ExpressionOperator \<Rightarrow> ExprNode list \<Rightarrow> ExprNode" where
  "op_node f cs \<equiv> ExprNode f cs [] [] DT_None"

fun VariableNameList :: "ExprNode \<Rightarrow> string list" where
  "VariableNameList (ExprNode op cs v k t) =
     (if cs = [] \<and> v \<noteq> [] then [v] else concat (map VariableNameList cs))"

subsection \<open>Classes of types and promotion\<close>

definition IsIntegerType :: "DataType \<Rightarrow> bool" where
  "IsIntegerType t = (t = DT_Int8 \<or> t = DT_Int16 \<or> t = DT_Int32 \<or> t = DT_Int64 \<or>
                      t = DT_UInt8 \<or> t = DT_UInt16 \<or> t = DT_UInt32 \<or> t = DT_UInt64)"

definition IsUnsignedType :: "DataType \<Rightarrow> bool" where
  "IsUnsignedType t = (t = DT_UInt8 \<or> t = DT_UInt16 \<or> t = DT_UInt32 \<or> t = DT_UInt64)"

definition IsComplexType :: "DataType \<Rightarrow> bool" where
  "IsComplexType t = (t = DT_FloatComplex \<or> t = DT_DoubleComplex)"

definition IsFloatOp :: "ExpressionOperator \<Rightarrow> bool" where
  "IsFloatOp op = (op = OP_SQRT \<or> op = OP_POW \<or> op = OP_SIN \<or> op = OP_COS \<or> op = OP_TAN \<or>
                   op = OP_ASIN \<or> op = OP_ACOS \<or> op = OP_ATAN)"

definition PromoteType :: "DataType \<Rightarrow> DataType \<Rightarrow> DataType" where
  "PromoteType a b =
     (if a = b then a
      else if GetDataTypeSize a > GetDataTypeSize b then a
      else if GetDataTypeSize b > GetDataTypeSize a then b
      else if \<not> IsIntegerType a \<and> IsIntegerType b then a
      else if \<not> IsIntegerType b \<and> IsIntegerType a then b
      else if IsUnsignedType a then a
      else if IsUnsignedType b then b
      else a)"

lemma PromoteType_cases: "PromoteType a b = a \<or> PromoteType a b = b"
  by (simp add: PromoteType_def)

subsection \<open>\<open>ResolveTreeTypes\<close>\<close>

text \<open>The loop over the children that computes the promoted type.\<close>

definition promote_step :: "DataType \<times> bool \<times> bool \<Rightarrow> ExprNode \<Rightarrow> DataType \<times> bool \<times> bool" where
  "promote_step acc child =
     (case acc of (promoted, hasComplex, hasNonComplex) \<Rightarrow>
        if n_Type child = DT_None then acc
        else (if promoted = DT_None then n_Type child else PromoteType promoted (n_Type child),
              hasComplex \<or> IsComplexType (n_Type child),
              hasNonComplex \<or> \<not> IsComplexType (n_Type child)))"

definition promoted_type :: "ExprNode list \<Rightarrow> DataType \<times> bool \<times> bool" where
  "promoted_type children = foldl promote_step (DT_None, False, False) children"

text \<open>The type of an operator node whose children are resolved, or the exception.\<close>

definition node_type :: "ExpressionOperator \<Rightarrow> ExprNode list \<Rightarrow> DataType result" where
  "node_type op children =
     (case promoted_type children of (p, hasComplex, hasNonComplex) \<Rightarrow>
        let p1 = (if p = DT_None then DT_Double else p);
            promoted = (if IsFloatOp op \<and> IsIntegerType p1 then DT_Double else p1)
        in if hasComplex \<and> hasNonComplex then Inl InvalidArgument
           else if IsFloatOp op \<and> hasComplex then Inl InvalidArgument
           else if IsUnsignedType promoted \<and> op = OP_NEGATE then Inl InvalidArgument
           else if op = OP_CROSS \<and> length children \<noteq> 6 then Inl InvalidArgument
           else if op = OP_CURL \<and> length children \<noteq> 1 \<and> length children \<noteq> 3 then Inl InvalidArgument
           else Inr promoted)"

fun ResolveTreeTypesNode ::
    "(string \<Rightarrow> DataType option) \<Rightarrow> DataType \<Rightarrow> ExprNode \<Rightarrow> ExprNode result" where
  "ResolveTreeTypesNode varTypes contextType (ExprNode op cs v k t) =
     (if cs = [] \<and> v \<noteq> [] then
        Inr (ExprNode op cs v k (case varTypes v of Some ty \<Rightarrow> ty | None \<Rightarrow> DT_Double))
      else if cs = [] \<and> k \<noteq> [] then Inr (ExprNode op cs v k contextType)
      else bindR (mapR (ResolveTreeTypesNode varTypes DT_None) cs) (\<lambda>children.
           bindR (node_type op children) (\<lambda>promoted.
             Inr (ExprNode op
                    (map (\<lambda>c. if IsConst c then set_Type promoted c else c) children)
                    v k promoted))))"

definition ResolveTreeTypes ::
    "(string \<Rightarrow> DataType option) \<Rightarrow> ExprNode \<Rightarrow> ExprNode result" where
  "ResolveTreeTypes varTypes tree = ResolveTreeTypesNode varTypes DT_None tree"

end
