(* ===== verification/Adios_ExprCode.thy ===== *)
theory Adios_ExprCode
  imports Adios_Expr
begin

section \<open>Derived expressions: code generation and the linear passes\<close>

text \<open>
  The compiler of \<open>toolkit/derived/ExprCodeStream.cpp\<close>: \<open>GenerateCode\<close> turns a typed tree into a
  list of instructions over numbered buffers, \<open>SemanticsPass\<close> resolves and folds constants and
  reduces \<open>x^2\<close>, \<open>PlanBuffers\<close> gives temporaries their slots. The vectors the code mutates are
  returned updated; the slice of instructions a loop has passed and the rest are two lists.

  Floating point is a parameter: \<open>flt_ops\<close> holds the operations of the hardware and of
  \<open>std::\<close> on the values of the types \<open>float\<close>, \<open>double\<close>, \<open>long double\<close> and complex. Nothing is
  assumed of them. Integers are concrete.
\<close>

record 'f flt_ops =
  f_bin :: "ExpressionOperator \<Rightarrow> DataType \<Rightarrow> 'f \<Rightarrow> 'f \<Rightarrow> 'f"
  f_un :: "ExpressionOperator \<Rightarrow> DataType \<Rightarrow> 'f \<Rightarrow> 'f"
  f_of_int :: "DataType \<Rightarrow> int \<Rightarrow> 'f"
  f_to_int :: "DataType \<Rightarrow> 'f \<Rightarrow> int"
  f_conv :: "DataType \<Rightarrow> DataType \<Rightarrow> 'f \<Rightarrow> 'f"
  f_eq :: "DataType \<Rightarrow> 'f \<Rightarrow> 'f \<Rightarrow> bool"
  f_parse :: "string \<Rightarrow> 'f"
  f_show :: "'f \<Rightarrow> string"

record 'f TypedConstant =
  StringVal :: string
  DoubleVal :: 'f
  IntVal :: int
  tc_Type :: DataType
  Resolved :: bool

datatype SelectionRule = Identity | ExpandHalo | Reshape

record ExprInstruction =
  i_Op :: ExpressionOperator
  InputBufs :: "nat list"
  OutputBuf :: nat
  i_OutputType :: DataType
  SelRule :: SelectionRule
  HaloSize :: nat

record 'f BufferDescriptor =
  IsInput :: bool
  IsConstant :: bool
  b_VarName :: string
  ConstVal :: "'f TypedConstant"
  FirstUse :: nat
  LastUse :: nat
  PhysicalSlot :: nat
  b_Type :: DataType

record 'f ExprCodeStream =
  Instructions :: "ExprInstruction list"
  Buffers :: "'f BufferDescriptor list"
  OutputBufID :: nat
  NumTempSlots :: nat
  cs_OutputType :: DataType
  InputVarNames :: "string list"
  ExprString :: string

definition new_const :: "'f flt_ops \<Rightarrow> 'f TypedConstant" where
  "new_const F = \<lparr>StringVal = [], DoubleVal = f_of_int F DT_Double 0, IntVal = 0, tc_Type = DT_None,
                  Resolved = False\<rparr>"

definition new_buffer :: "'f flt_ops \<Rightarrow> DataType \<Rightarrow> 'f BufferDescriptor" where
  "new_buffer F t = \<lparr>IsInput = False, IsConstant = False, b_VarName = [], ConstVal = new_const F,
                     FirstUse = 0, LastUse = 0, PhysicalSlot = 0, b_Type = t\<rparr>"

definition new_instr :: "ExpressionOperator \<Rightarrow> nat list \<Rightarrow> nat \<Rightarrow> DataType \<Rightarrow> ExprInstruction" where
  "new_instr op ins out t = \<lparr>i_Op = op, InputBufs = ins, OutputBuf = out, i_OutputType = t,
                             SelRule = Identity, HaloSize = 0\<rparr>"

subsection \<open>\<open>GenerateCode\<close>\<close>

text \<open>The combinations that \<open>DISPATCH_BINARY\<close> handles without a promotion.\<close>

definition IsMixedTypeHandledInline :: "DataType \<Rightarrow> DataType \<Rightarrow> DataType \<Rightarrow> bool" where
  "IsMixedTypeHandledInline outType lhsType rhsType =
     (lhsType = rhsType \<or>
      outType = DT_Double \<and> (lhsType = DT_Float \<or> rhsType = DT_Float \<or> lhsType = DT_Int32 \<or>
        rhsType = DT_Int32 \<or> lhsType = DT_Int64 \<or> rhsType = DT_Int64) \<or>
      outType = DT_Float \<and> (lhsType = DT_Int32 \<or> rhsType = DT_Int32))"

text \<open>\<open>GenerateCodeContext\<close>: the code stream under construction and the buffers of the variables.\<close>

record 'f GenerateCodeContext =
  cs :: "'f ExprCodeStream"
  varBufMap :: "string \<Rightarrow> nat option"

definition add_buffer :: "'f BufferDescriptor \<Rightarrow> 'f ExprCodeStream \<Rightarrow> 'f ExprCodeStream" where
  "add_buffer b s = s\<lparr>Buffers := Buffers s @ [b]\<rparr>"

definition upd_buffer ::
    "nat \<Rightarrow> ('f BufferDescriptor \<Rightarrow> 'f BufferDescriptor) \<Rightarrow> 'f ExprCodeStream \<Rightarrow> 'f ExprCodeStream" where
  "upd_buffer i f s = s\<lparr>Buffers := (Buffers s)[i := f (Buffers s ! i)]\<rparr>"

definition emit :: "ExprInstruction \<Rightarrow> 'f ExprCodeStream \<Rightarrow> 'f ExprCodeStream" where
  "emit i s = s\<lparr>Instructions := Instructions s @ [i]\<rparr>"

text \<open>A leaf: a variable gets one buffer, however often it occurs; a constant gets its own.\<close>

definition gen_var ::
    "'f flt_ops \<Rightarrow> string \<Rightarrow> DataType \<Rightarrow> 'f GenerateCodeContext \<Rightarrow> nat \<times> 'f GenerateCodeContext" where
  "gen_var F v t ctx =
     (case varBufMap ctx v of
        Some b \<Rightarrow> (b, ctx)
      | None \<Rightarrow>
          let bufID = length (Buffers (cs ctx));
              s = add_buffer ((new_buffer F t)\<lparr>IsInput := True, b_VarName := v\<rparr>) (cs ctx);
              s' = (if v \<in> set (InputVarNames s) then s
                    else s\<lparr>InputVarNames := InputVarNames s @ [v]\<rparr>)
          in (bufID, \<lparr>cs = s', varBufMap = (varBufMap ctx)(v \<mapsto> bufID)\<rparr>))"

definition gen_const ::
    "'f flt_ops \<Rightarrow> string \<Rightarrow> DataType \<Rightarrow> 'f GenerateCodeContext \<Rightarrow> nat \<times> 'f GenerateCodeContext" where
  "gen_const F k t ctx =
     (length (Buffers (cs ctx)),
      ctx\<lparr>cs := add_buffer ((new_buffer F t)\<lparr>IsConstant := True,
                               ConstVal := (new_const F)\<lparr>StringVal := k\<rparr>\<rparr>) (cs ctx)\<rparr>)"

text \<open>The promotion of the operand \<open>childBuf\<close> to the type \<open>t\<close> of the node.\<close>

definition needsPromote :: "nat \<Rightarrow> DataType \<Rightarrow> DataType \<Rightarrow> bool" where
  "needsPromote arity t childType =
     (childType \<noteq> DT_None \<and> childType \<noteq> t \<and>
      (if arity = 2 then \<not> IsMixedTypeHandledInline t childType t else True))"

definition gen_promote ::
    "'f flt_ops \<Rightarrow> DataType \<Rightarrow> nat \<Rightarrow> 'f GenerateCodeContext \<Rightarrow> nat \<times> 'f GenerateCodeContext" where
  "gen_promote F t childBuf ctx =
     (let promoteBufID = length (Buffers (cs ctx));
          promoteIdx = length (Instructions (cs ctx))
      in (promoteBufID,
          ctx\<lparr>cs := upd_buffer promoteBufID (\<lambda>b. b\<lparr>FirstUse := promoteIdx, LastUse := promoteIdx\<rparr>)
                   (upd_buffer childBuf (\<lambda>b. b\<lparr>LastUse := promoteIdx\<rparr>)
                   (emit (new_instr OP_PROMOTE [childBuf] promoteBufID t)
                   (add_buffer (new_buffer F t) (cs ctx))))\<rparr>))"

definition mark_use :: "nat \<Rightarrow> nat \<Rightarrow> 'f ExprCodeStream \<Rightarrow> 'f ExprCodeStream" where
  "mark_use instrIdx bufID =
     upd_buffer bufID (\<lambda>b. (if FirstUse b = 0 \<and> LastUse b = 0 \<and> instrIdx > 0
                            then b\<lparr>FirstUse := instrIdx\<rparr> else b)\<lparr>LastUse := instrIdx\<rparr>)"

definition gen_op ::
    "'f flt_ops \<Rightarrow> ExpressionOperator \<Rightarrow> DataType \<Rightarrow> nat list \<Rightarrow> 'f GenerateCodeContext
      \<Rightarrow> nat \<times> 'f GenerateCodeContext" where
  "gen_op F op t inputBufs ctx =
     (let outBufID = length (Buffers (cs ctx));
          instrIdx = length (Instructions (cs ctx))
      in (outBufID,
          ctx\<lparr>cs := upd_buffer outBufID (\<lambda>b. b\<lparr>FirstUse := instrIdx, LastUse := instrIdx\<rparr>)
                   (fold (mark_use instrIdx) inputBufs
                   (emit (new_instr op inputBufs outBufID t)
                   (add_buffer (new_buffer F t) (cs ctx))))\<rparr>))"

fun GenerateCodeNode ::
      "'f flt_ops \<Rightarrow> ExprNode \<Rightarrow> 'f GenerateCodeContext \<Rightarrow> nat \<times> 'f GenerateCodeContext"
  and gen_children ::
      "'f flt_ops \<Rightarrow> nat \<Rightarrow> DataType \<Rightarrow> ExprNode list \<Rightarrow> 'f GenerateCodeContext
        \<Rightarrow> nat list \<times> 'f GenerateCodeContext" where
  "GenerateCodeNode F (ExprNode op ns v k t) ctx =
     (if ns = [] \<and> v \<noteq> [] then gen_var F v t ctx
      else if ns = [] \<and> k \<noteq> [] then gen_const F k t ctx
      else case gen_children F (length ns) t ns ctx of (inputBufs, ctx1) \<Rightarrow> gen_op F op t inputBufs ctx1)"
| "gen_children F arity t [] ctx = ([], ctx)"
| "gen_children F arity t (n # ns) ctx =
     (case GenerateCodeNode F n ctx of (childBuf, ctx1) \<Rightarrow>
      case (if needsPromote arity t (n_Type n) then gen_promote F t childBuf ctx1
            else (childBuf, ctx1)) of (b, ctx2) \<Rightarrow>
      case gen_children F arity t ns ctx2 of (bs, ctx3) \<Rightarrow> (b # bs, ctx3))"

definition empty_stream :: "'f ExprCodeStream" where
  "empty_stream = \<lparr>Instructions = [], Buffers = [], OutputBufID = 0, NumTempSlots = 0,
                   cs_OutputType = DT_None, InputVarNames = [], ExprString = []\<rparr>"

definition GenerateCode :: "'f flt_ops \<Rightarrow> ExprNode \<Rightarrow> 'f ExprCodeStream" where
  "GenerateCode F root =
     (case GenerateCodeNode F root \<lparr>cs = empty_stream, varBufMap = (\<lambda>_. None)\<rparr> of (out, ctx) \<Rightarrow>
        (cs ctx)\<lparr>OutputBufID := out, cs_OutputType := n_Type root\<rparr>)"

subsection \<open>Constants\<close>

text \<open>\<open>istringstream >> int64_t\<close>: an optional sign and digits, saturating.\<close>

definition digit_of :: "char \<Rightarrow> int option" where
  "digit_of c = (let d = (of_char c :: int) in if 48 \<le> d \<and> d \<le> 57 then Some (d - 48) else None)"

fun read_digits :: "int \<Rightarrow> string \<Rightarrow> int" where
  "read_digits acc [] = acc"
| "read_digits acc (c # s) = (case digit_of c of Some d \<Rightarrow> read_digits (10 * acc + d) s | None \<Rightarrow> acc)"

definition clamp_int64 :: "int \<Rightarrow> int" where
  "clamp_int64 i = max (- 9223372036854775808) (min 9223372036854775807 i)"

definition read_int64 :: "string \<Rightarrow> int" where
  "read_int64 s = clamp_int64
     (case s of [] \<Rightarrow> 0
      | c # s' \<Rightarrow> if c = CHR ''-'' then - read_digits 0 s' else if c = CHR ''+'' then read_digits 0 s'
                 else read_digits 0 s)"

definition in_int64 :: "int \<Rightarrow> int result" where
  "in_int64 r = (if - 9223372036854775808 \<le> r \<and> r \<le> 9223372036854775807 then Inr r
                 else Inl ArithmeticUB)"

definition const_double :: "'f flt_ops \<Rightarrow> 'f TypedConstant \<Rightarrow> 'f" where
  "const_double F c = (if IsIntegerType (tc_Type c) then f_of_int F DT_Double (IntVal c) else DoubleVal c)"

text \<open>Signed overflow in the folding of integers is undefined behaviour.\<close>

definition EvalConstBinOp ::
    "'f flt_ops \<Rightarrow> ExpressionOperator \<Rightarrow> 'f TypedConstant \<Rightarrow> 'f TypedConstant \<Rightarrow> DataType
      \<Rightarrow> 'f TypedConstant result" where
  "EvalConstBinOp F op lhs rhs outType =
     (if IsIntegerType outType then
        (let a = IntVal lhs; b = IntVal rhs in
         bindR (case op of
              OP_ADD \<Rightarrow> in_int64 (a + b)
            | OP_SUBTRACT \<Rightarrow> in_int64 (a - b)
            | OP_MULT \<Rightarrow> in_int64 (a * b)
            | OP_DIV \<Rightarrow> if b \<noteq> 0 then in_int64 (tdiv a b) else Inr 0
            | _ \<Rightarrow> Inr a) (\<lambda>r.
         Inr \<lparr>StringVal = f_show F (f_of_int F DT_Double r), DoubleVal = f_of_int F DT_Double r,
              IntVal = r, tc_Type = outType, Resolved = True\<rparr>))
      else
        (let a = const_double F lhs; b = const_double F rhs;
             r = (case op of
                    OP_ADD \<Rightarrow> f_bin F OP_ADD DT_Double a b
                  | OP_SUBTRACT \<Rightarrow> f_bin F OP_SUBTRACT DT_Double a b
                  | OP_MULT \<Rightarrow> f_bin F OP_MULT DT_Double a b
                  | OP_DIV \<Rightarrow> f_bin F OP_DIV DT_Double a b
                  | OP_POW \<Rightarrow> f_bin F OP_POW DT_Double a b
                  | _ \<Rightarrow> a)
         in Inr \<lparr>StringVal = f_show F r, DoubleVal = r, IntVal = f_to_int F DT_Double r,
                 tc_Type = outType, Resolved = True\<rparr>))"

definition EvalConstUnaryOp ::
    "'f flt_ops \<Rightarrow> ExpressionOperator \<Rightarrow> 'f TypedConstant \<Rightarrow> DataType \<Rightarrow> 'f TypedConstant result" where
  "EvalConstUnaryOp F op operand outType =
     (if IsIntegerType outType \<and> op = OP_NEGATE then
        bindR (in_int64 (- IntVal operand)) (\<lambda>r.
          Inr \<lparr>StringVal = f_show F (f_of_int F DT_Double r), DoubleVal = f_of_int F DT_Double r,
               IntVal = r, tc_Type = outType, Resolved = True\<rparr>)
      else
        (let a = const_double F operand;
             r = (if op \<in> {OP_NEGATE, OP_SQRT, OP_SIN, OP_COS, OP_TAN, OP_ASIN, OP_ACOS, OP_ATAN}
                  then f_un F op DT_Double a else a)
         in Inr \<lparr>StringVal = f_show F r, DoubleVal = r, IntVal = f_to_int F DT_Double r,
                 tc_Type = outType, Resolved = True\<rparr>))"

subsection \<open>\<open>SemanticsPass\<close>\<close>

definition SelectionRuleForOp :: "ExpressionOperator \<Rightarrow> SelectionRule" where
  "SelectionRuleForOp op = (case op of OP_CURL \<Rightarrow> ExpandHalo | OP_CROSS \<Rightarrow> Reshape | OP_MAGN \<Rightarrow> Reshape
                            | _ \<Rightarrow> Identity)"

definition resolve_constant :: "'f flt_ops \<Rightarrow> 'f BufferDescriptor \<Rightarrow> 'f BufferDescriptor" where
  "resolve_constant F b =
     (if IsConstant b \<and> \<not> Resolved (ConstVal b) then
        b\<lparr>ConstVal := (if IsIntegerType (b_Type b)
            then (ConstVal b)\<lparr>tc_Type := b_Type b, IntVal := read_int64 (StringVal (ConstVal b)), Resolved := True\<rparr>
            else (ConstVal b)\<lparr>tc_Type := b_Type b, DoubleVal := f_parse F (StringVal (ConstVal b)),
                              Resolved := True\<rparr>)\<rparr>
      else b)"

definition resolve_inputs ::
    "'f flt_ops \<Rightarrow> nat list \<Rightarrow> 'f BufferDescriptor list \<Rightarrow> 'f BufferDescriptor list" where
  "resolve_inputs F ins bufs = fold (\<lambda>b bs. bs[b := resolve_constant F (bs ! b)]) ins bufs"

definition set_selection :: "ExprInstruction \<Rightarrow> ExprInstruction" where
  "set_selection i =
     (let r = (if i_Op i = OP_ADD \<and> length (InputBufs i) = 1 then Reshape else SelectionRuleForOp (i_Op i))
      in i\<lparr>SelRule := r, HaloSize := (if r = ExpandHalo then 1 else HaloSize i)\<rparr>)"

text \<open>Strength reduction, \<open>x^2\<close> to \<open>x * x\<close>. The result takes the type of the buffer of \<open>x\<close>.\<close>

definition is_square :: "'f flt_ops \<Rightarrow> 'f BufferDescriptor list \<Rightarrow> ExprInstruction \<Rightarrow> bool" where
  "is_square F bufs i =
     (i_Op i = OP_POW \<and> length (InputBufs i) = 2 \<and>
      (let e = bufs ! (InputBufs i ! 1)
       in IsConstant e \<and> Resolved (ConstVal e) \<and>
          f_eq F DT_Double (DoubleVal (ConstVal e)) (f_of_int F DT_Double 2)))"

definition reduce_square ::
    "'f flt_ops \<Rightarrow> 'f BufferDescriptor list \<Rightarrow> ExprInstruction
      \<Rightarrow> ExprInstruction \<times> 'f BufferDescriptor list" where
  "reduce_square F bufs i =
     (if is_square F bufs i then
        (let x = InputBufs i ! 0; t = b_Type (bufs ! x)
         in (i\<lparr>i_Op := OP_MULT, InputBufs := [x, x], i_OutputType := t\<rparr>,
             bufs[OutputBuf i := (bufs ! OutputBuf i)\<lparr>b_Type := t\<rparr>]))
      else (i, bufs))"

fun fold_constants ::
    "'f flt_ops \<Rightarrow> ExpressionOperator \<Rightarrow> 'f TypedConstant \<Rightarrow> 'f TypedConstant list \<Rightarrow> DataType
      \<Rightarrow> 'f TypedConstant result" where
  "fold_constants F op acc [] t = Inr acc"
| "fold_constants F op acc (c # rest) t =
     bindR (EvalConstBinOp F op acc c t) (\<lambda>r. fold_constants F op r rest t)"

definition eval_constants ::
    "'f flt_ops \<Rightarrow> ExpressionOperator \<Rightarrow> 'f TypedConstant list \<Rightarrow> DataType \<Rightarrow> 'f TypedConstant result" where
  "eval_constants F op consts t =
     (case consts of [] \<Rightarrow> Inl UndefinedBehaviour
      | [c] \<Rightarrow> EvalConstUnaryOp F op c t
      | c # rest \<Rightarrow> fold_constants F op c rest t)"

text \<open>One round of the loop: the instruction that is kept, or none when it was folded.\<close>

definition sem_step ::
    "'f flt_ops \<Rightarrow> ExprInstruction \<Rightarrow> 'f BufferDescriptor list
      \<Rightarrow> (ExprInstruction option \<times> 'f BufferDescriptor list) result" where
  "sem_step F instr bufs =
     (case reduce_square F (resolve_inputs F (InputBufs instr) bufs) (set_selection instr) of (i, bs) \<Rightarrow>
        if list_all (\<lambda>b. IsConstant (bs ! b)) (InputBufs i) then
          bindR (eval_constants F (i_Op i) (map (\<lambda>b. ConstVal (bs ! b)) (InputBufs i)) (i_OutputType i)) (\<lambda>c.
            Inr (None, bs[OutputBuf i := (bs ! OutputBuf i)\<lparr>IsConstant := True, ConstVal := c,
                                                         b_Type := i_OutputType i\<rparr>]))
        else Inr (Some i, bs))"

fun sem_loop ::
    "'f flt_ops \<Rightarrow> ExprInstruction list \<Rightarrow> 'f BufferDescriptor list
      \<Rightarrow> (ExprInstruction list \<times> 'f BufferDescriptor list) result" where
  "sem_loop F [] bufs = Inr ([], bufs)"
| "sem_loop F (i # is) bufs =
     bindR (sem_step F i bufs) (\<lambda>(kept, bufs1).
     bindR (sem_loop F is bufs1) (\<lambda>(ks, bufs2).
       Inr ((case kept of None \<Rightarrow> ks | Some k \<Rightarrow> k # ks), bufs2)))"

text \<open>The use ranges of the remaining instructions.\<close>

definition range_step ::
    "nat \<times> ExprInstruction \<Rightarrow> 'f BufferDescriptor list \<Rightarrow> 'f BufferDescriptor list" where
  "range_step = (\<lambda>(j, i) bufs.
     let bs = fold (\<lambda>b bs. bs[b := (bs ! b)\<lparr>FirstUse := min (FirstUse (bs ! b)) j, LastUse := j\<rparr>])
                (InputBufs i) bufs
     in bs[OutputBuf i := (bs ! OutputBuf i)\<lparr>FirstUse := j, LastUse := j\<rparr>])"

definition use_ranges ::
    "ExprInstruction list \<Rightarrow> 'f BufferDescriptor list \<Rightarrow> 'f BufferDescriptor list" where
  "use_ranges is bufs = fold range_step (enumerate 0 is) bufs"

definition referenced :: "ExprInstruction list \<Rightarrow> nat \<Rightarrow> nat \<Rightarrow> bool" where
  "referenced is out b = (b = out \<or> list_ex (\<lambda>i. b \<in> set (InputBufs i) \<or> b = OutputBuf i) is)"

definition drop_unreferenced ::
    "ExprInstruction list \<Rightarrow> nat \<Rightarrow> 'f BufferDescriptor list \<Rightarrow> 'f BufferDescriptor list" where
  "drop_unreferenced is out bufs =
     map (\<lambda>(b, d). if \<not> referenced is out b \<and> \<not> IsInput d then d\<lparr>IsConstant := False\<rparr> else d)
       (enumerate 0 bufs)"

definition SemanticsPass :: "'f flt_ops \<Rightarrow> 'f ExprCodeStream \<Rightarrow> 'f ExprCodeStream result" where
  "SemanticsPass F s =
     bindR (sem_loop F (Instructions s) (Buffers s)) (\<lambda>(is, bufs).
       let bufs' = drop_unreferenced is (OutputBufID s) (use_ranges is bufs)
       in Inr (s\<lparr>Instructions := is, Buffers := bufs', cs_OutputType := b_Type (bufs' ! OutputBufID s)\<rparr>))"

subsection \<open>\<open>PlanBuffers\<close>\<close>

text \<open>The first free slot that is not avoided, or a new one; \<open>numPoolSlots\<close> is the length of \<open>slotFree\<close>.\<close>

definition alloc_slot :: "nat list \<Rightarrow> bool list \<Rightarrow> nat \<times> bool list" where
  "alloc_slot avoid slotFree =
     (case find (\<lambda>s. slotFree ! s \<and> s \<notin> set avoid) [0..<length slotFree] of
        Some s \<Rightarrow> (s, slotFree[s := False])
      | None \<Rightarrow> (length slotFree, slotFree @ [False]))"

definition is_temp :: "'f BufferDescriptor \<Rightarrow> bool" where
  "is_temp b = (\<not> IsInput b \<and> \<not> IsConstant b)"

definition plan_constant ::
    "nat \<Rightarrow> bool list \<times> 'f BufferDescriptor list \<Rightarrow> bool list \<times> 'f BufferDescriptor list" where
  "plan_constant b = (\<lambda>(slotFree, bufs).
     if IsConstant (bufs ! b)
     then (case alloc_slot [] slotFree of (s, free) \<Rightarrow> (free, bufs[b := (bufs ! b)\<lparr>PhysicalSlot := s\<rparr>]))
     else (slotFree, bufs))"

definition release_inputs ::
    "nat \<Rightarrow> nat list \<Rightarrow> 'f BufferDescriptor list \<Rightarrow> bool list \<Rightarrow> bool list" where
  "release_inputs idx ins bufs =
     fold (\<lambda>b free. if is_temp (bufs ! b) \<and> LastUse (bufs ! b) = idx
                    then free[PhysicalSlot (bufs ! b) := True] else free) ins"

definition plan_instruction ::
    "nat \<times> ExprInstruction \<Rightarrow> bool list \<times> 'f BufferDescriptor list
      \<Rightarrow> bool list \<times> 'f BufferDescriptor list" where
  "plan_instruction = (\<lambda>(idx, i) (slotFree, bufs).
     if is_temp (bufs ! OutputBuf i) then
       (let inputSlots = map (\<lambda>b. PhysicalSlot (bufs ! b)) (filter (\<lambda>b. is_temp (bufs ! b)) (InputBufs i))
        in case alloc_slot inputSlots (release_inputs idx (InputBufs i) bufs slotFree) of (s, free) \<Rightarrow>
             (free, bufs[OutputBuf i := (bufs ! OutputBuf i)\<lparr>PhysicalSlot := s\<rparr>]))
     else (slotFree, bufs))"

definition PlanBuffers :: "'f ExprCodeStream \<Rightarrow> 'f ExprCodeStream" where
  "PlanBuffers s =
     (case fold plan_instruction (enumerate 0 (Instructions s))
             (fold plan_constant [0..<length (Buffers s)] ([], Buffers s)) of (slotFree, bufs) \<Rightarrow>
        s\<lparr>Buffers := bufs, NumTempSlots := length slotFree\<rparr>)"

text \<open>The compilation as \<open>IO::DefineDerivedVariable\<close> runs it.\<close>

definition compile ::
    "'f flt_ops \<Rightarrow> (string \<Rightarrow> DataType option) \<Rightarrow> string \<Rightarrow> ExprNode \<Rightarrow> 'f ExprCodeStream result" where
  "compile F varTypes exp_string tree =
     bindR (ResolveTreeTypes varTypes tree) (\<lambda>exprTree.
     bindR (SemanticsPass F ((GenerateCode F exprTree)\<lparr>ExprString := exp_string\<rparr>)) (\<lambda>s.
       Inr (PlanBuffers s)))"

end
