(* ===== verification/Adios_ExprFun.thy ===== *)
theory Adios_ExprFun
  imports Adios_ExprCode
begin

section \<open>Derived expressions: the element loops\<close>

text \<open>
  \<open>toolkit/derived/Function.cpp\<close>. An array in memory has an element type and its elements; reading
  it through a pointer of another type, or past its end, is undefined behaviour. Integers have the
  arithmetic of C++ (promotion to \<open>int\<close>, undefined signed overflow and division by zero, wrapping
  unsigned types, narrowing on assignment); floating-point and complex values are those of \<open>flt_ops\<close>.
  Every function returns the array it leaves in the output buffer.
\<close>

datatype 'f elem = IntV int | FltV 'f

datatype 'f arr = Arr (arr_type: DataType) (arr_elems: "'f elem list")

record 'p DerivedData =
  dd_Data :: 'p
  dd_Start :: dims
  dd_Count :: dims
  dd_Type :: DataType
  dd_IsScalar :: bool

type_synonym 'f dd = "'f arr DerivedData"

definition rd :: "DataType \<Rightarrow> 'f arr \<Rightarrow> nat \<Rightarrow> 'f elem result" where
  "rd T a i = (if arr_type a = T \<and> i < length (arr_elems a) then Inr (arr_elems a ! i)
               else Inl UndefinedBehaviour)"

subsection \<open>Arithmetic on elements\<close>

definition is_int_elem :: "DataType \<Rightarrow> bool" where
  "is_int_elem T = (IsIntegerType T \<or> T = DT_Char)"

definition int_wrap :: "DataType \<Rightarrow> int \<Rightarrow> int" where
  "int_wrap T i =
     (let m = 2 ^ (8 * GetDataTypeSize T)
      in if IsUnsignedType T then i mod m else (i + m div 2) mod m - m div 2)"

text \<open>Integer promotion: types narrower than \<open>int\<close> are computed in \<open>int\<close>.\<close>

definition int_promoted :: "DataType \<Rightarrow> DataType" where
  "int_promoted T = (if GetDataTypeSize T < 4 then DT_Int32 else T)"

definition int_op :: "ExpressionOperator \<Rightarrow> DataType \<Rightarrow> int \<Rightarrow> int \<Rightarrow> int result" where
  "int_op op P a b =
     (let fits = (\<lambda>r. if IsUnsignedType P then Inr (int_wrap P r)
                      else if int_wrap P r = r then Inr r else Inl ArithmeticUB)
      in case op of OP_ADD \<Rightarrow> fits (a + b)
         | OP_SUBTRACT \<Rightarrow> fits (a - b)
         | OP_MULT \<Rightarrow> fits (a * b)
         | OP_DIV \<Rightarrow> if b = 0 then Inl ArithmeticUB else fits (tdiv a b)
         | _ \<Rightarrow> Inl UndefinedBehaviour)"

fun elem_bin ::
    "'f flt_ops \<Rightarrow> ExpressionOperator \<Rightarrow> DataType \<Rightarrow> 'f elem \<Rightarrow> 'f elem \<Rightarrow> 'f elem result" where
  "elem_bin F op T (IntV a) (IntV b) =
     (if is_int_elem T then bindR (int_op op (int_promoted T) a b) (\<lambda>r. Inr (IntV (int_wrap T r)))
      else Inl UndefinedBehaviour)"
| "elem_bin F op T (FltV a) (FltV b) =
     (if is_int_elem T then Inl UndefinedBehaviour else Inr (FltV (f_bin F op T a b)))"
| "elem_bin F op T _ _ = Inl UndefinedBehaviour"

text \<open>\<open>a + b * b\<close> and \<open>a * b - c * d\<close> in one expression: narrowed once, at the end.\<close>

fun elem_add_square :: "'f flt_ops \<Rightarrow> DataType \<Rightarrow> 'f elem \<Rightarrow> 'f elem \<Rightarrow> 'f elem result" where
  "elem_add_square F T (IntV a) (IntV b) =
     (if is_int_elem T then
        bindR (int_op OP_MULT (int_promoted T) b b) (\<lambda>bb.
        bindR (int_op OP_ADD (int_promoted T) a bb) (\<lambda>r. Inr (IntV (int_wrap T r))))
      else Inl UndefinedBehaviour)"
| "elem_add_square F T (FltV a) (FltV b) =
     (if is_int_elem T then Inl UndefinedBehaviour
      else Inr (FltV (f_bin F OP_ADD T a (f_bin F OP_MULT T b b))))"
| "elem_add_square F T _ _ = Inl UndefinedBehaviour"

fun elem_det :: "'f flt_ops \<Rightarrow> DataType \<Rightarrow> 'f elem \<Rightarrow> 'f elem \<Rightarrow> 'f elem \<Rightarrow> 'f elem \<Rightarrow> 'f elem result" where
  "elem_det F T (IntV a) (IntV b) (IntV c) (IntV d) =
     (if is_int_elem T then
        bindR (int_op OP_MULT (int_promoted T) a b) (\<lambda>ab.
        bindR (int_op OP_MULT (int_promoted T) c d) (\<lambda>cd.
        bindR (int_op OP_SUBTRACT (int_promoted T) ab cd) (\<lambda>r. Inr (IntV (int_wrap T r)))))
      else Inl UndefinedBehaviour)"
| "elem_det F T (FltV a) (FltV b) (FltV c) (FltV d) =
     (if is_int_elem T then Inl UndefinedBehaviour
      else Inr (FltV (f_bin F OP_SUBTRACT T (f_bin F OP_MULT T a b) (f_bin F OP_MULT T c d))))"
| "elem_det F T _ _ _ _ = Inl UndefinedBehaviour"

text \<open>\<open>static_cast<OutT>\<close> of a value of type \<open>InT\<close>.\<close>

fun elem_cast :: "'f flt_ops \<Rightarrow> DataType \<Rightarrow> DataType \<Rightarrow> 'f elem \<Rightarrow> 'f elem" where
  "elem_cast F OutT InT (IntV i) =
     (if is_int_elem OutT then IntV (int_wrap OutT i) else FltV (f_of_int F OutT i))"
| "elem_cast F OutT InT (FltV v) =
     (if is_int_elem OutT then IntV (int_wrap OutT (f_to_int F InT v))
      else FltV (if OutT = InT then v else f_conv F InT OutT v))"

definition elem_zero :: "'f flt_ops \<Rightarrow> DataType \<Rightarrow> 'f elem" where
  "elem_zero F T = (if is_int_elem T then IntV 0 else FltV (f_of_int F T 0))"

text \<open>\<open>std::sqrt\<close> and the like on floating point; on integers through \<open>double\<close>.\<close>

fun elem_un :: "'f flt_ops \<Rightarrow> ExpressionOperator \<Rightarrow> DataType \<Rightarrow> 'f elem \<Rightarrow> 'f elem" where
  "elem_un F op T (FltV v) = FltV (f_un F op T v)"
| "elem_un F op T (IntV i) =
     IntV (int_wrap T (f_to_int F DT_Double (f_un F op DT_Double (f_of_int F DT_Double i))))"

subsection \<open>The typed loops\<close>

text \<open>\<open>DoAdd\<close>, \<open>DoSub\<close>, \<open>DoMul\<close> and \<open>DoDiv\<close>, which differ in the operator only.\<close>

definition do_binary ::
    "'f flt_ops \<Rightarrow> ExpressionOperator \<Rightarrow> DataType \<Rightarrow> DataType \<Rightarrow> DataType \<Rightarrow> 'f dd \<Rightarrow> 'f dd \<Rightarrow> nat
      \<Rightarrow> 'f arr result" where
  "do_binary F op OutT LhsT RhsT lhs rhs N =
     bindR
       (if dd_IsScalar lhs then
          bindR (rd LhsT (dd_Data lhs) 0) (\<lambda>l.
            mapR (\<lambda>i. bindR (rd RhsT (dd_Data rhs) i) (\<lambda>r.
              elem_bin F op OutT (elem_cast F OutT LhsT l) (elem_cast F OutT RhsT r))) [0..<N])
        else if dd_IsScalar rhs then
          bindR (rd RhsT (dd_Data rhs) 0) (\<lambda>r.
            mapR (\<lambda>i. bindR (rd LhsT (dd_Data lhs) i) (\<lambda>l.
              elem_bin F op OutT (elem_cast F OutT LhsT l) (elem_cast F OutT RhsT r))) [0..<N])
        else
          mapR (\<lambda>i. bindR (rd LhsT (dd_Data lhs) i) (\<lambda>l. bindR (rd RhsT (dd_Data rhs) i) (\<lambda>r.
              elem_bin F op OutT (elem_cast F OutT LhsT l) (elem_cast F OutT RhsT r)))) [0..<N])
     (\<lambda>es. Inr (Arr OutT es))"

definition DoPow :: "'f flt_ops \<Rightarrow> DataType \<Rightarrow> 'f dd \<Rightarrow> 'f dd \<Rightarrow> nat \<Rightarrow> 'f arr result" where
  "DoPow F T base e N =
     bindR
       (if dd_IsScalar e then
          bindR (rd T (dd_Data e) 0) (\<lambda>ev.
            if (case ev of FltV v \<Rightarrow> f_eq F T v (f_of_int F T 2) | IntV i \<Rightarrow> i = 2)
            then mapR (\<lambda>i. bindR (rd T (dd_Data base) i) (\<lambda>b. elem_bin F OP_MULT T b b)) [0..<N]
            else mapR (\<lambda>i. bindR (rd T (dd_Data base) i) (\<lambda>b. elem_bin F OP_POW T b ev)) [0..<N])
        else mapR (\<lambda>i. bindR (rd T (dd_Data base) i) (\<lambda>b. bindR (rd T (dd_Data e) i) (\<lambda>ev.
               elem_bin F OP_POW T b ev))) [0..<N])
     (\<lambda>es. Inr (Arr T es))"

definition DoPromoteTyped ::
    "'f flt_ops \<Rightarrow> DataType \<Rightarrow> DataType \<Rightarrow> 'f arr \<Rightarrow> nat \<Rightarrow> 'f arr result" where
  "DoPromoteTyped F OutT InT src N =
     bindR (mapR (\<lambda>i. bindR (rd InT src i) (\<lambda>x. Inr (elem_cast F OutT InT x))) [0..<N])
       (\<lambda>es. Inr (Arr OutT es))"

definition DoNegate :: "'f flt_ops \<Rightarrow> DataType \<Rightarrow> 'f arr \<Rightarrow> nat \<Rightarrow> 'f arr result" where
  "DoNegate F T src N =
     bindR (mapR (\<lambda>i. bindR (rd T src i) (\<lambda>x. elem_bin F OP_SUBTRACT T (elem_zero F T) x)) [0..<N])
       (\<lambda>es. Inr (Arr T es))"

definition do_unary ::
    "'f flt_ops \<Rightarrow> ExpressionOperator \<Rightarrow> DataType \<Rightarrow> 'f arr \<Rightarrow> nat \<Rightarrow> 'f arr result" where
  "do_unary F op T src N =
     bindR (mapR (\<lambda>i. bindR (rd T src i) (\<lambda>x. Inr (elem_un F op T x))) [0..<N])
       (\<lambda>es. Inr (Arr T es))"

definition DoMagnitude3 ::
    "'f flt_ops \<Rightarrow> DataType \<Rightarrow> 'f arr \<Rightarrow> 'f arr \<Rightarrow> 'f arr \<Rightarrow> nat \<Rightarrow> 'f arr result" where
  "DoMagnitude3 F T a b c N =
     bindR (mapR (\<lambda>i. bindR (rd T a i) (\<lambda>x. bindR (rd T b i) (\<lambda>y. bindR (rd T c i) (\<lambda>z.
        bindR (elem_bin F OP_MULT T x x) (\<lambda>s. bindR (elem_add_square F T s y) (\<lambda>s.
        bindR (elem_add_square F T s z) (\<lambda>s. Inr (elem_un F OP_SQRT T s)))))))) [0..<N])
       (\<lambda>es. Inr (Arr T es))"

text \<open>The accumulation over the remaining components, element by element of the output.\<close>

fun add_squares :: "'f flt_ops \<Rightarrow> DataType \<Rightarrow> nat \<Rightarrow> 'f elem list \<Rightarrow> 'f dd list \<Rightarrow> 'f elem list result" where
  "add_squares F T N out [] = Inr out"
| "add_squares F T N out (d # ds) =
     bindR (mapR (\<lambda>i. bindR (rd T (dd_Data d) i) (\<lambda>x. elem_add_square F T (out ! i) x)) [0..<N])
       (\<lambda>out'. add_squares F T N out' ds)"

definition DoMagnitudeN :: "'f flt_ops \<Rightarrow> DataType \<Rightarrow> 'f dd list \<Rightarrow> nat \<Rightarrow> 'f arr result" where
  "DoMagnitudeN F T inputs N =
     (case inputs of [] \<Rightarrow> Inl UndefinedBehaviour
      | d # ds \<Rightarrow>
          bindR (mapR (\<lambda>i. bindR (rd T (dd_Data d) i) (\<lambda>x. elem_bin F OP_MULT T x x)) [0..<N]) (\<lambda>out.
          bindR (add_squares F T N out ds) (\<lambda>out'. Inr (Arr T (map (elem_un F OP_SQRT T) out')))))"

subsection \<open>Dispatch on the element type\<close>

definition is_float_type :: "DataType \<Rightarrow> bool" where
  "is_float_type T = (T = DT_Float \<or> T = DT_Double \<or> T = DT_LongDouble)"

text \<open>The types of \<open>DISPATCH_TYPE\<close> and of the homogeneous branch of \<open>DISPATCH_BINARY\<close>.\<close>

definition is_dispatch_type :: "DataType \<Rightarrow> bool" where
  "is_dispatch_type T = (is_float_type T \<or> IsIntegerType T \<or> IsComplexType T)"

text \<open>The types of \<open>ADIOS2_FOREACH_ATTRIBUTE_PRIMITIVE_STDTYPE_1ARG\<close>.\<close>

definition is_attribute_type :: "DataType \<Rightarrow> bool" where
  "is_attribute_type T = (T = DT_Char \<or> IsIntegerType T \<or> is_float_type T)"

text \<open>\<open>DISPATCH_BINARY\<close>: the three types the loop is instantiated with.\<close>

definition dispatch_binary ::
    "DataType \<Rightarrow> DataType \<Rightarrow> DataType \<Rightarrow> (DataType \<times> DataType \<times> DataType) result" where
  "dispatch_binary outType lhsType rhsType =
     (if lhsType = rhsType then
        (if is_dispatch_type outType then Inr (outType, outType, outType) else Inl InvalidArgument)
      else if outType = DT_Double \<and> lhsType = DT_Float then Inr (DT_Double, DT_Float, DT_Double)
      else if outType = DT_Double \<and> rhsType = DT_Float then Inr (DT_Double, DT_Double, DT_Float)
      else if outType = DT_Double \<and> lhsType = DT_Int32 then Inr (DT_Double, DT_Int32, DT_Double)
      else if outType = DT_Double \<and> rhsType = DT_Int32 then Inr (DT_Double, DT_Double, DT_Int32)
      else if outType = DT_Double \<and> lhsType = DT_Int64 then Inr (DT_Double, DT_Int64, DT_Double)
      else if outType = DT_Double \<and> rhsType = DT_Int64 then Inr (DT_Double, DT_Double, DT_Int64)
      else if outType = DT_Float \<and> lhsType = DT_Int32 then Inr (DT_Float, DT_Int32, DT_Float)
      else if outType = DT_Float \<and> rhsType = DT_Int32 then Inr (DT_Float, DT_Float, DT_Int32)
      else Inl InvalidArgument)"

definition call_binary ::
    "'f flt_ops \<Rightarrow> ExpressionOperator \<Rightarrow> DataType \<Rightarrow> 'f dd \<Rightarrow> 'f dd \<Rightarrow> nat \<Rightarrow> 'f arr result" where
  "call_binary F op outType lhs rhs N =
     bindR (dispatch_binary outType (dd_Type lhs) (dd_Type rhs)) (\<lambda>(OT, LT, RT).
       do_binary F op OT LT RT lhs rhs N)"

text \<open>\<open>outAsDerived\<close>, and the loop that accumulates further operands into the output.\<close>

definition out_as_derived :: "DataType \<Rightarrow> 'f arr \<Rightarrow> 'f dd" where
  "out_as_derived type out = \<lparr>dd_Data = out, dd_Start = [], dd_Count = [], dd_Type = type, dd_IsScalar = False\<rparr>"

fun accumulate_inputs ::
    "'f flt_ops \<Rightarrow> ExpressionOperator \<Rightarrow> DataType \<Rightarrow> nat \<Rightarrow> 'f arr \<Rightarrow> 'f dd list \<Rightarrow> 'f arr result" where
  "accumulate_inputs F op type N out [] = Inr out"
| "accumulate_inputs F op type N out (d # ds) =
     bindR (call_binary F op type (out_as_derived type out) d N) (\<lambda>out'.
       accumulate_inputs F op type N out' ds)"

subsection \<open>Reductions over the last dimension\<close>

text \<open>
  \<open>std::accumulate\<close> with the initial value \<open>1\<close>: the accumulator is an \<open>int\<close>, every product is cut
  to 32 bits, and the result is widened to \<open>size_t\<close>.
\<close>

definition accumulate_int :: "dims \<Rightarrow> nat" where
  "accumulate_int ds = nat (foldl (\<lambda>acc d. int_wrap DT_Int32 (acc * uint d)) 1 ds mod 18446744073709551616)"

fun aggregate_one ::
    "('f elem \<Rightarrow> 'f elem \<Rightarrow> 'f elem result) \<Rightarrow> DataType \<Rightarrow> 'f arr \<Rightarrow> 'f elem \<Rightarrow> nat list \<Rightarrow> 'f elem result" where
  "aggregate_one f T data acc [] = Inr acc"
| "aggregate_one f T data acc (i # is) =
     bindR (rd T data i) (\<lambda>x. bindR (f acc x) (\<lambda>acc'. aggregate_one f T data acc' is))"

definition AggregateOnLastDim ::
    "'f flt_ops \<Rightarrow> DataType \<Rightarrow> 'f arr \<Rightarrow> nat \<Rightarrow> nat \<Rightarrow> ('f elem \<Rightarrow> 'f elem \<Rightarrow> 'f elem result)
      \<Rightarrow> 'f elem list result" where
  "AggregateOnLastDim F T data dataSize nVariables f =
     mapR (\<lambda>i. aggregate_one f T data (elem_zero F T) [nVariables * i..<nVariables * i + nVariables])
       [0..<dataSize]"

definition AddAggregatedFunc :: "'f flt_ops \<Rightarrow> 'f dd \<Rightarrow> DataType \<Rightarrow> 'f arr result" where
  "AddAggregatedFunc F input type =
     (if dd_Count input = [] then Inl UndefinedBehaviour
      else if is_attribute_type type then
        bindR (AggregateOnLastDim F type (dd_Data input) (accumulate_int (butlast (dd_Count input)))
                 (unat (last (dd_Count input))) (elem_bin F OP_ADD type)) (\<lambda>es. Inr (Arr type es))
      else Inl InvalidArgument)"

definition MagAggregatedFunc :: "'f flt_ops \<Rightarrow> 'f dd \<Rightarrow> DataType \<Rightarrow> 'f arr result" where
  "MagAggregatedFunc F input type =
     (if dd_Count input = [] then Inl UndefinedBehaviour
      else if is_attribute_type type then
        bindR (AggregateOnLastDim F type (dd_Data input) (accumulate_int (butlast (dd_Count input)))
                 (unat (last (dd_Count input))) (elem_add_square F type)) (\<lambda>es.
          Inr (Arr type (map (elem_un F OP_SQRT type) es)))
      else Inl InvalidArgument)"

subsection \<open>The operators\<close>

definition AddFunc :: "'f flt_ops \<Rightarrow> 'f dd list \<Rightarrow> DataType \<Rightarrow> nat \<Rightarrow> 'f arr result" where
  "AddFunc F inputs type N =
     (case inputs of [] \<Rightarrow> Inl UndefinedBehaviour
      | [a] \<Rightarrow> AddAggregatedFunc F a type
      | a # b # ds \<Rightarrow> bindR (call_binary F OP_ADD type a b N) (\<lambda>out.
                        accumulate_inputs F OP_ADD type N out ds))"

definition SubtractFunc :: "'f flt_ops \<Rightarrow> 'f dd list \<Rightarrow> DataType \<Rightarrow> nat \<Rightarrow> 'f arr result" where
  "SubtractFunc F inputs type N =
     (case inputs of [a, b] \<Rightarrow> call_binary F OP_SUBTRACT type a b N
      | a # b # c # ds \<Rightarrow>
          bindR (call_binary F OP_ADD type b c N) (\<lambda>out.
          bindR (accumulate_inputs F OP_ADD type N out ds) (\<lambda>out.
            call_binary F OP_SUBTRACT type a (out_as_derived type out) N))
      | _ \<Rightarrow> Inl UndefinedBehaviour)"

definition NegateFunc :: "'f flt_ops \<Rightarrow> 'f dd list \<Rightarrow> DataType \<Rightarrow> nat \<Rightarrow> 'f arr result" where
  "NegateFunc F inputs type N =
     (case inputs of [] \<Rightarrow> Inl UndefinedBehaviour
      | a # _ \<Rightarrow> if is_dispatch_type type then DoNegate F type (dd_Data a) N else Inl InvalidArgument)"

definition MultFunc :: "'f flt_ops \<Rightarrow> 'f dd list \<Rightarrow> DataType \<Rightarrow> nat \<Rightarrow> 'f arr result" where
  "MultFunc F inputs type N =
     (case inputs of a # b # ds \<Rightarrow>
          bindR (call_binary F OP_MULT type a b N) (\<lambda>out. accumulate_inputs F OP_MULT type N out ds)
      | _ \<Rightarrow> Inl UndefinedBehaviour)"

definition DivFunc :: "'f flt_ops \<Rightarrow> 'f dd list \<Rightarrow> DataType \<Rightarrow> nat \<Rightarrow> 'f arr result" where
  "DivFunc F inputs type N =
     (case inputs of [a, b] \<Rightarrow> call_binary F OP_DIV type a b N
      | a # b # c # ds \<Rightarrow>
          bindR (call_binary F OP_MULT type b c N) (\<lambda>out.
          bindR (accumulate_inputs F OP_MULT type N out ds) (\<lambda>out.
            call_binary F OP_DIV type a (out_as_derived type out) N))
      | _ \<Rightarrow> Inl UndefinedBehaviour)"

definition PowFunc :: "'f flt_ops \<Rightarrow> 'f dd list \<Rightarrow> DataType \<Rightarrow> nat \<Rightarrow> 'f arr result" where
  "PowFunc F inputs type N =
     (case inputs of [] \<Rightarrow> Inl UndefinedBehaviour
      | [a] \<Rightarrow> call_binary F OP_MULT type a a N
      | a # b # _ \<Rightarrow> if is_float_type type then DoPow F type a b N else Inl InvalidArgument)"

text \<open>\<open>SqrtFunc\<close> and the six trigonometric functions.\<close>

definition unary_float_func ::
    "'f flt_ops \<Rightarrow> ExpressionOperator \<Rightarrow> 'f dd list \<Rightarrow> DataType \<Rightarrow> nat \<Rightarrow> 'f arr result" where
  "unary_float_func F op inputs type N =
     (case inputs of [] \<Rightarrow> Inl UndefinedBehaviour
      | a # _ \<Rightarrow> if is_float_type type then do_unary F op type (dd_Data a) N else Inl InvalidArgument)"

definition MagnitudeFunc :: "'f flt_ops \<Rightarrow> 'f dd list \<Rightarrow> DataType \<Rightarrow> nat \<Rightarrow> 'f arr result" where
  "MagnitudeFunc F inputs type N =
     (case inputs of [a] \<Rightarrow> MagAggregatedFunc F a type
      | [a, b, c] \<Rightarrow>
          if \<not> is_float_type type then Inl InvalidArgument
          else if \<not> dd_IsScalar a \<and> \<not> dd_IsScalar b \<and> \<not> dd_IsScalar c
          then DoMagnitude3 F type (dd_Data a) (dd_Data b) (dd_Data c) N
          else DoMagnitudeN F type inputs N
      | _ \<Rightarrow> if is_float_type type then DoMagnitudeN F type inputs N else Inl InvalidArgument)"

text \<open>The three components of \<open>ApplyCross3D\<close> at one element, as the code has them.\<close>

definition ApplyCross3D ::
    "'f flt_ops \<Rightarrow> DataType \<Rightarrow> 'f arr \<Rightarrow> 'f arr \<Rightarrow> 'f arr \<Rightarrow> 'f arr \<Rightarrow> 'f arr \<Rightarrow> 'f arr \<Rightarrow> nat
      \<Rightarrow> 'f elem list result" where
  "ApplyCross3D F T Ax Ay Az Bx By Bz dataSize =
     bindR (mapR (\<lambda>i.
        bindR (rd T Ax i) (\<lambda>ax. bindR (rd T Ay i) (\<lambda>ay. bindR (rd T Az i) (\<lambda>az.
        bindR (rd T Bx i) (\<lambda>bx. bindR (rd T By i) (\<lambda>by'. bindR (rd T Bz i) (\<lambda>bz.
        bindR (elem_det F T ay bz az by') (\<lambda>c0.
        bindR (elem_det F T ax bz az bx) (\<lambda>c1.
        bindR (elem_det F T ax by' ay bx) (\<lambda>c2. Inr [c0, c1, c2])))))))))) [0..<dataSize])
       (\<lambda>rows. Inr (concat rows))"

definition Cross3DFunc :: "'f flt_ops \<Rightarrow> 'f dd list \<Rightarrow> DataType \<Rightarrow> 'f arr result" where
  "Cross3DFunc F inputs type =
     (case inputs of [ax, ay, az, bx, by', bz] \<Rightarrow>
          if is_attribute_type type then
            bindR (ApplyCross3D F type (dd_Data ax) (dd_Data ay) (dd_Data az) (dd_Data bx)
                     (dd_Data by') (dd_Data bz) (accumulate_int (dd_Count ax))) (\<lambda>es. Inr (Arr type es))
          else Inl InvalidArgument
      | _ \<Rightarrow> Inl InvalidArgument)"

subsection \<open>Curl\<close>

text \<open>
  \<open>(x - y) / (next - prev)\<close> with a \<open>size_t\<close> divisor: an integer dividend is converted to \<open>size_t\<close>
  first. The quotient is assigned, or added to the component.
\<close>

fun curl_quotient :: "'f flt_ops \<Rightarrow> DataType \<Rightarrow> 'f elem \<Rightarrow> 'f elem \<Rightarrow> nat \<Rightarrow> 'f elem result" where
  "curl_quotient F T (IntV x) (IntV y) n =
     (if \<not> is_int_elem T then Inl UndefinedBehaviour
      else if n = 0 then Inl ArithmeticUB
      else bindR (int_op OP_SUBTRACT (int_promoted T) x y) (\<lambda>d.
        Inr (IntV ((d mod 18446744073709551616) div int n))))"
| "curl_quotient F T (FltV x) (FltV y) n =
     (if is_int_elem T then Inl UndefinedBehaviour
      else Inr (FltV (f_bin F OP_DIV T (f_bin F OP_SUBTRACT T x y) (f_of_int F T (int n)))))"
| "curl_quotient F T _ _ n = Inl UndefinedBehaviour"

fun curl_sum :: "'f flt_ops \<Rightarrow> DataType \<Rightarrow> 'f elem \<Rightarrow> 'f elem \<Rightarrow> 'f elem result" where
  "curl_sum F T (IntV a) (IntV q) = Inr (IntV (int_wrap T (int_wrap T a + q)))"
| "curl_sum F T (FltV a) (FltV q) = Inr (FltV (f_bin F OP_ADD T a q))"
| "curl_sum F T _ _ = Inl UndefinedBehaviour"

definition returnIndex :: "nat \<Rightarrow> nat \<Rightarrow> nat \<Rightarrow> nat list \<Rightarrow> nat" where
  "returnIndex x y z ds = (z + y * ds ! 2 + x * ds ! 2 * ds ! 1) mod 18446744073709551616"

definition prev_index :: "nat \<Rightarrow> nat" where
  "prev_index i = i - 1"

definition next_index :: "nat \<Rightarrow> nat \<Rightarrow> nat" where
  "next_index d i = min (d - 1) (i + 1)"

text \<open>One component: the difference quotient of \<open>p\<close> plus that of \<open>q\<close>.\<close>

definition curl_component ::
    "'f flt_ops \<Rightarrow> DataType \<Rightarrow> (nat \<Rightarrow> 'f elem result) \<Rightarrow> (nat \<Rightarrow> 'f elem result)
      \<Rightarrow> nat \<Rightarrow> nat \<Rightarrow> nat \<Rightarrow> nat \<Rightarrow> nat \<Rightarrow> nat \<Rightarrow> 'f elem result" where
  "curl_component F T p q p1 p0 n q1 q0 m =
     bindR (p p1) (\<lambda>x. bindR (p p0) (\<lambda>y. bindR (curl_quotient F T x y n) (\<lambda>a.
     bindR (q q1) (\<lambda>u. bindR (q q0) (\<lambda>v. bindR (curl_quotient F T u v m) (\<lambda>b.
       curl_sum F T a b))))))"

definition curl_point ::
    "'f flt_ops \<Rightarrow> DataType \<Rightarrow> (nat \<Rightarrow> 'f elem result) \<Rightarrow> (nat \<Rightarrow> 'f elem result) \<Rightarrow> (nat \<Rightarrow> 'f elem result)
      \<Rightarrow> nat list \<Rightarrow> nat list \<Rightarrow> nat \<times> nat \<times> nat \<Rightarrow> 'f elem list result" where
  "curl_point F T in1 in2 in3 ds e = (\<lambda>(i, j, k).
     let pi = prev_index i; ni = next_index (e ! 0) i;
         pj = prev_index j; nj = next_index (e ! 1) j;
         pk = prev_index k; nk = next_index (e ! 2) k
     in bindR (curl_component F T in3 in2
                 (returnIndex i nj k ds) (returnIndex i pj k ds) (nj - pj)
                 (returnIndex i j pk ds) (returnIndex i j nk ds) (nk - pk)) (\<lambda>c0.
        bindR (curl_component F T in1 in3
                 (returnIndex i j nk ds) (returnIndex i j pk ds) (nk - pk)
                 (returnIndex pi j k ds) (returnIndex ni j k ds) (ni - pi)) (\<lambda>c1.
        bindR (curl_component F T in2 in1
                 (returnIndex ni j k ds) (returnIndex pi j k ds) (ni - pi)
                 (returnIndex i pj k ds) (returnIndex i nj k ds) (nj - pj)) (\<lambda>c2.
        Inr [c0, c1, c2]))))"

text \<open>\<open>(int)dims[d]\<close> bounds the loops: a negative bound means no round.\<close>

definition int_extent :: "u64 \<Rightarrow> nat" where
  "int_extent d = nat (int_wrap DT_Int32 (uint d))"

definition ApplyCurl ::
    "'f flt_ops \<Rightarrow> DataType \<Rightarrow> (nat \<Rightarrow> 'f elem result) \<Rightarrow> (nat \<Rightarrow> 'f elem result) \<Rightarrow> (nat \<Rightarrow> 'f elem result)
      \<Rightarrow> dims \<Rightarrow> 'f elem list result" where
  "ApplyCurl F T in1 in2 in3 ds =
     (let e = map int_extent ds
      in bindR (mapR (curl_point F T in1 in2 in3 (map unat ds) e)
           (concat (map (\<lambda>i. concat (map (\<lambda>j. map (\<lambda>k. (i, j, k)) [0..<e ! 2]) [0..<e ! 1])) [0..<e ! 0])))
         (\<lambda>rows. Inr (concat rows)))"

definition Curl3DFunc :: "'f flt_ops \<Rightarrow> 'f dd list \<Rightarrow> DataType \<Rightarrow> 'f arr result" where
  "Curl3DFunc F inputs type =
     (case inputs of
        [v] \<Rightarrow>
          (let c = dd_Count v in
           if length c < 4 then Inl UndefinedBehaviour
           else if length c \<noteq> 4 \<and> c ! 3 \<noteq> 3 then Inl InvalidArgument
           else if is_attribute_type type then
             (let ds = take 3 c; n = unat (c ! 0 * c ! 1 * c ! 2);
                  r = (\<lambda>off i. rd type (dd_Data v) (off + i))
              in bindR (ApplyCurl F type (r 0) (r n) (r (2 * n)) ds) (\<lambda>es. Inr (Arr type es)))
           else Inl InvalidArgument)
      | [a, b, c] \<Rightarrow>
          (if length (dd_Count a) \<noteq> 3 then Inl InvalidArgument
           else if is_attribute_type type then
             bindR (ApplyCurl F type (rd type (dd_Data a)) (rd type (dd_Data b)) (rd type (dd_Data c))
                      (dd_Count a)) (\<lambda>es. Inr (Arr type es))
           else Inl InvalidArgument)
      | _ \<Rightarrow> Inl InvalidArgument)"

end
