(* ===== verification/Adios_ExprRun.thy ===== *)
theory Adios_ExprRun
  imports Adios_ExprFun
begin

section \<open>Derived expressions: dimensions, selections and execution\<close>

text \<open>
  The functions that query or run a compiled stream: the dimension functions and \<open>PromoteArray\<close> of
  \<open>toolkit/derived/Function.cpp\<close>, and \<open>GetDims\<close>, \<open>ComputeInputSelections\<close>, \<open>HasHalo\<close> and \<open>Execute\<close> of
  \<open>toolkit/derived/ExprCodeStream.cpp\<close>. The pool of slots is explicit: a slot has a capacity, a
  content and the number of times it was allocated, so that a pointer into a slot that was
  freed or overwritten since is visible.
\<close>

type_synonym var_dims = "dims \<times> dims \<times> dims"

subsection \<open>Dimension functions\<close>

definition SameDimsFunc :: "var_dims list \<Rightarrow> var_dims result" where
  "SameDimsFunc input =
     (case input of [] \<Rightarrow> Inl InvalidArgument
      | d # ds \<Rightarrow> if list_all (\<lambda>x. x = d) ds then Inr d else Inl InvalidArgument)"

text \<open>The constructions and copies without the last dimension; an empty vector has none to drop.\<close>

definition drop_last_dim :: "var_dims \<Rightarrow> var_dims result" where
  "drop_last_dim d =
     (case d of (s, c, sh) \<Rightarrow>
        if s = [] \<or> c = [] \<or> sh = [] then Inl LengthError else Inr (butlast s, butlast c, butlast sh))"

definition add_component_dim :: "var_dims \<Rightarrow> var_dims" where
  "add_component_dim d = (case d of (s, c, sh) \<Rightarrow> (s @ [0], c @ [3], sh @ [3]))"

definition SameDimsWithAgrFunc :: "var_dims list \<Rightarrow> var_dims result" where
  "SameDimsWithAgrFunc input =
     (case input of [] \<Rightarrow> Inl InvalidArgument | [d] \<Rightarrow> drop_last_dim d | _ \<Rightarrow> SameDimsFunc input)"

definition Cross3DDimsFunc :: "var_dims list \<Rightarrow> var_dims result" where
  "Cross3DDimsFunc input = bindR (SameDimsFunc input) (\<lambda>d. Inr (add_component_dim d))"

definition CurlDimsFunc :: "var_dims list \<Rightarrow> var_dims result" where
  "CurlDimsFunc input =
     (case input of [d] \<Rightarrow> bindR (drop_last_dim d) (\<lambda>d. Inr (add_component_dim d))
      | _ \<Rightarrow> bindR (SameDimsFunc input) (\<lambda>d. Inr (add_component_dim d)))"

text \<open>The table \<open>OpFunctions\<close>; an operator that is not in it has no entry.\<close>

definition in_OpFunctions :: "ExpressionOperator \<Rightarrow> bool" where
  "in_OpFunctions op = (op \<notin> {OP_NULL, OP_ALIAS, OP_PATH, OP_NUM, OP_INDEX, OP_PROMOTE})"

definition DimsFct :: "ExpressionOperator \<Rightarrow> var_dims list \<Rightarrow> var_dims result" where
  "DimsFct op ds =
     (if \<not> in_OpFunctions op then Inl UndefinedBehaviour
      else case op of OP_ADD \<Rightarrow> SameDimsWithAgrFunc ds
         | OP_MAGN \<Rightarrow> SameDimsWithAgrFunc ds
         | OP_CROSS \<Rightarrow> Cross3DDimsFunc ds
         | OP_CURL \<Rightarrow> CurlDimsFunc ds
         | _ \<Rightarrow> SameDimsFunc ds)"

definition ComputeFct ::
    "'f flt_ops \<Rightarrow> ExpressionOperator \<Rightarrow> 'f dd list \<Rightarrow> DataType \<Rightarrow> nat \<Rightarrow> 'f arr result" where
  "ComputeFct F op inputs type N =
     (if \<not> in_OpFunctions op then Inl InvalidArgument
      else case op of OP_ADD \<Rightarrow> AddFunc F inputs type N
         | OP_SUBTRACT \<Rightarrow> SubtractFunc F inputs type N
         | OP_NEGATE \<Rightarrow> NegateFunc F inputs type N
         | OP_MULT \<Rightarrow> MultFunc F inputs type N
         | OP_DIV \<Rightarrow> DivFunc F inputs type N
         | OP_POW \<Rightarrow> PowFunc F inputs type N
         | OP_MAGN \<Rightarrow> MagnitudeFunc F inputs type N
         | OP_CROSS \<Rightarrow> Cross3DFunc F inputs type
         | OP_CURL \<Rightarrow> Curl3DFunc F inputs type
         | _ \<Rightarrow> unary_float_func F op inputs type N)"

definition PromoteArray ::
    "'f flt_ops \<Rightarrow> DataType \<Rightarrow> DataType \<Rightarrow> 'f arr \<Rightarrow> nat \<Rightarrow> 'f arr result" where
  "PromoteArray F outType inType src N =
     (if (outType, inType) \<in> set
          [(DT_Double, DT_Float), (DT_Double, DT_Int32), (DT_Double, DT_Int64), (DT_Double, DT_Int16),
           (DT_Double, DT_Int8), (DT_Double, DT_UInt8), (DT_Double, DT_UInt16), (DT_Double, DT_UInt32),
           (DT_Double, DT_UInt64), (DT_Float, DT_Int32), (DT_Float, DT_Int16), (DT_Float, DT_Int8),
           (DT_Float, DT_UInt8), (DT_Float, DT_UInt16), (DT_Float, DT_Int64), (DT_Float, DT_UInt32),
           (DT_LongDouble, DT_Double), (DT_LongDouble, DT_Float), (DT_Int64, DT_Int32),
           (DT_Int64, DT_Int16), (DT_Int64, DT_Int8), (DT_Int32, DT_Int16), (DT_Int32, DT_Int8),
           (DT_DoubleComplex, DT_FloatComplex)]
      then DoPromoteTyped F outType inType src N else Inl InvalidArgument)"

subsection \<open>\<open>GetDims\<close> and \<open>HasHalo\<close>\<close>

definition dims_step :: "ExprInstruction \<Rightarrow> var_dims list \<Rightarrow> var_dims list result" where
  "dims_step i bufDims =
     (let ins = map (\<lambda>b. bufDims ! b) (InputBufs i)
      in if i_Op i = OP_PROMOTE then
           (case ins of [] \<Rightarrow> Inl UndefinedBehaviour | d # _ \<Rightarrow> Inr (bufDims[OutputBuf i := d]))
         else bindR (DimsFct (i_Op i) ins) (\<lambda>d. Inr (bufDims[OutputBuf i := d])))"

definition ref_dims :: "'f BufferDescriptor list \<Rightarrow> (string \<Rightarrow> var_dims option) \<Rightarrow> var_dims" where
  "ref_dims bufs nameToDims =
     (case filter (\<lambda>b. IsInput b \<and> nameToDims (b_VarName b) \<noteq> None) bufs of
        [] \<Rightarrow> ([], [], []) | b # _ \<Rightarrow> the (nameToDims (b_VarName b)))"

definition GetDims ::
    "'f ExprCodeStream \<Rightarrow> (string \<Rightarrow> var_dims option) \<Rightarrow> var_dims result" where
  "GetDims s nameToDims =
     (let start = map (\<lambda>b. if IsInput b then
                             (case nameToDims (b_VarName b) of Some d \<Rightarrow> d | None \<Rightarrow> ([], [], []))
                           else if IsConstant b then ref_dims (Buffers s) nameToDims
                           else ([], [], [])) (Buffers s)
      in bindR (foldR dims_step (Instructions s) start) (\<lambda>bufDims. Inr (bufDims ! OutputBufID s)))"

definition HasHalo :: "'f ExprCodeStream \<Rightarrow> bool" where
  "HasHalo s = list_ex (\<lambda>i. SelRule i = ExpandHalo) (Instructions s)"

subsection \<open>\<open>ComputeInputSelections\<close>\<close>

type_synonym selection = "dims \<times> dims"

definition expand_halo :: "nat \<Rightarrow> selection \<Rightarrow> selection" where
  "expand_halo h sel =
     (case sel of (s, c) \<Rightarrow>
        (map (\<lambda>x. if x \<ge> of_nat h then x - of_nat h else 0) s, map (\<lambda>x. x + 2 * of_nat h) c))"

definition trailing_component :: "selection \<Rightarrow> bool" where
  "trailing_component sel = (snd sel \<noteq> [] \<and> (last (snd sel) = 3 \<or> last (snd sel) = 0))"

text \<open>The selection an instruction needs of each of its inputs.\<close>

definition input_selection :: "ExprInstruction \<Rightarrow> selection \<Rightarrow> selection" where
  "input_selection i out =
     (case SelRule i of
        Identity \<Rightarrow> out
      | ExpandHalo \<Rightarrow>
          (let spatial = length (fst out) -
                 (if i_Op i = OP_CURL \<and> fst out \<noteq> [] \<and> trailing_component out then 1 else 0);
               sel = expand_halo (HaloSize i) (take spatial (fst out), take spatial (snd out))
           in if length (InputBufs i) = 1 \<and> i_Op i = OP_CURL
              then (fst sel @ [0], snd sel @ [0]) else sel)
      | Reshape \<Rightarrow>
          (if i_Op i = OP_CROSS then (butlast (fst out), butlast (snd out))
           else if (i_Op i = OP_MAGN \<or> i_Op i = OP_ADD) \<and> length (InputBufs i) = 1
           then (fst out @ [0], snd out @ [0])
           else if i_Op i = OP_CURL \<and> length (InputBufs i) = 1
           then (butlast (fst out) @ [0], butlast (snd out) @ [0])
           else if trailing_component out \<and> (i_Op i = OP_CURL \<or> i_Op i = OP_CROSS)
           then (butlast (fst out), butlast (snd out))
           else out))"

text \<open>The union with the selection a buffer has already, in the common dimensions.\<close>

fun union_selection :: "selection \<Rightarrow> selection \<Rightarrow> selection" where
  "union_selection (es, ec) (s, c) =
     (let n = min (length s) (length es)
      in (map (\<lambda>d. if d < n then min (es ! d) (s ! d) else es ! d) [0..<length es],
          map (\<lambda>d. if d < n then max (es ! d + ec ! d) (s ! d + c ! d) - min (es ! d) (s ! d) else ec ! d)
            [0..<length ec]))"

definition select_step ::
    "'f BufferDescriptor list \<Rightarrow> ExprInstruction \<Rightarrow> (nat \<Rightarrow> selection option)
      \<Rightarrow> (nat \<Rightarrow> selection option)" where
  "select_step bufs i sel =
     (case sel (OutputBuf i) of None \<Rightarrow> sel
      | Some out \<Rightarrow>
          fold (\<lambda>b sel. if IsConstant (bufs ! b) then sel
                        else sel(b := Some (case sel b of
                               None \<Rightarrow> input_selection i out
                             | Some old \<Rightarrow> union_selection old (input_selection i out))))
            (InputBufs i) sel)"

definition ComputeInputSelections ::
    "'f ExprCodeStream \<Rightarrow> dims \<Rightarrow> dims \<Rightarrow> string \<Rightarrow> selection option" where
  "ComputeInputSelections s outputStart outputCount =
     (let sel = fold (select_step (Buffers s)) (rev (Instructions s))
                  ((\<lambda>_. None)(OutputBufID s := Some (outputStart, outputCount)))
      in fold (\<lambda>b result. if IsInput (Buffers s ! b) \<and> sel b \<noteq> None
                          then result(b_VarName (Buffers s ! b) := sel b) else result)
           [0..<length (Buffers s)] (\<lambda>_. None))"

subsection \<open>\<open>Execute\<close>\<close>

text \<open>
  Where the \<open>Data\<close> of a buffer points: nowhere, to the caller's array, to the element of a constant,
  to a slot of the pool at its n-th allocation, or to the array that is handed to the caller.
  Caller data, constants and finished outputs do not change, so their pointers carry the array.
\<close>

datatype 'f data_ptr = NullData | CallerData "'f arr" | ConstData "'f arr" | PoolData nat nat
  | OwnData "'f arr"

record 'f BufferSlot =
  Capacity :: nat
  allocations :: nat
  content :: "'f arr"

definition uninitialised :: "'f arr" where
  "uninitialised = Arr DT_None []"

definition PoolAlloc ::
    "nat \<Rightarrow> nat \<Rightarrow> 'f BufferSlot list \<Rightarrow> 'f data_ptr \<times> 'f BufferSlot list" where
  "PoolAlloc slot bytes pool =
     (let pool1 = (if slot \<ge> length pool
                   then pool @ replicate (slot + 1 - length pool)
                          \<lparr>Capacity = 0, allocations = 0, content = uninitialised\<rparr> else pool);
          s = pool1 ! slot;
          s' = (if Capacity s < bytes
                then \<lparr>Capacity = bytes, allocations = allocations s + 1, content = uninitialised\<rparr> else s)
      in (PoolData slot (allocations s'), pool1[slot := s']))"

definition ElementSize :: "DataType \<Rightarrow> nat" where
  "ElementSize t = (if is_attribute_type t then GetDataTypeSize t else 0)"

definition AllocScalarConstant :: "'f flt_ops \<Rightarrow> 'f TypedConstant \<Rightarrow> DataType \<Rightarrow> 'f arr" where
  "AllocScalarConstant F c type =
     (if is_attribute_type type then
        Arr type [if IsIntegerType type then IntV (int_wrap type (IntVal c))
                  else elem_cast F type DT_Double (FltV (DoubleVal c))]
      else uninitialised)"

fun load :: "'f BufferSlot list \<Rightarrow> 'f data_ptr \<Rightarrow> 'f arr result" where
  "load pool NullData = Inl UndefinedBehaviour"
| "load pool (CallerData a) = Inr a"
| "load pool (ConstData a) = Inr a"
| "load pool (OwnData a) = Inr a"
| "load pool (PoolData s n) =
     (if s < length pool \<and> allocations (pool ! s) = n then Inr (content (pool ! s))
      else Inl UndefinedBehaviour)"

definition set_Data :: "'q \<Rightarrow> 'p DerivedData \<Rightarrow> 'q DerivedData" where
  "set_Data q d = \<lparr>dd_Data = q, dd_Start = dd_Start d, dd_Count = dd_Count d, dd_Type = dd_Type d,
                   dd_IsScalar = dd_IsScalar d\<rparr>"

definition load_input :: "'f BufferSlot list \<Rightarrow> 'f data_ptr DerivedData \<Rightarrow> 'f dd result" where
  "load_input pool d = bindR (load pool (dd_Data d)) (\<lambda>a. Inr (set_Data a d))"

definition outSize :: "dims \<Rightarrow> u64" where
  "outSize c = foldl (*) 1 c"

text \<open>The dimensions of the output: those of the first operand that is no scalar, or \<open>DimsFct\<close>.\<close>

definition first_dims :: "'p DerivedData list \<Rightarrow> selection" where
  "first_dims ins = (case filter (\<lambda>d. \<not> dd_IsScalar d) ins of [] \<Rightarrow> ([], [])
                     | d # _ \<Rightarrow> (dd_Start d, dd_Count d))"

definition output_dims :: "ExprInstruction \<Rightarrow> 'p DerivedData list \<Rightarrow> selection result" where
  "output_dims i ins =
     (if SelRule i = Identity then Inr (first_dims ins)
      else (case first_dims ins of (refStart, refCount) \<Rightarrow>
        bindR (DimsFct (i_Op i)
          (map (\<lambda>d. if dd_IsScalar d then (refStart, refCount, refCount)
                    else (dd_Start d, dd_Count d, dd_Count d)) ins)) (\<lambda>(s, c, _). Inr (s, c))))"

text \<open>
  The computation of one instruction on loaded operands: the array in the output buffer and its
  dimensions. It may not write more bytes than the buffer was allocated for.
\<close>

definition compute ::
    "'f flt_ops \<Rightarrow> ExprInstruction \<Rightarrow> selection \<Rightarrow> 'f dd list \<Rightarrow> 'f arr result" where
  "compute F i dims ins =
     (let N = unat (outSize (snd dims));
          outBytes = (outSize (snd dims)) * of_nat (ElementSize (i_OutputType i))
      in bindR (if i_Op i = OP_PROMOTE
                then (case ins of [] \<Rightarrow> Inl UndefinedBehaviour
                      | d # _ \<Rightarrow> PromoteArray F (i_OutputType i) (dd_Type d) (dd_Data d) N)
                else ComputeFct F (i_Op i) ins (i_OutputType i) N) (\<lambda>a.
         if length (arr_elems a) * GetDataTypeSize (arr_type a) \<le> unat outBytes then Inr a
         else Inl UndefinedBehaviour))"

text \<open>
  One instruction. The loops write the output while they read the operands: an output slot that is
  the slot of an operand is undefined behaviour in the model.
\<close>

definition exec_instr ::
    "'f flt_ops \<Rightarrow> 'f ExprCodeStream \<Rightarrow> ExprInstruction
      \<Rightarrow> 'f BufferSlot list \<times> 'f data_ptr DerivedData list
      \<Rightarrow> ('f BufferSlot list \<times> 'f data_ptr DerivedData list) result" where
  "exec_instr F s i = (\<lambda>(pool, bufData).
     let instrInputs = map (\<lambda>b. bufData ! b) (InputBufs i) in
     bindR (output_dims i instrInputs) (\<lambda>dims.
       let outBytes = unat ((outSize (snd dims)) * of_nat (ElementSize (i_OutputType i)));
           slot = PhysicalSlot (Buffers s ! OutputBuf i);
           out = (\<lambda>p. bufData[OutputBuf i := \<lparr>dd_Data = p, dd_Start = fst dims, dd_Count = snd dims,
                                              dd_Type = i_OutputType i, dd_IsScalar = False\<rparr>])
       in if OutputBuf i = OutputBufID s then
            bindR (mapR (load_input pool) instrInputs) (\<lambda>ins.
            bindR (compute F i dims ins) (\<lambda>a. Inr (pool, out (OwnData a))))
          else
            (case PoolAlloc slot outBytes pool of (p, pool1) \<Rightarrow>
               bindR (mapR (load_input pool1) instrInputs) (\<lambda>ins.
               if list_ex (\<lambda>d. case dd_Data d of PoolData s' _ \<Rightarrow> s' = slot | _ \<Rightarrow> False) instrInputs
               then Inl UndefinedBehaviour
               else bindR (compute F i dims ins) (\<lambda>a.
                 Inr (pool1[slot := (pool1 ! slot)\<lparr>content := a\<rparr>], out p))))))"

definition setup_buffer ::
    "'f flt_ops \<Rightarrow> (string \<Rightarrow> 'f dd list) \<Rightarrow> nat \<Rightarrow> 'f BufferDescriptor
      \<Rightarrow> 'f data_ptr DerivedData result" where
  "setup_buffer F nameToData blk b =
     (if IsInput b then
        (if blk < length (nameToData (b_VarName b))
         then (let d = nameToData (b_VarName b) ! blk in Inr (set_Data (CallerData (dd_Data d)) d))
         else Inl UndefinedBehaviour)
      else if IsConstant b then
        Inr \<lparr>dd_Data = ConstData (AllocScalarConstant F (ConstVal b) (b_Type b)), dd_Start = [], dd_Count = [],
             dd_Type = b_Type b, dd_IsScalar = True\<rparr>
      else Inr \<lparr>dd_Data = NullData, dd_Start = [], dd_Count = [], dd_Type = DT_None, dd_IsScalar = False\<rparr>)"

definition exec_block ::
    "'f flt_ops \<Rightarrow> 'f ExprCodeStream \<Rightarrow> (string \<Rightarrow> 'f dd list) \<Rightarrow> nat \<Rightarrow> 'f BufferSlot list
      \<Rightarrow> ('f BufferSlot list \<times> 'f data_ptr DerivedData) result" where
  "exec_block F s nameToData blk pool =
     bindR (mapR (setup_buffer F nameToData blk) (Buffers s)) (\<lambda>bufData.
     bindR (foldR (exec_instr F s) (Instructions s) (pool, bufData)) (\<lambda>(pool', bufData').
       Inr (pool', bufData' ! OutputBufID s)))"

fun exec_blocks ::
    "'f flt_ops \<Rightarrow> 'f ExprCodeStream \<Rightarrow> (string \<Rightarrow> 'f dd list) \<Rightarrow> nat list \<Rightarrow> 'f BufferSlot list
      \<Rightarrow> 'f data_ptr DerivedData list result" where
  "exec_blocks F s nameToData [] pool = Inr []"
| "exec_blocks F s nameToData (blk # blks) pool =
     bindR (exec_block F s nameToData blk pool) (\<lambda>(pool', d).
     bindR (exec_blocks F s nameToData blks pool') (\<lambda>ds. Inr (d # ds)))"

text \<open>
  \<open>Execute\<close> without an output selection. Before it returns it frees the constants and the pool, so
  what the caller reads through the returned pointers is defined only for arrays of its own and
  for the finished outputs.
\<close>

fun returned :: "'f data_ptr DerivedData \<Rightarrow> 'f dd result" where
  "returned d = (case dd_Data d of OwnData a \<Rightarrow> Inr (set_Data a d) | CallerData a \<Rightarrow> Inr (set_Data a d)
                 | _ \<Rightarrow> Inl UndefinedBehaviour)"

definition Execute ::
    "'f flt_ops \<Rightarrow> 'f ExprCodeStream \<Rightarrow> nat \<Rightarrow> (string \<Rightarrow> 'f dd list) \<Rightarrow> 'f dd list result" where
  "Execute F s numBlocks nameToData =
     bindR (exec_blocks F s nameToData [0..<numBlocks] []) (mapR returned)"

end
