(* ===== verification/Adios_ExprPlan.thy ===== *)
theory Adios_ExprPlan
  imports Adios_ExprRun
begin

section \<open>Derived expressions: the slots of temporaries\<close>

text \<open>
  What \<open>PlanBuffers\<close> promises. A temporary lives from the instruction that writes it to the last
  one that reads it; while it lives no other temporary is given its slot, and the output of an
  instruction never shares a slot with one of its operands.
\<close>

subsection \<open>Descriptors up to their bookkeeping\<close>

definition core :: "'f BufferDescriptor \<Rightarrow> 'f BufferDescriptor" where
  "core b = b\<lparr>FirstUse := 0, LastUse := 0, PhysicalSlot := 0\<rparr>"

lemma core_eqD:
  "core a = core b \<Longrightarrow> IsInput a = IsInput b \<and> IsConstant a = IsConstant b \<and> b_VarName a = b_VarName b \<and>
     ConstVal a = ConstVal b \<and> b_Type a = b_Type b"
  by (cases a; cases b) (simp add: core_def)

lemma core_upd [simp]:
  "core (b\<lparr>FirstUse := x\<rparr>) = core b" "core (b\<lparr>LastUse := x\<rparr>) = core b"
  "core (b\<lparr>PhysicalSlot := x\<rparr>) = core b"
  by (simp_all add: core_def)

lemma is_temp_core: "core a = core b \<Longrightarrow> is_temp a = is_temp b"
  by (drule core_eqD) (simp add: is_temp_def)

lemma map_core_update:
  "core x = core (bufs ! i) \<Longrightarrow> map core (bufs[i := x]) = map core bufs"
  by (cases "i < length bufs") (auto intro!: nth_equalityI simp: nth_list_update)

subsection \<open>Use ranges\<close>

lemma fold_input_ranges:
  fixes bufs :: "'f BufferDescriptor list"
  defines "g \<equiv> (\<lambda>j b (bs :: 'f BufferDescriptor list).
     bs[b := (bs ! b)\<lparr>FirstUse := min (FirstUse (bs ! b)) j, LastUse := j\<rparr>])"
  shows "length (fold (g j) ins bufs) = length bufs"
    and "map core (fold (g j) ins bufs) = map core bufs"
    and "b < length bufs \<Longrightarrow> LastUse (fold (g j) ins bufs ! b) = (if b \<in> set ins then j else LastUse (bufs ! b))"
proof -
  show len: "length (fold (g j) ins bufs) = length bufs" for bufs
    by (induction ins arbitrary: bufs) (simp_all add: g_def)
  show "map core (fold (g j) ins bufs) = map core bufs" for bufs
    by (induction ins arbitrary: bufs) (simp_all add: g_def map_core_update)
  show "b < length bufs \<Longrightarrow> LastUse (fold (g j) ins bufs ! b) = (if b \<in> set ins then j else LastUse (bufs ! b))" for bufs
    by (induction ins arbitrary: bufs) (auto simp: g_def nth_list_update)
qed

lemma range_step:
  shows "length (range_step (j, i) bufs) = length bufs"
    and "map core (range_step (j, i) bufs) = map core bufs"
    and "b < length bufs \<Longrightarrow> LastUse (range_step (j, i) bufs ! b) =
           (if b \<in> set (InputBufs i) \<or> b = OutputBuf i then j else LastUse (bufs ! b))"
  by (simp_all add: range_step_def Let_def fold_input_ranges map_core_update)
    (cases "b = OutputBuf i"; simp add: fold_input_ranges)

lemma use_ranges_snoc:
  "use_ranges (is @ [i]) bufs = range_step (length is, i) (use_ranges is bufs)"
  by (simp add: use_ranges_def enumerate_append_eq)

lemma use_ranges:
  shows "length (use_ranges is bufs) = length bufs"
    and "map core (use_ranges is bufs) = map core bufs"
  by (induction "is" rule: rev_induct) (simp_all add: use_ranges_snoc range_step, simp_all add: use_ranges_def)

lemma use_ranges_LastUse:
  "k < length is \<Longrightarrow> b \<in> set (InputBufs (is ! k)) \<Longrightarrow> b < length bufs \<Longrightarrow>
   k \<le> LastUse (use_ranges is bufs ! b)"
proof (induction "is" arbitrary: k rule: rev_induct)
  case (snoc i "is")
  show ?case
  proof (cases "k = length is")
    case True
    then show ?thesis using snoc.prems by (simp add: use_ranges_snoc range_step use_ranges)
  next
    case False
    then have "k \<le> LastUse (use_ranges is bufs ! b)"
      using snoc by (auto simp: nth_append less_Suc_eq)
    then show ?thesis using False snoc.prems by (simp add: use_ranges_snoc range_step use_ranges)
  qed
qed simp

subsection \<open>Slots\<close>

lemma alloc_slot_cases:
  assumes "alloc_slot avoid free = (s, free')"
  obtains (reuse) "s < length free" "free ! s" "s \<notin> set avoid" "free' = free[s := False]"
    | (fresh) "s = length free" "free' = free @ [False]" 
proof (cases "find (\<lambda>s. free ! s \<and> s \<notin> set avoid) [0..<length free]")
  case None
  then show thesis using assms fresh by (simp add: alloc_slot_def)
next
  case (Some t)
  then have "t < length free" "free ! t" "t \<notin> set avoid" by (auto simp: find_Some_iff)
  then show thesis by (intro reuse) (use assms Some in \<open>auto simp: alloc_slot_def\<close>)
qed

text \<open>Instructions in single-assignment form, as the code generator emits them.\<close>

definition ssa :: "ExprInstruction list \<Rightarrow> bool" where
  "ssa is = (sorted_wrt (<) (map OutputBuf is) \<and>
             (\<forall>i\<in>set is. \<forall>b\<in>set (InputBufs i). b < OutputBuf i))"

definition outs :: "ExprInstruction list \<Rightarrow> nat set" where
  "outs is = OutputBuf ` set is"

lemma ssa_snoc: "ssa (is @ [i]) \<Longrightarrow> ssa is \<and> OutputBuf i \<notin> outs is"
  by (auto simp: ssa_def outs_def sorted_wrt_append)

lemma ssa_nth_less:
  "ssa is \<Longrightarrow> m < j \<Longrightarrow> j < length is \<Longrightarrow> OutputBuf (is ! m) < OutputBuf (is ! j)"
  unfolding ssa_def using sorted_wrt_nth_less [of "(<)" "map OutputBuf is" m j] by simp

lemma ssa_defined_before:
  assumes "ssa is" "k < length is" "b \<in> set (InputBufs (is ! k))" "b \<in> outs is"
  shows "\<exists>m<k. OutputBuf (is ! m) = b"
proof -
  from assms(4) obtain m where m: "m < length is" "OutputBuf (is ! m) = b"
    by (auto simp: outs_def in_set_conv_nth)
  have "b < OutputBuf (is ! k)" using assms by (auto simp: ssa_def)
  then have "m < k" using m ssa_nth_less [OF assms(1), of k m] assms(2)
    by (metis less_asym linorder_neqE_nat nat_neq_iff)
  then show ?thesis using m by blast
qed

text \<open>The temporaries that are written before instruction \<open>j\<close> and read at \<open>j\<close> or later.\<close>

definition live :: "ExprInstruction list \<Rightarrow> nat \<Rightarrow> nat \<Rightarrow> bool" where
  "live is j b = ((\<exists>m<j. m < length is \<and> OutputBuf (is ! m) = b) \<and>
                  (\<exists>k\<ge>j. k < length is \<and> b \<in> set (InputBufs (is ! k))))"

lemma live_Suc: "live is (Suc j) b \<Longrightarrow> live is j b \<or> (j < length is \<and> b = OutputBuf (is ! j))"
  by (auto simp: live_def less_Suc_eq dest: Suc_leD)

definition plan_prefix ::
    "ExprInstruction list \<Rightarrow> nat \<Rightarrow> bool list \<times> 'f BufferDescriptor list
      \<Rightarrow> bool list \<times> 'f BufferDescriptor list" where
  "plan_prefix is j st = fold plan_instruction (take j (enumerate 0 is)) st"

lemma plan_prefix_Suc:
  "j < length is \<Longrightarrow> plan_prefix is (Suc j) st = plan_instruction (j, is ! j) (plan_prefix is j st)"
  by (simp add: plan_prefix_def take_Suc_conv_app_nth nth_enumerate_eq)

lemma plan_prefix_0 [simp]: "plan_prefix is 0 st = st"
  by (simp add: plan_prefix_def)

lemma plan_prefix_all: "plan_prefix is (length is) st = fold plan_instruction (enumerate 0 is) st"
  by (simp add: plan_prefix_def)

lemma release_inputs_length [simp]: "length (release_inputs idx ins bufs free) = length free"
  unfolding release_inputs_def by (induction ins arbitrary: free) simp_all

lemma release_inputs_nth:
  "s < length free \<Longrightarrow> release_inputs idx ins bufs free ! s \<Longrightarrow>
   free ! s \<or> (\<exists>b\<in>set ins. is_temp (bufs ! b) \<and> LastUse (bufs ! b) = idx \<and> PhysicalSlot (bufs ! b) = s)"
proof (induction ins arbitrary: free)
  case (Cons b ins)
  let ?f = "if is_temp (bufs ! b) \<and> LastUse (bufs ! b) = idx then free[PhysicalSlot (bufs ! b) := True] else free"
  have "?f ! s \<or> (\<exists>b\<in>set ins. is_temp (bufs ! b) \<and> LastUse (bufs ! b) = idx \<and> PhysicalSlot (bufs ! b) = s)"
    using Cons.IH [of ?f] Cons.prems by (simp add: release_inputs_def)
  then show ?case using Cons.prems(1) by (auto simp: nth_list_update split: if_splits)
qed (simp add: release_inputs_def)

text \<open>
  The invariant of the planning loop before instruction \<open>j\<close>: live temporaries hold slots that are
  taken and pairwise different.
\<close>

definition plan_inv ::
    "ExprInstruction list \<Rightarrow> nat \<Rightarrow> bool list \<times> 'f BufferDescriptor list \<Rightarrow> bool" where
  "plan_inv is j st =
     (case st of (free, bufs) \<Rightarrow>
        (\<forall>b. live is j b \<longrightarrow> PhysicalSlot (bufs ! b) < length free \<and> \<not> free ! PhysicalSlot (bufs ! b)) \<and>
        (\<forall>b c. live is j b \<longrightarrow> live is j c \<longrightarrow> b \<noteq> c \<longrightarrow> PhysicalSlot (bufs ! b) \<noteq> PhysicalSlot (bufs ! c)))"

definition plannable :: "ExprInstruction list \<Rightarrow> 'f BufferDescriptor list \<Rightarrow> bool" where
  "plannable is bufs =
     (ssa is \<and> (\<forall>b\<in>outs is. b < length bufs \<and> is_temp (bufs ! b)) \<and>
      (\<forall>k<length is. \<forall>b\<in>set (InputBufs (is ! k)).
         k \<le> LastUse (bufs ! b) \<and> (is_temp (bufs ! b) \<longrightarrow> b \<in> outs is)))"

lemma live_out: "live is j b \<Longrightarrow> b \<in> outs is"
  by (auto simp: live_def outs_def)

lemma plan_instruction_fields:
  assumes "plan_instruction (j, i) (free, bufs) = (free', bufs')"
  shows "length bufs' = length bufs" "map core bufs' = map core bufs"
    and "b \<noteq> OutputBuf i \<Longrightarrow> bufs' ! b = bufs ! b"
    and "LastUse (bufs' ! b) = LastUse (bufs ! b)"
proof -
  have "bufs' = bufs \<or> (\<exists>s. bufs' = bufs[OutputBuf i := (bufs ! OutputBuf i)\<lparr>PhysicalSlot := s\<rparr>])"
    using assms by (auto simp: plan_instruction_def split: if_splits prod.splits)
  then show "length bufs' = length bufs" "map core bufs' = map core bufs"
    "b \<noteq> OutputBuf i \<Longrightarrow> bufs' ! b = bufs ! b" "LastUse (bufs' ! b) = LastUse (bufs ! b)"
    by (auto simp: map_core_update nth_list_update)
       (cases "OutputBuf i < length bufs"; cases "b = OutputBuf i"; simp add: list_update_beyond)
qed

text \<open>One round keeps the invariant, and the slot it hands out is that of no live temporary.\<close>

lemma plan_instruction_inv:
  assumes inv: "plan_inv is j (free, bufs)" and ok: "plannable is bufs" and j: "j < length is"
    and step: "plan_instruction (j, is ! j) (free, bufs) = (free', bufs')"
  shows "plan_inv is (Suc j) (free', bufs')"
    and "live is j b \<Longrightarrow> PhysicalSlot (bufs' ! b) \<noteq> PhysicalSlot (bufs' ! OutputBuf (is ! j))"
proof -
  let ?i = "is ! j" and ?o = "OutputBuf (is ! j)"
  have ssa: "ssa is" and o_len: "?o < length bufs" and o_temp: "is_temp (bufs ! ?o)"
    using ok j by (auto simp: plannable_def outs_def)
  have temp: "is_temp (bufs ! c)" if "live is j c" for c
    using ok live_out [OF that] by (auto simp: plannable_def)
  have not_o: "c \<noteq> ?o" if "live is j c" for c
    using that j ssa_nth_less [OF ssa] by (fastforce simp: live_def)
  let ?rel = "release_inputs j (InputBufs ?i) bufs free"
  let ?avoid = "map (\<lambda>b. PhysicalSlot (bufs ! b)) (filter (\<lambda>b. is_temp (bufs ! b)) (InputBufs ?i))"
  obtain s where alloc: "alloc_slot ?avoid ?rel = (s, free')"
    and bufs': "bufs' = bufs[?o := (bufs ! ?o)\<lparr>PhysicalSlot := s\<rparr>]"
    using step o_temp by (auto simp: plan_instruction_def Let_def split: prod.splits)
  have slot_o: "PhysicalSlot (bufs' ! ?o) = s" using o_len by (simp add: bufs')
  have slot: "PhysicalSlot (bufs' ! c) = PhysicalSlot (bufs ! c)" if "c \<noteq> ?o" for c
    using that by (simp add: bufs')
  have len: "PhysicalSlot (bufs ! c) < length free" "\<not> free ! PhysicalSlot (bufs ! c)" if "live is j c" for c
    using inv that by (auto simp: plan_inv_def)
  have diff: "PhysicalSlot (bufs ! b) \<noteq> PhysicalSlot (bufs ! c)"
    if "live is j b" "live is j c" "b \<noteq> c" for b c
    using inv that by (auto simp: plan_inv_def)
  have input_live: "live is j c" if "c \<in> set (InputBufs ?i)" "is_temp (bufs ! c)" for c
  proof -
    have "c \<in> outs is" using ok that j by (auto simp: plannable_def)
    then show ?thesis using ssa_defined_before [OF ssa j that(1)] that(1) j by (fastforce simp: live_def)
  qed
  have kept: "\<not> ?rel ! PhysicalSlot (bufs ! c)" if c: "live is j c" and later: "live is (Suc j) c" for c
  proof
    assume "?rel ! PhysicalSlot (bufs ! c)"
    then obtain d where d: "d \<in> set (InputBufs ?i)" "LastUse (bufs ! d) = j"
      "PhysicalSlot (bufs ! d) = PhysicalSlot (bufs ! c)" "is_temp (bufs ! d)"
      using release_inputs_nth [OF len(1) [OF c]] len(2) [OF c] by blast
    have "Suc j \<le> LastUse (bufs ! c)"
      using later ok by (force simp: live_def plannable_def)
    then have "d \<noteq> c" using d(2) by auto
    then show False using diff [OF input_live [OF d(1,4)] c] d(3) by blast
  qed
  have fresh_slot: "s \<noteq> PhysicalSlot (bufs ! c)" if c: "live is j c" for c
    using alloc
  proof (cases rule: alloc_slot_cases)
    case reuse
    show ?thesis
    proof (cases "live is (Suc j) c")
      case True
      then show ?thesis using kept [OF c True] reuse(2) by auto
    next
      case False
      then have "c \<in> set (InputBufs ?i)"
        using c by (auto simp: live_def less_Suc_eq) (metis le_neq_implies_less Suc_leI)
      then have "PhysicalSlot (bufs ! c) \<in> set ?avoid" using temp [OF c] by auto
      then show ?thesis using reuse(3) by metis
    qed
  next
    case fresh
    then show ?thesis using len(1) [OF c] by simp
  qed
  show "live is j b \<Longrightarrow> PhysicalSlot (bufs' ! b) \<noteq> PhysicalSlot (bufs' ! OutputBuf (is ! j))"
    using fresh_slot slot slot_o not_o by metis
  have taken: "PhysicalSlot (bufs' ! c) < length free' \<and> \<not> free' ! PhysicalSlot (bufs' ! c)"
    if c: "live is (Suc j) c" for c
  proof (cases "c = ?o")
    case True
    show ?thesis using alloc
      by (cases rule: alloc_slot_cases) (auto simp: True slot_o nth_append)
  next
    case False
    then have "live is j c" using live_Suc [OF c] by blast
    then have "PhysicalSlot (bufs ! c) < length free" "\<not> ?rel ! PhysicalSlot (bufs ! c)"
      "s \<noteq> PhysicalSlot (bufs ! c)" using len kept [OF _ c] fresh_slot by blast+
    with alloc show ?thesis unfolding slot [OF False]
      by (cases rule: alloc_slot_cases) (auto simp: nth_append)
  qed
  have apart: "PhysicalSlot (bufs' ! b) \<noteq> PhysicalSlot (bufs' ! c)"
    if bc: "live is (Suc j) b" "live is (Suc j) c" "b \<noteq> c" for b c
  proof -
    have "b = ?o \<or> live is j b" "c = ?o \<or> live is j c" using live_Suc bc by blast+
    then show ?thesis using bc(3) fresh_slot slot slot_o not_o diff by metis
  qed
  show "plan_inv is (Suc j) (free', bufs')"
    using taken apart by (simp add: plan_inv_def)
qed

text \<open>What the loop has done to the descriptors by instruction \<open>j\<close>.\<close>

lemma plan_prefix_fields:
  assumes "j \<le> length is"
  shows "map core (snd (plan_prefix is j st)) = map core (snd st)"
    and "LastUse (snd (plan_prefix is j st) ! b) = LastUse (snd st ! b)"
    and "ssa is \<Longrightarrow> m \<le> j \<Longrightarrow> \<forall>k<length is. m \<le> k \<longrightarrow> b \<noteq> OutputBuf (is ! k) \<Longrightarrow>
           snd (plan_prefix is j st) ! b = snd (plan_prefix is m st) ! b"
proof -
  have step: "map core (snd (plan_prefix is (Suc k) st)) = map core (snd (plan_prefix is k st)) \<and>
      LastUse (snd (plan_prefix is (Suc k) st) ! b) = LastUse (snd (plan_prefix is k st) ! b) \<and>
      (b \<noteq> OutputBuf (is ! k) \<longrightarrow> snd (plan_prefix is (Suc k) st) ! b = snd (plan_prefix is k st) ! b)"
    if "k < length is" for k
    using plan_instruction_fields [of k "is ! k" "fst (plan_prefix is k st)" "snd (plan_prefix is k st)"
        "fst (plan_prefix is (Suc k) st)" "snd (plan_prefix is (Suc k) st)"] that
    by (simp add: plan_prefix_Suc)
  show "map core (snd (plan_prefix is j st)) = map core (snd st)"
    "LastUse (snd (plan_prefix is j st) ! b) = LastUse (snd st ! b)"
    using assms by (induction j) (auto simp: step)
  show "snd (plan_prefix is j st) ! b = snd (plan_prefix is m st) ! b"
    if "m \<le> j" "\<forall>k<length is. m \<le> k \<longrightarrow> b \<noteq> OutputBuf (is ! k)"
    using that assms by (induction j) (auto simp: step le_Suc_eq)
qed

lemma plannable_fields:
  assumes "map core bufs' = map core bufs" "\<And>b. LastUse (bufs' ! b) = LastUse (bufs ! b)"
    and "plannable is bufs" and small: "\<forall>i\<in>set is. \<forall>b\<in>set (InputBufs i). b < length bufs"
  shows "plannable is bufs'"
proof -
  have len: "length bufs' = length bufs" using assms(1) by (metis length_map)
  have "is_temp (bufs' ! b) = is_temp (bufs ! b)" if "b < length bufs" for b
    using assms(1) that len by (metis is_temp_core nth_map)
  then show ?thesis using assms(2,3) small len
    by (auto simp: plannable_def) (metis nth_mem)
qed

lemma ssa_inputs_small:
  "plannable is bufs \<Longrightarrow> \<forall>i\<in>set is. \<forall>b\<in>set (InputBufs i). b < length bufs"
  unfolding plannable_def ssa_def outs_def by (meson image_eqI less_trans)

lemma plan_prefix_inv:
  assumes ok: "plannable is (snd st)"
  shows "j \<le> length is \<Longrightarrow> plan_inv is j (plan_prefix is j st)"
proof (induction j)
  case 0
  show ?case by (auto simp: plan_inv_def live_def split: prod.splits)
next
  case (Suc j)
  let ?p = "plan_prefix is j st" and ?q = "plan_prefix is (Suc j) st"
  have "plannable is (snd ?p)"
    by (rule plannable_fields [OF _ _ ok ssa_inputs_small [OF ok]]) (use Suc.prems plan_prefix_fields(1,2) [of j "is" st] in simp_all)
  then show ?case
    using plan_instruction_inv(1) [of "is" j "fst ?p" "snd ?p" "fst ?q" "snd ?q"] Suc
    by (simp add: plan_prefix_Suc)
qed

text \<open>The slot of a live temporary is not the slot the instruction writes.\<close>

lemma plan_prefix_apart:
  assumes ok: "plannable is (snd st)" and j: "j < length is" and b: "live is j b"
  shows "PhysicalSlot (snd (plan_prefix is (length is) st) ! b) \<noteq>
         PhysicalSlot (snd (plan_prefix is (length is) st) ! OutputBuf (is ! j))"
proof -
  let ?p = "plan_prefix is j st" and ?q = "plan_prefix is (Suc j) st"
  have ssa: "ssa is" using ok by (simp add: plannable_def)
  have pl: "plannable is (snd ?p)"
    by (rule plannable_fields [OF _ _ ok ssa_inputs_small [OF ok]]) (use j plan_prefix_fields(1,2) [of j "is" st] in simp_all)
  have "PhysicalSlot (snd ?q ! b) \<noteq> PhysicalSlot (snd ?q ! OutputBuf (is ! j))"
    using plan_instruction_inv(2) [of "is" j "fst ?p" "snd ?p" "fst ?q" "snd ?q" b]
      plan_prefix_inv [OF ok, of j] pl j b by (simp add: plan_prefix_Suc)
  moreover have "snd (plan_prefix is (length is) st) ! c = snd ?q ! c"
    if "m \<le> j" "c = OutputBuf (is ! m)" for c m
  proof (rule plan_prefix_fields(3) [OF le_refl ssa])
    show "Suc j \<le> length is" using j by simp
    have "OutputBuf (is ! m) < OutputBuf (is ! k)" if "k < length is" "Suc j \<le> k" for k
      using ssa_nth_less [OF ssa, of m k] that \<open>m \<le> j\<close> by simp
    then show "\<forall>k<length is. Suc j \<le> k \<longrightarrow> c \<noteq> OutputBuf (is ! k)" using that(2) by force
  qed
  moreover obtain m where "m < j" "b = OutputBuf (is ! m)" using b by (auto simp: live_def)
  ultimately show ?thesis by (metis less_imp_le order_refl)
qed

end
