(* ===== verification/Adios_ExprSem.thy ===== *)
theory Adios_ExprSem
  imports Adios_ExprPlan
begin

section \<open>Derived expressions: the meaning of a tree, and generated code\<close>

text \<open>
  \<open>eval_node\<close> is the meaning of a typed expression tree: a recursive evaluator without buffers,
  instructions or slots. Operands of another type are promoted where the code inserts a
  promotion, subtrees of constants are folded, and \<open>x^2\<close> is the product. The lemmas of this theory
  show that the instructions of \<open>GenerateCode\<close>, run one after the other over numbered values,
  compute it.
\<close>

text \<open>A value is a constant or an array; both carry the type of their buffer.\<close>

datatype 'f rv = RConst "'f TypedConstant" DataType | RArr "'f dd" DataType

fun rv_type :: "'f rv \<Rightarrow> DataType" where
  "rv_type (RConst c t) = t"
| "rv_type (RArr d t) = t"

fun is_RConst :: "'f rv \<Rightarrow> bool" where
  "is_RConst (RConst c t) = True"
| "is_RConst (RArr d t) = False"

fun rv_const :: "'f rv \<Rightarrow> 'f TypedConstant" where
  "rv_const (RConst c t) = c"
| "rv_const (RArr d t) = undefined"

definition resolve_tc :: "'f flt_ops \<Rightarrow> DataType \<Rightarrow> 'f TypedConstant \<Rightarrow> 'f TypedConstant" where
  "resolve_tc F t c =
     (if Resolved c then c
      else if IsIntegerType t
      then c\<lparr>tc_Type := t, IntVal := read_int64 (StringVal c), Resolved := True\<rparr>
      else c\<lparr>tc_Type := t, DoubleVal := f_parse F (StringVal c), Resolved := True\<rparr>)"

lemma resolve_tc_Resolved [simp]: "Resolved (resolve_tc F t c)"
  by (simp add: resolve_tc_def)

lemma resolve_tc_id [simp]: "Resolved c \<Longrightarrow> resolve_tc F t c = c"
  by (simp add: resolve_tc_def)

fun resolve_rv :: "'f flt_ops \<Rightarrow> 'f rv \<Rightarrow> 'f rv" where
  "resolve_rv F (RConst c t) = RConst (resolve_tc F t c) t"
| "resolve_rv F (RArr d t) = RArr d t"

lemma rv_type_resolve [simp]: "rv_type (resolve_rv F v) = rv_type v"
  by (cases v) simp_all

definition scalar_operand :: "'f flt_ops \<Rightarrow> 'f TypedConstant \<Rightarrow> DataType \<Rightarrow> 'f dd" where
  "scalar_operand F c t = \<lparr>dd_Data = AllocScalarConstant F c t, dd_Start = [], dd_Count = [], dd_Type = t,
                          dd_IsScalar = True\<rparr>"

fun operand :: "'f flt_ops \<Rightarrow> 'f rv \<Rightarrow> 'f dd" where
  "operand F (RConst c t) = scalar_operand F c t"
| "operand F (RArr d t) = d"

text \<open>One operator on loaded operands.\<close>

definition run_op ::
    "'f flt_ops \<Rightarrow> ExpressionOperator \<Rightarrow> SelectionRule \<Rightarrow> DataType \<Rightarrow> 'f dd list \<Rightarrow> 'f dd result" where
  "run_op F op rule T ins =
     (let i = (new_instr op [] 0 T)\<lparr>SelRule := rule\<rparr>
      in bindR (output_dims i ins) (\<lambda>dims. bindR (compute F i dims ins) (\<lambda>a.
           Inr \<lparr>dd_Data = a, dd_Start = fst dims, dd_Count = snd dims, dd_Type = T, dd_IsScalar = False\<rparr>)))"

definition selection_rule :: "ExpressionOperator \<Rightarrow> nat \<Rightarrow> SelectionRule" where
  "selection_rule op n = (if op = OP_ADD \<and> n = 1 then Reshape else SelectionRuleForOp op)"

definition apply_core ::
    "'f flt_ops \<Rightarrow> ExpressionOperator \<Rightarrow> SelectionRule \<Rightarrow> DataType \<Rightarrow> 'f rv list \<Rightarrow> 'f rv result" where
  "apply_core F op rule T vs =
     (if list_all is_RConst vs
      then bindR (eval_constants F op (map rv_const vs) T) (\<lambda>c. Inr (RConst c T))
      else bindR (run_op F op rule T (map (operand F) vs)) (\<lambda>d. Inr (RArr d T)))"

definition square_args :: "'f flt_ops \<Rightarrow> ExpressionOperator \<Rightarrow> 'f rv list \<Rightarrow> bool" where
  "square_args F op vs =
     (op = OP_POW \<and> length vs = 2 \<and>
      (case vs ! 1 of RConst c t \<Rightarrow> f_eq F DT_Double (DoubleVal c) (f_of_int F DT_Double 2) | RArr d t \<Rightarrow> False))"

definition apply_op ::
    "'f flt_ops \<Rightarrow> ExpressionOperator \<Rightarrow> DataType \<Rightarrow> 'f rv list \<Rightarrow> 'f rv result" where
  "apply_op F op T args =
     (let vs = map (resolve_rv F) args
      in if square_args F op vs then apply_core F OP_MULT Identity (rv_type (vs ! 0)) [vs ! 0, vs ! 0]
         else apply_core F op (selection_rule op (length args)) T vs)"

fun eval_node :: "'f flt_ops \<Rightarrow> (string \<Rightarrow> 'f dd) \<Rightarrow> ExprNode \<Rightarrow> 'f rv result"
  and eval_children ::
    "'f flt_ops \<Rightarrow> (string \<Rightarrow> 'f dd) \<Rightarrow> nat \<Rightarrow> DataType \<Rightarrow> ExprNode list \<Rightarrow> 'f rv list result" where
  "eval_node F env (ExprNode op ns v k t) =
     (if ns = [] \<and> v \<noteq> [] then Inr (RArr (env v) t)
      else if ns = [] \<and> k \<noteq> [] then Inr (RConst ((new_const F)\<lparr>StringVal := k\<rparr>) t)
      else bindR (eval_children F env (length ns) t ns) (apply_op F op t))"
| "eval_children F env arity t [] = Inr []"
| "eval_children F env arity t (n # ns) =
     bindR (eval_node F env n) (\<lambda>r.
     bindR (if needsPromote arity t (n_Type n) then apply_op F OP_PROMOTE t [r] else Inr r) (\<lambda>r.
     bindR (eval_children F env arity t ns) (\<lambda>rs. Inr (r # rs))))"

subsection \<open>Instructions over numbered values\<close>

definition lin_step ::
    "'f flt_ops \<Rightarrow> ExprInstruction \<Rightarrow> (nat \<Rightarrow> 'f rv) \<Rightarrow> (nat \<Rightarrow> 'f rv) result" where
  "lin_step F i st =
     bindR (apply_op F (i_Op i) (i_OutputType i) (map st (InputBufs i))) (\<lambda>r. Inr (st(OutputBuf i := r)))"

lemma lin_frame: "foldR (lin_step F) is st = Inr st' \<Longrightarrow> b \<notin> outs is \<Longrightarrow> st' b = st b"
proof (induction "is" arbitrary: st)
  case (Cons i "is")
  then show ?case by (auto simp: lin_step_def bindR_Inr_iff outs_def)
qed simp

fun leaf_value :: "'f flt_ops \<Rightarrow> (string \<Rightarrow> 'f dd) \<Rightarrow> 'f BufferDescriptor \<Rightarrow> 'f rv" where
  "leaf_value F env b = (if IsInput b then RArr (env (b_VarName b)) (b_Type b) else RConst (ConstVal b) (b_Type b))"

text \<open>The values of the leaf buffers are in place.\<close>

definition leaves_ok ::
    "'f flt_ops \<Rightarrow> (string \<Rightarrow> 'f dd) \<Rightarrow> 'f BufferDescriptor list \<Rightarrow> (nat \<Rightarrow> 'f rv) \<Rightarrow> bool" where
  "leaves_ok F env bufs st =
     (\<forall>b<length bufs. \<not> is_temp (bufs ! b) \<longrightarrow> st b = leaf_value F env (bufs ! b))"

lemma leaf_value_core: "core a = core b \<Longrightarrow> leaf_value F env a = leaf_value F env b"
  by (drule core_eqD) simp

lemma leaves_ok_core:
  assumes "map core bufs' = map core bufs @ xs" "leaves_ok F env bufs' st"
  shows "leaves_ok F env bufs st"
  unfolding leaves_ok_def
proof (intro allI impI)
  fix b assume b: "b < length bufs" "\<not> is_temp (bufs ! b)"
  have len: "length bufs' = length bufs + length xs" using assms(1) by (metis length_append length_map)
  then have "core (bufs' ! b) = core (bufs ! b)"
    using assms(1) b(1) by (metis length_map nth_append nth_map trans_less_add1)
  then show "st b = leaf_value F env (bufs ! b)"
    using assms(2) b len by (metis is_temp_core leaf_value_core leaves_ok_def trans_less_add1)
qed

subsection \<open>Generated code\<close>

text \<open>What a run of the generator appends: instructions in single-assignment form for fresh temporaries.\<close>

definition code_ok ::
    "nat \<Rightarrow> 'f BufferDescriptor list \<Rightarrow> ExprInstruction list \<Rightarrow> bool" where
  "code_ok lo bufs is =
     (ssa is \<and> (\<forall>b\<in>outs is. lo \<le> b \<and> b < length bufs \<and> is_temp (bufs ! b)) \<and>
      (\<forall>b. lo \<le> b \<longrightarrow> b < length bufs \<longrightarrow> is_temp (bufs ! b) \<longrightarrow> b \<in> outs is) \<and>
      (\<forall>i\<in>set is. b_Type (bufs ! OutputBuf i) = i_OutputType i))"

definition extends ::
    "'f GenerateCodeContext \<Rightarrow> 'f GenerateCodeContext \<Rightarrow> ExprInstruction list \<Rightarrow> bool" where
  "extends c c' is =
     (Instructions (cs c') = Instructions (cs c) @ is \<and>
      (\<exists>xs. map core (Buffers (cs c')) = map core (Buffers (cs c)) @ xs) \<and>
      code_ok (length (Buffers (cs c))) (Buffers (cs c')) is)"

text \<open>Every variable has one type, and its buffer carries it.\<close>

definition var_buffer :: "'f flt_ops \<Rightarrow> string \<Rightarrow> DataType \<Rightarrow> 'f BufferDescriptor" where
  "var_buffer F v t = (new_buffer F t)\<lparr>IsInput := True, b_VarName := v\<rparr>"

definition ctx_ok :: "'f flt_ops \<Rightarrow> (string \<Rightarrow> DataType) \<Rightarrow> 'f GenerateCodeContext \<Rightarrow> bool" where
  "ctx_ok F tv c =
     (\<forall>v b. varBufMap c v = Some b \<longrightarrow>
        b < length (Buffers (cs c)) \<and> core (Buffers (cs c) ! b) = var_buffer F v (tv v))"

fun var_types :: "(string \<Rightarrow> DataType) \<Rightarrow> ExprNode \<Rightarrow> bool" where
  "var_types tv (ExprNode op ns v k t) =
     (if ns = [] \<and> v \<noteq> [] then t = tv v else list_all (var_types tv) ns)"

lemma core_new_buffer [simp]:
  "core (new_buffer F t) = new_buffer F t" "core (var_buffer F v t) = var_buffer F v t"
  by (simp_all add: core_def new_buffer_def var_buffer_def)

lemma extends_length: "extends c c' is \<Longrightarrow> length (Buffers (cs c)) \<le> length (Buffers (cs c'))"
  unfolding extends_def by (metis length_append length_map le_add1)

lemma nth_core:
  assumes "map core bs' = map core bs @ xs" "b < length bs"
  shows "core (bs' ! b) = core (bs ! b)"
proof -
  have "length bs' = length bs + length xs" using assms(1) by (metis length_append length_map)
  then show ?thesis using assms nth_map [of b bs' core] by (simp add: nth_append)
qed

lemma extends_core:
  "extends c c' is \<Longrightarrow> b < length (Buffers (cs c)) \<Longrightarrow> core (Buffers (cs c') ! b) = core (Buffers (cs c) ! b)"
  unfolding extends_def using nth_core by blast

lemma ctx_ok_extends:
  assumes "ctx_ok F tv c" "extends c c' is" "varBufMap c' = varBufMap c"
  shows "ctx_ok F tv c'"
  unfolding ctx_ok_def
proof (intro allI impI)
  fix v b assume "varBufMap c' v = Some b"
  then have b: "b < length (Buffers (cs c))" "core (Buffers (cs c) ! b) = var_buffer F v (tv v)"
    using assms(1,3) by (auto simp: ctx_ok_def)
  then show "b < length (Buffers (cs c')) \<and> core (Buffers (cs c') ! b) = var_buffer F v (tv v)"
    using extends_length [OF assms(2)] extends_core [OF assms(2) b(1)] by simp
qed

lemma leaves_ok_extends:
  "extends c c' is \<Longrightarrow> leaves_ok F env (Buffers (cs c')) st \<Longrightarrow> leaves_ok F env (Buffers (cs c)) st"
  unfolding extends_def using leaves_ok_core by blast

lemma ssa_append:
  assumes "ssa xs" "ssa ys" "\<And>x y. x \<in> outs xs \<Longrightarrow> y \<in> outs ys \<Longrightarrow> x < y"
  shows "ssa (xs @ ys)"
  using assms by (auto simp: ssa_def sorted_wrt_append outs_def)

lemma outs_append [simp]: "outs (xs @ ys) = outs xs \<union> outs ys"
  by (auto simp: outs_def)

lemma outs_simps [simp]: "outs [] = {}" "outs (i # is) = insert (OutputBuf i) (outs is)"
  by (auto simp: outs_def)

lemma extends_trans:
  assumes "extends c c1 xs" "extends c1 c2 ys"
  shows "extends c c2 (xs @ ys)"
proof -
  let ?n = "length (Buffers (cs c))" and ?n1 = "length (Buffers (cs c1))" and ?n2 = "length (Buffers (cs c2))"
  have le: "?n \<le> ?n1" "?n1 \<le> ?n2" using assms extends_length by blast+
  have temp: "is_temp (Buffers (cs c2) ! b) = is_temp (Buffers (cs c1) ! b)" if "b < ?n1" for b
    using extends_core [OF assms(2) that] by (rule is_temp_core)
  have ok: "code_ok ?n (Buffers (cs c1)) xs" "code_ok ?n1 (Buffers (cs c2)) ys"
    using assms unfolding extends_def by blast+
  have "ssa (xs @ ys)"
    using ok unfolding code_ok_def by (intro ssa_append) (blast, blast, meson less_le_trans)
  moreover have "?n \<le> b \<and> b < ?n2 \<and> is_temp (Buffers (cs c2) ! b)" if "b \<in> outs (xs @ ys)" for b
  proof (cases "b \<in> outs xs")
    case True
    then have "?n \<le> b" "b < ?n1" "is_temp (Buffers (cs c1) ! b)" using ok(1) unfolding code_ok_def by blast+
    then show ?thesis using le(2) temp by simp
  next
    case False
    then have "?n1 \<le> b" "b < ?n2" "is_temp (Buffers (cs c2) ! b)"
      using that ok(2) unfolding code_ok_def by simp_all
    then show ?thesis using le(1) by simp
  qed
  moreover have "b \<in> outs (xs @ ys)" if "?n \<le> b" "b < ?n2" "is_temp (Buffers (cs c2) ! b)" for b
  proof (cases "b < ?n1")
    case True
    then have "b \<in> outs xs" using that ok(1) temp unfolding code_ok_def by blast
    then show ?thesis by simp
  next
    case False
    then have "b \<in> outs ys" using that ok(2) unfolding code_ok_def by (meson not_less)
    then show ?thesis by simp
  qed
  moreover have "b_Type (Buffers (cs c2) ! OutputBuf i) = i_OutputType i" if "i \<in> set (xs @ ys)" for i
  proof (cases "i \<in> set xs")
    case True
    then have "b_Type (Buffers (cs c1) ! OutputBuf i) = i_OutputType i" "OutputBuf i < ?n1"
      using ok(1) unfolding code_ok_def outs_def by blast+
    then show ?thesis using core_eqD [OF extends_core [OF assms(2)]] by metis
  next
    case False
    then show ?thesis using that ok(2) unfolding code_ok_def by simp
  qed
  ultimately have "code_ok ?n (Buffers (cs c2)) (xs @ ys)" unfolding code_ok_def by blast
  moreover obtain as bs where "map core (Buffers (cs c1)) = map core (Buffers (cs c)) @ as"
    "map core (Buffers (cs c2)) = map core (Buffers (cs c1)) @ bs"
    using assms unfolding extends_def by blast
  then have "map core (Buffers (cs c2)) = map core (Buffers (cs c)) @ (as @ bs)" by simp
  moreover have "Instructions (cs c2) = Instructions (cs c) @ xs @ ys"
    using assms unfolding extends_def by simp
  ultimately show ?thesis unfolding extends_def by blast
qed

lemma extends_refl: "extends c c []"
  by (auto simp: extends_def code_ok_def ssa_def)

lemma extends_leaf:
  assumes "Instructions (cs c') = Instructions (cs c)"
    and "map core (Buffers (cs c')) = map core (Buffers (cs c)) @ [x]" "\<not> is_temp x"
  shows "extends c c' []"
proof -
  have len: "length (Buffers (cs c')) = Suc (length (Buffers (cs c)))"
    using assms(2) by (metis length_append_singleton length_map)
  have "core (Buffers (cs c') ! length (Buffers (cs c))) = x"
    using assms(2) len by (metis length_map lessI nth_append_length nth_map)
  then have "\<not> is_temp (Buffers (cs c') ! length (Buffers (cs c)))"
    using assms(3) by (auto simp: core_def is_temp_def)
  then show ?thesis using assms len
    by (auto simp: extends_def code_ok_def ssa_def less_Suc_eq)
qed

lemma extends_instr:
  assumes "Instructions (cs c') = Instructions (cs c) @ [i]"
    and "map core (Buffers (cs c')) = map core (Buffers (cs c)) @ [new_buffer F t]"
    and "OutputBuf i = length (Buffers (cs c))" "\<forall>b\<in>set (InputBufs i). b < length (Buffers (cs c))"
    and "i_OutputType i = t"
  shows "extends c c' [i]"
proof -
  have len: "length (Buffers (cs c')) = Suc (length (Buffers (cs c)))"
    using assms(2) by (metis length_append_singleton length_map)
  have "core (Buffers (cs c') ! length (Buffers (cs c))) = core (new_buffer F t)"
    using assms(2) len by (metis core_new_buffer(1) length_map lessI nth_append_length nth_map)
  from core_eqD [OF this] have "is_temp (Buffers (cs c') ! length (Buffers (cs c)))"
    "b_Type (Buffers (cs c') ! length (Buffers (cs c))) = t"
    by (simp_all add: is_temp_def new_buffer_def)
  then show ?thesis using assms len
    by (auto simp: extends_def code_ok_def ssa_def less_Suc_eq)
qed

lemma upd_buffer_fields [simp]:
  "Instructions (upd_buffer i f s) = Instructions s"
  "(\<And>b. core (f b) = core b) \<Longrightarrow> map core (Buffers (upd_buffer i f s)) = map core (Buffers s)"
  by (simp_all add: upd_buffer_def map_core_update)

lemma mark_use_fields [simp]:
  "Instructions (fold (mark_use k) bs s) = Instructions s"
  "map core (Buffers (fold (mark_use k) bs s)) = map core (Buffers s)"
  by (induction bs arbitrary: s) (simp_all add: mark_use_def)

lemma gen_var_ok:
  assumes "gen_var F v (tv v) c = (b, c')" "ctx_ok F tv c"
  shows "extends c c' [] \<and> ctx_ok F tv c' \<and> b < length (Buffers (cs c')) \<and>
     core (Buffers (cs c') ! b) = var_buffer F v (tv v)"
proof (cases "varBufMap c v")
  case (Some b')
  then show ?thesis using assms extends_refl by (auto simp: gen_var_def ctx_ok_def)
next
  case None
  let ?s = "Buffers (cs c)"
  have b: "b = length ?s" and B: "Buffers (cs c') = ?s @ [var_buffer F v (tv v)]"
    and I: "Instructions (cs c') = Instructions (cs c)" and V: "varBufMap c' = (varBufMap c)(v \<mapsto> length ?s)"
    using assms(1) None by (auto simp: gen_var_def Let_def add_buffer_def var_buffer_def)
  have "extends c c' []"
    by (rule extends_leaf [OF I, of "var_buffer F v (tv v)"]) (simp add: B, simp add: is_temp_def var_buffer_def)
  moreover have "ctx_ok F tv c'"
    using assms(2) unfolding ctx_ok_def V B by (auto simp: nth_append less_Suc_eq)
  ultimately show ?thesis by (simp add: b B)
qed

lemma gen_const_ok:
  assumes "gen_const F k t c = (b, c')" "ctx_ok F tv c"
  shows "extends c c' [] \<and> ctx_ok F tv c' \<and> b < length (Buffers (cs c')) \<and>
     Buffers (cs c') ! b = (new_buffer F t)\<lparr>IsConstant := True, ConstVal := (new_const F)\<lparr>StringVal := k\<rparr>\<rparr>"
proof -
  let ?x = "(new_buffer F t)\<lparr>IsConstant := True, ConstVal := (new_const F)\<lparr>StringVal := k\<rparr>\<rparr>"
  have b: "b = length (Buffers (cs c))" and B: "Buffers (cs c') = Buffers (cs c) @ [?x]"
    and I: "Instructions (cs c') = Instructions (cs c)" and V: "varBufMap c' = varBufMap c"
    using assms(1) by (auto simp: gen_const_def add_buffer_def)
  have ext: "extends c c' []"
    by (rule extends_leaf [OF I, of "core ?x"]) (auto simp: B is_temp_def core_def)
  then show ?thesis using ctx_ok_extends [OF assms(2) ext V] by (simp add: b B)
qed

lemma gen_promote_ok:
  assumes "gen_promote F t b0 c = (b, c')" "ctx_ok F tv c" "b0 < length (Buffers (cs c))"
  shows "extends c c' [new_instr OP_PROMOTE [b0] b t] \<and> ctx_ok F tv c' \<and> b < length (Buffers (cs c'))"
proof -
  have b: "b = length (Buffers (cs c))"
    and B: "map core (Buffers (cs c')) = map core (Buffers (cs c)) @ [new_buffer F t]"
    and I: "Instructions (cs c') = Instructions (cs c) @ [new_instr OP_PROMOTE [b0] b t]"
    and V: "varBufMap c' = varBufMap c"
    using assms(1) by (auto simp: gen_promote_def Let_def emit_def add_buffer_def)
  have ext: "extends c c' [new_instr OP_PROMOTE [b0] b t]"
    by (rule extends_instr [OF I B]) (auto simp: b new_instr_def assms(3))
  moreover have "length (Buffers (cs c')) = Suc b" using arg_cong [OF B, of length] b by simp
  ultimately show ?thesis using ctx_ok_extends [OF assms(2) ext V] by simp
qed

lemma gen_op_ok:
  assumes "gen_op F op t ins c = (b, c')" "ctx_ok F tv c" "\<forall>b\<in>set ins. b < length (Buffers (cs c))"
  shows "extends c c' [new_instr op ins b t] \<and> ctx_ok F tv c' \<and> b < length (Buffers (cs c'))"
proof -
  have b: "b = length (Buffers (cs c))"
    and B: "map core (Buffers (cs c')) = map core (Buffers (cs c)) @ [new_buffer F t]"
    and I: "Instructions (cs c') = Instructions (cs c) @ [new_instr op ins b t]"
    and V: "varBufMap c' = varBufMap c"
    using assms(1) by (auto simp: gen_op_def Let_def emit_def add_buffer_def)
  have ext: "extends c c' [new_instr op ins b t]"
    by (rule extends_instr [OF I B]) (auto simp: b new_instr_def assms(3))
  moreover have "length (Buffers (cs c')) = Suc b" using arg_cong [OF B, of length] b by simp
  ultimately show ?thesis using ctx_ok_extends [OF assms(2) ext V] by simp
qed

text \<open>One instruction after a run whose result is known.\<close>

definition computes ::
    "'f flt_ops \<Rightarrow> (string \<Rightarrow> 'f dd) \<Rightarrow> 'f BufferDescriptor list \<Rightarrow> ExprInstruction list \<Rightarrow> nat list
      \<Rightarrow> 'f rv list result \<Rightarrow> bool" where
  "computes F env bufs is bs r =
     (\<forall>st. leaves_ok F env bufs st \<longrightarrow> bindR (foldR (lin_step F) is st) (\<lambda>st'. Inr (map st' bs)) = r)"

lemma leaves_ok_run:
  assumes "leaves_ok F env bufs st" "foldR (lin_step F) is st = Inr st'" "\<forall>b\<in>outs is. is_temp (bufs ! b)"
  shows "leaves_ok F env bufs st'"
  using assms lin_frame [OF assms(2)] unfolding leaves_ok_def by metis

lemma computes_seq:
  assumes ext: "extends c c1 xs" "extends c1 c2 ys"
    and c1: "computes F env (Buffers (cs c1)) xs as r1" and as: "\<forall>b\<in>set as. b < length (Buffers (cs c1))"
    and c2: "computes F env (Buffers (cs c2)) ys bs r2"
  shows "computes F env (Buffers (cs c2)) (xs @ ys) (as @ bs)
     (bindR r1 (\<lambda>u. bindR r2 (\<lambda>v. Inr (u @ v))))"
  unfolding computes_def
proof (intro allI impI)
  fix st assume st: "leaves_ok F env (Buffers (cs c2)) st"
  have st1: "leaves_ok F env (Buffers (cs c1)) st" by (rule leaves_ok_extends [OF ext(2) st])
  show "bindR (foldR (lin_step F) (xs @ ys) st) (\<lambda>st'. Inr (map st' (as @ bs))) =
      bindR r1 (\<lambda>u. bindR r2 (\<lambda>v. Inr (u @ v)))"
  proof (cases "foldR (lin_step F) xs st")
    case (Inl e)
    then have "r1 = Inl e" using c1 st1 unfolding computes_def by fastforce
    then show ?thesis by (simp add: foldR_append Inl)
  next
    case (Inr s)
    then have r1: "r1 = Inr (map s as)" using c1 st1 unfolding computes_def by fastforce
    have "leaves_ok F env (Buffers (cs c2)) s"
      using extends_trans [OF ext] unfolding extends_def code_ok_def
      by (intro leaves_ok_run [OF st Inr]) simp
    then have r2: "bindR (foldR (lin_step F) ys s) (\<lambda>st'. Inr (map st' bs)) = r2"
      using c2 unfolding computes_def by blast
    show ?thesis
    proof (cases "foldR (lin_step F) ys s")
      case (Inl e)
      then show ?thesis using r1 r2 by (auto simp: foldR_append Inr)
    next
      case frame: (Inr s')
      have "x \<notin> outs ys" if "x \<in> set as" for x
        using that as ext(2) unfolding extends_def code_ok_def by (meson not_less)
      then have "map s' as = map s as" using lin_frame [OF frame] by simp
      then show ?thesis using r1 r2 by (auto simp: foldR_append Inr frame)
    qed
  qed
qed

lemma computes_instr:
  assumes ext: "extends c1 c2 [new_instr op bs b t]"
    and c1: "computes F env (Buffers (cs c1)) xs bs r"
  shows "computes F env (Buffers (cs c2)) (xs @ [new_instr op bs b t]) [b]
     (bindR r (\<lambda>vs. bindR (apply_op F op t vs) (\<lambda>v. Inr [v])))"
  unfolding computes_def
proof (intro allI impI)
  fix st assume "leaves_ok F env (Buffers (cs c2)) st"
  then have "leaves_ok F env (Buffers (cs c1)) st" by (rule leaves_ok_extends [OF ext])
  then have r: "bindR (foldR (lin_step F) xs st) (\<lambda>st'. Inr (map st' bs)) = r"
    using c1 unfolding computes_def by blast
  show "bindR (foldR (lin_step F) (xs @ [new_instr op bs b t]) st) (\<lambda>st'. Inr (map st' [b])) =
      bindR r (\<lambda>vs. bindR (apply_op F op t vs) (\<lambda>v. Inr [v]))"
  proof (cases "foldR (lin_step F) xs st")
    case (Inr s)
    then show ?thesis using r
      by (cases "apply_op F op t (map s bs)") (auto simp: foldR_append lin_step_def new_instr_def)
  qed (use r in \<open>auto simp: foldR_append\<close>)
qed

lemma computes_leaf:
  "b < length bufs \<Longrightarrow> \<not> is_temp (bufs ! b) \<Longrightarrow>
   computes F env bufs [] [b] (Inr [leaf_value F env (bufs ! b)])"
  by (auto simp: computes_def leaves_ok_def)

lemma computes_promote:
  assumes n: "extends c c1 xs" "computes F env (Buffers (cs c1)) xs [b1] (bindR r (\<lambda>v. Inr [v]))"
      "ctx_ok F tv c1" "b1 < length (Buffers (cs c1))"
    and p: "(if np then gen_promote F t b1 c1 else (b1, c1)) = (b, c2)"
  shows "\<exists>ys. extends c c2 ys \<and> ctx_ok F tv c2 \<and> b < length (Buffers (cs c2)) \<and>
     computes F env (Buffers (cs c2)) ys [b]
       (bindR (bindR r (\<lambda>v. if np then apply_op F OP_PROMOTE t [v] else Inr v)) (\<lambda>v. Inr [v]))"
proof (cases np)
  case True
  then have ok: "extends c1 c2 [new_instr OP_PROMOTE [b1] b t]" "ctx_ok F tv c2" "b < length (Buffers (cs c2))"
    using gen_promote_ok [OF _ n(3,4)] p by auto
  have "computes F env (Buffers (cs c2)) (xs @ [new_instr OP_PROMOTE [b1] b t]) [b]
       (bindR (bindR r (\<lambda>v. Inr [v])) (\<lambda>vs. bindR (apply_op F OP_PROMOTE t vs) (\<lambda>v. Inr [v])))"
    by (rule computes_instr [OF ok(1) n(2)])
  then show ?thesis using extends_trans [OF n(1) ok(1)] ok True
    by (intro exI conjI) (auto simp: bindR_assoc)
next
  case False
  then show ?thesis using n p
    by (intro exI [where x = xs]) (cases r; auto)
qed

lemma leaf_of_var:
  assumes "core x = var_buffer F v t"
  shows "leaf_value F env x = RArr (env v) t" "\<not> is_temp x"
proof -
  have "core x = core (var_buffer F v t)" by (simp add: assms)
  from core_eqD [OF this] show "leaf_value F env x = RArr (env v) t" "\<not> is_temp x"
    by (simp_all add: var_buffer_def new_buffer_def is_temp_def)
qed

lemma generated_code:
  fixes F :: "'f flt_ops"
  shows "var_types tv n \<Longrightarrow> ctx_ok F tv c \<Longrightarrow> GenerateCodeNode F n c = (b, c') \<Longrightarrow>
     \<exists>is. extends c c' is \<and> ctx_ok F tv c' \<and> b < length (Buffers (cs c')) \<and>
       computes F env (Buffers (cs c')) is [b] (bindR (eval_node F env n) (\<lambda>r. Inr [r]))"
    and "list_all (var_types tv) ns \<Longrightarrow> ctx_ok F tv c \<Longrightarrow> gen_children F a t ns c = (bs, c') \<Longrightarrow>
     \<exists>is. extends c c' is \<and> ctx_ok F tv c' \<and> (\<forall>b\<in>set bs. b < length (Buffers (cs c'))) \<and>
       computes F env (Buffers (cs c')) is bs (eval_children F env a t ns)"
proof (induction F n c and F a t ns c arbitrary: b c' and bs c' rule: GenerateCodeNode_gen_children.induct)
  case (1 F op ns v k t c)
  consider (var) "ns = []" "v \<noteq> []" | (const) "ns = []" "v = []" "k \<noteq> []"
    | (op) "\<not> (ns = [] \<and> v \<noteq> [])" "\<not> (ns = [] \<and> k \<noteq> [])" by blast
  then show ?case
  proof cases
    case var
    then have "extends c c' [] \<and> ctx_ok F tv c' \<and> b < length (Buffers (cs c')) \<and>
        core (Buffers (cs c') ! b) = var_buffer F v (tv v)" and t: "t = tv v"
      using gen_var_ok [of F v tv c b c'] 1 by auto
    moreover from this t have "core (Buffers (cs c') ! b) = var_buffer F v t" by simp
    then have "leaf_value F env (Buffers (cs c') ! b) = RArr (env v) t" "\<not> is_temp (Buffers (cs c') ! b)"
      by (rule leaf_of_var)+
    ultimately show ?thesis using computes_leaf [of b "Buffers (cs c')" F env] var
      by (intro exI [where x = "[]"]) simp
  next
    case const
    then have "extends c c' [] \<and> ctx_ok F tv c' \<and> b < length (Buffers (cs c')) \<and>
        Buffers (cs c') ! b = (new_buffer F t)\<lparr>IsConstant := True, ConstVal := (new_const F)\<lparr>StringVal := k\<rparr>\<rparr>"
      using gen_const_ok [of F k t c b c' tv] 1 by auto
    moreover from this have "leaf_value F env (Buffers (cs c') ! b) = RConst ((new_const F)\<lparr>StringVal := k\<rparr>) t"
      and "\<not> is_temp (Buffers (cs c') ! b)" by (simp_all add: new_buffer_def is_temp_def)
    ultimately show ?thesis using computes_leaf [of b "Buffers (cs c')" F env] const
      by (intro exI [where x = "[]"]) simp
  next
    case op
    obtain ins c1 where ch: "gen_children F (length ns) t ns c = (ins, c1)" by fastforce
    then have g: "gen_op F op t ins c1 = (b, c')" using 1(4) op by auto
    obtain xs where xs: "extends c c1 xs" "ctx_ok F tv c1" "\<forall>b\<in>set ins. b < length (Buffers (cs c1))"
      "computes F env (Buffers (cs c1)) xs ins (eval_children F env (length ns) t ns)"
      using 1(1) [OF op ] 1(2,3) op ch by auto
    have ok: "extends c1 c' [new_instr op ins b t]" "ctx_ok F tv c'" "b < length (Buffers (cs c'))"
      using gen_op_ok [OF g xs(2,3)] by blast+
    have "eval_node F env (ExprNode op ns v k t) = bindR (eval_children F env (length ns) t ns) (apply_op F op t)"
      using op by auto
    then show ?thesis using extends_trans [OF xs(1) ok(1)] ok computes_instr [OF ok(1) xs(4)]
      by (intro exI conjI) (auto simp: bindR_assoc)
  qed
next
  case (2 F a t c)
  then show ?case using extends_refl by (intro exI [where x = "[]"]) (auto simp: computes_def)
next
  case (3 F a t n ns c)
  obtain b1 c1 where n: "GenerateCodeNode F n c = (b1, c1)" by fastforce
  obtain b2 c2 where p: "(if needsPromote a t (n_Type n) then gen_promote F t b1 c1 else (b1, c1)) = (b2, c2)"
    by fastforce
  obtain bs2 c3 where ch: "gen_children F a t ns c2 = (bs2, c3)" by fastforce
  have res: "bs = b2 # bs2" "c' = c3" using 3(5) n p ch by (auto split: if_splits)
  obtain xs where xs: "extends c c1 xs" "ctx_ok F tv c1" "b1 < length (Buffers (cs c1))"
    "computes F env (Buffers (cs c1)) xs [b1] (bindR (eval_node F env n) (\<lambda>r. Inr [r]))"
    using 3(1) [OF _ 3(4) n] 3(3) by auto
  from computes_promote [OF xs(1,4,2,3) p] obtain ys where
    ys: "extends c c2 ys" "ctx_ok F tv c2" "b2 < length (Buffers (cs c2))"
    "computes F env (Buffers (cs c2)) ys [b2]
       (bindR (bindR (eval_node F env n) (\<lambda>v. if needsPromote a t (n_Type n) then apply_op F OP_PROMOTE t [v] else Inr v))
         (\<lambda>v. Inr [v]))"
    by blast
  obtain zs where zs: "extends c2 c3 zs" "ctx_ok F tv c3" "\<forall>b\<in>set bs2. b < length (Buffers (cs c3))"
    "computes F env (Buffers (cs c3)) zs bs2 (eval_children F env a t ns)"
    using 3(2) [OF n [symmetric] p [symmetric] _ ys(2) ch] 3(3) by auto
  have "computes F env (Buffers (cs c3)) (ys @ zs) ([b2] @ bs2)
     (bindR (bindR (bindR (eval_node F env n) (\<lambda>v. if needsPromote a t (n_Type n) then apply_op F OP_PROMOTE t [v] else Inr v))
         (\<lambda>v. Inr [v])) (\<lambda>u. bindR (eval_children F env a t ns) (\<lambda>v. Inr (u @ v))))"
    by (rule computes_seq [OF ys(1) zs(1) ys(4) _ zs(4)]) (use ys(3) in simp)
  then have "computes F env (Buffers (cs c')) (ys @ zs) bs (eval_children F env a t (n # ns))"
    by (simp add: res bindR_assoc)
  then show ?case using extends_trans [OF ys(1) zs(1)] zs res ys(3) extends_length [OF zs(1)]
    by (intro exI conjI) auto
qed

end
