(* ===== verification/Adios_ExprOperands.thy ===== *)
theory Adios_ExprOperands
  imports Adios_ExprSem
begin

section \<open>Derived expressions: operators on operands of known kind\<close>

text \<open>
  The loops read memory through pointers whose type comes from a dispatch on the types the compiler
  computed. This theory follows the kinds of operands (type and constant or array) through the
  operators and the reference evaluator: which kinds every operator reads correctly, and that
  type resolution establishes the kinds at every node.
\<close>

subsection \<open>Results that are no undefined behaviour\<close>

definition okR :: "('a \<Rightarrow> bool) \<Rightarrow> 'a result \<Rightarrow> bool" where
  "okR P r = (case r of Inl e \<Rightarrow> e \<noteq> UndefinedBehaviour | Inr x \<Rightarrow> P x)"

named_theorems okR_intros

lemma okR_Inr [simp]: "okR P (Inr x) = P x"
  by (simp add: okR_def)

lemma okR_Inl [simp]: "okR P (Inl e) = (e \<noteq> UndefinedBehaviour)"
  by (simp add: okR_def)

lemma okR_bind [okR_intros]: "okR P m \<Longrightarrow> (\<And>x. P x \<Longrightarrow> okR Q (f x)) \<Longrightarrow> okR Q (bindR m f)"
  by (cases m) simp_all

lemma okR_mono: "okR P r \<Longrightarrow> (\<And>x. P x \<Longrightarrow> Q x) \<Longrightarrow> okR Q r"
  by (cases r) simp_all

lemma okR_mapR [okR_intros]:
  "(\<And>x. x \<in> set xs \<Longrightarrow> okR P (f x)) \<Longrightarrow> okR (\<lambda>ys. length ys = length xs \<and> list_all P ys) (mapR f xs)"
proof (induction xs)
  case (Cons x xs)
  have "okR P (f x)" using Cons.prems by simp
  moreover have "okR (\<lambda>ys. length ys = length xs \<and> list_all P ys) (mapR f xs)" using Cons by simp
  ultimately show ?case by (auto simp: okR_def split: sum.splits)
qed simp

subsection \<open>Arrays and operands\<close>

definition elem_ok :: "DataType \<Rightarrow> 'f elem \<Rightarrow> bool" where
  "elem_ok T e = (case e of IntV i \<Rightarrow> is_int_elem T | FltV v \<Rightarrow> \<not> is_int_elem T)"

definition arr_ok :: "nat \<Rightarrow> DataType \<Rightarrow> 'f arr \<Rightarrow> bool" where
  "arr_ok N T a = (arr_type a = T \<and> length (arr_elems a) = N \<and> list_all (elem_ok T) (arr_elems a))"

text \<open>An operand of type \<open>T\<close>: one element if it is a scalar, \<open>N\<close> otherwise.\<close>

definition operand_ok :: "nat \<Rightarrow> DataType \<Rightarrow> 'f dd \<Rightarrow> bool" where
  "operand_ok N T d = (dd_Type d = T \<and>
     (is_attribute_type T \<longrightarrow> arr_ok (if dd_IsScalar d then 1 else N) T (dd_Data d)))"

lemma okR_rd [okR_intros]: "arr_ok N T a \<Longrightarrow> i < N \<Longrightarrow> okR (elem_ok T) (rd T a i)"
  by (auto simp: arr_ok_def rd_def list_all_length)

definition arith_op :: "ExpressionOperator \<Rightarrow> bool" where
  "arith_op op = (op = OP_ADD \<or> op = OP_SUBTRACT \<or> op = OP_MULT \<or> op = OP_DIV)"

lemma okR_int_op: "arith_op op \<Longrightarrow> okR (\<lambda>r. True) (int_op op P a b)"
  by (auto simp: arith_op_def int_op_def Let_def)

lemma okR_elem_bin [okR_intros]:
  "elem_ok T x \<Longrightarrow> elem_ok T y \<Longrightarrow> arith_op op \<or> \<not> is_int_elem T \<Longrightarrow> okR (elem_ok T) (elem_bin F op T x y)"
  by (cases x; cases y) (auto simp: elem_ok_def intro!: okR_bind [OF okR_int_op])

lemma okR_elem_add_square [okR_intros]:
  "elem_ok T x \<Longrightarrow> elem_ok T y \<Longrightarrow> okR (elem_ok T) (elem_add_square F T x y)"
  by (cases x; cases y) (auto simp: elem_ok_def arith_op_def intro!: okR_bind [OF okR_int_op])

lemma elem_ok_cast [simp]: "elem_ok T (elem_cast F T S x)"
  by (cases x) (auto simp: elem_ok_def)

lemma elem_ok_zero [simp]: "elem_ok T (elem_zero F T)"
  by (auto simp: elem_ok_def elem_zero_def)

lemma elem_ok_un: "elem_ok T x \<Longrightarrow> elem_ok T (elem_un F op T x)"
  by (cases x) (auto simp: elem_ok_def)

lemma okR_loop:
  assumes "\<And>i. i < N \<Longrightarrow> okR (elem_ok T) (f i)"
  shows "okR (arr_ok N T) (bindR (mapR f [0..<N]) (\<lambda>es. Inr (Arr T es)))"
proof (rule okR_bind)
  show "okR (\<lambda>ys. length ys = length [0..<N] \<and> list_all (elem_ok T) ys) (mapR f [0..<N])"
    by (rule okR_mapR) (use assms in simp)
qed (simp add: arr_ok_def)

lemma okR_read:
  assumes "arr_ok N T a" "i < N" "\<And>x. elem_ok T x \<Longrightarrow> okR Q (f x)"
  shows "okR Q (bindR (rd T a i) f)"
  by (rule okR_bind [OF okR_rd [OF assms(1,2)] assms(3)])

lemma okR_do_binary:
  assumes L: "operand_ok N L lhs" "is_attribute_type L" and R: "operand_ok N R rhs" "is_attribute_type R"
    and "\<not> (dd_IsScalar lhs \<and> dd_IsScalar rhs)" "arith_op op"
  shows "okR (arr_ok N T) (do_binary F op T L R lhs rhs N)"
proof -
  have l: "arr_ok (if dd_IsScalar lhs then 1 else N) L (dd_Data lhs)"
    and r: "arr_ok (if dd_IsScalar rhs then 1 else N) R (dd_Data rhs)"
    using L R by (auto simp: operand_ok_def)
  have e: "okR (elem_ok T) (elem_bin F op T (elem_cast F T L x) (elem_cast F T R y))" for x y
    using assms(6) by (intro okR_elem_bin) simp_all
  consider (left) "dd_IsScalar lhs" "\<not> dd_IsScalar rhs" | (right) "\<not> dd_IsScalar lhs" "dd_IsScalar rhs"
    | (arrays) "\<not> dd_IsScalar lhs" "\<not> dd_IsScalar rhs" using assms(5) by blast
  then show ?thesis
  proof cases
    case left
    then have a: "arr_ok 1 L (dd_Data lhs)" "arr_ok N R (dd_Data rhs)" using l r by simp_all
    show ?thesis unfolding do_binary_def using left
      by (simp only: if_True bindR_assoc) (rule okR_read [OF a(1)], simp, rule okR_loop, erule okR_read [OF a(2)], rule e)
  next
    case right
    then have a: "arr_ok N L (dd_Data lhs)" "arr_ok 1 R (dd_Data rhs)" using l r by simp_all
    show ?thesis unfolding do_binary_def using right
      by (simp only: if_True if_False bindR_assoc)
        (rule okR_read [OF a(2)], simp, rule okR_loop, erule okR_read [OF a(1)], rule e)
  next
    case arrays
    then have a: "arr_ok N L (dd_Data lhs)" "arr_ok N R (dd_Data rhs)" using l r by simp_all
    show ?thesis unfolding do_binary_def using arrays
      by (simp only: if_False) (rule okR_loop, rule okR_read [OF a(1)], assumption, erule okR_read [OF a(2)], rule e)
  qed
qed

subsection \<open>Dispatch\<close>

definition inline_type :: "DataType \<Rightarrow> DataType \<Rightarrow> bool" where
  "inline_type t l = (l = t \<or> IsMixedTypeHandledInline t l t)"

lemma attribute_dispatch: "is_dispatch_type T \<Longrightarrow> \<not> IsComplexType T \<Longrightarrow> is_attribute_type T"
  by (auto simp: is_dispatch_type_def is_attribute_type_def)

lemma inline_cases:
  assumes "inline_type t l"
  obtains "l = t" | "t = DT_Double" "l \<in> {DT_Float, DT_Int32, DT_Int64}" | "t = DT_Float" "l = DT_Int32"
  using assms unfolding inline_type_def IsMixedTypeHandledInline_def by blast

lemma inline_attribute: "inline_type t l \<Longrightarrow> l = t \<or> is_attribute_type t \<and> is_attribute_type l"
  by (erule inline_cases) (auto simp: is_attribute_type_def is_float_type_def IsIntegerType_def)

lemma dispatch_same: "dispatch_binary t t t = (if is_dispatch_type t then Inr (t, t, t) else Inl InvalidArgument)"
  by (simp add: dispatch_binary_def)

lemma dispatch_inline:
  "inline_type t l \<Longrightarrow> l \<noteq> t \<Longrightarrow> dispatch_binary t l t = Inr (t, l, t) \<and> dispatch_binary t t l = Inr (t, t, l)"
  by (erule inline_cases) (auto simp: dispatch_binary_def)

lemma dispatch_binary_ok:
  assumes "inline_type t l" "inline_type t r" "l = t \<or> r = t" "\<not> IsComplexType t"
  shows "okR (\<lambda>ts. ts = (t, l, r) \<and> is_attribute_type t \<and> is_attribute_type l \<and> is_attribute_type r)
           (dispatch_binary t l r)"
proof (cases "l = r")
  case True
  then show ?thesis using assms(3,4) attribute_dispatch [of t] by (simp add: dispatch_same)
next
  case False
  then show ?thesis
    using assms(1-3) dispatch_inline [of t l] dispatch_inline [of t r] inline_attribute [of t l] inline_attribute [of t r]
    by auto
qed

lemma okR_call_binary:
  assumes "inline_type t (dd_Type lhs)" "inline_type t (dd_Type rhs)" "dd_Type lhs = t \<or> dd_Type rhs = t"
    and "\<not> IsComplexType t" "operand_ok N (dd_Type lhs) lhs" "operand_ok N (dd_Type rhs) rhs"
    and "\<not> (dd_IsScalar lhs \<and> dd_IsScalar rhs)" "arith_op op"
  shows "okR (\<lambda>a. arr_ok N t a \<and> is_attribute_type t) (call_binary F op t lhs rhs N)"
  unfolding call_binary_def
proof (rule okR_bind [OF dispatch_binary_ok [OF assms(1-4)]])
  fix ts assume "ts = (t, dd_Type lhs, dd_Type rhs) \<and> is_attribute_type t \<and> is_attribute_type (dd_Type lhs) \<and>
      is_attribute_type (dd_Type rhs)"
  then show "okR (\<lambda>a. arr_ok N t a \<and> is_attribute_type t)
      (case ts of (OT, LT, RT) \<Rightarrow> do_binary F op OT LT RT lhs rhs N)"
    using okR_do_binary [OF assms(5) _ assms(6) _ assms(7,8), of t F] by (auto elim: okR_mono)
qed

lemma operand_out: "arr_ok N t a \<Longrightarrow> operand_ok N t (out_as_derived t a)"
  by (simp add: operand_ok_def out_as_derived_def)

lemma inline_refl [simp]: "inline_type t t"
  by (simp add: inline_type_def)

lemma okR_accumulate:
  assumes "\<not> IsComplexType t" "arith_op op" "\<forall>d\<in>set ds. operand_ok N t d"
  shows "arr_ok N t out \<and> is_attribute_type t \<Longrightarrow>
    okR (\<lambda>a. arr_ok N t a \<and> is_attribute_type t) (accumulate_inputs F op t N out ds)"
  using assms(3)
proof (induction ds arbitrary: out)
  case (Cons d ds)
  have d: "dd_Type d = t" "operand_ok N t d" using Cons.prems by (auto simp: operand_ok_def)
  have "okR (\<lambda>a. arr_ok N t a \<and> is_attribute_type t) (call_binary F op t (out_as_derived t out) d N)"
    using d Cons.prems(1) assms(1,2) operand_out [of N t out]
    by (intro okR_call_binary) (auto simp: out_as_derived_def)
  then show ?case
    unfolding accumulate_inputs.simps by (rule okR_bind) (use Cons in auto)
qed simp

subsection \<open>The operators\<close>

definition arr_res :: "nat \<Rightarrow> DataType \<Rightarrow> 'f arr \<Rightarrow> bool" where
  "arr_res N t a = (arr_ok N t a \<and> is_attribute_type t)"

lemmas okR_call = okR_call_binary [folded arr_res_def]
lemmas okR_acc = okR_accumulate [folded arr_res_def]

lemma operand_res: "arr_res N t a \<Longrightarrow> operand_ok N t (out_as_derived t a)"
  by (simp add: arr_res_def operand_out)

lemma out_as_derived_simps [simp]:
  "dd_Type (out_as_derived t a) = t" "dd_Data (out_as_derived t a) = a" "\<not> dd_IsScalar (out_as_derived t a)"
  by (simp_all add: out_as_derived_def)

lemma operand_type: "operand_ok N T d \<Longrightarrow> dd_Type d = T"
  by (simp add: operand_ok_def)

text \<open>Two operands of an arithmetic operator, one of them an array and one of the result type.\<close>

definition pair_ok :: "nat \<Rightarrow> DataType \<Rightarrow> 'f dd \<Rightarrow> 'f dd \<Rightarrow> bool" where
  "pair_ok N t a b = (inline_type t (dd_Type a) \<and> inline_type t (dd_Type b) \<and> (dd_Type a = t \<or> dd_Type b = t) \<and>
     operand_ok N (dd_Type a) a \<and> operand_ok N (dd_Type b) b \<and> \<not> (dd_IsScalar a \<and> dd_IsScalar b))"

lemma okR_pair:
  "pair_ok N t a b \<Longrightarrow> \<not> IsComplexType t \<Longrightarrow> arith_op op \<Longrightarrow> okR (arr_res N t) (call_binary F op t a b N)"
  unfolding pair_ok_def by (rule okR_call) blast+

lemma pair_same:
  "operand_ok N t a \<Longrightarrow> operand_ok N t b \<Longrightarrow> \<not> (dd_IsScalar a \<and> dd_IsScalar b) \<Longrightarrow> pair_ok N t a b"
  using operand_type [of N t a] operand_type [of N t b] by (simp add: pair_ok_def)

lemma okR_sum_like:
  assumes "pair_ok N t a b" "\<not> IsComplexType t" "arith_op op" "\<forall>d\<in>set ds. operand_ok N t d"
  shows "okR (arr_res N t) (bindR (call_binary F op t a b N) (\<lambda>out. accumulate_inputs F op t N out ds))"
  by (rule okR_bind [OF okR_pair [OF assms(1-3)]]) (rule okR_acc [OF assms(2,3,4)])

lemma okR_rest_like:
  fixes F :: "'f flt_ops"
  assumes "pair_ok N t b c" "\<not> IsComplexType t" "arith_op op1" "arith_op op2" "\<forall>d\<in>set ds. operand_ok N t d"
    and "operand_ok N t a"
  shows "okR (arr_res N t) (bindR (call_binary F op1 t b c N) (\<lambda>out.
     bindR (accumulate_inputs F op1 t N out ds) (\<lambda>out. call_binary F op2 t a (out_as_derived t out) N)))"
proof (rule okR_bind [OF okR_pair [OF assms(1-3)]], rule okR_bind [OF okR_acc [OF assms(2,3,5)]])
  fix out :: "'f arr" assume "arr_res N t out"
  then show "okR (arr_res N t) (call_binary F op2 t a (out_as_derived t out) N)"
    using assms(6) by (intro okR_pair [OF pair_same _ assms(4)] operand_res assms(2)) simp_all
qed

lemma okR_unary_loop:
  assumes "arr_ok N t a" "\<And>x. elem_ok t x \<Longrightarrow> okR (elem_ok t) (f x)"
  shows "okR (arr_ok N t) (bindR (mapR (\<lambda>i. bindR (rd t a i) f) [0..<N]) (\<lambda>es. Inr (Arr t es)))"
  by (rule okR_loop, erule okR_read [OF assms(1)], rule assms(2))

lemma okR_arr_res: "okR (arr_ok N t) r \<Longrightarrow> is_attribute_type t \<Longrightarrow> okR (arr_res N t) r"
  by (erule okR_mono) (simp add: arr_res_def)

lemma float_attribute: "is_float_type t \<Longrightarrow> is_attribute_type t" "is_float_type t \<Longrightarrow> \<not> is_int_elem t"
  by (auto simp: is_float_type_def is_attribute_type_def is_int_elem_def IsIntegerType_def)

lemma operand_array: "operand_ok N t d \<Longrightarrow> is_attribute_type t \<Longrightarrow> \<not> dd_IsScalar d \<Longrightarrow> arr_ok N t (dd_Data d)"
  by (simp add: operand_ok_def)

lemma okR_unary_float:
  assumes "operand_ok N t a" "\<not> dd_IsScalar a"
  shows "okR (arr_res N t) (unary_float_func F op [a] t N)"
proof (cases "is_float_type t")
  case True
  then have a: "arr_ok N t (dd_Data a)" using assms float_attribute operand_array by blast
  show ?thesis
    unfolding unary_float_func_def do_unary_def using True
    by (simp del: elem_un.simps)
      (intro okR_arr_res okR_unary_loop [OF a] float_attribute(1); simp add: elem_ok_un)
qed (simp add: unary_float_func_def)

lemma okR_negate:
  assumes "operand_ok N t a" "\<not> dd_IsScalar a" "\<not> IsComplexType t"
  shows "okR (arr_res N t) (NegateFunc F [a] t N)"
proof (cases "is_dispatch_type t")
  case True
  then have t: "is_attribute_type t" using assms(3) by (rule attribute_dispatch)
  then have a: "arr_ok N t (dd_Data a)" using assms operand_array by blast
  show ?thesis
    unfolding NegateFunc_def DoNegate_def using True
    by simp (intro okR_arr_res okR_unary_loop [OF a] t okR_elem_bin; simp add: arith_op_def)
qed (simp add: NegateFunc_def)

lemma okR_pow:
  assumes "operand_ok N t a" "operand_ok N t b" "\<not> dd_IsScalar a"
  shows "okR (arr_res N t) (PowFunc F [a, b] t N)"
proof (cases "is_float_type t")
  case True
  note t = float_attribute [OF True]
  have a: "arr_ok N t (dd_Data a)" using assms t operand_array by blast
  have e: "okR (elem_ok t) (elem_bin F op t x y)" if "elem_ok t x" "elem_ok t y" for op x y
    using okR_elem_bin [OF that] t(2) by blast
  have "okR (arr_ok N t) (DoPow F t a b N)"
  proof (cases "dd_IsScalar b")
    case b: True
    then have r: "arr_ok 1 t (dd_Data b)" using assms(2) t(1) by (simp add: operand_ok_def)
    show ?thesis unfolding DoPow_def using b
      by (simp only: if_True bindR_assoc)
        (rule okR_read [OF r], simp, split if_split,
         intro conjI impI okR_unary_loop [OF a] e)
  next
    case False
    then have r: "arr_ok N t (dd_Data b)" using assms(2) t(1) operand_array by blast
    show ?thesis unfolding DoPow_def using False
      by (simp only: if_False) (rule okR_loop, rule okR_read [OF a], assumption, erule okR_read [OF r], rule e)
  qed
  then show ?thesis unfolding PowFunc_def using True t by (simp add: okR_arr_res)
qed (simp add: PowFunc_def)

lemma okR_mag3:
  assumes "arr_ok N t a" "arr_ok N t b" "arr_ok N t c"
  shows "okR (arr_ok N t) (DoMagnitude3 F t a b c N)"
  unfolding DoMagnitude3_def
proof (rule okR_loop)
  fix i assume i: "i < N"
  show "okR (elem_ok t) (bindR (rd t a i) (\<lambda>x. bindR (rd t b i) (\<lambda>y. bindR (rd t c i) (\<lambda>z.
        bindR (elem_bin F OP_MULT t x x) (\<lambda>s. bindR (elem_add_square F t s y) (\<lambda>s.
        bindR (elem_add_square F t s z) (\<lambda>s. Inr (elem_un F OP_SQRT t s))))))))"
  proof (rule okR_read [OF assms(1) i], rule okR_read [OF assms(2) i], rule okR_read [OF assms(3) i])
    fix x y z :: "'a elem" assume e: "elem_ok t x" "elem_ok t y" "elem_ok t z"
    show "okR (elem_ok t) (bindR (elem_bin F OP_MULT t x x) (\<lambda>s. bindR (elem_add_square F t s y) (\<lambda>s.
        bindR (elem_add_square F t s z) (\<lambda>s. Inr (elem_un F OP_SQRT t s)))))"
      using e by (intro okR_bind [OF okR_elem_bin] okR_bind [OF okR_elem_add_square])
        (simp_all add: arith_op_def elem_ok_un)
  qed
qed

lemma okR_add_squares:
  assumes "\<forall>d\<in>set ds. arr_ok N t (dd_Data d)"
  shows "length out = N \<Longrightarrow> list_all (elem_ok t) out \<Longrightarrow>
    okR (\<lambda>es. length es = N \<and> list_all (elem_ok t) es) (add_squares F t N out ds)"
  using assms
proof (induction ds arbitrary: out)
  case (Cons d ds)
  have "okR (\<lambda>es. length es = length [0..<N] \<and> list_all (elem_ok t) es)
     (mapR (\<lambda>i. bindR (rd t (dd_Data d) i) (\<lambda>x. elem_add_square F t (out ! i) x)) [0..<N])"
  proof (rule okR_mapR)
    fix i assume "i \<in> set [0..<N]"
    then have i: "i < N" by simp
    have d: "arr_ok N t (dd_Data d)" using Cons.prems by simp
    show "okR (elem_ok t) (bindR (rd t (dd_Data d) i) (\<lambda>x. elem_add_square F t (out ! i) x))"
      by (rule okR_read [OF d i], rule okR_elem_add_square) (use Cons.prems i in \<open>simp_all add: list_all_length\<close>)
  qed
  then show ?case
    unfolding add_squares.simps by (rule okR_bind) (use Cons in auto)
qed simp

lemma okR_magnitude:
  assumes "length ds \<ge> 2" "\<forall>d\<in>set ds. operand_ok N t d \<and> \<not> dd_IsScalar d"
  shows "okR (arr_res N t) (MagnitudeFunc F ds t N)"
proof (cases "is_float_type t")
  case True
  note t = float_attribute [OF True]
  have a: "\<forall>d\<in>set ds. arr_ok N t (dd_Data d)" using assms(2) t(1) operand_array by blast
  obtain a b cs where ds: "ds = a # b # cs" using assms(1) by (cases ds; cases "tl ds") auto
  have first: "okR (\<lambda>es. length es = length [0..<N] \<and> list_all (elem_ok t) es)
      (mapR (\<lambda>i. bindR (rd t (dd_Data a) i) (\<lambda>x. elem_bin F OP_MULT t x x)) [0..<N])"
  proof (rule okR_mapR)
    fix i assume "i \<in> set [0..<N]"
    then show "okR (elem_ok t) (bindR (rd t (dd_Data a) i) (\<lambda>x. elem_bin F OP_MULT t x x))"
      using a ds t(2) by (intro okR_read [of N t] okR_elem_bin) simp_all
  qed
  have magN: "okR (arr_res N t) (DoMagnitudeN F t ds N)"
    unfolding DoMagnitudeN_def ds list.case
  proof (rule okR_arr_res [OF okR_bind [OF first okR_bind [OF okR_add_squares]] t(1)])
    fix es :: "'a elem list" assume "length es = N \<and> list_all (elem_ok t) es"
    then show "okR (arr_ok N t) (Inr (Arr t (map (elem_un F OP_SQRT t) es)))"
      by (simp add: arr_ok_def list_all_iff elem_ok_un)
  qed (use a ds in simp_all)
  show ?thesis
  proof (cases cs)
    case Nil
    then show ?thesis using magN True by (simp add: MagnitudeFunc_def ds)
  next
    case (Cons c rest)
    then show ?thesis using magN True assms(2) a okR_mag3 [of N t "dd_Data a" "dd_Data b" "dd_Data c" F] t(1)
      by (cases rest) (simp_all add: MagnitudeFunc_def ds okR_arr_res)
  qed
next
  case False
  obtain a b cs where "ds = a # b # cs" using assms(1) by (cases ds; cases "tl ds") auto
  then show ?thesis using False by (cases cs; cases "tl cs") (simp_all add: MagnitudeFunc_def)
qed

lemma okR_promote:
  assumes "operand_ok N T d" "\<not> dd_IsScalar d" "\<not> IsComplexType t"
  shows "okR (arr_res N t) (PromoteArray F t T (dd_Data d) N)"
proof (cases "PromoteArray F t T (dd_Data d) N = Inl InvalidArgument")
  case False
  then have P: "PromoteArray F t T (dd_Data d) N = DoPromoteTyped F t T (dd_Data d) N"
    unfolding PromoteArray_def by presburger
  have t: "is_attribute_type t" "is_attribute_type T"
    using False assms(3) unfolding PromoteArray_def
    by (auto simp: is_attribute_type_def is_float_type_def IsIntegerType_def IsComplexType_def split: if_splits)
  then have a: "arr_ok N T (dd_Data d)" using assms operand_array by blast
  show ?thesis
    unfolding P DoPromoteTyped_def
    by (intro okR_arr_res okR_loop okR_read [OF a] t(1)) simp_all
qed simp

subsection \<open>Operands by kind\<close>

text \<open>The kind of an operand: its type after a promotion, and whether it is a constant.\<close>

type_synonym kind = "DataType \<times> bool"

definition kinds_typed :: "ExpressionOperator \<Rightarrow> DataType \<Rightarrow> kind list \<Rightarrow> bool" where
  "kinds_typed op t ks =
     (list_all (\<lambda>k. inline_type t (fst k)) ks \<and> (length ks \<noteq> 2 \<longrightarrow> list_all (\<lambda>k. fst k = t) ks) \<and>
      (\<not> IsFloatOp op \<longrightarrow> list_ex (\<lambda>k. fst k = t) ks))"

definition op_safe :: "ExpressionOperator \<Rightarrow> DataType \<Rightarrow> kind list \<Rightarrow> bool" where
  "op_safe op t ks =
     (ks \<noteq> [] \<and> (op = OP_POW \<longrightarrow> list_all (\<lambda>k. fst k = t) ks) \<and>
      (list_all snd ks \<or>
       (case op of
          OP_ADD \<Rightarrow> (case ks of a # b # _ \<Rightarrow> \<not> (snd a \<and> snd b) | _ \<Rightarrow> False)
        | OP_MULT \<Rightarrow> (case ks of a # b # _ \<Rightarrow> \<not> (snd a \<and> snd b) | _ \<Rightarrow> False)
        | OP_SUBTRACT \<Rightarrow> (case ks of [a, b] \<Rightarrow> \<not> (snd a \<and> snd b) | a # b # c # _ \<Rightarrow> \<not> (snd b \<and> snd c) | _ \<Rightarrow> False)
        | OP_DIV \<Rightarrow> (case ks of [a, b] \<Rightarrow> \<not> (snd a \<and> snd b) | a # b # c # _ \<Rightarrow> \<not> (snd b \<and> snd c) | _ \<Rightarrow> False)
        | OP_POW \<Rightarrow> length ks = 2 \<and> \<not> snd (ks ! 0)
        | OP_MAGN \<Rightarrow> length ks \<ge> 2 \<and> list_all (\<lambda>k. fst k = t \<and> \<not> snd k) ks
        | _ \<Rightarrow> op \<in> {OP_NEGATE, OP_SQRT, OP_SIN, OP_COS, OP_TAN, OP_ASIN, OP_ACOS, OP_ATAN} \<and> length ks = 1)))"

definition has_kind :: "nat \<Rightarrow> dims \<Rightarrow> kind \<Rightarrow> 'f dd \<Rightarrow> bool" where
  "has_kind N C k d = (operand_ok N (fst k) d \<and> dd_IsScalar d = snd k \<and> (\<not> snd k \<longrightarrow> dd_Count d = C))"

lemma has_kind_type: "has_kind N C k d \<Longrightarrow> dd_Type d = fst k"
  unfolding has_kind_def using operand_type by blast

lemma pair_kinds:
  assumes "has_kind N C a d" "has_kind N C b e" "inline_type t (fst a)" "inline_type t (fst b)"
    and "fst a = t \<or> fst b = t" "\<not> (snd a \<and> snd b)"
  shows "pair_ok N t d e"
  using assms has_kind_type [OF assms(1)] has_kind_type [OF assms(2)] by (simp add: pair_ok_def has_kind_def)

lemma same_kinds:
  "list_all2 (has_kind N C) ks ds \<Longrightarrow> list_all (\<lambda>k. fst k = t) ks \<Longrightarrow> \<forall>d\<in>set ds. operand_ok N t d"
  by (induction rule: list_all2_induct) (auto simp: has_kind_def)

lemma okR_sums:
  assumes "list_all2 (has_kind N C) ks ds" "kinds_typed op t ks" "\<not> IsComplexType t" "\<not> IsFloatOp op" "arith_op op1"
    and "ks = a # b # rest" "\<not> (snd a \<and> snd b)"
  obtains d e es where "ds = d # e # es"
    "okR (arr_res N t) (bindR (call_binary F op1 t d e N) (\<lambda>out. accumulate_inputs F op1 t N out es))"
proof -
  obtain d e es where ds: "ds = d # e # es" "has_kind N C a d" "has_kind N C b e" "list_all2 (has_kind N C) rest es"
    using assms(1,6) by (auto simp: list_all2_Cons1)
  have k: "inline_type t (fst a)" "inline_type t (fst b)" "fst a = t \<or> fst b = t" "list_all (\<lambda>k. fst k = t) rest"
    using assms(2,4,6) by (cases rest; auto simp: kinds_typed_def)+
  show ?thesis
    by (rule that [OF ds(1) okR_sum_like [OF pair_kinds [OF ds(2,3) k(1-3) assms(7)] assms(3,5) same_kinds [OF ds(4) k(4)]]])
qed

lemma okR_rests:
  assumes "list_all2 (has_kind N C) ks ds" "kinds_typed op t ks" "\<not> IsComplexType t" "arith_op op1" "arith_op op2"
    and "ks = a # b # c # rest" "\<not> (snd b \<and> snd c)"
  obtains d e f es where "ds = d # e # f # es"
    "okR (arr_res N t) (bindR (call_binary F op1 t e f N) (\<lambda>out.
       bindR (accumulate_inputs F op1 t N out es) (\<lambda>out. call_binary F op2 t d (out_as_derived t out) N)))"
proof -
  obtain d e f es where ds: "ds = d # e # f # es" "has_kind N C a d" "has_kind N C b e" "has_kind N C c f"
    "list_all2 (has_kind N C) rest es" using assms(1,6) by (auto simp: list_all2_Cons1)
  have k: "fst a = t" "fst b = t" "fst c = t" "list_all (\<lambda>k. fst k = t) rest"
    using assms(2,6) by (auto simp: kinds_typed_def)
  have p: "pair_ok N t e f" using pair_kinds [OF ds(3,4)] k assms(7) by simp
  have d: "operand_ok N t d" using ds(2) k(1) by (simp add: has_kind_def)
  show ?thesis by (rule that [OF ds(1) okR_rest_like [OF p assms(3-5) same_kinds [OF ds(5) k(4)] d]])
qed

lemma ComputeFct_simps:
  "ComputeFct F OP_ADD ins t N = AddFunc F ins t N"
  "ComputeFct F OP_SUBTRACT ins t N = SubtractFunc F ins t N"
  "ComputeFct F OP_MULT ins t N = MultFunc F ins t N"
  "ComputeFct F OP_DIV ins t N = DivFunc F ins t N"
  "ComputeFct F OP_NEGATE ins t N = NegateFunc F ins t N"
  "ComputeFct F OP_POW ins t N = PowFunc F ins t N"
  "ComputeFct F OP_MAGN ins t N = MagnitudeFunc F ins t N"
  "op \<in> {OP_SQRT, OP_SIN, OP_COS, OP_TAN, OP_ASIN, OP_ACOS, OP_ATAN} \<Longrightarrow>
     ComputeFct F op ins t N = unary_float_func F op ins t N"
  by (auto simp: ComputeFct_def in_OpFunctions_def)

lemma okR_unary_kinds:
  assumes "list_all2 (has_kind N C) ks ds" "kinds_typed op t ks" "length ks = 1" "\<not> list_all snd ks"
  obtains d where "ds = [d]" "operand_ok N t d" "\<not> dd_IsScalar d"
proof -
  obtain k where k: "ks = [k]" using assms(3) by (cases ks) auto
  then obtain d where "ds = [d]" "has_kind N C k d" using assms(1) by (auto simp: list_all2_Cons1)
  then show ?thesis using that assms(2,4) k by (auto simp: kinds_typed_def has_kind_def)
qed

lemma okR_binary_case:
  assumes "list_all2 (has_kind N C) ks ds" "kinds_typed op t ks" "\<not> IsComplexType t" "op = OP_SUBTRACT \<or> op = OP_DIV"
    and "op_safe op t ks" "\<not> list_all snd ks"
  shows "okR (arr_res N t) (ComputeFct F op ds t N)"
proof -
  have op: "arith_op op" "\<not> IsFloatOp op" using assms(4) by (auto simp: arith_op_def IsFloatOp_def)
  have some: "ks \<noteq> []" "tl ks \<noteq> []" using assms(4-6) by (auto simp: op_safe_def split: list.splits)
  then obtain a b rest where ks: "ks = a # b # rest" by (cases ks; cases "tl ks") auto
  show ?thesis
  proof (cases rest)
    case Nil
    then have ns: "\<not> (snd a \<and> snd b)" using assms(6) ks by simp
    obtain d e es where ds: "ds = d # e # es"
      and ok: "okR (arr_res N t) (bindR (call_binary F op t d e N) (\<lambda>out. accumulate_inputs F op t N out es))"
      by (rule okR_sums [OF assms(1-3) op(2,1) ks ns])
    have es: "es = []" using assms(1) ds ks Nil by simp
    have "okR (arr_res N t) (call_binary F op t d e N)"
      using ok unfolding es accumulate_inputs.simps by (cases "call_binary F op t d e N") simp_all
    then show ?thesis using assms(4) ds es by (auto simp: ComputeFct_simps SubtractFunc_def DivFunc_def)
  next
    case (Cons c rest')
    then have ns: "\<not> (snd b \<and> snd c)" using assms(4-6) ks by (auto simp: op_safe_def)
    have rests: "okR (arr_res N t) (bindR (call_binary F op1 t e f N) (\<lambda>out.
        bindR (accumulate_inputs F op1 t N out es) (\<lambda>out. call_binary F op t d (out_as_derived t out) N)))"
      if "ds = d # e # f # es" "arith_op op1" for op1 d e f es
      by (rule okR_rests [OF assms(1-3) that(2) op(1) ks [unfolded Cons] ns]) (use that(1) in simp)
    obtain d e f es where ds: "ds = d # e # f # es" using assms(1) ks Cons by (auto simp: list_all2_Cons1)
    show ?thesis using assms(4) rests [OF ds, of OP_ADD] rests [OF ds, of OP_MULT]
      by (auto simp: ComputeFct_simps SubtractFunc_def DivFunc_def ds arith_op_def)
  qed
qed

lemma okR_sum_case:
  assumes "list_all2 (has_kind N C) ks ds" "kinds_typed op t ks" "\<not> IsComplexType t" "op = OP_ADD \<or> op = OP_MULT"
    and "op_safe op t ks" "\<not> list_all snd ks"
  shows "okR (arr_res N t) (ComputeFct F op ds t N)"
proof -
  have op: "arith_op op" "\<not> IsFloatOp op" using assms(4) by (auto simp: arith_op_def IsFloatOp_def)
  obtain a b rest where ks: "ks = a # b # rest" and ns: "\<not> (snd a \<and> snd b)"
    using assms(4-6) by (auto simp: op_safe_def split: list.splits)
  obtain d e es where ds: "ds = d # e # es"
    and ok: "okR (arr_res N t) (bindR (call_binary F op t d e N) (\<lambda>out. accumulate_inputs F op t N out es))"
    by (rule okR_sums [OF assms(1-3) op(2,1) ks ns])
  then show ?thesis using assms(4) by (auto simp: ComputeFct_simps AddFunc_def MultFunc_def)
qed

lemma list_all2_length2:
  assumes "list_all2 P ks ds" "length ks = 2"
  obtains a b d e where "ks = [a, b]" "ds = [d, e]" "P a d" "P b e"
  using assms by (auto simp: list_all2_Cons1 length_Suc_conv numeral_2_eq_2)

lemma okR_pow_case:
  assumes "list_all2 (has_kind N C) ks ds" "op_safe OP_POW t ks" "\<not> list_all snd ks"
  shows "okR (arr_res N t) (ComputeFct F OP_POW ds t N)"
proof -
  have ks: "length ks = 2" "\<not> snd (ks ! 0)" "list_all (\<lambda>k. fst k = t) ks"
    using assms(2,3) by (auto simp: op_safe_def)
  obtain a b d e where "ks = [a, b]" "ds = [d, e]" "has_kind N C a d" "has_kind N C b e"
    by (rule list_all2_length2 [OF assms(1) ks(1)])
  then show ?thesis using ks okR_pow [of N t d e F] by (simp add: ComputeFct_simps has_kind_def)
qed

lemma okR_magn_case:
  assumes "list_all2 (has_kind N C) ks ds" "op_safe OP_MAGN t ks" "\<not> list_all snd ks"
  shows "okR (arr_res N t) (ComputeFct F OP_MAGN ds t N)"
proof -
  have ks: "length ks \<ge> 2" "list_all (\<lambda>k. fst k = t \<and> \<not> snd k) ks"
    using assms(2,3) by (auto simp: op_safe_def)
  have len: "length ds = length ks" using list_all2_lengthD [OF assms(1)] by simp
  have "\<forall>d\<in>set ds. operand_ok N t d \<and> \<not> dd_IsScalar d"
    using assms(1) ks(2) by (induction rule: list_all2_induct) (auto simp: has_kind_def)
  then show ?thesis using ks(1) len by (simp add: ComputeFct_simps okR_magnitude)
qed

lemma okR_ComputeFct:
  assumes "list_all2 (has_kind N C) ks ds" "kinds_typed op t ks" "\<not> IsComplexType t"
    and "op_safe op t ks" "\<not> list_all snd ks"
  shows "okR (arr_res N t) (ComputeFct F op ds t N)"
proof -
  consider "op = OP_ADD \<or> op = OP_MULT" | "op = OP_SUBTRACT \<or> op = OP_DIV" | "op = OP_POW" | "op = OP_MAGN"
    | "op = OP_NEGATE" "length ks = 1"
    | "op \<in> {OP_SQRT, OP_SIN, OP_COS, OP_TAN, OP_ASIN, OP_ACOS, OP_ATAN}" "length ks = 1"
    using assms(4,5) by (cases op) (auto simp: op_safe_def)
  then show ?thesis
  proof cases
    case 1
    then show ?thesis by (rule okR_sum_case [OF assms(1-3) _ assms(4,5)])
  next
    case 2
    then show ?thesis by (rule okR_binary_case [OF assms(1-3) _ assms(4,5)])
  next
    case 3
    then show ?thesis using okR_pow_case [OF assms(1) _ assms(5)] assms(4) by simp
  next
    case 4
    then show ?thesis using okR_magn_case [OF assms(1) _ assms(5)] assms(4) by simp
  next
    case 5
    then show ?thesis using okR_unary_kinds [OF assms(1,2) 5(2) assms(5)] okR_negate [OF _ _ assms(3)]
      by (metis ComputeFct_simps(5))
  next
    case 6
    then show ?thesis using okR_unary_kinds [OF assms(1,2) 6(2) assms(5)] okR_unary_float
      by (metis ComputeFct_simps(8))
  qed
qed

subsection \<open>One operator\<close>

lemma first_dims_kind:
  assumes "list_all2 (has_kind N C) ks ds" "\<not> list_all snd ks"
  shows "snd (first_dims ds) = C"
  using assms
proof (induction rule: list_all2_induct)
  case (Cons k ks d ds)
  then show ?case by (cases "dd_IsScalar d") (auto simp: first_dims_def has_kind_def)
qed simp

lemma magnitude_dims:
  assumes "list_all2 (has_kind N C) ks ds" "length ks \<ge> 2" "list_all (\<lambda>k. fst k = t \<and> \<not> snd k) ks"
    and "i_Op i = OP_MAGN" "SelRule i = Reshape"
  shows "okR (\<lambda>d. snd d = C) (output_dims i ds)"
proof -
  have all: "\<forall>d\<in>set ds. \<not> dd_IsScalar d \<and> dd_Count d = C"
    using assms(1,3) by (induction rule: list_all2_induct) (auto simp: has_kind_def)
  have len: "length ds = length ks" using list_all2_lengthD [OF assms(1)] by simp
  then obtain d e es where ds: "ds = d # e # es" using assms(2) by (cases ds; cases "tl ds") auto
  show ?thesis
    using all assms(4,5)
    by (auto simp: output_dims_def ds DimsFct_def in_OpFunctions_def SameDimsWithAgrFunc_def SameDimsFunc_def
        split: prod.splits if_splits)
qed

lemma okR_compute:
  assumes "okR (arr_res N T) (if i_Op i = OP_PROMOTE
        then (case ins of [] \<Rightarrow> Inl UndefinedBehaviour | d # _ \<Rightarrow> PromoteArray F T (dd_Type d) (dd_Data d) N)
        else ComputeFct F (i_Op i) ins T N)"
    and "snd dims = C" "N = unat (outSize C)" "16 * N < 2 ^ 64" "i_OutputType i = T"
  shows "okR (arr_res N T) (compute F i dims ins)"
  unfolding compute_def Let_def assms(2,5) assms(3) [symmetric]
proof (rule okR_bind [OF assms(1)])
  fix a :: "'a arr" assume a: "arr_res N T a"
  have size: "GetDataTypeSize T \<le> 16" by (cases T) simp_all
  then have "N * GetDataTypeSize T \<le> N * 16" by (rule mult_le_mono2)
  then have "N * GetDataTypeSize T < 2 ^ 64" using assms(4) by linarith
  then have "unat (outSize C * of_nat (GetDataTypeSize T)) = N * GetDataTypeSize T"
    using assms(3) size by (simp add: unat_word_ariths unat_of_nat)
  then show "okR (arr_res N T) (if length (arr_elems a) * GetDataTypeSize (arr_type a)
      \<le> unat (outSize C * of_nat (ElementSize T)) then Inr a else Inl UndefinedBehaviour)"
    using a by (simp add: arr_res_def arr_ok_def ElementSize_def)
qed

definition rv_ok :: "nat \<Rightarrow> dims \<Rightarrow> DataType \<Rightarrow> 'f rv \<Rightarrow> bool" where
  "rv_ok N C T r = (case r of RConst c t \<Rightarrow> t = T
     | RArr d t \<Rightarrow> t = T \<and> operand_ok N T d \<and> \<not> dd_IsScalar d \<and> dd_Count d = C)"

definition rv_kind :: "nat \<Rightarrow> dims \<Rightarrow> kind \<Rightarrow> 'f rv \<Rightarrow> bool" where
  "rv_kind N C k r = (rv_ok N C (fst k) r \<and> is_RConst r = snd k)"

lemma rv_kind_resolve: "rv_kind N C k r \<Longrightarrow> rv_kind N C k (resolve_rv F r)"
  by (cases r) (simp_all add: rv_kind_def rv_ok_def)

lemma scalar_operand_ok: "operand_ok N T (scalar_operand F c T)"
  by (auto simp: operand_ok_def scalar_operand_def arr_ok_def AllocScalarConstant_def elem_ok_def
      is_int_elem_def)

lemma rv_kind_operand: "rv_kind N C k r \<Longrightarrow> has_kind N C k (operand F r)"
  by (cases r) (auto simp: rv_kind_def rv_ok_def has_kind_def scalar_operand_ok, simp_all add: scalar_operand_def)

lemma rv_kind_type: "rv_kind N C k r \<Longrightarrow> rv_type r = fst k"
  by (cases r) (simp_all add: rv_kind_def rv_ok_def)

lemma all_RConst: "list_all2 (rv_kind N C) ks vs \<Longrightarrow> list_all is_RConst vs = list_all snd ks"
  by (induction rule: list_all2_induct) (auto simp: rv_kind_def)

lemma okR_run_op:
  assumes ks: "list_all2 (has_kind N C) ks ds" "\<not> list_all snd ks"
    and dims: "rule = Identity \<or> op = OP_MAGN \<and> rule = Reshape \<and> length ks \<ge> 2 \<and> list_all (\<lambda>k. fst k = t \<and> \<not> snd k) ks"
    and comp: "okR (arr_res N T) (if op = OP_PROMOTE
        then (case ds of [] \<Rightarrow> Inl UndefinedBehaviour | d # _ \<Rightarrow> PromoteArray F T (dd_Type d) (dd_Data d) N)
        else ComputeFct F op ds T N)"
    and N: "N = unat (outSize C)" "16 * N < 2 ^ 64"
  shows "okR (\<lambda>d. rv_kind N C (T, False) (RArr d T)) (run_op F op rule T ds)"
proof -
  let ?i = "(new_instr op [] 0 T)\<lparr>SelRule := rule\<rparr>"
  have i: "i_Op ?i = op" "i_OutputType ?i = T" "SelRule ?i = rule" by (simp_all add: new_instr_def)
  have od: "okR (\<lambda>d. snd d = C) (output_dims ?i ds)"
  proof (cases "rule = Identity")
    case True
    then show ?thesis using first_dims_kind [OF ks] by (simp add: output_dims_def i)
  next
    case False
    then show ?thesis using dims magnitude_dims [OF ks(1), of t ?i] i by blast
  qed
  have co: "okR (arr_res N T) (compute F ?i dims ds)" if "snd dims = C" for dims
    by (rule okR_compute [OF _ that N i(2)]) (simp only: i comp)
  show ?thesis
    unfolding run_op_def Let_def
  proof (rule okR_bind [OF od])
    fix dims :: selection assume d: "snd dims = C"
    show "okR (\<lambda>d. rv_kind N C (T, False) (RArr d T)) (bindR (compute F ?i dims ds) (\<lambda>a.
        Inr \<lparr>dd_Data = a, dd_Start = fst dims, dd_Count = snd dims, dd_Type = T, dd_IsScalar = False\<rparr>))"
      by (rule okR_bind [OF co [OF d]]) (simp add: rv_kind_def rv_ok_def operand_ok_def arr_res_def d)
  qed
qed

lemma okR_eval_constants: "ds \<noteq> [] \<Longrightarrow> okR (\<lambda>_. True) (eval_constants F op ds t)"
proof -
  have i: "okR (\<lambda>_. True) (in_int64 r)" for r by (simp add: in_int64_def)
  have bin: "okR (\<lambda>_. True) (EvalConstBinOp F op a b t)" for a b
    unfolding EvalConstBinOp_def Let_def
    by (cases op) (auto intro!: okR_bind [where P = "\<lambda>_. True"] i split: if_split)
  have un: "okR (\<lambda>_. True) (EvalConstUnaryOp F op a t)" for a
    unfolding EvalConstUnaryOp_def Let_def by (auto intro!: okR_bind [where P = "\<lambda>_. True"] i split: if_split)
  have fold: "okR (\<lambda>_. True) (fold_constants F op c ds t)" for c ds
    by (induction ds arbitrary: c) (auto intro!: okR_bind [where P = "\<lambda>_. True"] bin)
  show "ds \<noteq> [] \<Longrightarrow> ?thesis" using un fold
    by (auto simp: eval_constants_def split: list.splits intro!: okR_bind [where P = "\<lambda>_. True"] bin)
qed

lemma okR_const_core:
  assumes "list_all is_RConst vs" "vs \<noteq> []"
  shows "okR (rv_kind N C (T, True)) (apply_core F op rule T vs)"
proof -
  have "apply_core F op rule T vs = bindR (eval_constants F op (map rv_const vs) T) (\<lambda>c. Inr (RConst c T))"
    using assms(1) by (simp add: apply_core_def)
  then show ?thesis
    using okR_bind [OF okR_eval_constants, of "map rv_const vs" "rv_kind N C (T, True)" "\<lambda>c. Inr (RConst c T)" F op T]
      assms(2) by (simp add: rv_kind_def rv_ok_def)
qed

lemma okR_array_core:
  assumes vs: "list_all2 (rv_kind N C) ks vs" "\<not> list_all snd ks"
    and dims: "rule = Identity \<or> op = OP_MAGN \<and> rule = Reshape \<and> length ks \<ge> 2 \<and> list_all (\<lambda>k. fst k = t \<and> \<not> snd k) ks"
    and comp: "\<And>ds. list_all2 (has_kind N C) ks ds \<Longrightarrow> okR (arr_res N T) (if op = OP_PROMOTE
        then (case ds of [] \<Rightarrow> Inl UndefinedBehaviour | d # _ \<Rightarrow> PromoteArray F T (dd_Type d) (dd_Data d) N)
        else ComputeFct F op ds T N)"
    and N: "N = unat (outSize C)" "16 * N < 2 ^ 64"
  shows "okR (rv_kind N C (T, False)) (apply_core F op rule T vs)"
proof -
  have ds: "list_all2 (has_kind N C) ks (map (operand F) vs)"
    using vs(1) by (induction rule: list_all2_induct) (auto simp: rv_kind_operand)
  have "apply_core F op rule T vs = bindR (run_op F op rule T (map (operand F) vs)) (\<lambda>d. Inr (RArr d T))"
    using all_RConst [OF vs(1)] vs(2) by (simp add: apply_core_def)
  moreover have "okR (\<lambda>d. rv_kind N C (T, False) (RArr d T)) (run_op F op rule T (map (operand F) vs))"
    by (rule okR_run_op [OF ds vs(2) dims comp [OF ds] N])
  ultimately show ?thesis by (simp only:) (erule okR_bind, simp)
qed

lemma square_args_simps:
  "square_args F op vs \<Longrightarrow> op = OP_POW \<and> length vs = 2"
  by (simp add: square_args_def)

lemma okR_apply_op:
  assumes args: "list_all2 (rv_kind N C) ks args" and op: "op_safe op t ks" "kinds_typed op t ks" "\<not> IsComplexType t"
    and N: "N = unat (outSize C)" "16 * N < 2 ^ 64"
  shows "okR (rv_kind N C (t, list_all snd ks)) (apply_op F op t args)"
proof -
  define vs where "vs = map (resolve_rv F) args"
  have vs: "list_all2 (rv_kind N C) ks vs"
    using args unfolding vs_def by (induction rule: list_all2_induct) (auto simp: rv_kind_resolve)
  have ne: "ks \<noteq> []" "vs \<noteq> []" "length vs = length args" using op(1) vs by (auto simp: op_safe_def vs_def)
  have op_eq: "apply_op F op t args = (if square_args F op vs
      then apply_core F OP_MULT Identity (rv_type (vs ! 0)) [vs ! 0, vs ! 0]
      else apply_core F op (selection_rule op (length args)) t vs)"
    by (simp add: apply_op_def vs_def Let_def)
  show ?thesis
  proof (cases "square_args F op vs")
    case sq: True
    then have pow: "op = OP_POW" "length vs = 2" using square_args_simps by blast+
    obtain a b v w where k: "ks = [a, b]" "vs = [v, w]" "rv_kind N C a v" "rv_kind N C b w"
      by (rule list_all2_length2 [OF vs]) (use pow list_all2_lengthD [OF vs] in auto)
    have a: "fst a = t" using op(1) pow k by (simp add: op_safe_def)
    have w: "snd b" using sq k by (auto simp: square_args_def rv_kind_def split: rv.splits)
    have t: "rv_type v = t" using rv_kind_type [OF k(3)] a by simp
    have two: "list_all2 (rv_kind N C) [a, a] [v, v]" using k(3) by simp
    show ?thesis
    proof (cases "snd a")
      case True
      then have "list_all is_RConst [v, v]" using k(3) by (simp add: rv_kind_def)
      then show ?thesis using okR_const_core [of "[v, v]" N C t F OP_MULT Identity] sq True w k t by (simp add: op_eq)
    next
      case False
      have "okR (rv_kind N C (t, False)) (apply_core F OP_MULT Identity t [v, v])"
      proof (rule okR_array_core [OF two _ _ _ N])
        fix ds :: "'a dd list" assume ds: "list_all2 (has_kind N C) [a, a] ds"
        have "okR (arr_res N t) (ComputeFct F OP_MULT ds t N)"
          by (rule okR_ComputeFct [OF ds _ op(3)]) (use a False in \<open>simp_all add: kinds_typed_def op_safe_def\<close>)
        then show "okR (arr_res N t) (if OP_MULT = OP_PROMOTE
            then (case ds of [] \<Rightarrow> Inl UndefinedBehaviour | d # _ \<Rightarrow> PromoteArray F t (dd_Type d) (dd_Data d) N)
            else ComputeFct F OP_MULT ds t N)" by simp
      qed (use False in simp_all)
      then show ?thesis using sq k t False by (simp add: op_eq)
    qed
  next
    case nsq: False
    show ?thesis
    proof (cases "list_all snd ks")
      case True
      then show ?thesis using okR_const_core [OF _ ne(2)] all_RConst [OF vs] nsq by (simp add: op_eq)
    next
      case False
      have nop: "op \<noteq> OP_PROMOTE" using op(1) False by (auto simp: op_safe_def)
      have len: "length args = length ks" using list_all2_lengthD [OF args] by simp
      have "okR (rv_kind N C (t, False)) (apply_core F op (selection_rule op (length args)) t vs)"
      proof (rule okR_array_core [OF vs False _ _ N])
        show "selection_rule op (length args) = Identity \<or> op = OP_MAGN \<and>
            selection_rule op (length args) = Reshape \<and> length ks \<ge> 2 \<and> list_all (\<lambda>k. fst k = t \<and> \<not> snd k) ks"
          using op(1) False len by (cases op) (auto simp: op_safe_def selection_rule_def SelectionRuleForOp_def split: list.splits)
        fix ds :: "'a dd list" assume ds: "list_all2 (has_kind N C) ks ds"
        show "okR (arr_res N t) (if op = OP_PROMOTE
            then (case ds of [] \<Rightarrow> Inl UndefinedBehaviour | d # _ \<Rightarrow> PromoteArray F t (dd_Type d) (dd_Data d) N)
            else ComputeFct F op ds t N)"
          using okR_ComputeFct [OF ds op(2,3,1) False] nop by simp
      qed
      then show ?thesis using nsq False by (simp add: op_eq)
    qed
  qed
qed

lemma okR_apply_promote:
  assumes r: "rv_kind N C k r" and "\<not> IsComplexType t" and N: "N = unat (outSize C)" "16 * N < 2 ^ 64"
  shows "okR (rv_kind N C (t, snd k)) (apply_op F OP_PROMOTE t [r])"
proof -
  have vs: "list_all2 (rv_kind N C) [k] [resolve_rv F r]" using rv_kind_resolve [OF r] by simp
  have eq: "apply_op F OP_PROMOTE t [r] = apply_core F OP_PROMOTE Identity t [resolve_rv F r]"
    by (simp add: apply_op_def square_args_def selection_rule_def SelectionRuleForOp_def)
  show ?thesis
  proof (cases "snd k")
    case True
    then show ?thesis using okR_const_core [of "[resolve_rv F r]"] all_RConst [OF vs] by (simp add: eq)
  next
    case False
    have "okR (rv_kind N C (t, False)) (apply_core F OP_PROMOTE Identity t [resolve_rv F r])"
    proof (rule okR_array_core [OF vs _ _ _ N])
      fix ds :: "'a dd list" assume "list_all2 (has_kind N C) [k] ds"
      then obtain d where d: "ds = [d]" "has_kind N C k d" by (auto simp: list_all2_Cons1)
      show "okR (arr_res N t) (if OP_PROMOTE = OP_PROMOTE
          then (case ds of [] \<Rightarrow> Inl UndefinedBehaviour | d # _ \<Rightarrow> PromoteArray F t (dd_Type d) (dd_Data d) N)
          else ComputeFct F OP_PROMOTE ds t N)"
        using okR_promote [of N "fst k" d t F] d(2) False assms(2) has_kind_type [OF d(2)]
        by (simp add: d(1) has_kind_def)
    qed (use False in simp_all)
    then show ?thesis using False by (simp add: eq)
  qed
qed

subsection \<open>Element-wise trees\<close>

fun const_tree :: "ExprNode \<Rightarrow> bool" where
  "const_tree (ExprNode op ns v k t) = (if ns = [] then v = [] \<and> k \<noteq> [] else list_all const_tree ns)"

definition operand_kind :: "nat \<Rightarrow> DataType \<Rightarrow> ExprNode \<Rightarrow> kind" where
  "operand_kind arity t n = (if needsPromote arity t (n_Type n) then t else n_Type n, const_tree n)"

fun elementwise :: "ExprNode \<Rightarrow> bool" where
  "elementwise (ExprNode op ns v k t) =
     (if ns = [] then v \<noteq> [] \<or> k \<noteq> []
      else list_all elementwise ns \<and> op_safe op t (map (operand_kind (length ns) t) ns))"

text \<open>What type resolution establishes at every node.\<close>

lemma attributeD [dest]: "is_attribute_type t \<Longrightarrow> t \<noteq> DT_None" "is_attribute_type t \<Longrightarrow> \<not> IsComplexType t"
  by (auto simp: is_attribute_type_def is_float_type_def IsIntegerType_def IsComplexType_def)

fun well_typed :: "ExprNode \<Rightarrow> bool" where
  "well_typed (ExprNode op ns v k t) =
     (is_attribute_type t \<and> list_all well_typed ns \<and>
      (ns \<noteq> [] \<longrightarrow> kinds_typed op t (map (operand_kind (length ns) t) ns)))"

definition array_ok :: "nat \<Rightarrow> dims \<Rightarrow> DataType \<Rightarrow> 'f dd \<Rightarrow> bool" where
  "array_ok N C t d = (dd_Type d = t \<and> \<not> dd_IsScalar d \<and> dd_Count d = C \<and> arr_ok N t (dd_Data d))"

lemma array_rv: "array_ok N C t d \<Longrightarrow> rv_kind N C (t, False) (RArr d t)"
  by (simp add: array_ok_def rv_kind_def rv_ok_def operand_ok_def)

lemma eval_safe:
  fixes F :: "'f flt_ops"
  assumes N: "N = unat (outSize C)" "16 * N < 2 ^ 64"
  shows "var_types tv n \<Longrightarrow> \<forall>v\<in>set (VariableNameList n). array_ok N C (tv v) (env v) \<Longrightarrow> well_typed n \<Longrightarrow>
      elementwise n \<Longrightarrow> okR (rv_kind N C (n_Type n, const_tree n)) (eval_node F env n)"
    and "list_all (var_types tv) ns \<Longrightarrow> \<forall>n\<in>set ns. \<forall>v\<in>set (VariableNameList n). array_ok N C (tv v) (env v) \<Longrightarrow>
      list_all well_typed ns \<Longrightarrow> list_all elementwise ns \<Longrightarrow> \<not> IsComplexType t \<Longrightarrow>
      okR (list_all2 (rv_kind N C) (map (operand_kind a t) ns)) (eval_children F env a t ns)"
proof (induction F env n and F env a t ns rule: eval_node_eval_children.induct)
  case (1 F env op ns v k t)
  consider (var) "ns = []" "v \<noteq> []" | (const) "ns = []" "v = []" "k \<noteq> []" | (op) "ns \<noteq> []"
    using 1(5) by (auto split: if_splits)
  then show ?case
  proof cases
    case var
    then show ?thesis using 1(2,3) array_rv by auto
  next
    case const
    then show ?thesis by (simp add: rv_kind_def rv_ok_def)
  next
    case op
    have ch: "okR (list_all2 (rv_kind N C) (map (operand_kind (length ns) t) ns)) (eval_children F env (length ns) t ns)"
      by (rule 1(1)) (use op 1(2-5) in auto)
    have "okR (rv_kind N C (t, list_all snd (map (operand_kind (length ns) t) ns)))
        (bindR (eval_children F env (length ns) t ns) (apply_op F op t))"
      by (rule okR_bind [OF ch okR_apply_op [OF _ _ _ _ N]]) (use op 1(4,5) in auto)
    then show ?thesis using op by (simp add: operand_kind_def list.pred_map o_def)
  qed
next
  case (3 F env a t n ns)
  have n: "okR (rv_kind N C (n_Type n, const_tree n)) (eval_node F env n)"
    by (rule 3(1)) (use 3(3-6) in simp_all)
  have p: "okR (rv_kind N C (operand_kind a t n)) (if needsPromote a t (n_Type n) then apply_op F OP_PROMOTE t [r] else Inr r)"
    if "rv_kind N C (n_Type n, const_tree n) r" for r
    using okR_apply_promote [OF that 3(7) N, of F] that by (simp add: operand_kind_def)
  have ns: "okR (list_all2 (rv_kind N C) (map (operand_kind a t) ns)) (eval_children F env a t ns)"
    by (rule 3(2)) (use 3(3-7) in simp_all)
  show ?case
    unfolding eval_children.simps
    by (rule okR_bind [OF n], erule okR_bind [OF p], rule okR_bind [OF ns]) simp
qed simp

subsection \<open>What type resolution establishes\<close>

lemma promote_fold:
  "case foldl promote_step (p, hc, hn) ns of (q, _, _) \<Rightarrow>
     (q = p \<or> q \<in> n_Type ` set ns) \<and> (q \<noteq> DT_None \<or> p = DT_None \<and> (\<forall>n\<in>set ns. n_Type n = DT_None))"
proof (induction ns arbitrary: p hc hn)
  case (Cons n ns)
  obtain p' hc' hn' where s: "promote_step (p, hc, hn) n = (p', hc', hn')" by (metis surj_pair)
  have "(p' = p \<or> p' = n_Type n) \<and> (p' \<noteq> DT_None \<or> p = DT_None \<and> n_Type n = DT_None)"
    using s PromoteType_cases [of p "n_Type n"] by (auto simp: promote_step_def split: if_splits)
  then show ?case using Cons.IH [of p' hc' hn'] by (auto simp: s split: prod.splits)
qed simp

lemma node_type_cases:
  assumes "node_type op ns = Inr p" "\<forall>n\<in>set ns. \<not> IsConst n \<longrightarrow> is_attribute_type (n_Type n)"
    "\<forall>n\<in>set ns. IsConst n \<longrightarrow> n_Type n = DT_None"
  shows "is_attribute_type p" "\<not> IsFloatOp op \<Longrightarrow> ns \<noteq> [] \<Longrightarrow> \<exists>n\<in>set ns. IsConst n \<or> n_Type n = p"
proof -
  obtain q hc hn where q: "promoted_type ns = (q, hc, hn)" by (metis surj_pair)
  have f: "q = DT_None \<or> q \<in> n_Type ` set ns" "q \<noteq> DT_None \<or> (\<forall>n\<in>set ns. n_Type n = DT_None)"
    using promote_fold [where p = DT_None and hc = False and hn = False and ns = ns] q by (auto simp: promoted_type_def split: prod.splits)
  have p: "p = (if IsFloatOp op \<and> IsIntegerType (if q = DT_None then DT_Double else q) then DT_Double
      else if q = DT_None then DT_Double else q)"
    using assms(1) q by (auto simp: node_type_def Let_def split: if_splits)
  have "q \<noteq> DT_None \<Longrightarrow> is_attribute_type q" using f(1) assms(2,3) by auto
  then show "is_attribute_type p" using p by (auto simp: is_attribute_type_def is_float_type_def)
  show "\<exists>n\<in>set ns. IsConst n \<or> n_Type n = p" if nf: "\<not> IsFloatOp op" and ne: "ns \<noteq> []"
  proof (cases "q = DT_None")
    case True
    obtain n where "n \<in> set ns" using ne by (cases ns) auto
    moreover have "IsConst n" using f(2) True assms(2) \<open>n \<in> set ns\<close> by auto
    ultimately show ?thesis by blast
  next
    case False
    then show ?thesis using f(1) p nf by auto
  qed
qed

lemma operand_kind_inline:
  assumes "n_Type n \<noteq> DT_None"
  shows "inline_type t (fst (operand_kind a t n))" "a \<noteq> 2 \<Longrightarrow> fst (operand_kind a t n) = t"
  using assms by (auto simp: operand_kind_def needsPromote_def inline_type_def)

lemma operand_kind_same: "n_Type n = t \<Longrightarrow> fst (operand_kind a t n) = t"
  by (simp add: operand_kind_def)

lemma resolved_kinds:
  assumes "node_type op ns = Inr p" "\<forall>n\<in>set ns. \<not> IsConst n \<longrightarrow> is_attribute_type (n_Type n)"
    "\<forall>n\<in>set ns. IsConst n \<longrightarrow> n_Type n = DT_None" "ns \<noteq> []"
    "a = length ns"
  shows "kinds_typed op p (map (operand_kind a p) (map (\<lambda>c. if IsConst c then set_Type p c else c) ns))"
proof -
  note p = node_type_cases [OF assms(1-3)]
  let ?f = "\<lambda>c. if IsConst c then set_Type p c else c"
  have ty: "n_Type (?f c) \<noteq> DT_None" if "c \<in> set ns" for c
    using that assms(2) attributeD(1) [OF p(1)] by (auto simp: set_Type_def)
  have "list_all (\<lambda>k. inline_type p (fst k)) (map (operand_kind a p) (map ?f ns))"
    using operand_kind_inline(1) [OF ty] by (auto simp: list_all_iff)
  moreover have "a \<noteq> 2 \<Longrightarrow> list_all (\<lambda>k. fst k = p) (map (operand_kind a p) (map ?f ns))"
    using operand_kind_inline(2) [OF ty] by (auto simp: list_all_iff)
  moreover have "list_ex (\<lambda>k. fst k = p) (map (operand_kind a p) (map ?f ns))" if nf: "\<not> IsFloatOp op"
  proof -
    obtain n where n: "n \<in> set ns" "IsConst n \<or> n_Type n = p" using p(2) [OF nf assms(4)] by blast
    then have "n_Type (?f n) = p" by (auto simp: set_Type_def)
    then have "fst (operand_kind a p (?f n)) = p" by (rule operand_kind_same)
    then show ?thesis using n(1) unfolding list_ex_iff by (intro bexI [of _ "operand_kind a p (?f n)"]) auto
  qed
  ultimately show ?thesis unfolding kinds_typed_def using assms(5) by simp
qed

end
