(* ===== verification/Adios_ExprPass.thy ===== *)
theory Adios_ExprPass
  imports Adios_ExprSem
begin

section \<open>Derived expressions: the semantics pass keeps the meaning\<close>

text \<open>
  \<open>SemanticsPass\<close> decides at compile time which values are constants. The relation between the values
  of the instructions as generated (\<open>lin_step\<close>) and those of the instructions that are left
  (\<open>dyn_step\<close>, whose constants are in the descriptors) is kept by every round.
\<close>

text \<open>The value of a buffer: its constant, or what was computed for it.\<close>

definition bval :: "'f BufferDescriptor list \<Rightarrow> (nat \<Rightarrow> 'f dd) \<Rightarrow> nat \<Rightarrow> 'f rv" where
  "bval bufs dst b =
     (if IsConstant (bufs ! b) then RConst (ConstVal (bufs ! b)) (b_Type (bufs ! b))
      else RArr (dst b) (b_Type (bufs ! b)))"

definition dyn_step ::
    "'f flt_ops \<Rightarrow> 'f BufferDescriptor list \<Rightarrow> ExprInstruction \<Rightarrow> (nat \<Rightarrow> 'f dd) \<Rightarrow> (nat \<Rightarrow> 'f dd) result" where
  "dyn_step F bufs k dst =
     bindR (run_op F (i_Op k) (SelRule k) (i_OutputType k) (map (\<lambda>b. operand F (bval bufs dst b)) (InputBufs k)))
       (\<lambda>d. Inr (dst(OutputBuf k := d)))"

definition agrees ::
    "'f flt_ops \<Rightarrow> nat set \<Rightarrow> (nat \<Rightarrow> 'f rv) \<Rightarrow> 'f BufferDescriptor list \<Rightarrow> (nat \<Rightarrow> 'f dd) \<Rightarrow> bool" where
  "agrees F D st bufs dst =
     (\<forall>b\<in>D. b < length bufs \<and> resolve_rv F (st b) = resolve_rv F (bval bufs dst b))"

lemma resolve_rv_idem [simp]: "resolve_rv F (resolve_rv F v) = resolve_rv F v"
  by (cases v) simp_all

lemma resolve_constant_simps [simp]:
  "IsConstant (resolve_constant F b) = IsConstant b" "IsInput (resolve_constant F b) = IsInput b"
  "b_Type (resolve_constant F b) = b_Type b" "is_temp (resolve_constant F b) = is_temp b"
  "b_VarName (resolve_constant F b) = b_VarName b"
  by (simp_all add: resolve_constant_def is_temp_def)

lemma resolve_constant_value:
  "IsConstant b \<Longrightarrow> ConstVal (resolve_constant F b) = resolve_tc F (b_Type b) (ConstVal b)"
  by (simp add: resolve_constant_def resolve_tc_def)

lemma resolve_constant_idem [simp]: "resolve_constant F (resolve_constant F b) = resolve_constant F b"
  by (simp add: resolve_constant_def)

lemma resolve_inputs_nth:
  "length (resolve_inputs F ins bufs) = length bufs"
  "b < length bufs \<Longrightarrow> resolve_inputs F ins bufs ! b =
     (if b \<in> set ins then resolve_constant F (bufs ! b) else bufs ! b)"
proof -
  show "length (resolve_inputs F ins bufs) = length bufs"
    unfolding resolve_inputs_def by (induction ins arbitrary: bufs) simp_all
  show "b < length bufs \<Longrightarrow> resolve_inputs F ins bufs ! b =
     (if b \<in> set ins then resolve_constant F (bufs ! b) else bufs ! b)"
    unfolding resolve_inputs_def
  proof (induction ins arbitrary: bufs)
    case (Cons a ins)
    then show ?case by (cases "a = b") auto
  qed simp
qed

lemma bval_resolved:
  "bufs' ! b = resolve_constant F (bufs ! b) \<Longrightarrow> bval bufs' dst b = resolve_rv F (bval bufs dst b)"
  by (auto simp: bval_def resolve_constant_value)

text \<open>What one round does, with the operands of the instruction resolved.\<close>

definition round_ok ::
    "'f flt_ops \<Rightarrow> nat set \<Rightarrow> ExprInstruction \<Rightarrow> 'f BufferDescriptor list \<Rightarrow> ExprInstruction option
      \<Rightarrow> 'f BufferDescriptor list \<Rightarrow> bool" where
  "round_ok F D i bufs kept bufs' =
     (length bufs' = length bufs \<and>
      (\<forall>b<length bufs. b \<noteq> OutputBuf i \<longrightarrow> bufs' ! b = bufs ! b \<or>
         b \<in> D \<and> bufs' ! b = resolve_constant F (bufs ! b)) \<and>
      IsInput (bufs' ! OutputBuf i) = IsInput (bufs ! OutputBuf i) \<and>
      IsConstant (bufs' ! OutputBuf i) = (kept = None) \<and>
      (\<forall>k. kept = Some k \<longrightarrow>
         OutputBuf k = OutputBuf i \<and> set (InputBufs k) \<subseteq> set (InputBufs i) \<and>
         (\<forall>b\<in>set (InputBufs k). resolve_constant F (bufs' ! b) = bufs' ! b)))"

lemma set_selection_fields [simp]:
  "i_Op (set_selection i) = i_Op i" "InputBufs (set_selection i) = InputBufs i"
  "OutputBuf (set_selection i) = OutputBuf i" "i_OutputType (set_selection i) = i_OutputType i"
  "SelRule (set_selection i) = selection_rule (i_Op i) (length (InputBufs i))"
  by (simp_all add: set_selection_def selection_rule_def Let_def)

text \<open>The instruction after the strength reduction.\<close>

lemma reduce_square_sim:
  fixes F :: "'f flt_ops" and bufs dst
  defines "rs ins \<equiv> resolve_inputs F ins bufs"
  assumes ins: "\<forall>b\<in>set (InputBufs i). b < length bufs" "OutputBuf i \<notin> set (InputBufs i)"
    and o: "OutputBuf i < length bufs" "b_Type (bufs ! OutputBuf i) = i_OutputType i"
    and red: "reduce_square F (rs (InputBufs i)) (set_selection i) = (j, bs)"
    and vs: "vs = map (\<lambda>b. resolve_rv F (bval bufs dst b)) (InputBufs i)"
  shows "OutputBuf j = OutputBuf i" "set (InputBufs j) \<subseteq> set (InputBufs i)"
    and "(if square_args F (i_Op i) vs
          then apply_core F OP_MULT Identity (rv_type (vs ! 0)) [vs ! 0, vs ! 0]
          else apply_core F (i_Op i) (selection_rule (i_Op i) (length (InputBufs i))) (i_OutputType i) vs)
         = apply_core F (i_Op j) (SelRule j) (i_OutputType j) (map (bval bs dst) (InputBufs j))"
    and "bs = (rs (InputBufs i))[OutputBuf i := (bs ! OutputBuf i)]"
    and "b_Type (bs ! OutputBuf i) = i_OutputType j"
    and "IsInput (bs ! OutputBuf i) = IsInput (bufs ! OutputBuf i)"
    and "IsConstant (bs ! OutputBuf i) = IsConstant (bufs ! OutputBuf i)"
proof -
  let ?r = "rs (InputBufs i)"
  have r_len: "length ?r = length bufs" by (simp add: rs_def resolve_inputs_nth)
  have r_in: "?r ! b = resolve_constant F (bufs ! b)" if "b \<in> set (InputBufs i)" for b
    using that ins by (simp add: rs_def resolve_inputs_nth)
  have r_out: "?r ! OutputBuf i = bufs ! OutputBuf i" using ins o by (simp add: rs_def resolve_inputs_nth)
  have val: "bval ?r dst b = resolve_rv F (bval bufs dst b)" if "b \<in> set (InputBufs i)" for b
    by (rule bval_resolved [OF r_in [OF that]])
  have sq: "is_square F ?r (set_selection i) = square_args F (i_Op i) vs"
  proof (cases "length (InputBufs i) = 2")
    case True
    then have "InputBufs i ! 1 \<in> set (InputBufs i)" by simp
    then show ?thesis using True
      by (auto simp: is_square_def square_args_def Let_def vs r_in bval_def
          resolve_constant_value split: rv.splits)
  qed (auto simp: is_square_def square_args_def Let_def vs)
  have vs_r: "vs = map (bval ?r dst) (InputBufs i)" by (simp add: vs val)
  have all: "OutputBuf j = OutputBuf i \<and> set (InputBufs j) \<subseteq> set (InputBufs i) \<and>
      (if square_args F (i_Op i) vs
          then apply_core F OP_MULT Identity (rv_type (vs ! 0)) [vs ! 0, vs ! 0]
          else apply_core F (i_Op i) (selection_rule (i_Op i) (length (InputBufs i))) (i_OutputType i) vs)
         = apply_core F (i_Op j) (SelRule j) (i_OutputType j) (map (bval bs dst) (InputBufs j)) \<and>
      bs = ?r[OutputBuf i := (bs ! OutputBuf i)] \<and> b_Type (bs ! OutputBuf i) = i_OutputType j \<and>
      IsInput (bs ! OutputBuf i) = IsInput (bufs ! OutputBuf i) \<and>
      IsConstant (bs ! OutputBuf i) = IsConstant (bufs ! OutputBuf i)"
  proof (cases "square_args F (i_Op i) vs")
    case False
    then have "j = set_selection i" "bs = ?r" using red sq by (auto simp: reduce_square_def)
    then show ?thesis
      using False o r_out [symmetric] vs_r by simp
  next
    case True
    let ?x = "InputBufs i ! 0"
    have two: "length (InputBufs i) = 2" "i_Op i = OP_POW" using True by (auto simp: square_args_def vs)
    then have x: "?x \<in> set (InputBufs i)" using nth_mem [of 0 "InputBufs i"] by simp
    then have x_o: "?x \<noteq> OutputBuf i" using ins by metis
    have j: "j = (set_selection i)\<lparr>i_Op := OP_MULT, InputBufs := [?x, ?x], i_OutputType := b_Type (?r ! ?x)\<rparr>"
      and bs: "bs = ?r[OutputBuf i := (?r ! OutputBuf i)\<lparr>b_Type := b_Type (?r ! ?x)\<rparr>]"
      using red sq True by (auto simp: reduce_square_def Let_def)
    have "SelRule j = Identity" using two by (simp add: j selection_rule_def SelectionRuleForOp_def)
    moreover have "vs ! 0 = bval bs dst ?x" "rv_type (vs ! 0) = b_Type (?r ! ?x)"
      using two x x_o by (auto simp: vs_r bs bval_def)
    ultimately show ?thesis
      using True x x_o r_len r_out o by (simp add: j bs)
  qed
  show "OutputBuf j = OutputBuf i" "set (InputBufs j) \<subseteq> set (InputBufs i)"
    "(if square_args F (i_Op i) vs
          then apply_core F OP_MULT Identity (rv_type (vs ! 0)) [vs ! 0, vs ! 0]
          else apply_core F (i_Op i) (selection_rule (i_Op i) (length (InputBufs i))) (i_OutputType i) vs)
         = apply_core F (i_Op j) (SelRule j) (i_OutputType j) (map (bval bs dst) (InputBufs j))"
    "bs = ?r[OutputBuf i := (bs ! OutputBuf i)]" "b_Type (bs ! OutputBuf i) = i_OutputType j"
    "IsInput (bs ! OutputBuf i) = IsInput (bufs ! OutputBuf i)"
    "IsConstant (bs ! OutputBuf i) = IsConstant (bufs ! OutputBuf i)"
    using all by blast+
qed

lemma list_all_is_RConst:
  "list_all is_RConst (map (bval bufs dst) bs) = list_all (\<lambda>b. IsConstant (bufs ! b)) bs"
  by (induction bs) (auto simp: bval_def)

lemma rv_consts:
  "list_all (\<lambda>b. IsConstant (bufs ! b)) bs \<Longrightarrow>
   map rv_const (map (bval bufs dst) bs) = map (\<lambda>b. ConstVal (bufs ! b)) bs"
  by (induction bs) (auto simp: bval_def)

text \<open>The context of a round: the operands are defined, the output is a fresh temporary.\<close>

definition round_pre ::
    "nat set \<Rightarrow> ExprInstruction \<Rightarrow> 'f BufferDescriptor list \<Rightarrow> bool" where
  "round_pre D i bufs =
     ((\<forall>b\<in>D. b < length bufs) \<and> set (InputBufs i) \<subseteq> D \<and> OutputBuf i \<notin> D \<and>
      OutputBuf i < length bufs \<and> is_temp (bufs ! OutputBuf i) \<and>
      b_Type (bufs ! OutputBuf i) = i_OutputType i)"

lemma sem_step_sim:
  fixes F :: "'f flt_ops"
  assumes pre: "round_pre D i bufs" and step: "sem_step F i bufs = Inr (kept, bufs')"
  shows "round_ok F D i bufs kept bufs'"
    and "agrees F D st bufs dst \<Longrightarrow> kept = None \<Longrightarrow>
      lin_step F i st = Inr (st(OutputBuf i := bval bufs' dst (OutputBuf i)))"
    and "agrees F D st bufs dst \<Longrightarrow> kept = Some k \<Longrightarrow>
      lin_step F i st =
        bindR (run_op F (i_Op k) (SelRule k) (i_OutputType k) (map (\<lambda>b. operand F (bval bufs' dst b)) (InputBufs k)))
          (\<lambda>d. Inr (st(OutputBuf i := RArr d (b_Type (bufs' ! OutputBuf i)))))"
proof -
  let ?o = "OutputBuf i" and ?r = "resolve_inputs F (InputBufs i) bufs"
  have ins: "\<forall>b\<in>set (InputBufs i). b < length bufs" "?o \<notin> set (InputBufs i)"
    and o: "?o < length bufs" "b_Type (bufs ! ?o) = i_OutputType i" "is_temp (bufs ! ?o)"
    and D: "set (InputBufs i) \<subseteq> D" using pre by (auto simp: round_pre_def)
  obtain j bs where red: "reduce_square F ?r (set_selection i) = (j, bs)" by fastforce
  note sim = reduce_square_sim [OF ins o(1,2) red refl]
  let ?c = "list_all (\<lambda>b. IsConstant (bs ! b)) (InputBufs j)"
  have r_nth: "?r ! b = (if b \<in> set (InputBufs i) then resolve_constant F (bufs ! b) else bufs ! b)"
    if "b < length bufs" for b using that by (simp add: resolve_inputs_nth)
  have bs_len: "length bs = length bufs" using sim(4) by (metis length_list_update resolve_inputs_nth(1))
  have bs_nth: "bs ! b = ?r ! b" if "b \<noteq> ?o" for b using sim(4) that by (metis nth_list_update_neq)
  have res: "resolve_constant F (bs ! b) = bs ! b" if "b \<in> set (InputBufs j)" for b
  proof -
    have b: "b \<in> set (InputBufs i)" "b \<noteq> ?o" "b < length bufs" using that sim(2) ins by auto
    then show ?thesis using bs_nth r_nth by simp
  qed
  have eq: "(if ?c then bindR (eval_constants F (i_Op j) (map (\<lambda>b. ConstVal (bs ! b)) (InputBufs j)) (i_OutputType j))
        (\<lambda>c. Inr (None, bs[?o := (bs ! ?o)\<lparr>IsConstant := True, ConstVal := c, b_Type := i_OutputType j\<rparr>]))
      else Inr (Some j, bs)) = Inr (kept, bufs')"
    using step by (simp only: sem_step_def red prod.case sim(1))
  have const: "?c \<Longrightarrow> \<exists>c. eval_constants F (i_Op j) (map (\<lambda>b. ConstVal (bs ! b)) (InputBufs j)) (i_OutputType j) = Inr c \<and>
      kept = None \<and> bufs' = bs[?o := (bs ! ?o)\<lparr>IsConstant := True, ConstVal := c, b_Type := i_OutputType j\<rparr>]"
    using eq by (auto simp: bindR_Inr_iff)
  have dyn: "\<not> ?c \<Longrightarrow> kept = Some j \<and> bufs' = bs" using eq by auto
  have lin: "lin_step F i st = bindR (apply_core F (i_Op j) (SelRule j) (i_OutputType j) (map (bval bs dst) (InputBufs j)))
      (\<lambda>r. Inr (st(?o := r)))" if ag: "agrees F D st bufs dst" for dst
  proof -
    have vs: "map (resolve_rv F) (map st (InputBufs i)) = map (\<lambda>b. resolve_rv F (bval bufs dst b)) (InputBufs i)"
      using ag D by (auto simp: agrees_def)
    show ?thesis by (simp only: lin_step_def apply_op_def Let_def vs length_map sim(3) [of dst])
  qed
  have chg: "bs ! b = bufs ! b \<or> b \<in> D \<and> bs ! b = resolve_constant F (bufs ! b)"
    if "b < length bufs" "b \<noteq> ?o" for b
    using that bs_nth r_nth D by (cases "b \<in> set (InputBufs i)") auto
  show "round_ok F D i bufs kept bufs'"
  proof (cases ?c)
    case True
    then obtain c where k: "kept = None"
      "bufs' = bs[?o := (bs ! ?o)\<lparr>IsConstant := True, ConstVal := c, b_Type := i_OutputType j\<rparr>]"
      using const by blast
    show ?thesis unfolding round_ok_def k using bs_len chg o(1) sim(6) by simp
  next
    case False
    then have k: "kept = Some j" "bufs' = bs" using dyn by blast+
    show ?thesis unfolding round_ok_def k using bs_len chg o(3) sim(1,2,6,7) res
      by (simp add: is_temp_def)
  qed
  show "lin_step F i st = Inr (st(OutputBuf i := bval bufs' dst (OutputBuf i)))"
    if "agrees F D st bufs dst" "kept = None"
  proof -
    have c: ?c using dyn that(2) by auto
    then obtain c where "eval_constants F (i_Op j) (map (\<lambda>b. ConstVal (bs ! b)) (InputBufs j)) (i_OutputType j) = Inr c"
      "bufs' = bs[?o := (bs ! ?o)\<lparr>IsConstant := True, ConstVal := c, b_Type := i_OutputType j\<rparr>]"
      using const by blast
    then show ?thesis using lin [OF that(1)] c o bs_len
      by (simp add: apply_core_def list_all_is_RConst rv_consts del: map_map) (simp add: bval_def)
  qed
  show "lin_step F i st =
        bindR (run_op F (i_Op k) (SelRule k) (i_OutputType k) (map (\<lambda>b. operand F (bval bufs' dst b)) (InputBufs k)))
          (\<lambda>d. Inr (st(OutputBuf i := RArr d (b_Type (bufs' ! OutputBuf i)))))"
    if "agrees F D st bufs dst" "kept = Some k"
  proof -
    have c: "\<not> ?c" using const that(2) by auto
    then have "k = j" "bufs' = bs" using dyn that(2) by auto
    then show ?thesis using lin [OF that(1)] c sim(5)
      by (simp add: apply_core_def list_all_is_RConst bindR_assoc comp_def)
  qed
qed

subsection \<open>The whole pass\<close>

text \<open>Every operand is defined before it is used, and every output is fresh.\<close>

fun closed :: "nat set \<Rightarrow> ExprInstruction list \<Rightarrow> bool" where
  "closed D [] = True"
| "closed D (i # is) =
     (set (InputBufs i) \<subseteq> D \<and> OutputBuf i \<notin> D \<and> closed (insert (OutputBuf i) D) is)"

definition outputs_ok :: "'f BufferDescriptor list \<Rightarrow> ExprInstruction list \<Rightarrow> bool" where
  "outputs_ok bufs is =
     (\<forall>i\<in>set is. OutputBuf i < length bufs \<and> is_temp (bufs ! OutputBuf i) \<and>
        b_Type (bufs ! OutputBuf i) = i_OutputType i)"

text \<open>What stays of the descriptors: those of defined buffers up to resolution, others as they are.\<close>

definition kept_descs ::
    "'f flt_ops \<Rightarrow> nat set \<Rightarrow> nat set \<Rightarrow> 'f BufferDescriptor list \<Rightarrow> 'f BufferDescriptor list \<Rightarrow> bool" where
  "kept_descs F D written bufs bufs' =
     (length bufs' = length bufs \<and>
      (\<forall>b<length bufs. b \<notin> written \<longrightarrow> bufs' ! b = bufs ! b \<or>
         b \<in> D \<and> bufs' ! b = resolve_constant F (bufs ! b)) \<and>
      (\<forall>b<length bufs. IsInput (bufs' ! b) = IsInput (bufs ! b)))"

lemma closed_fresh: "closed D is \<Longrightarrow> b \<in> D \<Longrightarrow> b \<notin> outs is"
  by (induction D "is" rule: closed.induct) auto

lemma round_kept_descs:
  "round_ok F D i bufs kept bufs' \<Longrightarrow> kept_descs F D {OutputBuf i} bufs bufs'"
  unfolding round_ok_def kept_descs_def by (metis resolve_constant_simps(2) singletonI)

lemma kept_descs_trans:
  assumes "kept_descs F D V a b" "kept_descs F E W b c" "W \<inter> D = {}" "E \<subseteq> D \<union> V"
  shows "kept_descs F D (V \<union> W) a c"
  using assms unfolding kept_descs_def by (metis Un_iff subsetD resolve_constant_idem)

lemma outputs_ok_step:
  assumes "outputs_ok bufs (i # is)" "closed D (i # is)" "round_ok F D i bufs kept bufs'"
  shows "outputs_ok bufs' is"
  unfolding outputs_ok_def
proof
  fix k assume k: "k \<in> set is"
  then have o: "OutputBuf k < length bufs" "is_temp (bufs ! OutputBuf k)"
    "b_Type (bufs ! OutputBuf k) = i_OutputType k" using assms(1) by (auto simp: outputs_ok_def)
  have "OutputBuf k \<in> outs is" using k by (simp add: outs_def)
  then have "OutputBuf k \<noteq> OutputBuf i" "OutputBuf k \<notin> D"
    using closed_fresh [of "insert (OutputBuf i) D" "is"] assms(2) by auto
  then have "bufs' ! OutputBuf k = bufs ! OutputBuf k" "length bufs' = length bufs"
    using assms(3) o(1) unfolding round_ok_def by blast+
  then show "OutputBuf k < length bufs' \<and> is_temp (bufs' ! OutputBuf k) \<and>
      b_Type (bufs' ! OutputBuf k) = i_OutputType k" using o by simp
qed

lemma round_preI:
  "outputs_ok bufs (i # is) \<Longrightarrow> closed D (i # is) \<Longrightarrow> \<forall>b\<in>D. b < length bufs \<Longrightarrow> round_pre D i bufs"
  by (simp add: round_pre_def outputs_ok_def)

lemma sem_loop_Cons:
  assumes "sem_loop F (i # is) bufs = Inr (K, bf)"
  obtains kept bufs1 ks where "sem_step F i bufs = Inr (kept, bufs1)"
    "sem_loop F is bufs1 = Inr (ks, bf)" "K = (case kept of None \<Rightarrow> ks | Some k \<Rightarrow> k # ks)"
  using assms by (auto simp: bindR_Inr_iff split: prod.splits)

text \<open>The instructions that stay: those whose outputs are no constants, with resolved operands.\<close>

lemma sem_loop_static:
  "sem_loop F is bufs = Inr (K, bf) \<Longrightarrow> closed D is \<Longrightarrow> outputs_ok bufs is \<Longrightarrow> \<forall>b\<in>D. b < length bufs \<Longrightarrow>
   kept_descs F D (outs is) bufs bf \<and>
   outs K = {b \<in> outs is. \<not> IsConstant (bf ! b)} \<and>
   (\<forall>k\<in>set K. (\<exists>i\<in>set is. OutputBuf k = OutputBuf i \<and> set (InputBufs k) \<subseteq> set (InputBufs i)) \<and>
      (\<forall>b\<in>set (InputBufs k). resolve_constant F (bf ! b) = bf ! b)) \<and>
   (sorted_wrt (<) (map OutputBuf is) \<longrightarrow> sorted_wrt (<) (map OutputBuf K))"
proof (induction "is" arbitrary: bufs K D)
  case Nil
  then show ?case by (simp add: kept_descs_def)
next
  case (Cons i "is")
  let ?o = "OutputBuf i"
  from Cons.prems(1) obtain kept bufs1 ks where s: "sem_step F i bufs = Inr (kept, bufs1)"
    "sem_loop F is bufs1 = Inr (ks, bf)" "K = (case kept of None \<Rightarrow> ks | Some k \<Rightarrow> k # ks)"
    by (rule sem_loop_Cons)
  have pre: "round_pre D i bufs" by (rule round_preI [OF Cons.prems(3,2,4)])
  have ok: "round_ok F D i bufs kept bufs1" by (rule sem_step_sim(1) [OF pre s(1)])
  have len: "length bufs1 = length bufs" using ok by (simp add: round_ok_def)
  have cl: "closed (insert ?o D) is" "set (InputBufs i) \<subseteq> D" "?o \<notin> D" using Cons.prems(2) by auto
  have in1: "\<forall>b\<in>insert ?o D. b < length bufs1" using Cons.prems(4) pre len by (simp add: round_pre_def)
  note IH = Cons.IH [OF s(2) cl(1) outputs_ok_step [OF Cons.prems(3,2) ok] in1]
  have fresh: "outs is \<inter> insert ?o D = {}" using closed_fresh [OF cl(1)] by blast
  have kd: "kept_descs F D ({?o} \<union> outs is) bufs bf"
    using fresh IH by (intro kept_descs_trans [OF round_kept_descs [OF ok], of "insert ?o D"]) auto
  have bf_o: "bf ! ?o = bufs1 ! ?o \<or> bf ! ?o = resolve_constant F (bufs1 ! ?o)"
    using IH fresh in1 unfolding kept_descs_def by (metis IntI empty_iff insertI1)
  then have const_o: "IsConstant (bf ! ?o) = (kept = None)" using ok by (auto simp: round_ok_def)
  show ?case
  proof (cases kept)
    case None
    then have "K = ks" using s(3) by simp
    then show ?thesis using kd IH const_o None by auto
  next
    case (Some k)
    then have K: "K = k # ks" and k: "OutputBuf k = ?o" "set (InputBufs k) \<subseteq> set (InputBufs i)"
      "\<forall>b\<in>set (InputBufs k). resolve_constant F (bufs1 ! b) = bufs1 ! b"
      using s(3) ok by (auto simp: round_ok_def)
    have "resolve_constant F (bf ! b) = bf ! b" if "b \<in> set (InputBufs k)" for b
    proof -
      have "b \<in> insert ?o D" using that k(2) cl(2) by blast
      then have "bf ! b = bufs1 ! b \<or> bf ! b = resolve_constant F (bufs1 ! b)"
        using IH fresh in1 unfolding kept_descs_def by blast
      then show ?thesis using k(3) that by auto
    qed
    moreover have "outs K = {b \<in> outs (i # is). \<not> IsConstant (bf ! b)}"
      using IH const_o Some k(1) by (auto simp: K)
    moreover have "sorted_wrt (<) (map OutputBuf (i # is)) \<longrightarrow> sorted_wrt (<) (map OutputBuf K)"
    proof
      assume srt: "sorted_wrt (<) (map OutputBuf (i # is))"
      have "outs ks \<subseteq> outs is" using IH by blast
      then show "sorted_wrt (<) (map OutputBuf K)" using srt IH k(1) by (auto simp: K outs_def)
    qed
    ultimately show ?thesis using kd IH k by (auto simp: K)
  qed
qed

text \<open>Running what is left gives the values of what was generated.\<close>

lemma sem_loop_sim:
  "sem_loop F is bufs = Inr (K, bf) \<Longrightarrow> closed D is \<Longrightarrow> outputs_ok bufs is \<Longrightarrow> agrees F D st bufs dst \<Longrightarrow>
   (case foldR (lin_step F) is st of
      Inl e \<Rightarrow> foldR (dyn_step F bf) K dst = Inl e
    | Inr st' \<Rightarrow> \<exists>dst'. foldR (dyn_step F bf) K dst = Inr dst' \<and> agrees F (D \<union> outs is) st' bf dst')"
proof (induction "is" arbitrary: bufs K D st dst)
  case Nil
  then show ?case by simp
next
  case (Cons i "is")
  let ?o = "OutputBuf i"
  have D: "\<forall>b\<in>D. b < length bufs" using Cons.prems(4) by (simp add: agrees_def)
  from Cons.prems(1) obtain kept bufs1 ks where s: "sem_step F i bufs = Inr (kept, bufs1)"
    "sem_loop F is bufs1 = Inr (ks, bf)" "K = (case kept of None \<Rightarrow> ks | Some k \<Rightarrow> k # ks)"
    by (rule sem_loop_Cons)
  have pre: "round_pre D i bufs" by (rule round_preI [OF Cons.prems(3,2) D])
  note step = sem_step_sim [OF pre s(1)]
  have o_D: "?o \<notin> D" and o_len: "?o < length bufs" using pre by (auto simp: round_pre_def)
  have len: "length bufs1 = length bufs" using step(1) by (simp add: round_ok_def)
  have cl: "closed (insert ?o D) is" using Cons.prems(2) by simp
  have out1: "outputs_ok bufs1 is" by (rule outputs_ok_step [OF Cons.prems(3,2) step(1)])
  have keep: "resolve_rv F (bval bufs1 d b) = resolve_rv F (bval bufs dst b)" if "b \<in> D" "d b = dst b" for b d
  proof -
    have "bufs1 ! b = bufs ! b \<or> bufs1 ! b = resolve_constant F (bufs ! b)"
      using step(1) that o_D D unfolding round_ok_def by metis
    then show ?thesis using bval_resolved [of bufs1 b F bufs d] that(2) by (auto simp: bval_def)
  qed
  have agr: "agrees F (insert ?o D) (st(?o := r)) bufs1 d"
    if "r = bval bufs1 d ?o" "\<forall>b\<in>D. d b = dst b" for r d
    using that Cons.prems(4) keep o_D o_len len unfolding agrees_def by auto
  have sets: "D \<union> outs (i # is) = insert ?o D \<union> outs is" by simp
  show ?case
  proof (cases kept)
    case None
    have lin: "lin_step F i st = Inr (st(?o := bval bufs1 dst ?o))" by (rule step(2) [OF Cons.prems(4) None])
    have "K = ks" using s(3) None by simp
    moreover have "agrees F (insert ?o D) (st(?o := bval bufs1 dst ?o)) bufs1 dst" by (rule agr) auto
    from Cons.IH [OF s(2) cl out1 this] have "case foldR (lin_step F) (i # is) st of
        Inl e \<Rightarrow> foldR (dyn_step F bf) ks dst = Inl e
      | Inr st' \<Rightarrow> \<exists>dst'. foldR (dyn_step F bf) ks dst = Inr dst' \<and> agrees F (D \<union> outs (i # is)) st' bf dst'"
      by (simp only: foldR.simps lin bindR.simps sets)
    ultimately show ?thesis by (simp only:)
  next
    case (Some k)
    then have K: "K = k # ks" using s(3) by simp
    have k: "OutputBuf k = ?o" "set (InputBufs k) \<subseteq> set (InputBufs i)"
      "\<forall>b\<in>set (InputBufs k). resolve_constant F (bufs1 ! b) = bufs1 ! b" and nc: "\<not> IsConstant (bufs1 ! ?o)"
      using step(1) Some by (auto simp: round_ok_def)
    have st_bf: "kept_descs F (insert ?o D) (outs is) bufs1 bf"
      using sem_loop_static [OF s(2) cl out1] D len o_len by simp
    have same: "bf ! b = bufs1 ! b" if "b \<in> set (InputBufs k)" for b
    proof -
      have b: "b \<in> D" using that k(2) Cons.prems(2) by auto
      then have "b \<notin> outs is" "b < length bufs1" using closed_fresh [OF cl] D len by auto
      then show ?thesis using st_bf k(3) that unfolding kept_descs_def by metis
    qed
    then have ops: "map (\<lambda>b. operand F (bval bf dst b)) (InputBufs k) =
        map (\<lambda>b. operand F (bval bufs1 dst b)) (InputBufs k)" by (simp add: bval_def)
    have lin: "lin_step F i st = bindR (run_op F (i_Op k) (SelRule k) (i_OutputType k)
        (map (\<lambda>b. operand F (bval bf dst b)) (InputBufs k))) (\<lambda>d. Inr (st(?o := RArr d (b_Type (bufs1 ! ?o)))))"
      unfolding ops by (rule step(3) [OF Cons.prems(4) Some])
    show ?thesis
    proof (cases "run_op F (i_Op k) (SelRule k) (i_OutputType k) (map (\<lambda>b. operand F (bval bf dst b)) (InputBufs k))")
      case (Inl e)
      then show ?thesis by (simp add: lin K dyn_step_def)
    next
      case (Inr d)
      have lin': "lin_step F i st = Inr (st(?o := RArr d (b_Type (bufs1 ! ?o))))" by (simp add: lin Inr)
      have "agrees F (insert ?o D) (st(?o := RArr d (b_Type (bufs1 ! ?o)))) bufs1 (dst(?o := d))"
        using nc o_D by (intro agr) (auto simp: bval_def)
      moreover have "dyn_step F bf k dst = Inr (dst(?o := d))" by (simp add: dyn_step_def Inr k(1))
      ultimately show ?thesis using Cons.IH [OF s(2) cl out1]
        by (simp only: foldR.simps lin' bindR.simps sets K)
    qed
  qed
qed

end
