(* ===== verification/Adios_ExprCorrect.thy ===== *)
theory Adios_ExprCorrect
  imports Adios_ExprPass
begin

section \<open>Derived expressions: executing compiled code evaluates the expression\<close>

text \<open>
  The composition: code generation, the semantics pass, the plan of the slots and \<open>Execute\<close>. The
  invariant \<open>exec_inv\<close> ties the pool and the buffer table to the values of \<open>dyn_step\<close>: a live
  temporary is found in its slot, because \<open>PlanBuffers\<close> gave that slot to nobody else.
\<close>

subsection \<open>The stream before execution\<close>

lemma closedI:
  "(\<And>j b. j < length is \<Longrightarrow> b \<in> set (InputBufs (is ! j)) \<Longrightarrow> b \<in> D \<or> (\<exists>m<j. OutputBuf (is ! m) = b)) \<Longrightarrow>
   outs is \<inter> D = {} \<Longrightarrow> distinct (map OutputBuf is) \<Longrightarrow> closed D is"
proof (induction "is" arbitrary: D)
  case (Cons i "is")
  have "closed (insert (OutputBuf i) D) is"
  proof (rule Cons.IH)
    fix j b assume "j < length is" "b \<in> set (InputBufs (is ! j))"
    then have "b \<in> D \<or> (\<exists>m<Suc j. OutputBuf ((i # is) ! m) = b)" using Cons.prems(1) [of "Suc j" b] by simp
    then show "b \<in> insert (OutputBuf i) D \<or> (\<exists>m<j. OutputBuf (is ! m) = b)"
      by (auto simp: less_Suc_eq_0_disj)
  next
    show "outs is \<inter> insert (OutputBuf i) D = {}" using Cons.prems(2,3) by (auto simp: outs_def)
  qed (use Cons.prems(3) in simp)
  moreover have "b \<in> D" if "b \<in> set (InputBufs i)" for b using Cons.prems(1) [of 0 b] that by simp
  ultimately show ?case using Cons.prems(2) by auto
qed simp

text \<open>Buffers are never both input and constant, and the names of the inputs are listed.\<close>

definition names_ok :: "'f ExprCodeStream \<Rightarrow> bool" where
  "names_ok s = (\<forall>b\<in>set (Buffers s). \<not> (IsInput b \<and> IsConstant b) \<and>
                   (IsInput b \<longrightarrow> b_VarName b \<in> set (InputVarNames s)))"

lemma names_ok_core:
  assumes "names_ok s" "map core (Buffers s') = map core (Buffers s)" "InputVarNames s' = InputVarNames s"
  shows "names_ok s'"
  unfolding names_ok_def
proof
  fix b assume "b \<in> set (Buffers s')"
  then have "core b \<in> set (map core (Buffers s))" using assms(2) by (metis image_eqI set_map)
  then obtain a where "a \<in> set (Buffers s)" "core b = core a" by auto
  then show "\<not> (IsInput b \<and> IsConstant b) \<and> (IsInput b \<longrightarrow> b_VarName b \<in> set (InputVarNames s'))"
    using assms(1,3) core_eqD [of b a] unfolding names_ok_def by metis
qed

lemma names_ok_add:
  "names_ok s \<Longrightarrow> \<not> (IsInput b \<and> IsConstant b) \<Longrightarrow> (IsInput b \<longrightarrow> b_VarName b \<in> set (InputVarNames s)) \<Longrightarrow>
   names_ok (add_buffer b s)"
  by (auto simp: names_ok_def add_buffer_def)

lemma names_ok_new [simp]:
  "names_ok s \<Longrightarrow> names_ok (add_buffer (new_buffer F t) s)"
  "names_ok s \<Longrightarrow> names_ok (add_buffer ((new_buffer F t)\<lparr>IsConstant := True, ConstVal := c\<rparr>) s)"
  by (auto intro!: names_ok_add simp: new_buffer_def)

lemma names_ok_upd [simp]: "(\<And>b. core (f b) = core b) \<Longrightarrow> names_ok s \<Longrightarrow> names_ok (upd_buffer i f s)"
  by (rule names_ok_core [of s]) (simp_all add: upd_buffer_def map_core_update)

lemma names_ok_emit [simp]: "names_ok (emit i s) = names_ok s"
  by (simp add: names_ok_def emit_def)

lemma names_ok_mark [simp]: "names_ok s \<Longrightarrow> names_ok (fold (mark_use k) bs s)"
  by (induction bs arbitrary: s) (simp_all add: mark_use_def)

lemma generated_names:
  fixes F :: "'f flt_ops"
  shows "names_ok (cs c) \<Longrightarrow> GenerateCodeNode F n c = (b, c') \<Longrightarrow> names_ok (cs c')"
    and "names_ok (cs c) \<Longrightarrow> gen_children F a t ns c = (bs, c') \<Longrightarrow> names_ok (cs c')"
proof (induction F n c and F a t ns c arbitrary: b c' and bs c' rule: GenerateCodeNode_gen_children.induct)
  case (1 F op ns v k t c)
  have op: "gen_op F op t ins c1 = (b, c') \<Longrightarrow> names_ok (cs c1) \<Longrightarrow> names_ok (cs c')" for ins c1
    by (auto simp: gen_op_def Let_def)
  have var: "gen_var F v t c = (b, c') \<Longrightarrow> names_ok (cs c')"
    using 1(2) by (auto simp: gen_var_def Let_def names_ok_def add_buffer_def new_buffer_def split: option.splits if_splits)
  have const: "gen_const F k t c = (b, c') \<Longrightarrow> names_ok (cs c')"
    using 1(2) by (auto simp: gen_const_def)
  show ?case using 1 op var const by (auto split: if_splits prod.splits)
next
  case (3 F a t n ns c)
  have p: "gen_promote F t b0 c1 = (b2, c2) \<Longrightarrow> names_ok (cs c1) \<Longrightarrow> names_ok (cs c2)" for b0 c1 b2 c2
    by (auto simp: gen_promote_def Let_def)
  obtain b1 c1 where n: "GenerateCodeNode F n c = (b1, c1)" by fastforce
  obtain b2 c2 where q: "(if needsPromote a t (n_Type n) then gen_promote F t b1 c1 else (b1, c1)) = (b2, c2)"
    by fastforce
  obtain bs2 c3 where ch: "gen_children F a t ns c2 = (bs2, c3)" by fastforce
  have "names_ok (cs c1)" using 3(1) [OF 3(3) n] .
  then have "names_ok (cs c2)" using p q by (auto split: if_splits)
  then have "names_ok (cs c3)" using 3(2) [OF n [symmetric] q [symmetric] _ ch] by blast
  then show ?case using 3(4) n q ch by (auto split: if_splits)
qed auto

text \<open>What the generator hands to the passes.\<close>

definition start_ctx :: "'f GenerateCodeContext" where
  "start_ctx = \<lparr>cs = empty_stream, varBufMap = (\<lambda>_. None)\<rparr>"

lemma GenerateCode_facts:
  fixes F :: "'f flt_ops"
  assumes "var_types tv t"
  defines "g \<equiv> GenerateCode F t"
  shows "code_ok 0 (Buffers g) (Instructions g)" "OutputBufID g < length (Buffers g)" "names_ok g"
    and "computes F env (Buffers g) (Instructions g) [OutputBufID g] (bindR (eval_node F env t) (\<lambda>r. Inr [r]))"
proof -
  obtain b c where n: "GenerateCodeNode F t start_ctx = (b, c)" by fastforce
  have g: "g = (cs c)\<lparr>OutputBufID := b, cs_OutputType := n_Type t\<rparr>"
    using n by (simp add: g_def GenerateCode_def start_ctx_def)
  have "ctx_ok F tv start_ctx" by (simp add: ctx_ok_def start_ctx_def)
  from generated_code(1) [OF assms(1) this n, of env] obtain xs where
    x: "extends start_ctx c xs" "b < length (Buffers (cs c))"
    "computes F env (Buffers (cs c)) xs [b] (bindR (eval_node F env t) (\<lambda>r. Inr [r]))" by blast
  have "Instructions (cs c) = xs" "code_ok 0 (Buffers (cs c)) xs"
    using x(1) by (auto simp: extends_def start_ctx_def empty_stream_def)
  then show "code_ok 0 (Buffers g) (Instructions g)" "OutputBufID g < length (Buffers g)"
    "computes F env (Buffers g) (Instructions g) [OutputBufID g] (bindR (eval_node F env t) (\<lambda>r. Inr [r]))"
    using x by (simp_all add: g)
  have "names_ok (cs (start_ctx :: 'f GenerateCodeContext))"
    by (simp add: names_ok_def start_ctx_def empty_stream_def)
  from generated_names(1) [OF this n] show "names_ok g" by (simp add: g names_ok_def)
qed

subsection \<open>Execution with slots\<close>

text \<open>What execution needs of a stream.\<close>

definition stream_ok :: "'f ExprCodeStream \<Rightarrow> bool" where
  "stream_ok s =
     (ssa (Instructions s) \<and> OutputBufID s < length (Buffers s) \<and>
      (\<forall>b\<in>outs (Instructions s). b < length (Buffers s) \<and> is_temp (Buffers s ! b)) \<and>
      (\<forall>i\<in>set (Instructions s). \<forall>b\<in>set (InputBufs i). b < length (Buffers s) \<and>
         (is_temp (Buffers s ! b) \<longrightarrow> b \<in> outs (Instructions s))) \<and>
      (\<forall>b<length (Buffers s). \<not> (IsInput (Buffers s ! b) \<and> IsConstant (Buffers s ! b))) \<and>
      (\<forall>j<length (Instructions s). \<forall>b. live (Instructions s) j b \<longrightarrow>
         PhysicalSlot (Buffers s ! b) \<noteq> PhysicalSlot (Buffers s ! OutputBuf (Instructions s ! j))))"

lemma set_Data_simps [simp]:
  "dd_Data (set_Data p d) = p" "dd_Start (set_Data p d) = dd_Start d" "dd_Count (set_Data p d) = dd_Count d"
  "dd_Type (set_Data p d) = dd_Type d" "dd_IsScalar (set_Data p d) = dd_IsScalar d"
  "set_Data q (set_Data p d) = set_Data q d"
  by (simp_all add: set_Data_def)

lemma set_Data_id: "dd_Data d = a \<Longrightarrow> set_Data a d = d"
  by (simp add: set_Data_def)

lemma strip_eq:
  "set_Data () x = set_Data () y \<longleftrightarrow> dd_Start x = dd_Start y \<and> dd_Count x = dd_Count y \<and>
     dd_Type x = dd_Type y \<and> dd_IsScalar x = dd_IsScalar y"
  by (auto simp: set_Data_def)

text \<open>The dimensions do not depend on the data.\<close>

lemma first_dims_strip:
  "map (set_Data ()) xs = map (set_Data ()) ys \<Longrightarrow> first_dims xs = first_dims ys"
proof (induction xs arbitrary: ys)
  case (Cons x xs)
  show ?case
  proof (cases ys)
    case Nil
    then show ?thesis using Cons.prems by simp
  next
    case ys: (Cons y ys')
    then have xy: "dd_Start x = dd_Start y" "dd_Count x = dd_Count y" "dd_IsScalar x = dd_IsScalar y"
      and "map (set_Data ()) xs = map (set_Data ()) ys'" using Cons.prems by (simp_all add: strip_eq)
    then show ?thesis using Cons.IH [of ys'] by (simp add: ys first_dims_def)
  qed
qed (simp add: first_dims_def)

lemma output_dims_strip:
  assumes "map (set_Data ()) xs = map (set_Data ()) ys" "i_Op i = i_Op j" "SelRule i = SelRule j"
  shows "output_dims i xs = output_dims j ys"
proof -
  have "map (\<lambda>d. if dd_IsScalar d then r else (dd_Start d, dd_Count d, dd_Count d)) xs =
        map (\<lambda>d. if dd_IsScalar d then r else (dd_Start d, dd_Count d, dd_Count d)) ys" for r
    using assms(1)
  proof (induction xs arbitrary: ys)
    case (Cons x xs)
    then show ?case by (cases ys) (simp_all add: strip_eq)
  qed simp
  then show ?thesis using assms first_dims_strip [OF assms(1)]
    by (simp add: output_dims_def split: prod.splits)
qed

lemma mapR_Inr: "(\<And>x. x \<in> set xs \<Longrightarrow> f x = Inr (g x)) \<Longrightarrow> mapR f xs = Inr (map g xs)"
  by (induction xs) simp_all

lemma mapR_map: "mapR f (map g xs) = mapR (\<lambda>x. f (g x)) xs"
  by (induction xs) simp_all

lemma PoolAlloc_spec:
  assumes "PoolAlloc slot bytes pool = (p, pool')"
  shows "slot < length pool'" "p = PoolData slot (allocations (pool' ! slot))" "length pool \<le> length pool'"
    and "s < length pool \<Longrightarrow> s \<noteq> slot \<Longrightarrow> pool' ! s = pool ! s"
  using assms by (auto simp: PoolAlloc_def Let_def nth_append split: if_splits)

definition slot_of :: "'f ExprCodeStream \<Rightarrow> nat \<Rightarrow> nat" where
  "slot_of s b = PhysicalSlot (Buffers s ! b)"

definition const_data :: "'f flt_ops \<Rightarrow> 'f BufferDescriptor \<Rightarrow> 'f data_ptr DerivedData" where
  "const_data F b = set_Data (ConstData (AllocScalarConstant F (ConstVal b) (b_Type b)))
     (scalar_operand F (ConstVal b) (b_Type b))"

text \<open>Where the value \<open>dst b\<close> of a temporary is: in its slot, at the slot's present allocation.\<close>

definition in_slot :: "'f BufferSlot list \<Rightarrow> nat \<Rightarrow> 'f data_ptr DerivedData \<Rightarrow> 'f dd \<Rightarrow> bool" where
  "in_slot pool slot p d =
     (slot < length pool \<and> p = set_Data (PoolData slot (allocations (pool ! slot))) d \<and>
      content (pool ! slot) = dd_Data d)"

definition exec_inv ::
    "'f flt_ops \<Rightarrow> 'f ExprCodeStream \<Rightarrow> nat \<Rightarrow> (nat \<Rightarrow> 'f dd)
      \<Rightarrow> 'f BufferSlot list \<times> 'f data_ptr DerivedData list \<Rightarrow> bool" where
  "exec_inv F s j dst = (\<lambda>(pool, bd).
     length bd = length (Buffers s) \<and>
     (\<forall>b<length (Buffers s). IsInput (Buffers s ! b) \<longrightarrow> bd ! b = set_Data (CallerData (dd_Data (dst b))) (dst b)) \<and>
     (\<forall>b<length (Buffers s). IsConstant (Buffers s ! b) \<longrightarrow> bd ! b = const_data F (Buffers s ! b)) \<and>
     ((\<exists>m<j. OutputBuf (Instructions s ! m) = OutputBufID s) \<longrightarrow>
        bd ! OutputBufID s = set_Data (OwnData (dd_Data (dst (OutputBufID s)))) (dst (OutputBufID s))) \<and>
     (\<forall>b. live (Instructions s) j b \<longrightarrow> b \<noteq> OutputBufID s \<longrightarrow> in_slot pool (slot_of s b) (bd ! b) (dst b)))"

text \<open>The operands of the next instruction, as the loops find them through the pointers.\<close>

lemma exec_inv_operand:
  assumes inv: "exec_inv F s j dst (pool, bd)" and ok: "stream_ok s" and j: "j < length (Instructions s)"
    and b: "b \<in> set (InputBufs (Instructions s ! j))"
    and pool': "length pool \<le> length pool'"
      "\<And>x. x < length pool \<Longrightarrow> x \<noteq> slot_of s (OutputBuf (Instructions s ! j)) \<Longrightarrow> pool' ! x = pool ! x"
  shows "load_input pool' (bd ! b) = Inr (operand F (bval (Buffers s) dst b))"
    and "set_Data () (bd ! b) = set_Data () (operand F (bval (Buffers s) dst b))"
    and "case dd_Data (bd ! b) of PoolData x n \<Rightarrow> x \<noteq> slot_of s (OutputBuf (Instructions s ! j)) | _ \<Rightarrow> True"
proof -
  have blen: "b < length (Buffers s)" and out: "is_temp (Buffers s ! b) \<Longrightarrow> b \<in> outs (Instructions s)"
    and ssa: "ssa (Instructions s)"
    using ok j b by (auto simp: stream_ok_def)
  consider (input) "IsInput (Buffers s ! b)" "\<not> IsConstant (Buffers s ! b)" | (const) "IsConstant (Buffers s ! b)"
    | (temp) "is_temp (Buffers s ! b)"
    using ok blen by (auto simp: stream_ok_def is_temp_def)
  then have "load_input pool' (bd ! b) = Inr (operand F (bval (Buffers s) dst b)) \<and>
     set_Data () (bd ! b) = set_Data () (operand F (bval (Buffers s) dst b)) \<and>
     (case dd_Data (bd ! b) of PoolData x n \<Rightarrow> x \<noteq> slot_of s (OutputBuf (Instructions s ! j)) | _ \<Rightarrow> True)"
  proof cases
    case input
    then have "bd ! b = set_Data (CallerData (dd_Data (dst b))) (dst b)" using inv blen by (simp add: exec_inv_def)
    then show ?thesis using input by (simp add: load_input_def bval_def set_Data_id)
  next
    case const
    then have "bd ! b = const_data F (Buffers s ! b)" using inv blen by (simp add: exec_inv_def)
    then show ?thesis using const
      by (simp add: load_input_def bval_def const_data_def) (simp add: scalar_operand_def set_Data_def)
  next
    case temp
    then obtain m where m: "m < j" "OutputBuf (Instructions s ! m) = b"
      using ssa_defined_before [OF ssa j b out] by blast
    then have lv: "live (Instructions s) j b" using b j by (auto simp: live_def)
    have val: "bval (Buffers s) dst b = RArr (dst b) (b_Type (Buffers s ! b))"
      using temp by (simp add: bval_def is_temp_def)
    show ?thesis
    proof (cases "b = OutputBufID s")
      case True
      then have "bd ! b = set_Data (OwnData (dd_Data (dst b))) (dst b)" using inv m by (auto simp: exec_inv_def)
      then show ?thesis by (simp add: load_input_def val set_Data_id)
    next
      case False
      then have sl: "in_slot pool (slot_of s b) (bd ! b) (dst b)" using inv lv by (simp add: exec_inv_def)
      have ne: "slot_of s b \<noteq> slot_of s (OutputBuf (Instructions s ! j))"
        using ok j lv by (simp add: stream_ok_def slot_of_def)
      then have "pool' ! slot_of s b = pool ! slot_of s b" "slot_of s b < length pool'"
        using sl pool' by (auto simp: in_slot_def)
      then show ?thesis using sl ne by (auto simp: in_slot_def load_input_def val set_Data_id)
    qed
  qed
  then show "load_input pool' (bd ! b) = Inr (operand F (bval (Buffers s) dst b))"
    "set_Data () (bd ! b) = set_Data () (operand F (bval (Buffers s) dst b))"
    "case dd_Data (bd ! b) of PoolData x n \<Rightarrow> x \<noteq> slot_of s (OutputBuf (Instructions s ! j)) | _ \<Rightarrow> True"
    by blast+
qed

lemma compute_cong:
  "i_Op i = i_Op j \<Longrightarrow> i_OutputType i = i_OutputType j \<Longrightarrow> compute F i dims ins = compute F j dims ins"
  by (simp only: compute_def)

lemma run_op_instr:
  "run_op F (i_Op i) (SelRule i) (i_OutputType i) ins =
     bindR (output_dims i ins) (\<lambda>dims. bindR (compute F i dims ins) (\<lambda>a.
       Inr \<lparr>dd_Data = a, dd_Start = fst dims, dd_Count = snd dims, dd_Type = i_OutputType i, dd_IsScalar = False\<rparr>))"
proof -
  let ?i = "(new_instr (i_Op i) [] 0 (i_OutputType i))\<lparr>SelRule := SelRule i\<rparr>"
  have "output_dims ?i ins = output_dims i ins" by (rule output_dims_strip) (simp_all add: new_instr_def)
  moreover have "compute F ?i dims ins = compute F i dims ins" for dims
    by (rule compute_cong) (simp_all add: new_instr_def)
  ultimately show ?thesis by (simp add: run_op_def)
qed

lemma exec_inv_step:
  assumes inv: "exec_inv F s j dst (pool, bd)" and ok: "stream_ok s" and j: "j < length (Instructions s)"
    and o: "o' = OutputBuf (Instructions s ! j)"
    and pool': "length pool \<le> length pool'"
      "\<And>x. x < length pool \<Longrightarrow> x \<noteq> slot_of s o' \<Longrightarrow> pool' ! x = pool ! x"
    and final: "o' = OutputBufID s \<Longrightarrow> pool' = pool \<and> x = set_Data (OwnData (dd_Data d)) d"
    and temp: "o' \<noteq> OutputBufID s \<Longrightarrow> in_slot pool' (slot_of s o') x d"
  shows "exec_inv F s (Suc j) (dst(o' := d)) (pool', bd[o' := x])"
proof -
  have o_len: "o' < length (Buffers s)" and o_temp: "is_temp (Buffers s ! o')"
    using ok j o by (auto simp: stream_ok_def outs_def)
  have len: "length bd = length (Buffers s)" using inv by (simp add: exec_inv_def)
  have live: "in_slot pool' (slot_of s b) (bd[o' := x] ! b) ((dst(o' := d)) b)"
    if b: "live (Instructions s) (Suc j) b" "b \<noteq> OutputBufID s" for b
  proof (cases "b = o'")
    case True
    then show ?thesis using temp b(2) o_len len by simp
  next
    case False
    then have lv: "live (Instructions s) j b" using live_Suc [OF b(1)] o by blast
    then have sl: "in_slot pool (slot_of s b) (bd ! b) (dst b)" using inv b(2) by (simp add: exec_inv_def)
    have "slot_of s b \<noteq> slot_of s o'" using ok j lv o by (simp add: stream_ok_def slot_of_def)
    then show ?thesis using sl pool' False by (auto simp: in_slot_def)
  qed
  have own: "bd[o' := x] ! OutputBufID s =
      set_Data (OwnData (dd_Data ((dst(o' := d)) (OutputBufID s)))) ((dst(o' := d)) (OutputBufID s))"
    if "\<exists>m<Suc j. OutputBuf (Instructions s ! m) = OutputBufID s"
  proof (cases "o' = OutputBufID s")
    case True
    then show ?thesis using final o_len len by simp
  next
    case False
    then have "\<exists>m<j. OutputBuf (Instructions s ! m) = OutputBufID s" using that o less_Suc_eq by auto
    then show ?thesis using inv False by (simp add: exec_inv_def)
  qed
  have "bd[o' := x] ! b = bd ! b" "(dst(o' := d)) b = dst b" if "\<not> is_temp (Buffers s ! b)" for b
    using that o_temp by (cases "b = o'"; simp)+
  then show ?thesis using inv live own len unfolding exec_inv_def
    by (auto simp: is_temp_def)
qed

lemma exec_instr_sim:
  assumes inv: "exec_inv F s j dst (pool, bd)" and ok: "stream_ok s" and j: "j < length (Instructions s)"
  shows "case dyn_step F (Buffers s) (Instructions s ! j) dst of
      Inl e \<Rightarrow> exec_instr F s (Instructions s ! j) (pool, bd) = Inl e
    | Inr dst' \<Rightarrow> \<exists>st'. exec_instr F s (Instructions s ! j) (pool, bd) = Inr st' \<and> exec_inv F s (Suc j) dst' st'"
proof -
  let ?i = "Instructions s ! j"
  let ?o = "OutputBuf ?i" and ?ptrs = "map (\<lambda>b. bd ! b) (InputBufs ?i)"
  let ?ops = "map (\<lambda>b. operand F (bval (Buffers s) dst b)) (InputBufs ?i)"
  note opnd = exec_inv_operand [OF inv ok j]
  have dims: "output_dims ?i ?ptrs = output_dims ?i ?ops"
    using opnd(2) [OF _ order_refl] by (intro output_dims_strip) simp_all
  have load: "mapR (load_input pool') ?ptrs = Inr ?ops"
    if "length pool \<le> length pool'" "\<And>x. x < length pool \<Longrightarrow> x \<noteq> slot_of s ?o \<Longrightarrow> pool' ! x = pool ! x" for pool'
    unfolding mapR_map by (rule mapR_Inr) (rule opnd(1) [OF _ that])
  let ?d = "\<lambda>dims a. \<lparr>dd_Data = a, dd_Start = fst dims, dd_Count = snd dims, dd_Type = i_OutputType ?i, dd_IsScalar = False\<rparr>"
  have dyn: "dyn_step F (Buffers s) ?i dst = bindR (output_dims ?i ?ops) (\<lambda>dims. bindR (compute F ?i dims ?ops)
      (\<lambda>a. Inr (dst(?o := ?d dims a))))"
    by (simp only: dyn_step_def run_op_instr bindR_assoc bindR.simps)
  show ?thesis
  proof (cases "output_dims ?i ?ops")
    case (Inl e)
    then show ?thesis by (simp add: dyn exec_instr_def dims)
  next
    case odims: (Inr dm)
    show ?thesis
    proof (cases "?o = OutputBufID s")
      case True
      have ex: "exec_instr F s ?i (pool, bd) = bindR (compute F ?i dm ?ops) (\<lambda>a.
          Inr (pool, bd[?o := set_Data (OwnData a) (?d dm a)]))"
        using True load [OF order_refl] by (simp add: exec_instr_def dims odims set_Data_def)
      show ?thesis
      proof (cases "compute F ?i dm ?ops")
        case (Inr a)
        have "exec_inv F s (Suc j) (dst(?o := ?d dm a)) (pool, bd[?o := set_Data (OwnData a) (?d dm a)])"
          by (rule exec_inv_step [OF inv ok j refl]) (use True in auto)
        then show ?thesis by (simp add: dyn odims ex Inr)
      qed (simp add: dyn odims ex)
    next
      case False
      let ?slot = "slot_of s ?o" and ?bytes = "unat ((outSize (snd dm)) * of_nat (ElementSize (i_OutputType ?i)))"
      obtain q pool1 where alloc: "PoolAlloc ?slot ?bytes pool = (q, pool1)" by fastforce
      note sp = PoolAlloc_spec [OF alloc]
      have no_alias: "\<not> list_ex (\<lambda>d. case dd_Data d of PoolData s' _ \<Rightarrow> s' = ?slot | _ \<Rightarrow> False) ?ptrs"
        using opnd(3) [OF _ order_refl] by (force simp: list_ex_iff split: data_ptr.splits)
      have ex: "exec_instr F s ?i (pool, bd) = bindR (compute F ?i dm ?ops) (\<lambda>a.
          Inr (pool1[?slot := (pool1 ! ?slot)\<lparr>content := a\<rparr>], bd[?o := set_Data q (?d dm a)]))"
        using False load [OF sp(3,4)] no_alias alloc
        by (simp add: exec_instr_def dims odims set_Data_def slot_of_def [symmetric] Let_def)
      show ?thesis
      proof (cases "compute F ?i dm ?ops")
        case (Inr a)
        have "exec_inv F s (Suc j) (dst(?o := ?d dm a))
            (pool1[?slot := (pool1 ! ?slot)\<lparr>content := a\<rparr>], bd[?o := set_Data q (?d dm a)])"
          by (rule exec_inv_step [OF inv ok j refl]) (use False sp in \<open>auto simp: in_slot_def\<close>)
        then show ?thesis by (simp add: dyn odims ex Inr)
      qed (simp add: dyn odims ex)
    qed
  qed
qed

text \<open>All instructions.\<close>

lemma exec_instrs_sim:
  assumes ok: "stream_ok s"
  shows "Instructions s = xs @ rest \<Longrightarrow> exec_inv F s (length xs) dst st \<Longrightarrow>
     (case foldR (dyn_step F (Buffers s)) rest dst of
        Inl e \<Rightarrow> foldR (exec_instr F s) rest st = Inl e
      | Inr dst' \<Rightarrow> \<exists>st'. foldR (exec_instr F s) rest st = Inr st' \<and>
          exec_inv F s (length (Instructions s)) dst' st')"
proof (induction rest arbitrary: xs dst st)
  case Nil
  then show ?case by simp
next
  case (Cons i rest)
  obtain pool bd where st: "st = (pool, bd)" by fastforce
  have j: "length xs < length (Instructions s)" "Instructions s ! length xs = i" using Cons.prems(1) by simp_all
  note step = exec_instr_sim [OF Cons.prems(2) [unfolded st] ok j(1)]
  show ?case
  proof (cases "dyn_step F (Buffers s) i dst")
    case (Inl e)
    then show ?thesis using step by (simp add: st j(2))
  next
    case (Inr dst1)
    then obtain st1 where st1: "exec_instr F s i (pool, bd) = Inr st1" "exec_inv F s (Suc (length xs)) dst1 st1"
      using step j(2) by auto
    have "Instructions s = (xs @ [i]) @ rest" using Cons.prems(1) by simp
    from Cons.IH [OF this, of dst1 st1] st1(2)
    show ?thesis by (simp only: foldR.simps Inr st st1(1) bindR.simps length_append_singleton)
  qed
qed

subsection \<open>The stream after the passes\<close>

definition leaf_bufs :: "'f BufferDescriptor list \<Rightarrow> nat set" where
  "leaf_bufs bufs = {b. b < length bufs \<and> \<not> is_temp (bufs ! b)}"

lemma ssa_distinct: "ssa is \<Longrightarrow> distinct (map OutputBuf is)"
  by (simp add: ssa_def strict_sorted_iff)

lemma code_okD:
  "code_ok lo bufs is \<Longrightarrow> ssa is"
  "code_ok lo bufs is \<Longrightarrow> b \<in> outs is \<Longrightarrow> b < length bufs \<and> is_temp (bufs ! b)"
  "code_ok 0 bufs is \<Longrightarrow> b < length bufs \<Longrightarrow> is_temp (bufs ! b) \<Longrightarrow> b \<in> outs is"
  "code_ok lo bufs is \<Longrightarrow> i \<in> set is \<Longrightarrow> b_Type (bufs ! OutputBuf i) = i_OutputType i"
  by (simp_all add: code_ok_def)

lemma code_ok_inputs:
  assumes "code_ok 0 bufs is" "i \<in> set is" "b \<in> set (InputBufs i)"
  shows "b < length bufs" "is_temp (bufs ! b) \<Longrightarrow> b \<in> outs is"
proof -
  have "b < OutputBuf i" using code_okD(1) [OF assms(1)] assms(2,3) by (simp add: ssa_def)
  moreover have "OutputBuf i < length bufs"
    using code_okD(2) [OF assms(1), of "OutputBuf i"] assms(2) by (simp add: outs_def)
  ultimately show "b < length bufs" by simp
  then show "is_temp (bufs ! b) \<Longrightarrow> b \<in> outs is" by (rule code_okD(3) [OF assms(1)])
qed

lemma code_ok_outputs:
  assumes "code_ok lo bufs is"
  shows "outputs_ok bufs is"
  unfolding outputs_ok_def
proof
  fix i assume i: "i \<in> set is"
  then have "OutputBuf i \<in> outs is" by (simp add: outs_def)
  then show "OutputBuf i < length bufs \<and> is_temp (bufs ! OutputBuf i) \<and> b_Type (bufs ! OutputBuf i) = i_OutputType i"
    using code_okD(2) [OF assms, of "OutputBuf i"] code_okD(4) [OF assms i] by simp
qed

lemma code_ok_closed:
  assumes ok: "code_ok 0 bufs is"
  shows "closed (leaf_bufs bufs) is"
proof (rule closedI)
  show "outs is \<inter> leaf_bufs bufs = {}" using code_okD(2) [OF ok] by (auto simp: leaf_bufs_def)
  show "distinct (map OutputBuf is)" by (rule ssa_distinct [OF code_okD(1) [OF ok]])
  fix j b assume jb: "j < length is" "b \<in> set (InputBufs (is ! j))"
  then show "b \<in> leaf_bufs bufs \<or> (\<exists>m<j. OutputBuf (is ! m) = b)"
    using code_ok_inputs [OF ok, of "is ! j" b] ssa_defined_before [OF code_okD(1) [OF ok] jb]
    by (auto simp: leaf_bufs_def)
qed

lemma plan_constant_fields:
  "map core (snd (plan_constant c st)) = map core (snd st)"
  "LastUse (snd (plan_constant c st) ! b) = LastUse (snd st ! b)"
proof -
  obtain free bufs where st: "st = (free, bufs)" by fastforce
  have "snd (plan_constant c st) = bufs \<or>
      (\<exists>s. snd (plan_constant c st) = bufs[c := (bufs ! c)\<lparr>PhysicalSlot := s\<rparr>])"
    by (auto simp: st plan_constant_def split: prod.splits)
  then show "map core (snd (plan_constant c st)) = map core (snd st)"
    "LastUse (snd (plan_constant c st) ! b) = LastUse (snd st ! b)"
    by (auto simp: st map_core_update) (cases "c < length bufs"; cases "b = c"; simp add: list_update_beyond)
qed

lemma plan_constants:
  "map core (snd (fold plan_constant bs st)) = map core (snd st) \<and>
   LastUse (snd (fold plan_constant bs st) ! b) = LastUse (snd st ! b)"
  by (induction bs arbitrary: st) (simp_all add: plan_constant_fields)

lemma drop_unreferenced_nth:
  assumes "b < length bufs"
  shows "referenced is out b \<or> IsInput (bufs ! b) \<Longrightarrow> drop_unreferenced is out bufs ! b = bufs ! b"
    and "\<not> (referenced is out b \<or> IsInput (bufs ! b)) \<Longrightarrow>
      drop_unreferenced is out bufs ! b = (bufs ! b)\<lparr>IsConstant := False\<rparr>"
    and "LastUse (drop_unreferenced is out bufs ! b) = LastUse (bufs ! b)"
  using assms by (auto simp: drop_unreferenced_def nth_enumerate_eq)

text \<open>The descriptors after all passes, compared with those the semantics pass has left.\<close>

definition final_bufs ::
    "ExprInstruction list \<Rightarrow> nat \<Rightarrow> 'f BufferDescriptor list \<Rightarrow> 'f BufferDescriptor list" where
  "final_bufs K out bf =
     (let bd = drop_unreferenced K out (use_ranges K bf)
      in snd (fold plan_instruction (enumerate 0 K) (fold plan_constant [0..<length bd] ([], bd))))"

lemma final_bufs_core:
  assumes b: "b < length bf"
  shows "length (final_bufs K out bf) = length bf"
    and "referenced K out b \<or> IsInput (bf ! b) \<Longrightarrow> core (final_bufs K out bf ! b) = core (bf ! b)"
    and "\<not> (referenced K out b \<or> IsInput (bf ! b)) \<Longrightarrow>
       \<not> IsConstant (final_bufs K out bf ! b) \<and> \<not> IsInput (final_bufs K out bf ! b)"
    and "b_VarName (final_bufs K out bf ! b) = b_VarName (bf ! b)"
proof -
  let ?bu = "use_ranges K bf" and ?bd = "drop_unreferenced K out (use_ranges K bf)"
  let ?st = "fold plan_constant [0..<length ?bd] ([], ?bd)"
  have fin: "final_bufs K out bf = snd (plan_prefix K (length K) ?st)"
    by (simp add: final_bufs_def Let_def plan_prefix_all)
  have core_all: "map core (final_bufs K out bf) = map core ?bd"
    unfolding fin using plan_prefix_fields(1) [OF order_refl] plan_constants by (metis snd_conv)
  have len: "length ?bd = length bf" "length ?bu = length bf" by (simp_all add: drop_unreferenced_def use_ranges)
  then show len': "length (final_bufs K out bf) = length bf" using core_all by (metis length_map)
  have c: "core (final_bufs K out bf ! b) = core (?bd ! b)" "core (?bu ! b) = core (bf ! b)"
    using core_all b len len' use_ranges(2) [of K bf] by (metis nth_map)+
  have inp: "IsInput (?bu ! b) = IsInput (bf ! b)" "b_VarName (?bu ! b) = b_VarName (bf ! b)"
    using core_eqD [OF c(2)] by blast+
  have b': "b < length ?bu" using b len by simp
  show "core (final_bufs K out bf ! b) = core (bf ! b)" if "referenced K out b \<or> IsInput (bf ! b)"
    using drop_unreferenced_nth(1) [OF b'] that c inp by simp
  show "\<not> IsConstant (final_bufs K out bf ! b) \<and> \<not> IsInput (final_bufs K out bf ! b)"
    if "\<not> (referenced K out b \<or> IsInput (bf ! b))"
    using drop_unreferenced_nth(2) [OF b', of K out] that core_eqD [OF c(1)] inp by simp
  show "b_VarName (final_bufs K out bf ! b) = b_VarName (bf ! b)"
    using drop_unreferenced_nth(1,2) [OF b', of K out] core_eqD [OF c(1)] inp
    by (cases "referenced K out b \<or> IsInput (?bu ! b)") simp_all
qed

lemma sem_loop_facts:
  assumes ok: "code_ok 0 B is" and sem: "sem_loop F is B = Inr (K, bf)"
  shows "length bf = length B" "ssa K"
    and "b < length B \<Longrightarrow> IsInput (bf ! b) = IsInput (B ! b)"
    and "b \<in> leaf_bufs B \<Longrightarrow> bf ! b = B ! b \<or> bf ! b = resolve_constant F (B ! b)"
    and "b \<in> outs K \<Longrightarrow> b < length B \<and> is_temp (bf ! b)"
    and "b < length B \<Longrightarrow> is_temp (bf ! b) \<Longrightarrow> b \<in> outs K"
    and "k \<in> set K \<Longrightarrow> b \<in> set (InputBufs k) \<Longrightarrow> b < length B"
proof -
  have D: "\<forall>b\<in>leaf_bufs B. b < length B" by (simp add: leaf_bufs_def)
  note st = sem_loop_static [OF sem code_ok_closed [OF ok] code_ok_outputs [OF ok] D]
  have kd: "kept_descs F (leaf_bufs B) (outs is) B bf" and oK: "outs K = {b \<in> outs is. \<not> IsConstant (bf ! b)}"
    and ks: "\<forall>k\<in>set K. \<exists>i\<in>set is. OutputBuf k = OutputBuf i \<and> set (InputBufs k) \<subseteq> set (InputBufs i)"
    and srt: "sorted_wrt (<) (map OutputBuf is) \<longrightarrow> sorted_wrt (<) (map OutputBuf K)"
    using st by blast+
  have ssa: "ssa is" by (rule code_okD(1) [OF ok])
  show len: "length bf = length B" using kd by (simp add: kept_descs_def)
  show "ssa K" using ssa srt ks unfolding ssa_def by (metis subsetD)
  show inp: "IsInput (bf ! b) = IsInput (B ! b)" if "b < length B" for b
    using kd that by (simp add: kept_descs_def)
  show leaf: "bf ! b = B ! b \<or> bf ! b = resolve_constant F (B ! b)" if b: "b \<in> leaf_bufs B" for b
  proof -
    have "b < length B" "b \<notin> outs is" using b code_okD(2) [OF ok, of b] by (auto simp: leaf_bufs_def)
    then show ?thesis using kd unfolding kept_descs_def by blast
  qed
  show "b < length B \<and> is_temp (bf ! b)" if "b \<in> outs K"
  proof -
    have b: "b \<in> outs is" "\<not> IsConstant (bf ! b)" using that oK by auto
    then show ?thesis using code_okD(2) [OF ok b(1)] inp [of b] by (auto simp: is_temp_def)
  qed
  show "b \<in> outs K" if b: "b < length B" "is_temp (bf ! b)"
  proof -
    have "is_temp (B ! b)" using leaf [of b] b
      by (cases "is_temp (B ! b)") (auto simp: leaf_bufs_def dest: arg_cong [of _ _ is_temp])
    then have "b \<in> outs is" using code_okD(3) [OF ok b(1)] by blast
    then show ?thesis using b(2) by (simp add: oK is_temp_def)
  qed
  show "b < length B" if "k \<in> set K" "b \<in> set (InputBufs k)"
    using ks that code_ok_inputs(1) [OF ok] by blast
qed

lemma final_bufs_temp:
  assumes "b < length bf" "referenced K out b"
  shows "is_temp (final_bufs K out bf ! b) = is_temp (bf ! b)"
  using final_bufs_core(2) [OF assms(1)] assms(2) by (intro is_temp_core) blast

lemma referencedI:
  "k \<in> set K \<Longrightarrow> b \<in> set (InputBufs k) \<Longrightarrow> referenced K out b" "b \<in> outs K \<Longrightarrow> referenced K out b"
  "referenced K out out"
  by (auto simp: referenced_def list_ex_iff outs_def)

text \<open>The slots of the final descriptors are those of a plan.\<close>

lemma final_bufs_apart:
  assumes ok: "code_ok 0 B is" and sem: "sem_loop F is B = Inr (K, bf)"
    and j: "j < length K" and lv: "live K j b"
  shows "PhysicalSlot (final_bufs K out bf ! b) \<noteq> PhysicalSlot (final_bufs K out bf ! OutputBuf (K ! j))"
proof -
  note facts = sem_loop_facts [OF ok sem]
  let ?bd = "drop_unreferenced K out (use_ranges K bf)"
  let ?st = "fold plan_constant [0..<length ?bd] ([], ?bd)"
  have fin: "final_bufs K out bf = snd (plan_prefix K (length K) ?st)"
    by (simp add: final_bufs_def Let_def plan_prefix_all)
  have len: "length ?bd = length bf" by (simp add: drop_unreferenced_def use_ranges)
  have cst: "map core (snd ?st) = map core ?bd" and lst: "LastUse (snd ?st ! b) = LastUse (?bd ! b)" for b
    using plan_constants [of _ "([], ?bd)"] by simp_all
  have slen: "length (snd ?st) = length bf" using cst len by (metis length_map)
  have temp: "is_temp (snd ?st ! b) = is_temp (bf ! b)" if "b < length bf" "referenced K out b" for b
  proof (rule is_temp_core)
    have "core (snd ?st ! b) = core (?bd ! b)" using cst that(1) len slen by (metis nth_map)
    also have "\<dots> = core (use_ranges K bf ! b)"
      using drop_unreferenced_nth(1) [of b "use_ranges K bf" K out] that by (simp add: use_ranges(1))
    also have "\<dots> = core (bf ! b)" using use_ranges [of K bf] that(1) by (metis nth_map)
    finally show "core (snd ?st ! b) = core (bf ! b)" .
  qed
  have "plannable K (snd ?st)"
    unfolding plannable_def
  proof (intro conjI ballI allI impI)
    show "ssa K" by (rule facts(2))
  next
    fix b assume b: "b \<in> outs K"
    then show "b < length (snd ?st)" "is_temp (snd ?st ! b)"
      using facts(1,5) temp [OF _ referencedI(2) [OF b]] slen by auto
  next
    fix k b assume k: "k < length K" "b \<in> set (InputBufs (K ! k))"
    then have b: "b < length bf" using facts(1,7) nth_mem by metis
    then show "k \<le> LastUse (snd ?st ! b)"
      using use_ranges_LastUse [OF k b] drop_unreferenced_nth(3) [of b "use_ranges K bf" K out]
      by (simp add: lst use_ranges(1))
    assume "is_temp (snd ?st ! b)"
    then show "b \<in> outs K" using temp [OF b referencedI(1) [OF nth_mem [OF k(1)] k(2)]] facts(1,6) b by auto
  qed
  from plan_prefix_apart [OF this j lv] show ?thesis unfolding fin .
qed

lemma final_stream_ok:
  assumes ok: "code_ok 0 B is" and sem: "sem_loop F is B = Inr (K, bf)"
    and names: "\<forall>b\<in>set B. \<not> (IsInput b \<and> IsConstant b)"
    and s: "Instructions s = K" "Buffers s = final_bufs K (OutputBufID s) bf" "OutputBufID s < length B"
  shows "stream_ok s"
proof -
  note facts = sem_loop_facts [OF ok sem]
  let ?out = "OutputBufID s"
  have len: "length (Buffers s) = length B" using final_bufs_core(1) [of ?out bf K ?out] s facts(1) by simp
  have temp: "is_temp (Buffers s ! b) = is_temp (bf ! b)" if "b < length B" "referenced K ?out b" for b
    using final_bufs_temp [of b bf K ?out] that s facts(1) by simp
  have excl: "\<not> (IsInput (Buffers s ! b) \<and> IsConstant (Buffers s ! b))" if b: "b < length B" for b
  proof (cases "referenced K ?out b \<or> IsInput (bf ! b)")
    case True
    have bf: "IsInput (bf ! b) \<Longrightarrow> \<not> IsConstant (bf ! b)"
    proof -
      assume i: "IsInput (bf ! b)"
      then have "b \<in> leaf_bufs B" using facts(3) [OF b] b by (simp add: leaf_bufs_def is_temp_def)
      then have "IsConstant (bf ! b) = IsConstant (B ! b)" using facts(4) by fastforce
      then show ?thesis using names i facts(3) [OF b] b by auto
    qed
    then show ?thesis using core_eqD [OF final_bufs_core(2)] True b facts(1) s by metis
  next
    case False
    then show ?thesis using final_bufs_core(3) [of b bf K ?out] b facts(1) s by auto
  qed
  show ?thesis
    unfolding stream_ok_def s(1) len
  proof (intro conjI ballI allI impI)
    show "ssa K" by (rule facts(2))
    show "?out < length B" by (rule s(3))
    show "b < length B" "is_temp (Buffers s ! b)" if "b \<in> outs K" for b
      using facts(5) [OF that] temp [OF _ referencedI(2) [OF that]] by auto
    show "b < length B" if "i \<in> set K" "b \<in> set (InputBufs i)" for i b by (rule facts(7) [OF that])
    show "b \<in> outs K" if "i \<in> set K" "b \<in> set (InputBufs i)" "is_temp (Buffers s ! b)" for i b
      using facts(6,7) temp [OF _ referencedI(1)] that by metis
    show "\<not> (IsInput (Buffers s ! b) \<and> IsConstant (Buffers s ! b))" if "b < length B" for b by (rule excl [OF that])
    show "PhysicalSlot (Buffers s ! b) \<noteq> PhysicalSlot (Buffers s ! OutputBuf (K ! j))"
      if "j < length K" "live K j b" for j b
      unfolding s(2) by (rule final_bufs_apart [OF ok sem that])
  qed
qed

subsection \<open>One block\<close>

lemma exec_inv_init:
  assumes "stream_ok s" "\<forall>b\<in>set (Buffers s). IsInput b \<longrightarrow> blk < length (nameToData (b_VarName b))"
  shows "\<exists>bd. mapR (setup_buffer F nameToData blk) (Buffers s) = Inr bd \<and>
     exec_inv F s 0 (\<lambda>b. nameToData (b_VarName (Buffers s ! b)) ! blk) (pool, bd)"
proof -
  let ?g = "\<lambda>b. if IsInput b then set_Data (CallerData (dd_Data (nameToData (b_VarName b) ! blk))) (nameToData (b_VarName b) ! blk)
     else if IsConstant b then const_data F b
     else \<lparr>dd_Data = NullData, dd_Start = [], dd_Count = [], dd_Type = DT_None, dd_IsScalar = False\<rparr>"
  have "mapR (setup_buffer F nameToData blk) (Buffers s) = Inr (map ?g (Buffers s))"
    using assms(2) by (intro mapR_Inr) (auto simp: setup_buffer_def const_data_def scalar_operand_def set_Data_def Let_def)
  moreover have "exec_inv F s 0 (\<lambda>b. nameToData (b_VarName (Buffers s ! b)) ! blk) (pool, map ?g (Buffers s))"
    using assms(1) by (auto simp: exec_inv_def live_def stream_ok_def)
  ultimately show ?thesis by blast
qed

lemma exec_block_sim:
  assumes ok: "stream_ok s" "\<forall>b\<in>set (Buffers s). IsInput b \<longrightarrow> blk < length (nameToData (b_VarName b))"
  shows "case foldR (dyn_step F (Buffers s)) (Instructions s) (\<lambda>b. nameToData (b_VarName (Buffers s ! b)) ! blk) of
      Inl e \<Rightarrow> exec_block F s nameToData blk pool = Inl e
    | Inr dst \<Rightarrow> \<exists>pool' bd. exec_block F s nameToData blk pool = Inr (pool', bd ! OutputBufID s) \<and>
        exec_inv F s (length (Instructions s)) dst (pool', bd)"
proof -
  obtain bd0 where bd0: "mapR (setup_buffer F nameToData blk) (Buffers s) = Inr bd0"
    "exec_inv F s 0 (\<lambda>b. nameToData (b_VarName (Buffers s ! b)) ! blk) (pool, bd0)"
    using exec_inv_init [OF ok] by blast
  show ?thesis
    using exec_instrs_sim [OF ok(1), of "[]" "Instructions s" F _ "(pool, bd0)"] bd0
    by (auto simp: exec_block_def split: sum.splits) fastforce+
qed

lemma foldR_dyn_cong:
  assumes "\<And>k b. k \<in> set K \<Longrightarrow> b \<in> set (InputBufs k) \<Longrightarrow> core (bufs ! b) = core (bufs' ! b)"
  shows "foldR (dyn_step F bufs) K dst = foldR (dyn_step F bufs') K dst"
  using assms
proof (induction K arbitrary: dst)
  case (Cons k K)
  have "bval bufs dst b = bval bufs' dst b" if "b \<in> set (InputBufs k)" for b
    using core_eqD [OF Cons.prems [of k b]] that by (simp add: bval_def)
  then have "map (\<lambda>b. operand F (bval bufs dst b)) (InputBufs k) = map (\<lambda>b. operand F (bval bufs' dst b)) (InputBufs k)"
    by simp
  then have "dyn_step F bufs k dst = dyn_step F bufs' k dst" by (simp only: dyn_step_def)
  moreover have "foldR (dyn_step F bufs) K d = foldR (dyn_step F bufs') K d" for d
    by (rule Cons.IH) (rule Cons.prems, simp_all)
  ultimately show ?case by (cases "dyn_step F bufs' k dst") simp_all
qed simp

fun array_of :: "'f rv \<Rightarrow> 'f dd result" where
  "array_of (RArr d t) = Inr d"
| "array_of (RConst c t) = Inl UndefinedBehaviour"

text \<open>The shape of a compiled stream.\<close>

lemma compiled_shape:
  fixes F :: "'f flt_ops"
  assumes vt: "var_types tv t" and sem: "SemanticsPass F ((GenerateCode F t)\<lparr>ExprString := txt\<rparr>) = Inr s0"
    and s: "s = PlanBuffers s0"
  obtains K bf where "sem_loop F (Instructions (GenerateCode F t)) (Buffers (GenerateCode F t)) = Inr (K, bf)"
    "Instructions s = K" "Buffers s = final_bufs K (OutputBufID (GenerateCode F t)) bf"
    "OutputBufID s = OutputBufID (GenerateCode F t)" "InputVarNames s = InputVarNames (GenerateCode F t)"
    "stream_ok s"
proof -
  let ?g = "GenerateCode F t"
  note gen = GenerateCode_facts [OF vt, of F]
  obtain K bf where loop: "sem_loop F (Instructions ?g) (Buffers ?g) = Inr (K, bf)"
    and s0: "s0 = ?g\<lparr>ExprString := txt, Instructions := K,
       Buffers := drop_unreferenced K (OutputBufID ?g) (use_ranges K bf),
       cs_OutputType := b_Type (drop_unreferenced K (OutputBufID ?g) (use_ranges K bf) ! OutputBufID ?g)\<rparr>"
    using sem by (auto simp: SemanticsPass_def Let_def bindR_Inr_iff)
  have sh: "Instructions s = K" "Buffers s = final_bufs K (OutputBufID ?g) bf" "OutputBufID s = OutputBufID ?g"
    "InputVarNames s = InputVarNames ?g"
    by (simp_all add: s s0 PlanBuffers_def final_bufs_def Let_def split: prod.splits)
  have excl: "\<forall>b\<in>set (Buffers ?g). \<not> (IsInput b \<and> IsConstant b)" using gen(3) by (simp add: names_ok_def)
  have "stream_ok s" by (rule final_stream_ok [OF gen(1) loop excl]) (use sh gen(2) in simp_all)
  then show thesis using that loop sh by blast
qed

text \<open>A block of the compiled stream against the evaluation of the tree.\<close>

lemma compiled_block:
  fixes F :: "'f flt_ops"
  assumes vt: "var_types tv t" and sem: "SemanticsPass F ((GenerateCode F t)\<lparr>ExprString := txt\<rparr>) = Inr s0"
    and s: "s = PlanBuffers s0" and nc: "\<not> IsConstant (Buffers s ! OutputBufID s)"
    and data: "\<forall>v\<in>set (InputVarNames s). blk < length (nameToData v)"
  shows "case eval_node F (\<lambda>v. nameToData v ! blk) t of
      Inl e \<Rightarrow> exec_block F s nameToData blk pool = Inl e
    | Inr r \<Rightarrow> \<exists>pool' p d. exec_block F s nameToData blk pool = Inr (pool', p) \<and> returned p = Inr d \<and> array_of r = Inr d"
proof -
  let ?g = "GenerateCode F t" and ?env = "\<lambda>v. nameToData v ! blk"
  let ?B = "Buffers ?g" and ?is = "Instructions ?g" and ?out = "OutputBufID ?g"
  note gen = GenerateCode_facts [OF vt, of F]
  obtain K bf where loop: "sem_loop F ?is ?B = Inr (K, bf)" and sI: "Instructions s = K"
    and sB: "Buffers s = final_bufs K ?out bf" and sO: "OutputBufID s = ?out"
    and sV: "InputVarNames s = InputVarNames ?g" and ok: "stream_ok s"
    by (rule compiled_shape [OF vt sem s])
  note facts = sem_loop_facts [OF gen(1) loop]
  have excl: "\<forall>b\<in>set ?B. \<not> (IsInput b \<and> IsConstant b)" using gen(3) by (simp add: names_ok_def)
  have slen: "length (Buffers s) = length ?B" using final_bufs_core(1) [of ?out bf K ?out] gen(2) facts(1) sB by simp
  have core_s: "core (Buffers s ! b) = core (bf ! b)" if "b < length ?B" "referenced K ?out b \<or> IsInput (bf ! b)" for b
    using final_bufs_core(2) [of b bf K ?out] that facts(1) sB by simp
  have inp: "IsInput (Buffers s ! b) = IsInput (?B ! b)" if b: "b < length ?B" for b
    using final_bufs_core(3) [of b bf K ?out] core_eqD [OF core_s [OF b]] facts(1,3) b sB by metis
  have name: "b_VarName (Buffers s ! b) = b_VarName (?B ! b)" if b: "b \<in> leaf_bufs ?B" for b
  proof -
    have "b_VarName (bf ! b) = b_VarName (?B ! b)" using facts(4) [OF b] by auto
    then show ?thesis using final_bufs_core(4) [of b bf K ?out] b facts(1) sB by (simp add: leaf_bufs_def)
  qed
  have names: "\<forall>b\<in>set (Buffers s). IsInput b \<longrightarrow> blk < length (nameToData (b_VarName b))"
  proof (intro ballI impI)
    fix x assume x: "x \<in> set (Buffers s)" "IsInput x"
    then obtain b where b: "b < length ?B" "x = Buffers s ! b" using slen by (metis in_set_conv_nth)
    then have i: "IsInput (?B ! b)" using x inp by simp
    then have "b \<in> leaf_bufs ?B" using b by (simp add: leaf_bufs_def is_temp_def)
    then have "b_VarName x \<in> set (InputVarNames ?g)" using gen(3) b i name by (simp add: names_ok_def)
    then show "blk < length (nameToData (b_VarName x))" using data sV by simp
  qed
  let ?dst0 = "\<lambda>b. nameToData (b_VarName (Buffers s ! b)) ! blk" and ?st0 = "\<lambda>b. leaf_value F ?env (?B ! b)"
  have "leaves_ok F ?env ?B ?st0" by (simp add: leaves_ok_def)
  then have ev: "bindR (foldR (lin_step F) ?is ?st0) (\<lambda>st'. Inr [st' ?out]) = bindR (eval_node F ?env t) (\<lambda>r. Inr [r])"
    using gen(4) [of ?env] unfolding computes_def by fastforce
  have "agrees F (leaf_bufs ?B) ?st0 ?B ?dst0"
    unfolding agrees_def
  proof
    fix b assume b: "b \<in> leaf_bufs ?B"
    then have bl: "b < length ?B" by (simp add: leaf_bufs_def)
    then have "IsInput (?B ! b) \<longrightarrow> \<not> IsConstant (?B ! b)" "IsInput (?B ! b) \<or> IsConstant (?B ! b)"
      using excl b by (auto simp: leaf_bufs_def is_temp_def)
    then show "b < length ?B \<and> resolve_rv F (?st0 b) = resolve_rv F (bval ?B ?dst0 b)"
      using bl name [OF b] by (auto simp: bval_def)
  qed
  from sem_loop_sim [OF loop code_ok_closed [OF gen(1)] code_ok_outputs [OF gen(1)] this]
  have run: "case foldR (lin_step F) ?is ?st0 of Inl e \<Rightarrow> foldR (dyn_step F bf) K ?dst0 = Inl e
    | Inr st' \<Rightarrow> \<exists>dst'. foldR (dyn_step F bf) K ?dst0 = Inr dst' \<and> agrees F (leaf_bufs ?B \<union> outs ?is) st' bf dst'" .
  have dyn: "foldR (dyn_step F (Buffers s)) K ?dst0 = foldR (dyn_step F bf) K ?dst0"
    by (rule foldR_dyn_cong) (use core_s facts(7) referencedI(1) in blast)
  note blk = exec_block_sim [OF ok names, of F pool, unfolded sI dyn]
  show ?thesis
  proof (cases "eval_node F ?env t")
    case (Inl e)
    then have "foldR (lin_step F) ?is ?st0 = Inl e" using ev by (cases "foldR (lin_step F) ?is ?st0") auto
    then show ?thesis using run blk by (simp add: Inl)
  next
    case (Inr r)
    then obtain st' where st': "foldR (lin_step F) ?is ?st0 = Inr st'" "st' ?out = r"
      using ev by (cases "foldR (lin_step F) ?is ?st0") auto
    then obtain dst' where dst': "foldR (dyn_step F bf) K ?dst0 = Inr dst'"
      "agrees F (leaf_bufs ?B \<union> outs ?is) st' bf dst'" using run by auto
    then obtain pool' bd where ex: "exec_block F s nameToData blk pool = Inr (pool', bd ! ?out)"
      "exec_inv F s (length K) dst' (pool', bd)" using blk sO by auto
    have out: "?out \<in> leaf_bufs ?B \<union> outs ?is"
      using gen(2) code_okD(3) [OF gen(1)] by (auto simp: leaf_bufs_def)
    have nc': "\<not> IsConstant (bf ! ?out)"
      using nc core_eqD [OF core_s [OF gen(2)]] referencedI(3) sO by metis
    then have "resolve_rv F r = RArr (dst' ?out) (b_Type (bf ! ?out))"
      using dst'(2) out st'(2) by (auto simp: agrees_def bval_def)
    then have r: "r = RArr (dst' ?out) (b_Type (bf ! ?out))" by (cases r) auto
    have "returned (bd ! ?out) = Inr (dst' ?out)"
    proof (cases "IsInput (Buffers s ! ?out)")
      case True
      then have "bd ! ?out = set_Data (CallerData (dd_Data (dst' ?out))) (dst' ?out)"
        using ex(2) gen(2) slen by (simp add: exec_inv_def)
      then show ?thesis by (simp add: set_Data_id)
    next
      case False
      then have "is_temp (bf ! ?out)" using nc' inp [OF gen(2)] facts(3) [OF gen(2)] by (simp add: is_temp_def)
      then have "?out \<in> outs K" by (rule facts(6) [OF gen(2)])
      then have "\<exists>m<length K. OutputBuf (K ! m) = ?out" by (auto simp: outs_def in_set_conv_nth)
      then have "bd ! ?out = set_Data (OwnData (dd_Data (dst' ?out))) (dst' ?out)"
        using ex(2) sI sO by (simp add: exec_inv_def)
      then show ?thesis by (simp add: set_Data_id)
    qed
    then show ?thesis using ex(1) r by (simp add: Inr)
  qed
qed

subsection \<open>Types of the variables in a resolved tree\<close>

text \<open>A leaf of the parser is a variable or a constant, not both.\<close>

fun leaves_wf :: "ExprNode \<Rightarrow> bool" where
  "leaves_wf (ExprNode op ns v k t) = (if ns = [] then v = [] \<or> k = [] else list_all leaves_wf ns)"

lemma mapR_all2: "mapR f xs = Inr ys \<longleftrightarrow> list_all2 (\<lambda>x y. f x = Inr y) xs ys"
proof (induction xs arbitrary: ys)
  case (Cons x xs)
  then show ?case by (cases ys) (auto simp: bindR_Inr_iff)
qed auto

definition type_of :: "(string \<Rightarrow> DataType option) \<Rightarrow> string \<Rightarrow> DataType" where
  "type_of varTypes v = (case varTypes v of Some t \<Rightarrow> t | None \<Rightarrow> DT_Double)"

lemma resolved_var_types:
  "ResolveTreeTypesNode varTypes c n = Inr n' \<Longrightarrow> leaves_wf n \<Longrightarrow>
   var_types (type_of varTypes) n' \<and> leaves_wf n'"
proof (induction varTypes c n arbitrary: n' rule: ResolveTreeTypesNode.induct)
  case (1 varTypes c op ns v k t)
  consider (var) "ns = []" "v \<noteq> []" | (const) "ns = []" "v = []" "k \<noteq> []"
    | (op) "\<not> (ns = [] \<and> v \<noteq> [])" "\<not> (ns = [] \<and> k \<noteq> [])" by blast
  then show ?case
  proof cases
    case op
    obtain ch p where ch: "mapR (ResolveTreeTypesNode varTypes DT_None) ns = Inr ch"
      and n': "n' = ExprNode op (map (\<lambda>c. if IsConst c then set_Type p c else c) ch) v k p"
      using 1(2) op by (auto simp: bindR_Inr_iff split: if_splits)
    have "list_all leaves_wf ns" using 1(3) op by (auto split: if_splits)
    have all: "var_types (type_of varTypes) c' \<and> leaves_wf c'" if "c' \<in> set ch" for c'
    proof -
      have l2: "list_all2 (\<lambda>x y. ResolveTreeTypesNode varTypes DT_None x = Inr y) ns ch"
        using ch by (simp add: mapR_all2)
      obtain j where j: "j < length ch" "ch ! j = c'" using \<open>c' \<in> set ch\<close> by (auto simp: in_set_conv_nth)
      then have x: "ns ! j \<in> set ns" "ResolveTreeTypesNode varTypes DT_None (ns ! j) = Inr c'"
        using l2 by (auto simp: list_all2_conv_all_nth)
      show ?thesis by (rule 1(1) [OF op x]) (use \<open>list_all leaves_wf ns\<close> x(1) in \<open>simp add: list_all_iff\<close>)
    qed
    have "var_types (type_of varTypes) (set_Type p c') \<and> leaves_wf (set_Type p c')"
      if "c' \<in> set ch" "IsConst c'" for c'
      using all [OF that(1)] that(2) by (cases c') (auto simp: IsConst_def IsLeaf_def set_Type_def)
    then have all': "\<forall>c'\<in>set (map (\<lambda>c. if IsConst c then set_Type p c else c) ch).
        var_types (type_of varTypes) c' \<and> leaves_wf c'" using all by auto
    have len: "length ch = length ns" using ch by (rule length_mapR)
    show ?thesis
    proof (cases "ns = []")
      case True
      then show ?thesis using n' op len by simp
    next
      case False
      then have "map (\<lambda>c. if IsConst c then set_Type p c else c) ch \<noteq> []" using len by auto
      then show ?thesis unfolding n' using all' by (simp only: var_types.simps leaves_wf.simps list_all_iff) auto
    qed
  qed (use 1(2,3) in \<open>auto simp: type_of_def\<close>)
qed

subsection \<open>The theorem\<close>

lemma exec_blocks_sim:
  assumes "\<And>blk pool. blk \<in> set blks \<Longrightarrow>
     (case ev blk of Inl e \<Rightarrow> exec_block F s nameToData blk pool = Inl e
      | Inr r \<Rightarrow> \<exists>pool' p d. exec_block F s nameToData blk pool = Inr (pool', p) \<and> returned p = Inr d \<and> array_of r = Inr d)"
  shows "bindR (exec_blocks F s nameToData blks pool) (mapR returned) = mapR (\<lambda>blk. bindR (ev blk) array_of) blks"
  using assms
proof (induction blks arbitrary: pool)
  case (Cons blk blks)
  show ?case
  proof (cases "ev blk")
    case (Inl e)
    then show ?thesis using Cons.prems [of blk pool] by simp
  next
    case (Inr r)
    then obtain pool' p d where p: "exec_block F s nameToData blk pool = Inr (pool', p)" "returned p = Inr d"
      "array_of r = Inr d" using Cons.prems [of blk pool] by auto
    have IH: "bindR (exec_blocks F s nameToData blks pool') (mapR returned) = mapR (\<lambda>blk. bindR (ev blk) array_of) blks"
      by (rule Cons.IH) (rule Cons.prems, simp)
    show ?thesis
      by (simp only: exec_blocks.simps mapR.simps p Inr bindR.simps prod.case bindR_assoc IH [symmetric])
  qed
qed simp

lemma compiled_run:
  assumes "leaves_wf tree" "ResolveTreeTypes varTypes tree = Inr t"
    and "compile F varTypes txt tree = Inr s" "\<not> IsConstant (Buffers s ! OutputBufID s)"
    and "\<forall>v\<in>set (InputVarNames s). numBlocks \<le> length (nameToData v)"
  shows "Execute F s numBlocks nameToData =
     mapR (\<lambda>blk. bindR (eval_node F (\<lambda>v. nameToData v ! blk) t) array_of) [0..<numBlocks]" (is ?run)
    and "\<forall>blk<numBlocks. \<forall>r. eval_node F (\<lambda>v. nameToData v ! blk) t = Inr r \<longrightarrow> \<not> is_RConst r" (is ?arrays)
proof -
  have vt: "var_types (type_of varTypes) t"
    using resolved_var_types assms(1,2) unfolding ResolveTreeTypes_def by blast
  obtain s0 where s0: "SemanticsPass F ((GenerateCode F t)\<lparr>ExprString := txt\<rparr>) = Inr s0" "s = PlanBuffers s0"
    using assms(2,3) by (auto simp: compile_def bindR_Inr_iff)
  have blk: "case eval_node F (\<lambda>v. nameToData v ! blk) t of Inl e \<Rightarrow> exec_block F s nameToData blk pool = Inl e
      | Inr r \<Rightarrow> \<exists>pool' p d. exec_block F s nameToData blk pool = Inr (pool', p) \<and> returned p = Inr d \<and> array_of r = Inr d"
    if "blk < numBlocks" for blk pool
    by (rule compiled_block [OF vt s0 assms(4)]) (use assms(5) that in auto)
  show ?run
    unfolding Execute_def by (rule exec_blocks_sim) (use blk in simp)
  show ?arrays
  proof (intro allI impI)
    fix blk r assume "blk < numBlocks" and r: "eval_node F (\<lambda>v. nameToData v ! blk) t = Inr r"
    then obtain d where "array_of r = Inr d" using blk [of blk] by auto
    then show "\<not> is_RConst r" by (cases r) simp_all
  qed
qed

text \<open>
  C29: Executing a compiled expression on the blocks of its variables gives, block by block, the value
  of the expression tree: the sharing of variable buffers, the folding of constants, the strength
  reduction, the promotions and above all the reuse of pool slots for temporaries change nothing,
  and an error of the evaluation is the error of the execution.
\<close>

theorem compiled_code_computes_expression:
  assumes "leaves_wf tree" "ResolveTreeTypes varTypes tree = Inr t"
    and "compile F varTypes txt tree = Inr s" "\<not> IsConstant (Buffers s ! OutputBufID s)"
    and "\<forall>v\<in>set (InputVarNames s). numBlocks \<le> length (nameToData v)"
  shows "Execute F s numBlocks nameToData =
     mapR (\<lambda>blk. bindR (eval_node F (\<lambda>v. nameToData v ! blk) t) array_of) [0..<numBlocks]"
  by (rule compiled_run(1) [OF assms])

text \<open>
  C30: In a compiled stream an instruction never writes to the slot of a temporary that is still to
  be read, be it by the instruction itself or by a later one.
\<close>

theorem plan_spares_live_temporaries:
  assumes "leaves_wf tree" "compile F varTypes txt tree = Inr s"
    and "m < j" "j \<le> k" "k < length (Instructions s)"
    and "OutputBuf (Instructions s ! m) \<in> set (InputBufs (Instructions s ! k))"
  shows "PhysicalSlot (Buffers s ! OutputBuf (Instructions s ! m)) \<noteq>
         PhysicalSlot (Buffers s ! OutputBuf (Instructions s ! j))"
proof -
  obtain t s0 where t: "ResolveTreeTypes varTypes tree = Inr t"
    and s0: "SemanticsPass F ((GenerateCode F t)\<lparr>ExprString := txt\<rparr>) = Inr s0" "s = PlanBuffers s0"
    using assms(2) by (auto simp: compile_def bindR_Inr_iff)
  have "var_types (type_of varTypes) t"
    using resolved_var_types assms(1) t unfolding ResolveTreeTypes_def by blast
  from compiled_shape [OF this s0] have "stream_ok s" .
  moreover have "live (Instructions s) j (OutputBuf (Instructions s ! m))"
    using assms(3-6) by (auto simp: live_def)
  ultimately show ?thesis using assms(4,5) by (simp add: stream_ok_def)
qed

subsection \<open>A small instance\<close>

text \<open>
  A number system to evaluate with: exact integers in the place of floating point.
\<close>

definition demo_bin :: "ExpressionOperator \<Rightarrow> DataType \<Rightarrow> int \<Rightarrow> int \<Rightarrow> int" where
  "demo_bin op t a b = (case op of OP_ADD \<Rightarrow> a + b | OP_SUBTRACT \<Rightarrow> a - b | OP_MULT \<Rightarrow> a * b
                        | OP_DIV \<Rightarrow> tdiv a b | _ \<Rightarrow> 0)"

definition demo_un :: "ExpressionOperator \<Rightarrow> DataType \<Rightarrow> int \<Rightarrow> int" where
  "demo_un op t a = (case op of OP_NEGATE \<Rightarrow> - a | _ \<Rightarrow> a)"

definition demo_int :: "DataType \<Rightarrow> int \<Rightarrow> int" where
  "demo_int t i = i"

definition demo_conv :: "DataType \<Rightarrow> DataType \<Rightarrow> int \<Rightarrow> int" where
  "demo_conv s t i = i"

definition demo_eq :: "DataType \<Rightarrow> int \<Rightarrow> int \<Rightarrow> bool" where
  "demo_eq t a b = (a = b)"

definition demo_show :: "int \<Rightarrow> string" where
  "demo_show i = []"

definition demo_ops :: "int flt_ops" where
  "demo_ops = \<lparr>f_bin = demo_bin, f_un = demo_un, f_of_int = demo_int, f_to_int = demo_int, f_conv = demo_conv,
                f_eq = demo_eq, f_parse = read_int64, f_show = demo_show\<rparr>"

definition demo_array :: "DataType \<Rightarrow> int elem list \<Rightarrow> int dd" where
  "demo_array t es = \<lparr>dd_Data = Arr t es, dd_Start = [0], dd_Count = [of_nat (length es)], dd_Type = t,
                      dd_IsScalar = False\<rparr>"

definition demo_types :: "string \<Rightarrow> DataType option" where
  "demo_types = [''x'' \<mapsto> DT_Double, ''y'' \<mapsto> DT_Float, ''i'' \<mapsto> DT_Int32, ''c'' \<mapsto> DT_FloatComplex]"

definition demo_data :: "string \<Rightarrow> int dd list" where
  "demo_data v = (if v = ''x'' then [demo_array DT_Double [FltV 1, FltV 2]]
                  else if v = ''y'' then [demo_array DT_Float [FltV 10, FltV 20]]
                  else if v = ''i'' then [demo_array DT_Int32 [IntV 7, IntV 8]]
                  else if v = ''c'' then [demo_array DT_FloatComplex [FltV 1, FltV 1]] else [])"

definition demo_tree :: ExprNode where
  "demo_tree = op_node OP_MULT [op_node OP_ADD [var_leaf ''x'', var_leaf ''y''],
                                op_node OP_SUBTRACT [var_leaf ''x'', var_leaf ''y'']]"

definition demo_run :: "ExprNode \<Rightarrow> int dd list result" where
  "demo_run t = bindR (compile demo_ops demo_types [] t) (\<lambda>s. Execute demo_ops s 1 demo_data)"

lemma demo_compiles:
  "case compile demo_ops demo_types [] demo_tree of
     Inr s \<Rightarrow> \<not> IsConstant (Buffers s ! OutputBufID s) \<and> list_all (\<lambda>v. 1 \<le> length (demo_data v)) (InputVarNames s) \<and>
       length (Instructions s) = 3 \<and> OutputBuf (Instructions s ! 0) \<in> set (InputBufs (Instructions s ! 2))
   | Inl e \<Rightarrow> False"
  by code_simp

lemma demo_resolves: "case ResolveTreeTypes demo_types demo_tree of Inr t \<Rightarrow> True | Inl e \<Rightarrow> False"
  by code_simp

lemma demo_leaves: "leaves_wf demo_tree"
  by code_simp

theorem compiled_code_computes_expression_witness:
  "\<exists>s t. compile demo_ops demo_types [] demo_tree = Inr s \<and> ResolveTreeTypes demo_types demo_tree = Inr t \<and>
     Execute demo_ops s 1 demo_data =
       mapR (\<lambda>blk. bindR (eval_node demo_ops (\<lambda>v. demo_data v ! blk) t) array_of) [0..<1]"
proof -
  obtain s where s: "compile demo_ops demo_types [] demo_tree = Inr s" "\<not> IsConstant (Buffers s ! OutputBufID s)"
    "\<forall>v\<in>set (InputVarNames s). 1 \<le> length (demo_data v)"
    using demo_compiles by (auto simp: list_all_iff split: sum.splits)
  obtain t where t: "ResolveTreeTypes demo_types demo_tree = Inr t"
    using demo_resolves by (auto split: sum.splits)
  show ?thesis
    using compiled_code_computes_expression [OF demo_leaves t s] s(1) t by blast
qed

theorem plan_spares_live_temporaries_witness:
  "\<exists>s. compile demo_ops demo_types [] demo_tree = Inr s \<and>
     PhysicalSlot (Buffers s ! OutputBuf (Instructions s ! 0)) \<noteq>
     PhysicalSlot (Buffers s ! OutputBuf (Instructions s ! 1))"
proof -
  obtain s where s: "compile demo_ops demo_types [] demo_tree = Inr s" "length (Instructions s) = 3"
    "OutputBuf (Instructions s ! 0) \<in> set (InputBufs (Instructions s ! 2))"
    using demo_compiles by (auto split: sum.splits)
  then show ?thesis
    using plan_spares_live_temporaries [OF demo_leaves s(1), of 0 1 2] by auto
qed

end
