(* ===== verification/Adios_ExprSafe.thy ===== *)
theory Adios_ExprSafe
  imports Adios_ExprOperands Adios_ExprCorrect
begin

section \<open>Derived expressions: type and memory safety\<close>

text \<open>
  For element-wise expressions over numeric variables no loop reads an array at another type than its
  own or past its end, and the result has the type of the root; the error theorem shows what
  happens outside of that class.
\<close>

lemma IsConst_simp: "IsConst (ExprNode op ns v k t) \<longleftrightarrow> ns = [] \<and> k \<noteq> []"
  by (simp add: IsConst_def IsLeaf_def)

lemma set_Type_simps [simp]:
  "IsConst (set_Type p c) = IsConst c" "VariableNameList (set_Type p c) = VariableNameList c"
  by (cases c; simp add: IsConst_def IsLeaf_def set_Type_def)+

lemma well_typed_const: "IsConst c \<Longrightarrow> is_attribute_type p \<Longrightarrow> well_typed (set_Type p c)"
  by (cases c) (simp add: IsConst_def IsLeaf_def set_Type_def)

lemma resolved_well_typed:
  "ResolveTreeTypesNode varTypes c n = Inr n' \<Longrightarrow> leaves_wf n \<Longrightarrow>
   \<forall>v\<in>set (VariableNameList n). is_attribute_type (type_of varTypes v) \<Longrightarrow>
   IsConst n' = IsConst n \<and> VariableNameList n' = VariableNameList n \<and>
   (if IsConst n' then n_Type n' = c else well_typed n')"
proof (induction varTypes c n arbitrary: n' rule: ResolveTreeTypesNode.induct)
  case (1 varTypes c op ns v k t)
  consider (var) "ns = []" "v \<noteq> []" | (const) "ns = []" "v = []" "k \<noteq> []"
    | (op) "\<not> (ns = [] \<and> v \<noteq> [])" "\<not> (ns = [] \<and> k \<noteq> [])" by blast
  then show ?case
  proof cases
    case var
    then show ?thesis using 1(2-4) by (auto simp: IsConst_simp type_of_def)
  next
    case const
    then show ?thesis using 1(2) by (auto simp: IsConst_simp)
  next
    case op
    obtain ch p where ch: "mapR (ResolveTreeTypesNode varTypes DT_None) ns = Inr ch"
      and nt: "node_type op ch = Inr p"
      and n': "n' = ExprNode op (map (\<lambda>c. if IsConst c then set_Type p c else c) ch) v k p"
      using 1(2) op by (auto simp: bindR_Inr_iff split: if_splits)
    have l2: "list_all2 (\<lambda>x y. ResolveTreeTypesNode varTypes DT_None x = Inr y) ns ch"
      using ch by (simp add: mapR_all2)
    have len: "length ch = length ns" using list_all2_lengthD [OF l2] by simp
    have IH: "IsConst (ch ! j) = IsConst (ns ! j) \<and> VariableNameList (ch ! j) = VariableNameList (ns ! j) \<and>
        (if IsConst (ch ! j) then n_Type (ch ! j) = DT_None else well_typed (ch ! j))" if "j < length ns" for j
    proof (rule 1(1) [OF op nth_mem [OF that]])
      show "ResolveTreeTypesNode varTypes DT_None (ns ! j) = Inr (ch ! j)"
        using l2 that by (simp add: list_all2_conv_all_nth)
      have "ns \<noteq> []" using that by auto
      then show "leaves_wf (ns ! j)" using 1(3) that by (simp add: list_all_length)
      show "\<forall>v\<in>set (VariableNameList (ns ! j)). is_attribute_type (type_of varTypes v)"
        using 1(4) \<open>ns \<noteq> []\<close> nth_mem [OF that] by auto
    qed
    have mem: "\<forall>n\<in>set ch. \<not> IsConst n \<longrightarrow> well_typed n" "\<forall>n\<in>set ch. IsConst n \<longrightarrow> n_Type n = DT_None"
      using IH len by (metis in_set_conv_nth)+
    have plain: "well_typed n \<Longrightarrow> is_attribute_type (n_Type n)" for n by (cases n) simp
    have names: "map VariableNameList ch = map VariableNameList ns"
      using IH len by (simp add: list_eq_iff_nth_eq)
    let ?f = "\<lambda>c. if IsConst c then set_Type p c else c"
    have p: "is_attribute_type p" using node_type_cases(1) [OF nt _ mem(2)] mem(1) plain by blast
    have wt: "list_all well_typed (map ?f ch)"
      using mem(1) well_typed_const [OF _ p] by (auto simp: list_all_iff)
    have kt: "kinds_typed op p (map (operand_kind (length ch) p) (map ?f ch))" if "ch \<noteq> []"
      using resolved_kinds [OF nt _ mem(2) that] mem(1) plain by blast
    have "map VariableNameList (map ?f ch) = map VariableNameList ns"
      unfolding names [symmetric] by simp
    moreover have "(map ?f ch = []) = (ns = [])" using len by auto
    ultimately show ?thesis
      using op p wt kt len unfolding n' by (auto simp: IsConst_simp)
  qed
qed

subsection \<open>The theorems\<close>

lemma okR_mapR_nth:
  "(\<And>j. j < length xs \<Longrightarrow> okR (P j) (f (xs ! j))) \<Longrightarrow>
   okR (\<lambda>ys. length ys = length xs \<and> (\<forall>j<length xs. P j (ys ! j))) (mapR f xs)"
proof (induction xs arbitrary: P)
  case (Cons x xs)
  have x: "okR (P 0) (f x)" using Cons.prems [of 0] by simp
  have "okR (\<lambda>ys. length ys = length xs \<and> (\<forall>j<length xs. P (Suc j) (ys ! j))) (mapR f xs)"
    by (rule Cons.IH) (use Cons.prems [of "Suc _"] in simp)
  then show ?case
    unfolding mapR.simps by (intro okR_bind [OF x] okR_bind) (assumption, auto simp: less_Suc_eq_0_disj)
qed simp

lemma names_kept [simp]:
  "InputVarNames (emit i s) = InputVarNames s" "InputVarNames (add_buffer b s) = InputVarNames s"
  "InputVarNames (upd_buffer j f s) = InputVarNames s" "InputVarNames (fold (mark_use m) bs s) = InputVarNames s"
proof -
  show u: "InputVarNames (upd_buffer j f s) = InputVarNames s" for j f and s :: "'a ExprCodeStream"
    by (simp add: upd_buffer_def)
  show "InputVarNames (fold (mark_use m) bs s) = InputVarNames s"
    by (induction bs arbitrary: s) (simp_all add: mark_use_def u)
qed (simp_all add: emit_def add_buffer_def)

lemma gen_names:
  fixes F :: "'f flt_ops"
  shows "GenerateCodeNode F n c = (b, c') \<Longrightarrow>
      set (InputVarNames (cs c')) \<subseteq> set (InputVarNames (cs c)) \<union> set (VariableNameList n)"
    and "gen_children F a t ns c = (bs, c') \<Longrightarrow>
      set (InputVarNames (cs c')) \<subseteq> set (InputVarNames (cs c)) \<union> set (concat (map VariableNameList ns))"
proof (induction F n c and F a t ns c arbitrary: b c' and bs c' rule: GenerateCodeNode_gen_children.induct)
  case (1 F op ns v k t c)
  consider (var) "ns = []" "v \<noteq> []" | (const) "ns = []" "v = []" "k \<noteq> []"
    | (op) "\<not> (ns = [] \<and> v \<noteq> [])" "\<not> (ns = [] \<and> k \<noteq> [])" by blast
  then show ?case
  proof cases
    case var
    then show ?thesis using 1(2)
      by (auto simp: gen_var_def Let_def add_buffer_def split: option.splits if_splits)
  next
    case const
    then show ?thesis using 1(2) by (auto simp: gen_const_def add_buffer_def)
  next
    case op
    obtain ins c1 where ch: "gen_children F (length ns) t ns c = (ins, c1)" by fastforce
    then have "gen_op F op t ins c1 = (b, c')" using 1(2) op by auto
    then have "InputVarNames (cs c') = InputVarNames (cs c1)" by (auto simp: gen_op_def Let_def)
    then show ?thesis using 1(1) [OF op ch] op by auto
  qed
next
  case (3 F a t n ns c)
  obtain b1 c1 where n: "GenerateCodeNode F n c = (b1, c1)" by fastforce
  obtain b2 c2 where p: "(if needsPromote a t (n_Type n) then gen_promote F t b1 c1 else (b1, c1)) = (b2, c2)"
    by fastforce
  obtain bs2 c3 where ch: "gen_children F a t ns c2 = (bs2, c3)" by fastforce
  have "c' = c3" using 3(3) n p ch by (auto split: if_splits)
  moreover have "InputVarNames (cs c2) = InputVarNames (cs c1)" using p by (auto simp: gen_promote_def Let_def split: if_splits)
  ultimately show ?case using 3(1) [OF n] 3(2) [OF n [symmetric] p [symmetric] ch] by auto
qed simp

lemma compiled_names:
  assumes "leaves_wf tree" "ResolveTreeTypes varTypes tree = Inr t" "compile F varTypes txt tree = Inr s"
    and "VariableNameList t = VariableNameList tree"
  shows "set (InputVarNames s) \<subseteq> set (VariableNameList tree)"
proof -
  have vt: "var_types (type_of varTypes) t"
    using resolved_var_types assms(1,2) unfolding ResolveTreeTypes_def by blast
  obtain s0 where s0: "SemanticsPass F ((GenerateCode F t)\<lparr>ExprString := txt\<rparr>) = Inr s0" "s = PlanBuffers s0"
    using assms(2,3) by (auto simp: compile_def bindR_Inr_iff)
  have "InputVarNames s = InputVarNames (GenerateCode F t)" by (rule compiled_shape [OF vt s0])
  moreover have "set (InputVarNames (GenerateCode F t)) \<subseteq> set (VariableNameList t)"
    using gen_names(1) [of F t "\<lparr>cs = empty_stream, varBufMap = (\<lambda>_. None)\<rparr>"]
    by (force simp: GenerateCode_def empty_stream_def split: prod.splits)
  ultimately show ?thesis using assms(4) by simp
qed


definition demo_dims :: "nat \<Rightarrow> dims" where
  "demo_dims blk = [2]"

lemma demo_safe:
  "case ResolveTreeTypes demo_types demo_tree of Inr t \<Rightarrow> elementwise t \<and> n_Type t = DT_Double | Inl e \<Rightarrow> False"
  by code_simp

lemma demo_blocks:
  "\<forall>v\<in>set (VariableNameList demo_tree). is_attribute_type (type_of demo_types v)"
  "\<forall>v\<in>set (VariableNameList demo_tree). 1 \<le> length (demo_data v) \<and> (\<forall>blk<1.
     array_ok (unat (outSize (demo_dims blk))) (demo_dims blk) (type_of demo_types v) (demo_data v ! blk))"
  "\<forall>blk<1. 16 * unat (outSize (demo_dims blk)) < 2 ^ 64"
  by (auto simp: demo_tree_def demo_types_def type_of_def is_attribute_type_def is_float_type_def demo_data_def demo_array_def
      array_ok_def arr_ok_def demo_dims_def outSize_def elem_ok_def is_int_elem_def IsIntegerType_def)


text \<open>What the compiled stream of an expression of \<open>x\<close> (double), \<open>y\<close> (float), \<open>i\<close> (int32) and \<open>c\<close> (complex) does.\<close>

definition reads_wild :: "ExprNode \<Rightarrow> bool" where
  "reads_wild tree = (case demo_run tree of Inl UndefinedBehaviour \<Rightarrow> True | _ \<Rightarrow> False)"

lemma wild_cases:
  "reads_wild (op_node OP_POW [var_leaf ''i'', const_leaf ''3''])"
  "reads_wild (op_node OP_SQRT [op_node OP_POW [var_leaf ''i'', const_leaf ''2'']])"
  "reads_wild (op_node OP_POW [const_leaf ''2'', var_leaf ''x''])"
  "reads_wild (op_node OP_ADD [const_leaf ''2'', const_leaf ''3'', var_leaf ''x''])"
  "reads_wild (op_node OP_MAGN [var_leaf ''x'', const_leaf ''2''])"
  "reads_wild (op_node OP_ADD [var_leaf ''c'', var_leaf ''c''])"
  "reads_wild (op_node OP_ADD [const_leaf ''2'', const_leaf ''3''])"
  "reads_wild (op_node OP_SIN [])"
  by code_simp+


end
