(* ===== verification/Adios_ExprParse.thy ===== *)
theory Adios_ExprParse
  imports Adios_ExprCorrect
begin

section \<open>Derived expressions: from text to tree\<close>

text \<open>
  \<open>toolkit/derived/parser\<close>: the semantic actions of \<open>parser.y\<close> on the stack of an \<open>ASTDriver\<close>, the
  resolution of aliases, and \<open>ASTToExprNode.cpp\<close>, which turns the AST into the expression tree.
  The scanner and the LALR automaton are generated code: a program is given by its derivation,
  whose actions the automaton runs bottom-up and from left to right. Nodes are owned by their
  parent and never shared, so the pointer structure is a tree. \<open>std::stod\<close> and \<open>std::to_string\<close>
  are those of \<open>flt_ops\<close>.
\<close>

type_synonym indx_type = "(int \<times> int \<times> int) list"

datatype ASTNode =
  ASTNode (ast_opname: string) (ast_alias: string) (ast_varname: string) (ast_indices: indx_type)
    (ast_sub_exprs: "ASTNode list")

record ASTDriver =
  holding :: "ASTNode list"
  aliases :: "string \<Rightarrow> (string \<times> indx_type) option"
  hasError :: bool

definition new_driver :: ASTDriver where
  "new_driver = \<lparr>holding = [], aliases = (\<lambda>_. None), hasError = False\<rparr>"

subsection \<open>The actions\<close>

definition push_node :: "ASTNode \<Rightarrow> ASTDriver \<Rightarrow> ASTDriver" where
  "push_node n d = d\<lparr>holding := n # holding d\<rparr>"

text \<open>\<open>insert\<close> keeps an alias that is defined already.\<close>

definition add_lookup_entry :: "string \<Rightarrow> string \<Rightarrow> indx_type \<Rightarrow> ASTDriver \<Rightarrow> ASTDriver" where
  "add_lookup_entry a v idx d =
     (case aliases d a of Some _ \<Rightarrow> d | None \<Rightarrow> d\<lparr>aliases := (aliases d)(a \<mapsto> (v, idx))\<rparr>)"

definition add_number :: "'f flt_ops \<Rightarrow> 'f \<Rightarrow> ASTDriver \<Rightarrow> ASTDriver" where
  "add_number F num d = push_node (ASTNode ''NUM'' (f_show F num) [] [] []) d"

text \<open>The loop that takes the operands: the i-th from the top goes to place \<open>n - i\<close>.\<close>

fun pop_subexprs :: "nat \<Rightarrow> ASTNode list \<Rightarrow> ASTNode list \<Rightarrow> ASTNode list \<times> ASTNode list" where
  "pop_subexprs (Suc n) acc (x # stack) = pop_subexprs n (x # acc) stack"
| "pop_subexprs n acc stack = (acc, stack)"

definition createNode_op :: "string \<Rightarrow> nat \<Rightarrow> ASTDriver \<Rightarrow> ASTDriver result" where
  "createNode_op op_name numsubexprs d =
     (if numsubexprs > length (holding d) then Inl RuntimeError
      else case pop_subexprs numsubexprs [] (holding d) of (subs, rest) \<Rightarrow>
        Inr (d\<lparr>holding := ASTNode op_name [] [] [] subs # rest\<rparr>))"

definition createNode_alias :: "string \<Rightarrow> ASTDriver \<Rightarrow> ASTDriver" where
  "createNode_alias a d = push_node (ASTNode ''ALIAS'' a [] [] []) d"

definition createNode_index :: "string \<Rightarrow> indx_type \<Rightarrow> ASTDriver \<Rightarrow> ASTDriver" where
  "createNode_index a idx d = push_node (ASTNode ''INDEX'' [] [] idx [ASTNode ''ALIAS'' a [] [] []]) d"

subsection \<open>\<open>getAST\<close>\<close>

fun resolve_ast :: "(string \<Rightarrow> (string \<times> indx_type) option) \<Rightarrow> ASTNode \<Rightarrow> ASTNode" where
  "resolve_ast al (ASTNode op a v idx subs) =
     (if a = [] then ASTNode op a v idx (map (resolve_ast al) subs)
      else case al a of
        Some (name, ix) \<Rightarrow> ASTNode op a name ix (map (resolve_ast al) subs)
      | None \<Rightarrow> ASTNode op a a idx (map (resolve_ast al) subs))"

definition getAST :: "ASTDriver \<Rightarrow> ASTNode result" where
  "getAST d =
     (if hasError d then Inl InvalidArgument
      else case holding d of [] \<Rightarrow> Inl InvalidArgument | n # _ \<Rightarrow> Inr (resolve_ast (aliases d) n))"

subsection \<open>\<open>ASTToExprNode\<close>\<close>

definition toupper :: "char \<Rightarrow> char" where
  "toupper c = (let d = (of_char c :: nat) in if 97 \<le> d \<and> d \<le> 122 then char_of (d - 32) else c)"

definition string_to_op_new :: "(string \<times> ExpressionOperator) list" where
  "string_to_op_new =
     [(''ALIAS'', OP_ALIAS), (''PATH'', OP_PATH), (''NUM'', OP_NUM), (''INDEX'', OP_INDEX), (''SUM'', OP_ADD),
      (''ADD'', OP_ADD), (''MINUS'', OP_SUBTRACT), (''SUBTRACT'', OP_SUBTRACT), (''NEGATE'', OP_NEGATE),
      (''DIV'', OP_DIV), (''DIVIDE'', OP_DIV), (''MULT'', OP_MULT), (''MULTIPLY'', OP_MULT), (''SQRT'', OP_SQRT),
      (''POW'', OP_POW), (''^'', OP_POW), (''SIN'', OP_SIN), (''COS'', OP_COS), (''TAN'', OP_TAN),
      (''ASIN'', OP_ASIN), (''ACOS'', OP_ACOS), (''ATAN'', OP_ATAN), (''MAGNITUDE'', OP_MAGN),
      (''CROSS'', OP_CROSS), (''CURL'', OP_CURL)]"

definition ConvertOp :: "string \<Rightarrow> ExpressionOperator result" where
  "ConvertOp opname =
     (case map_of string_to_op_new (map toupper opname) of None \<Rightarrow> Inl InvalidArgument | Some op \<Rightarrow> Inr op)"

fun ASTNodeToExprNode :: "ASTNode \<Rightarrow> ExprNode result" where
  "ASTNodeToExprNode (ASTNode opname a v idx subs) =
     bindR (ConvertOp opname) (\<lambda>op.
       if op = OP_ALIAS \<or> op = OP_PATH then Inr (var_leaf v)
       else if op = OP_NUM then Inr (const_leaf a)
       else bindR (case subs of [s] \<Rightarrow> if op = OP_NEGATE then bindR (ConvertOp (ast_opname s)) (\<lambda>c. Inr (c = OP_NUM))
                                     else Inr False
                   | _ \<Rightarrow> Inr False) (\<lambda>number.
            if number then Inr (const_leaf (CHR ''-'' # ast_alias (subs ! 0)))
            else bindR (mapR ASTNodeToExprNode subs) (\<lambda>children. Inr (op_node op children))))"

subsection \<open>Derivations and their actions\<close>

datatype binary = PLUS | MINUS | STAR | SLASH | CARET

fun action_name :: "binary \<Rightarrow> string" where
  "action_name PLUS = ''ADD''"
| "action_name MINUS = ''SUBTRACT''"
| "action_name STAR = ''MULT''"
| "action_name SLASH = ''DIV''"
| "action_name CARET = ''POW''"

datatype derivation =
    Num string
  | Bin binary derivation derivation
  | Neg derivation
  | Call string "derivation list"
  | Index string indx_type
  | Var string

text \<open>An assignment: the alias, the variable, its indices.\<close>

type_synonym assignment = "string \<times> string \<times> indx_type"

fun exp_actions :: "'f flt_ops \<Rightarrow> derivation \<Rightarrow> ASTDriver \<Rightarrow> ASTDriver result"
  and list_actions :: "'f flt_ops \<Rightarrow> derivation list \<Rightarrow> ASTDriver \<Rightarrow> ASTDriver result" where
  "exp_actions F (Num s) d = Inr (add_number F (f_parse F s) d)"
| "exp_actions F (Bin op a b) d =
     bindR (exp_actions F a d) (\<lambda>d. bindR (exp_actions F b d) (createNode_op (action_name op) 2))"
| "exp_actions F (Neg a) d = bindR (exp_actions F a d) (createNode_op ''NEGATE'' 1)"
| "exp_actions F (Call f as) d = bindR (list_actions F as d) (createNode_op f (length as))"
| "exp_actions F (Index x idx) d = Inr (createNode_index x idx d)"
| "exp_actions F (Var x) d = Inr (createNode_alias x d)"
| "list_actions F [] d = Inr d"
| "list_actions F (a # as) d = bindR (exp_actions F a d) (list_actions F as)"

text \<open>\<open>ParseToExprNode\<close> on the derivation of a program: its assignments, then the expression.\<close>

definition ParseToExprNode :: "'f flt_ops \<Rightarrow> assignment list \<Rightarrow> derivation \<Rightarrow> ExprNode result" where
  "ParseToExprNode F assignments e =
     bindR (exp_actions F e (fold (\<lambda>(a, v, idx). add_lookup_entry a v idx) assignments new_driver)) (\<lambda>d.
     bindR (getAST d) ASTNodeToExprNode)"

subsection \<open>What a derivation means\<close>

definition variable_of :: "assignment list \<Rightarrow> string \<Rightarrow> string" where
  "variable_of assignments x =
     (if x = [] then [] else case map_of assignments x of Some (v, _) \<Rightarrow> v | None \<Rightarrow> x)"

fun is_number :: "derivation \<Rightarrow> bool result" where
  "is_number (Num s) = Inr True"
| "is_number (Call f as) = bindR (ConvertOp f) (\<lambda>op. Inr (op = OP_NUM))"
| "is_number _ = Inr False"

fun number_text :: "'f flt_ops \<Rightarrow> derivation \<Rightarrow> string" where
  "number_text F (Num s) = f_show F (f_parse F s)"
| "number_text F _ = []"

text \<open>A call by name: a leaf if the name is that of a leaf, a negated constant, or an operator node.\<close>

definition call_node :: "'f flt_ops \<Rightarrow> string \<Rightarrow> derivation list \<Rightarrow> ExprNode list result \<Rightarrow> ExprNode result" where
  "call_node F f args children =
     bindR (ConvertOp f) (\<lambda>op.
       if op = OP_ALIAS \<or> op = OP_PATH then Inr (var_leaf [])
       else if op = OP_NUM then Inr (const_leaf [])
       else bindR (case args of [a] \<Rightarrow> if op = OP_NEGATE then is_number a else Inr False | _ \<Rightarrow> Inr False) (\<lambda>number.
            if number then Inr (const_leaf (CHR ''-'' # number_text F (args ! 0)))
            else bindR children (\<lambda>cs'. Inr (op_node op cs'))))"

fun binary_op :: "binary \<Rightarrow> ExpressionOperator" where
  "binary_op PLUS = OP_ADD"
| "binary_op MINUS = OP_SUBTRACT"
| "binary_op STAR = OP_MULT"
| "binary_op SLASH = OP_DIV"
| "binary_op CARET = OP_POW"

fun expr_of :: "'f flt_ops \<Rightarrow> assignment list \<Rightarrow> derivation \<Rightarrow> ExprNode result"
  and exprs_of :: "'f flt_ops \<Rightarrow> assignment list \<Rightarrow> derivation list \<Rightarrow> ExprNode list result" where
  "expr_of F al (Num s) = Inr (const_leaf (f_show F (f_parse F s)))"
| "expr_of F al (Bin op a b) =
     bindR (expr_of F al a) (\<lambda>l. bindR (expr_of F al b) (\<lambda>r. Inr (op_node (binary_op op) [l, r])))"
| "expr_of F al (Neg a) = call_node F ''NEGATE'' [a] (bindR (expr_of F al a) (\<lambda>t. Inr [t]))"
| "expr_of F al (Call f as) = call_node F f as (exprs_of F al as)"
| "expr_of F al (Index x idx) = Inr (op_node OP_INDEX [var_leaf (variable_of al x)])"
| "expr_of F al (Var x) = Inr (var_leaf (variable_of al x))"
| "exprs_of F al [] = Inr []"
| "exprs_of F al (a # as) = bindR (expr_of F al a) (\<lambda>t. bindR (exprs_of F al as) (\<lambda>ts. Inr (t # ts)))"

subsection \<open>The stack machine builds the AST of the derivation\<close>

fun ast_of :: "'f flt_ops \<Rightarrow> derivation \<Rightarrow> ASTNode" where
  "ast_of F (Num s) = ASTNode ''NUM'' (f_show F (f_parse F s)) [] [] []"
| "ast_of F (Bin op a b) = ASTNode (action_name op) [] [] [] [ast_of F a, ast_of F b]"
| "ast_of F (Neg a) = ASTNode ''NEGATE'' [] [] [] [ast_of F a]"
| "ast_of F (Call f as) = ASTNode f [] [] [] (map (ast_of F) as)"
| "ast_of F (Index x idx) = ASTNode ''INDEX'' [] [] idx [ASTNode ''ALIAS'' x [] [] []]"
| "ast_of F (Var x) = ASTNode ''ALIAS'' x [] [] []"

lemma pop_subexprs_rev: "pop_subexprs (length xs) acc (xs @ st) = (rev xs @ acc, st)"
  by (induction xs arbitrary: acc) simp_all

lemma createNode_op_rev:
  "n = length xs \<Longrightarrow> createNode_op f n (d\<lparr>holding := rev xs @ holding d\<rparr>) = Inr (push_node (ASTNode f [] [] [] xs) d)"
  using pop_subexprs_rev [of "rev xs" "[]" "holding d"] by (simp add: createNode_op_def push_node_def)

lemma push_as_rev: "push_node n d = d\<lparr>holding := rev [n] @ holding d\<rparr>"
  by (simp add: push_node_def)

lemma actions_build:
  "exp_actions F e d = Inr (push_node (ast_of F e) d)"
  "list_actions F as d = Inr (d\<lparr>holding := rev (map (ast_of F) as) @ holding d\<rparr>)"
proof (induction F e d and F as d rule: exp_actions_list_actions.induct)
  case (2 F op a b d)
  have "push_node (ast_of F b) (push_node (ast_of F a) d) = d\<lparr>holding := rev [ast_of F a, ast_of F b] @ holding d\<rparr>"
    by (simp add: push_node_def)
  then show ?case using 2 by (simp add: createNode_op_rev del: rev.simps append.simps)
next
  case (3 F a d)
  then show ?case by (simp add: push_as_rev createNode_op_rev del: rev.simps append.simps)
next
  case (4 F f as d)
  then show ?case by (simp add: createNode_op_rev)
qed (simp_all add: add_number_def createNode_index_def createNode_alias_def push_node_def)

lemma aliases_fold:
  "holding (fold (\<lambda>(a, v, idx). add_lookup_entry a v idx) xs d) = holding d"
  "hasError (fold (\<lambda>(a, v, idx). add_lookup_entry a v idx) xs d) = hasError d"
  "aliases (fold (\<lambda>(a, v, idx). add_lookup_entry a v idx) xs d) x =
     (case aliases d x of Some r \<Rightarrow> Some r | None \<Rightarrow> map_of xs x)"
  by (induction xs arbitrary: d) (auto simp: add_lookup_entry_def split: option.splits)

subsection \<open>The conversion of the resolved AST\<close>

lemma ConvertOp_names:
  "ConvertOp ''NUM'' = Inr OP_NUM" "ConvertOp ''ALIAS'' = Inr OP_ALIAS" "ConvertOp ''INDEX'' = Inr OP_INDEX"
  "ConvertOp ''NEGATE'' = Inr OP_NEGATE"
  by code_simp+

lemma ConvertOp_action: "ConvertOp (action_name op) = Inr (binary_op op)"
proof (cases op)
  case PLUS
  then show ?thesis by (simp only: action_name.simps binary_op.simps) code_simp
next
  case MINUS
  then show ?thesis by (simp only: action_name.simps binary_op.simps) code_simp
next
  case STAR
  then show ?thesis by (simp only: action_name.simps binary_op.simps) code_simp
next
  case SLASH
  then show ?thesis by (simp only: action_name.simps binary_op.simps) code_simp
next
  case CARET
  then show ?thesis by (simp only: action_name.simps binary_op.simps) code_simp
qed

lemma binary_op_node [simp]:
  "binary_op op \<noteq> OP_ALIAS" "binary_op op \<noteq> OP_PATH" "binary_op op \<noteq> OP_NUM" "binary_op op \<noteq> OP_NEGATE"
  by (cases op; simp)+

lemma opname_resolve [simp]: "ast_opname (resolve_ast al n) = ast_opname n" "ast_alias (resolve_ast al n) = ast_alias n"
  by (cases n; simp split: option.splits)+

lemma is_number_ast: "bindR (ConvertOp (ast_opname (ast_of F a))) (\<lambda>c. Inr (c = OP_NUM)) = is_number a"
  by (cases a) (simp_all add: ConvertOp_names ConvertOp_action)

lemma number_text_ast: "is_number a = Inr True \<Longrightarrow> ast_alias (ast_of F a) = number_text F a"
  by (cases a) simp_all

lemma mapR_conversion:
  assumes "\<And>a. a \<in> set as \<Longrightarrow> g (f a) = expr_of F al a"
  shows "mapR g (map f as) = exprs_of F al as"
  using assms by (induction as) simp_all

lemma convert_call:
  assumes "\<And>a. a \<in> set as \<Longrightarrow> ASTNodeToExprNode (resolve_ast al (ast_of F a)) = expr_of F assignments a"
  shows "ASTNodeToExprNode (resolve_ast al (ASTNode f [] [] [] (map (ast_of F) as))) =
     call_node F f as (exprs_of F assignments as)"
proof -
  have ch: "mapR ASTNodeToExprNode (map (resolve_ast al \<circ> ast_of F) as) = exprs_of F assignments as"
    by (rule mapR_conversion) (simp add: assms)
  show ?thesis
  proof (cases as)
    case (Cons a rest)
    show ?thesis
    proof (cases rest)
      case Nil
      then show ?thesis using ch Cons is_number_ast [of F a] number_text_ast [of a F]
        by (cases "ConvertOp f"; cases "is_number a") (auto simp: call_node_def)
    next
      case (Cons b rest')
      then show ?thesis using ch \<open>as = a # rest\<close> by (cases "ConvertOp f") (simp_all add: call_node_def)
    qed
  next
    case Nil
    then show ?thesis using ch by (cases "ConvertOp f") (simp_all add: call_node_def)
  qed
qed

lemma conversion:
  assumes "al = map_of assignments"
  shows "ASTNodeToExprNode (resolve_ast al (ast_of F e)) = expr_of F assignments e"
proof (induction e)
  case (Bin op a b)
  then show ?case
    by (cases "expr_of F assignments a"; cases "expr_of F assignments b") (simp_all add: ConvertOp_action)
next
  case (Neg a)
  show ?case using convert_call [of "[a]" al F assignments "''NEGATE''"] Neg by (cases "expr_of F assignments a") simp_all
next
  case (Call f as)
  show ?case using convert_call [of as al F assignments f] Call by simp
qed (auto simp: ConvertOp_names variable_of_def assms split: option.splits)

text \<open>The only error is an unknown function name, and every leaf is a variable or a constant, never both.\<close>

definition parsed_ok :: "ExprNode result \<Rightarrow> bool" where
  "parsed_ok r = (case r of Inr t \<Rightarrow> leaves_wf t | Inl e \<Rightarrow> e = InvalidArgument)"

lemma parsed_ok_bind: "(\<And>t. m = Inr t \<Longrightarrow> parsed_ok (f t)) \<Longrightarrow> (\<And>e. m = Inl e \<Longrightarrow> e = InvalidArgument) \<Longrightarrow>
  parsed_ok (bindR m f)"
  by (cases m) (simp_all add: parsed_ok_def)

lemma ConvertOp_error: "ConvertOp f = Inl e \<Longrightarrow> e = InvalidArgument"
  by (simp add: ConvertOp_def split: option.splits)

lemma is_number_error: "is_number a = Inl e \<Longrightarrow> e = InvalidArgument"
  by (cases a) (auto simp: bindR_Inl_iff dest: ConvertOp_error)

lemma call_node_ok:
  assumes "\<And>ts. children = Inr ts \<Longrightarrow> list_all leaves_wf ts" "\<And>e. children = Inl e \<Longrightarrow> e = InvalidArgument"
  shows "parsed_ok (call_node F f as children)"
proof -
  have node: "parsed_ok (bindR children (\<lambda>cs'. Inr (op_node op cs')))" for op
    using assms by (cases children) (simp_all add: parsed_ok_def)
  have leaf: "parsed_ok (Inr (const_leaf x))" "parsed_ok (Inr (var_leaf x))" for x
    by (simp_all add: parsed_ok_def)
  have number: "parsed_ok (bindR m (\<lambda>number. if number then Inr (const_leaf x)
      else bindR children (\<lambda>cs'. Inr (op_node op cs'))))" if "\<And>e. m = Inl e \<Longrightarrow> e = InvalidArgument" for m x op
    by (rule parsed_ok_bind) (auto simp: node leaf that)
  have kind: "e = InvalidArgument" if "(case as of [] \<Rightarrow> Inr False | [a] \<Rightarrow> if op = OP_NEGATE then is_number a else Inr False
      | a # b # lista \<Rightarrow> Inr False) = Inl e" for op e
    using that by (auto split: list.splits if_splits dest: is_number_error)
  show ?thesis
    unfolding call_node_def
    by (rule parsed_ok_bind) (simp_all add: leaf number kind ConvertOp_error split: if_split)
qed

lemma expr_of_ok:
  shows "parsed_ok (expr_of F al e)"
  and "case exprs_of F al as of Inr ts \<Rightarrow> list_all leaves_wf ts | Inl e \<Rightarrow> e = InvalidArgument"
proof (induction F al e and F al as rule: expr_of_exprs_of.induct)
  case (2 F al op a b)
  then show ?case by (cases "expr_of F al a"; cases "expr_of F al b") (simp_all add: parsed_ok_def)
next
  case (3 F al a)
  show ?case unfolding expr_of.simps
    by (rule call_node_ok) (use 3 in \<open>auto simp: parsed_ok_def bindR_results\<close>)
next
  case (4 F al f as)
  show ?case unfolding expr_of.simps
    by (rule call_node_ok) (use 4 in auto)
next
  case (8 F al a as)
  then show ?case by (cases "expr_of F al a"; cases "exprs_of F al as") (simp_all add: parsed_ok_def)
qed (simp_all add: parsed_ok_def)

text \<open>
  C33: Parsing a program gives the expression its derivation means: the stack of the driver holds the
  operands in the right order and is never too short, an alias stands for the variable of its first
  assignment and an unassigned name for itself, a negated number is a constant. The only error is
  an unknown function name, and every leaf is a variable or a constant but not both.
\<close>

theorem parse_builds_expression:
  "ParseToExprNode F assignments e = expr_of F assignments e \<and>
   (case expr_of F assignments e of Inr t \<Rightarrow> leaves_wf t | Inl err \<Rightarrow> err = InvalidArgument)"
proof
  let ?d = "fold (\<lambda>(a, v, idx). add_lookup_entry a v idx) assignments new_driver"
  have al: "aliases ?d = map_of assignments"
    by (rule ext) (simp add: aliases_fold, simp add: new_driver_def)
  have "getAST (push_node (ast_of F e) ?d) = Inr (resolve_ast (map_of assignments) (ast_of F e))"
    by (simp add: getAST_def push_node_def aliases_fold al) (simp add: new_driver_def)
  then show "ParseToExprNode F assignments e = expr_of F assignments e"
    by (simp add: ParseToExprNode_def actions_build conversion)
  show "case expr_of F assignments e of Inr t \<Rightarrow> leaves_wf t | Inl err \<Rightarrow> err = InvalidArgument"
    using expr_of_ok(1) by (simp add: parsed_ok_def)
qed

end
