(* ===== verification/Adios_NdCopy.thy ===== *)
theory Adios_NdCopy
  imports Adios_Box Adios_Bytes
begin

section \<open>N-dimensional copies\<close>

text \<open>
  \<open>helper::NdCopy\<close> (source/adios2/helper/adiosMemory.cpp) and its eight helpers (adiosMemory.inl):
  the routine with which the engines move the overlap of a stored block and a selection from one
  buffer into the other. A pointer into a buffer is its offset from the start of that buffer, a
  64-bit word; each access is checked against the size of the buffer and is undefined behaviour
  outside it. The buffers do not overlap (\<open>memcpy\<close> requires it). The GPU branches are not compiled
  in (\<open>ADIOS2_HAVE_GPU_SUPPORT\<close>).

  The caller passes the input by a pointer \<open>inBase\<close>, which need not be the start of the buffer it
  points into: BP5 passes one that lies before it, so that only a part of a block has to be there.

  The recursive and the iterative helpers are written once each, with the copy of a leaf as an
  argument: \<open>seq_padding\<close> and \<open>non_seq_dynamic\<close> are the recursions, \<open>nd_iter\<close> the loop with the
  explicit position array. \<open>nd_moves\<close> is the reference: the list of the element moves, in natural
  numbers.
\<close>

text \<open>The state of the sequential helpers: \<open>inOvlpBase\<close>, \<open>outOvlpBase\<close> and the output buffer.\<close>

type_synonym copy_state = "u64 \<times> u64 \<times> bytes"

subsection \<open>Copies of bytes\<close>

definition memcpy :: "bytes \<Rightarrow> u64 \<Rightarrow> bytes \<Rightarrow> u64 \<Rightarrow> u64 \<Rightarrow> bytes result" where
  "memcpy out outPos inp inPos size' =
    (if unat outPos + unat size' \<le> length out \<and> unat inPos + unat size' \<le> length inp
     then Inr (splice out (unat outPos) (take (unat size') (drop (unat inPos) inp)))
     else Inl UndefinedBehaviour)"

text \<open>The loop over the bytes of an element: \<open>out[j] = in[elmSize - 1 - j]\<close>.\<close>

definition reverse_bytes :: "bytes \<Rightarrow> u64 \<Rightarrow> bytes \<Rightarrow> u64 \<Rightarrow> u64 \<Rightarrow> bytes result" where
  "reverse_bytes out outPos inp inPos elmSize =
    (if unat outPos + unat elmSize \<le> length out \<and> unat inPos + unat elmSize \<le> length inp
     then Inr (splice out (unat outPos) (rev (take (unat elmSize) (drop (unat inPos) inp))))
     else Inl UndefinedBehaviour)"

text \<open>The leaf of the sequential helpers: one block, or its elements one by one.\<close>

fun block_leaf :: "bytes \<Rightarrow> u64 \<Rightarrow> copy_state \<Rightarrow> copy_state result" where
  "block_leaf inp blockSize (i, ob, out) =
    bindR (memcpy out ob inp i blockSize) (\<lambda>out. Inr (i + blockSize, ob + blockSize, out))"

fun rev_step :: "bytes \<Rightarrow> u64 \<Rightarrow> copy_state \<Rightarrow> copy_state result" where
  "rev_step inp elmSize (i, ob, out) =
    bindR (reverse_bytes out ob inp i elmSize) (\<lambda>out. Inr (i + elmSize, ob + elmSize, out))"

definition rev_leaf :: "bytes \<Rightarrow> u64 \<Rightarrow> u64 \<Rightarrow> copy_state \<Rightarrow> copy_state result" where
  "rev_leaf inp elmSize numElmsPerBlock =
    foldR (\<lambda>_. rev_step inp elmSize) [0..<unat numElmsPerBlock]"

subsection \<open>The recursive helpers\<close>

fun pad :: "dims \<Rightarrow> dims \<Rightarrow> nat \<Rightarrow> copy_state \<Rightarrow> copy_state" where
  "pad inGap outGap d (i, ob, out) = (i + inGap ! d, ob + outGap ! d, out)"

text \<open>
  The recursion from \<open>curDim\<close> to \<open>minContDim\<close>; its argument is the number of levels that are
  left, so that \<open>curDim = minContDim - lv\<close>.
\<close>

fun seq_padding ::
  "(copy_state \<Rightarrow> copy_state result) \<Rightarrow> dims \<Rightarrow> dims \<Rightarrow> dims \<Rightarrow> nat \<Rightarrow> nat \<Rightarrow> copy_state \<Rightarrow> copy_state result"
  where
  "seq_padding leaf inGap outGap cnt minContDim 0 s =
    bindR (leaf s) (\<lambda>s. Inr (pad inGap outGap minContDim s))"
| "seq_padding leaf inGap outGap cnt minContDim (Suc lv) s =
    (let curDim = minContDim - Suc lv
     in bindR (foldR (\<lambda>_. seq_padding leaf inGap outGap cnt minContDim lv)
                 [0..<unat (cnt ! curDim)] s)
          (\<lambda>s. Inr (pad inGap outGap curDim s)))"

definition NdCopyRecurDFSeqPadding ::
  "bytes \<Rightarrow> dims \<Rightarrow> dims \<Rightarrow> dims \<Rightarrow> nat \<Rightarrow> u64 \<Rightarrow> copy_state \<Rightarrow> copy_state result" where
  "NdCopyRecurDFSeqPadding inp inGap outGap cnt minContDim blockSize =
    seq_padding (block_leaf inp blockSize) inGap outGap cnt minContDim minContDim"

definition NdCopyRecurDFSeqPaddingRevEndian ::
  "bytes \<Rightarrow> dims \<Rightarrow> dims \<Rightarrow> dims \<Rightarrow> nat \<Rightarrow> u64 \<Rightarrow> u64 \<Rightarrow> copy_state \<Rightarrow> copy_state result" where
  "NdCopyRecurDFSeqPaddingRevEndian inp inGap outGap cnt minContDim elmSize numElmsPerBlock =
    seq_padding (rev_leaf inp elmSize numElmsPerBlock) inGap outGap cnt minContDim minContDim"

text \<open>The recursion that computes each address from its base: the leaf gets both addresses.\<close>

fun non_seq_dynamic ::
  "(u64 \<Rightarrow> u64 \<Rightarrow> bytes \<Rightarrow> bytes result) \<Rightarrow> dims \<Rightarrow> dims \<Rightarrow> dims \<Rightarrow> dims \<Rightarrow> dims \<Rightarrow> nat \<Rightarrow> nat \<Rightarrow>
   u64 \<Rightarrow> u64 \<Rightarrow> bytes \<Rightarrow> bytes result" where
  "non_seq_dynamic leaf inRel outRel inStride outStride cnt n 0 i ob out = leaf i ob out"
| "non_seq_dynamic leaf inRel outRel inStride outStride cnt n (Suc lv) i ob out =
    (let curDim = n - Suc lv
     in foldR (\<lambda>k. non_seq_dynamic leaf inRel outRel inStride outStride cnt n lv
                 (i + (inRel ! curDim + of_nat k) * inStride ! curDim)
                 (ob + (outRel ! curDim + of_nat k) * outStride ! curDim))
          [0..<unat (cnt ! curDim)] out)"

definition NdCopyRecurDFNonSeqDynamic ::
  "bytes \<Rightarrow> u64 \<Rightarrow> dims \<Rightarrow> dims \<Rightarrow> dims \<Rightarrow> dims \<Rightarrow> dims \<Rightarrow> u64 \<Rightarrow> bytes \<Rightarrow> bytes result" where
  "NdCopyRecurDFNonSeqDynamic inp inBase inRel outRel inStride outStride cnt elmSize =
    non_seq_dynamic (\<lambda>i ob out. memcpy out ob inp i elmSize)
      inRel outRel inStride outStride cnt (length inStride) (length inStride) inBase 0"

definition NdCopyRecurDFNonSeqDynamicRevEndian ::
  "bytes \<Rightarrow> u64 \<Rightarrow> dims \<Rightarrow> dims \<Rightarrow> dims \<Rightarrow> dims \<Rightarrow> dims \<Rightarrow> u64 \<Rightarrow> bytes \<Rightarrow> bytes result" where
  "NdCopyRecurDFNonSeqDynamicRevEndian inp inBase inRel outRel inStride outStride cnt elmSize =
    non_seq_dynamic (\<lambda>i ob out. reverse_bytes out ob inp i elmSize)
      inRel outRel inStride outStride cnt (length inStride) (length inStride) inBase 0"

subsection \<open>The iterative helpers\<close>

text \<open>
  The loop of the safe mode. Going down from \<open>curDim\<close> to the leaf level it counts \<open>pos\<close> up, after
  the work of \<open>enter\<close> on the level; going up it does the work of \<open>leave\<close>, clears \<open>pos\<close> and goes on
  until a level has positions left (\<open>Inr\<close>) or the top is reached (\<open>Inl\<close>).
\<close>

definition nd_descend :: "(nat \<Rightarrow> u64 \<Rightarrow> 's \<Rightarrow> 's) \<Rightarrow> nat \<Rightarrow> nat \<Rightarrow> dims \<times> 's \<Rightarrow> dims \<times> 's" where
  "nd_descend enter leafDim curDim =
    fold (\<lambda>d (pos, s). (pos[d := pos ! d + 1], enter d (pos ! d) s)) [curDim..<leafDim]"

fun nd_ascend :: "(nat \<Rightarrow> 's \<Rightarrow> 's) \<Rightarrow> dims \<Rightarrow> nat \<Rightarrow> dims \<Rightarrow> 's \<Rightarrow> 's + (nat \<times> dims \<times> 's)" where
  "nd_ascend leave cnt 0 pos s = Inl s"
| "nd_ascend leave cnt (Suc d) pos s =
    (let s = leave (Suc d) s; pos = pos[Suc d := 0]
     in if pos ! d = cnt ! d then nd_ascend leave cnt d pos s else Inr (d, pos, s))"

partial_function (option) nd_iter ::
  "(nat \<Rightarrow> u64 \<Rightarrow> 's \<Rightarrow> 's) \<Rightarrow> ('s \<Rightarrow> 's result) \<Rightarrow> (nat \<Rightarrow> 's \<Rightarrow> 's) \<Rightarrow> dims \<Rightarrow> nat \<Rightarrow> nat \<Rightarrow>
   dims \<Rightarrow> 's \<Rightarrow> 's result option" where
  "nd_iter enter leaf leave cnt leafDim curDim pos s =
    (case nd_descend enter leafDim curDim (pos, s) of (pos, s) \<Rightarrow>
       (case leaf s of
          Inl e \<Rightarrow> Some (Inl e)
        | Inr s \<Rightarrow>
            (case nd_ascend leave cnt leafDim pos s of
               Inl s \<Rightarrow> Some (Inr s)
             | Inr (curDim, pos, s) \<Rightarrow> nd_iter enter leaf leave cnt leafDim curDim pos s)))"

declare nd_iter.simps [code]

definition NdCopyIterDFSeqPadding ::
  "bytes \<Rightarrow> dims \<Rightarrow> dims \<Rightarrow> dims \<Rightarrow> nat \<Rightarrow> u64 \<Rightarrow> copy_state \<Rightarrow> copy_state result option" where
  "NdCopyIterDFSeqPadding inp inGap outGap cnt minContDim blockSize =
    nd_iter (\<lambda>_ _ s. s) (block_leaf inp blockSize) (pad inGap outGap) cnt minContDim 0
      (replicate (length cnt) 0)"

definition NdCopyIterDFSeqPaddingRevEndian ::
  "bytes \<Rightarrow> dims \<Rightarrow> dims \<Rightarrow> dims \<Rightarrow> nat \<Rightarrow> u64 \<Rightarrow> u64 \<Rightarrow> copy_state \<Rightarrow> copy_state result option" where
  "NdCopyIterDFSeqPaddingRevEndian inp inGap outGap cnt minContDim elmSize numElmsPerBlock =
    nd_iter (\<lambda>_ _ s. s) (rev_leaf inp elmSize numElmsPerBlock) (pad inGap outGap) cnt minContDim 0
      (replicate (length cnt) 0)"

text \<open>The addresses \<open>inAddr\<close> and \<open>outAddr\<close> of the levels are computed on the way down.\<close>

fun enter_addr ::
  "dims \<Rightarrow> dims \<Rightarrow> dims \<Rightarrow> dims \<Rightarrow> nat \<Rightarrow> u64 \<Rightarrow> dims \<times> dims \<times> bytes \<Rightarrow> dims \<times> dims \<times> bytes" where
  "enter_addr inRel outRel inStride outStride d p (inAddr, outAddr, out) =
    (inAddr[Suc d := inAddr ! d + (inRel ! d + p) * inStride ! d],
     outAddr[Suc d := outAddr ! d + (outRel ! d + p) * outStride ! d], out)"

fun addr_leaf ::
  "(u64 \<Rightarrow> u64 \<Rightarrow> bytes \<Rightarrow> bytes result) \<Rightarrow> nat \<Rightarrow> dims \<times> dims \<times> bytes \<Rightarrow> (dims \<times> dims \<times> bytes) result" where
  "addr_leaf leaf n (inAddr, outAddr, out) =
    bindR (leaf (inAddr ! n) (outAddr ! n) out) (\<lambda>out. Inr (inAddr, outAddr, out))"

definition iter_dynamic ::
  "(u64 \<Rightarrow> u64 \<Rightarrow> bytes \<Rightarrow> bytes result) \<Rightarrow> u64 \<Rightarrow> dims \<Rightarrow> dims \<Rightarrow> dims \<Rightarrow> dims \<Rightarrow> dims \<Rightarrow> bytes \<Rightarrow>
   bytes result option" where
  "iter_dynamic leaf inBase inRel outRel inStride outStride cnt out =
    map_option (\<lambda>r. bindR r (\<lambda>(_, _, out). Inr out))
      (nd_iter (enter_addr inRel outRel inStride outStride) (addr_leaf leaf (length inStride))
         (\<lambda>_ s. s) cnt (length inStride) 0 (replicate (length cnt + 1) 0)
         ((replicate (length cnt + 1) 0)[0 := inBase], replicate (length cnt + 1) 0, out))"

definition NdCopyIterDFDynamic ::
  "bytes \<Rightarrow> u64 \<Rightarrow> dims \<Rightarrow> dims \<Rightarrow> dims \<Rightarrow> dims \<Rightarrow> dims \<Rightarrow> u64 \<Rightarrow> bytes \<Rightarrow> bytes result option" where
  "NdCopyIterDFDynamic inp inBase inRel outRel inStride outStride cnt elmSize =
    iter_dynamic (\<lambda>i ob out. memcpy out ob inp i elmSize) inBase inRel outRel inStride outStride cnt"

definition NdCopyIterDFDynamicRevEndian ::
  "bytes \<Rightarrow> u64 \<Rightarrow> dims \<Rightarrow> dims \<Rightarrow> dims \<Rightarrow> dims \<Rightarrow> dims \<Rightarrow> u64 \<Rightarrow> bytes \<Rightarrow> bytes result option" where
  "NdCopyIterDFDynamicRevEndian inp inBase inRel outRel inStride outStride cnt elmSize =
    iter_dynamic (\<lambda>i ob out. reverse_bytes out ob inp i elmSize) inBase inRel outRel inStride
      outStride cnt"

subsection \<open>NdCopy\<close>

text \<open>The lambdas of \<open>NdCopy\<close>; the first argument is the size of the array they fill.\<close>

definition GetEnd :: "nat \<Rightarrow> dims \<Rightarrow> dims \<Rightarrow> dims" where
  "GetEnd n start count = map (\<lambda>i. start ! i + count ! i - 1) [0..<n]"

definition GetOvlpStart :: "nat \<Rightarrow> dims \<Rightarrow> dims \<Rightarrow> dims" where
  "GetOvlpStart n inStart outStart =
    map (\<lambda>i. if inStart ! i > outStart ! i then inStart ! i else outStart ! i) [0..<n]"

definition GetOvlpEnd :: "nat \<Rightarrow> dims \<Rightarrow> dims \<Rightarrow> dims" where
  "GetOvlpEnd n inEnd outEnd =
    map (\<lambda>i. if inEnd ! i < outEnd ! i then inEnd ! i else outEnd ! i) [0..<n]"

definition GetOvlpCount :: "nat \<Rightarrow> dims \<Rightarrow> dims \<Rightarrow> dims" where
  "GetOvlpCount n ovlpStart ovlpEnd = map (\<lambda>i. ovlpEnd ! i - ovlpStart ! i + 1) [0..<n]"

definition HasOvlp :: "dims \<Rightarrow> dims \<Rightarrow> bool" where
  "HasOvlp ovlpStart ovlpEnd = list_all (\<lambda>i. \<not> ovlpEnd ! i < ovlpStart ! i) [0..<length ovlpStart]"

text \<open>The strides, filled from the last dimension to the first.\<close>

fun io_strides :: "u64 \<Rightarrow> dims \<Rightarrow> dims" where
  "io_strides elmSize [] = []"
| "io_strides elmSize [c] = [elmSize]"
| "io_strides elmSize (c # d # cs) =
    (let st = io_strides elmSize (d # cs) in d * hd st # st)"

definition GetIoStrides :: "nat \<Rightarrow> dims \<Rightarrow> u64 \<Rightarrow> dims" where
  "GetIoStrides n ioCount elmSize = io_strides elmSize (take n ioCount)"

definition GetOvlpBase :: "u64 \<Rightarrow> nat \<Rightarrow> dims \<Rightarrow> dims \<Rightarrow> dims \<Rightarrow> u64" where
  "GetOvlpBase base n start stride ovlpStart =
    fold (\<lambda>i b. b + (ovlpStart ! i - start ! i) * stride ! i) [0..<n] base"

definition GetIoOvlpGapSize :: "nat \<Rightarrow> dims \<Rightarrow> dims \<Rightarrow> dims \<Rightarrow> dims" where
  "GetIoOvlpGapSize n ioStride ioCount ovlpCount =
    map (\<lambda>i. (ioCount ! i - ovlpCount ! i) * ioStride ! i) [0..<n]"

fun min_cont_from :: "dims \<Rightarrow> dims \<Rightarrow> dims \<Rightarrow> nat \<Rightarrow> nat" where
  "min_cont_from inCount outCount ovlpCount 0 = 0"
| "min_cont_from inCount outCount ovlpCount (Suc i) =
    (if inCount ! Suc i \<noteq> ovlpCount ! Suc i \<or> outCount ! Suc i \<noteq> ovlpCount ! Suc i then Suc i
     else min_cont_from inCount outCount ovlpCount i)"

definition GetMinContDim :: "dims \<Rightarrow> dims \<Rightarrow> dims \<Rightarrow> nat" where
  "GetMinContDim inCount outCount ovlpCount =
    min_cont_from inCount outCount ovlpCount (length ovlpCount - 1)"

definition GetBlockSize :: "dims \<Rightarrow> nat \<Rightarrow> u64 \<Rightarrow> u64" where
  "GetBlockSize ovlpCount minContDim elmSize =
    fold (\<lambda>i res. res * ovlpCount ! i) [minContDim..<length ovlpCount] elmSize"

definition GetRltvOvlpStartPos :: "nat \<Rightarrow> dims \<Rightarrow> dims \<Rightarrow> dims" where
  "GetRltvOvlpStartPos n ioStart ovlpStart = map (\<lambda>i. ovlpStart ! i - ioStart ! i) [0..<n]"

text \<open>\<open>inMemStart\<close>, \<open>inMemCount\<close>, \<open>outMemStart\<close>, \<open>outMemCount\<close> default to the box when empty.\<close>

definition or_default :: "dims \<Rightarrow> dims \<Rightarrow> dims" where
  "or_default mem dflt = (if mem = [] then dflt else mem)"

text \<open>The part of \<open>NdCopy\<close> for two row-major buffers, after the overlap has been found.\<close>

definition NdCopyRowMajor ::
  "bytes \<Rightarrow> u64 \<Rightarrow> bytes \<Rightarrow> dims \<Rightarrow> dims \<Rightarrow> dims \<Rightarrow> dims \<Rightarrow> dims \<Rightarrow> dims \<Rightarrow> bool \<Rightarrow> u64 \<Rightarrow> bool \<Rightarrow>
   (int \<times> bytes) result option" where
  "NdCopyRowMajor inp inBase out inMemStartNC inMemCountNC outMemStartNC outMemCountNC ovlpStart ovlpCount
     sameEndian elmSize safeMode =
   (let n = length ovlpCount;
        inStride = GetIoStrides n inMemCountNC elmSize;
        outStride = GetIoStrides n outMemCountNC elmSize;
        inGap = GetIoOvlpGapSize n inStride inMemCountNC ovlpCount;
        outGap = GetIoOvlpGapSize n outStride outMemCountNC ovlpCount;
        inOvlpBase = GetOvlpBase inBase n inMemStartNC inStride ovlpStart;
        outOvlpBase = GetOvlpBase 0 n outMemStartNC outStride ovlpStart;
        minContDim = GetMinContDim inMemCountNC outMemCountNC ovlpCount;
        blockSize = GetBlockSize ovlpCount minContDim elmSize;
        s = (inOvlpBase, outOvlpBase, out);
        ret = map_option (\<lambda>r. bindR r (\<lambda>(_, _, out). Inr (0, out)))
    in if sameEndian then
         (if \<not> safeMode
          then ret (Some (NdCopyRecurDFSeqPadding inp inGap outGap ovlpCount minContDim blockSize s))
          else ret (NdCopyIterDFSeqPadding inp inGap outGap ovlpCount minContDim blockSize s))
       else if elmSize = 0 then Some (Inl ArithmeticUB)
       else
         (if \<not> safeMode
          then ret (Some (NdCopyRecurDFSeqPaddingRevEndian inp inGap outGap ovlpCount minContDim
                      elmSize (blockSize div elmSize) s))
          else ret (NdCopyIterDFSeqPaddingRevEndian inp inGap outGap ovlpCount minContDim
                      elmSize (blockSize div elmSize) s)))"

text \<open>
  The strides and relative start positions when a buffer is column-major. The strides of a
  column-major side are reversed back to the order of the other side; its start positions are not.
\<close>

definition col_major_setup ::
  "bool \<Rightarrow> bool \<Rightarrow> dims \<Rightarrow> dims \<Rightarrow> dims \<Rightarrow> dims \<Rightarrow> dims \<Rightarrow> dims \<Rightarrow> dims \<Rightarrow> u64 \<Rightarrow>
   dims \<times> dims \<times> dims \<times> dims" where
  "col_major_setup inIsRowMajor outIsRowMajor inCount outCount inMemStartNC inMemCountNC
     outMemStartNC outMemCountNC ovlpStart elmSize =
   (let n = length ovlpStart
    in if \<not> inIsRowMajor \<and> \<not> outIsRowMajor then
         (GetIoStrides n inCount elmSize, GetIoStrides n outCount elmSize,
          GetRltvOvlpStartPos n inMemStartNC ovlpStart,
          GetRltvOvlpStartPos n outMemStartNC ovlpStart)
       else if inIsRowMajor then
         (GetIoStrides n inMemCountNC elmSize,
          rev (GetIoStrides n (rev outMemCountNC) elmSize),
          GetRltvOvlpStartPos n inMemStartNC ovlpStart,
          GetRltvOvlpStartPos n (rev outMemStartNC) (rev ovlpStart))
       else
         (rev (GetIoStrides n (rev inMemCountNC) elmSize),
          GetIoStrides n outMemCountNC elmSize,
          GetRltvOvlpStartPos n (rev inMemStartNC) (rev ovlpStart),
          GetRltvOvlpStartPos n outMemStartNC ovlpStart))"

definition NdCopyColMajor ::
  "bytes \<Rightarrow> u64 \<Rightarrow> bytes \<Rightarrow> dims \<times> dims \<times> dims \<times> dims \<Rightarrow> dims \<Rightarrow> bool \<Rightarrow> u64 \<Rightarrow> bool \<Rightarrow>
   (int \<times> bytes) result option" where
  "NdCopyColMajor inp inBase out conf ovlpCount sameEndian elmSize safeMode =
   (let (inStride, outStride, inRel, outRel) = conf;
        ret = map_option (\<lambda>r. bindR r (\<lambda>out. Inr (0, out)))
    in if sameEndian then
         (if \<not> safeMode
          then ret (Some (NdCopyRecurDFNonSeqDynamic inp inBase inRel outRel inStride outStride ovlpCount
                      elmSize out))
          else ret (NdCopyIterDFDynamic inp inBase inRel outRel inStride outStride ovlpCount elmSize out))
       else
         (if \<not> safeMode
          then ret (Some (NdCopyRecurDFNonSeqDynamicRevEndian inp inBase inRel outRel inStride outStride
                      ovlpCount elmSize out))
          else ret (NdCopyIterDFDynamicRevEndian inp inBase inRel outRel inStride outStride ovlpCount
                      elmSize out)))"

text \<open>
  The arrays are \<open>DimsArray\<close>s of the rank of \<open>inStart\<close>, which hold at most 32 (\<open>MAX_DIMS\<close>)
  dimensions; \<open>GetIoStrides\<close> writes before them when the rank is 0. Vectors of different ranks are
  read or written past their ends. \<open>typeSize\<close> is an \<open>int\<close>, converted to \<open>size_t\<close>.
\<close>

definition NdCopy ::
  "bytes \<Rightarrow> u64 \<Rightarrow> dims \<Rightarrow> dims \<Rightarrow> bool \<Rightarrow> bool \<Rightarrow> bytes \<Rightarrow> dims \<Rightarrow> dims \<Rightarrow> bool \<Rightarrow> bool \<Rightarrow> u32 \<Rightarrow>
   dims \<Rightarrow> dims \<Rightarrow> dims \<Rightarrow> dims \<Rightarrow> bool \<Rightarrow> (int \<times> bytes) result option" where
  "NdCopy inp inBase inStart inCount inIsRowMajor inIsLittleEndian out outStart outCount outIsRowMajor
     outIsLittleEndian typeSize inMemStart inMemCount outMemStart outMemCount safeMode =
   (let n = length inStart;
        inMemStartNC = or_default inMemStart inStart;
        inMemCountNC = or_default inMemCount inCount;
        outMemStartNC = or_default outMemStart outStart;
        outMemCountNC = or_default outMemCount outCount;
        elmSize = scast typeSize :: u64;
        sameEndian = (inIsLittleEndian = outIsLittleEndian);
        inEnd = GetEnd n inStart inCount;
        outEnd = GetEnd n outStart outCount;
        ovlpStart = GetOvlpStart n inStart outStart;
        ovlpEnd = GetOvlpEnd n inEnd outEnd;
        ovlpCount = GetOvlpCount n ovlpStart ovlpEnd
    in if n = 0 \<or> n > 32 \<or>
          \<not> list_all (\<lambda>v. length v = n) [inCount, outStart, outCount, inMemStartNC, inMemCountNC,
                                        outMemStartNC, outMemCountNC]
       then Some (Inl UndefinedBehaviour)
       else if \<not> HasOvlp ovlpStart ovlpEnd then Some (Inr (1, out))
       else if inIsRowMajor \<and> outIsRowMajor then
         NdCopyRowMajor inp inBase out inMemStartNC inMemCountNC outMemStartNC outMemCountNC ovlpStart
           ovlpCount sameEndian elmSize safeMode
       else
         NdCopyColMajor inp inBase out
           (col_major_setup inIsRowMajor outIsRowMajor inCount outCount inMemStartNC inMemCountNC
              outMemStartNC outMemCountNC ovlpStart elmSize)
           ovlpCount sameEndian elmSize safeMode)"

subsection \<open>The loop and the recursion\<close>

text \<open>
  \<open>nd_walk\<close> is the recursion that does the work of \<open>enter\<close>, \<open>leave\<close> and the leaf in the order of the
  loop. Both helpers of a pair are equal to it.
\<close>

fun nd_walk ::
  "(nat \<Rightarrow> u64 \<Rightarrow> 's \<Rightarrow> 's) \<Rightarrow> ('s \<Rightarrow> 's result) \<Rightarrow> (nat \<Rightarrow> 's \<Rightarrow> 's) \<Rightarrow> dims \<Rightarrow> nat \<Rightarrow> nat \<Rightarrow> 's \<Rightarrow> 's result"
  where
  "nd_walk enter leaf leave cnt m 0 s = leaf s"
| "nd_walk enter leaf leave cnt m (Suc lv) s =
    foldR (\<lambda>i s. bindR (nd_walk enter leaf leave cnt m lv (enter (m - Suc lv) (of_nat i) s))
                   (\<lambda>s. Inr (leave (m - lv) s)))
      [0..<unat (cnt ! (m - Suc lv))] s"

definition nd_finish where
  "nd_finish enter leaf leave cnt m k pos s =
    (case nd_ascend leave cnt k pos s of
       Inl s \<Rightarrow> Some (Inr s)
     | Inr (k, pos, s) \<Rightarrow> nd_iter enter leaf leave cnt m k pos s)"

definition zero_from :: "nat \<Rightarrow> dims \<Rightarrow> bool" where
  "zero_from k pos \<longleftrightarrow> (\<forall>d. k \<le> d \<longrightarrow> d < length pos \<longrightarrow> pos ! d = 0)"

lemma nd_descend_step:
  "k < m \<Longrightarrow> nd_descend enter m k (pos, s)
    = nd_descend enter m (Suc k) (pos[k := pos ! k + 1], enter k (pos ! k) s)"
  by (simp add: nd_descend_def upt_conv_Cons)

lemma nd_iter_down:
  assumes "k < m"
  shows "nd_iter enter leaf leave cnt m k pos s
    = nd_iter enter leaf leave cnt m (Suc k) (pos[k := pos ! k + 1]) (enter k (pos ! k) s)"
  using assms by (subst (1 2) nd_iter.simps) (simp add: nd_descend_step)

lemma nd_iter_leaf:
  "nd_iter enter leaf leave cnt m m pos s
    = (case leaf s of Inl e \<Rightarrow> Some (Inl e) | Inr s \<Rightarrow> nd_finish enter leaf leave cnt m m pos s)"
  unfolding nd_finish_def by (subst nd_iter.simps) (simp add: nd_descend_def)


lemma nd_finish_last:
  assumes "zero_from (Suc k) pos" "k < length pos" "pos ! k = cnt ! k"
  shows "nd_finish enter leaf leave cnt m (Suc k) pos s
    = nd_finish enter leaf leave cnt m k pos (leave (Suc k) s)"
proof -
  have "pos[Suc k := 0] = pos"
    using assms by (cases "Suc k < length pos") (auto simp: list_update_same_conv list_update_beyond zero_from_def)
  then show ?thesis using assms by (simp add: nd_finish_def)
qed

lemma nd_finish_more:
  assumes "zero_from (Suc k) pos" "pos ! k \<noteq> cnt ! k"
  shows "nd_finish enter leaf leave cnt m (Suc k) pos s
    = nd_iter enter leaf leave cnt m k pos (leave (Suc k) s)"
proof -
  have "pos[Suc k := 0] = pos"
    using assms by (cases "Suc k < length pos") (auto simp: list_update_same_conv list_update_beyond zero_from_def)
  then show ?thesis using assms by (simp add: nd_finish_def)
qed

lemma nd_finish_same:
  "nd_finish enter leaf leave cnt m k (pos[k := x]) s = nd_finish enter leaf leave cnt m k pos s"
  by (cases k) (simp_all add: nd_finish_def)

lemma nd_iter_walk:
  assumes "k \<le> m" "m < length pos" "\<And>d. d < m \<Longrightarrow> cnt ! d \<noteq> 0" "zero_from k pos"
  shows "nd_iter enter leaf leave cnt m k pos s
    = (case nd_walk enter leaf leave cnt m (m - k) s of Inl e \<Rightarrow> Some (Inl e)
       | Inr s \<Rightarrow> nd_finish enter leaf leave cnt m k pos s)"
  using assms
proof (induction "m - k" arbitrary: k pos s)
  case 0
  then have "k = m" by simp
  show ?case unfolding \<open>k = m\<close> by (simp add: nd_iter_leaf)
next
  case (Suc lv)
  then have k: "k < m" "k < length pos" and lv: "lv = m - Suc k"
    and km: "m - Suc lv = k" "m - lv = Suc k" "m - k = Suc lv"
    by simp_all
  note outer = Suc.hyps(1) and prems = Suc.prems
  let ?N = "unat (cnt ! k)"
  have N: "0 < ?N" using Suc.prems k by (simp add: unat_gt_0)
  let ?body = "\<lambda>i s. bindR (nd_walk enter leaf leave cnt m lv (enter k (of_nat i) s))
                   (\<lambda>s. Inr (leave (Suc k) s))"
  have loop: "nd_iter enter leaf leave cnt m k (pos[k := of_nat i]) s
    = (case foldR ?body [i..<?N] s of Inl e \<Rightarrow> Some (Inl e)
       | Inr s \<Rightarrow> nd_finish enter leaf leave cnt m k pos s)"
    if "i < ?N" for i s
    using that
  proof (induction "?N - Suc i" arbitrary: i s)
    case (0 i s)
    let ?pos = "pos[k := of_nat i + 1]"
    have i: "Suc i = ?N" using 0 by simp
    have z: "zero_from (Suc k) ?pos"
      using \<open>zero_from k pos\<close> by (auto simp: zero_from_def nth_list_update)
    have last: "?pos ! k = cnt ! k"
      using k arg_cong[OF i, of "of_nat :: nat \<Rightarrow> u64"] by (simp add: add.commute)
    have "nd_iter enter leaf leave cnt m k (pos[k := of_nat i]) s
      = nd_iter enter leaf leave cnt m (Suc k) ?pos (enter k (of_nat i) s)"
      using k by (simp add: nd_iter_down)
    also have "\<dots> = (case nd_walk enter leaf leave cnt m lv (enter k (of_nat i) s) of
        Inl e \<Rightarrow> Some (Inl e) | Inr s \<Rightarrow> nd_finish enter leaf leave cnt m (Suc k) ?pos s)"
      unfolding lv using prems k z by (intro outer) (auto simp: lv)
    also have "\<dots> = (case ?body i s of Inl e \<Rightarrow> Some (Inl e)
       | Inr s \<Rightarrow> nd_finish enter leaf leave cnt m k pos s)"
      using nd_finish_last[OF z _ last] k
      by (cases "nd_walk enter leaf leave cnt m lv (enter k (of_nat i) s)")
        (simp_all add: nd_finish_same)
    also have "?body i s = foldR ?body [i..<?N] s"
      by (cases "nd_walk enter leaf leave cnt m lv (enter k (of_nat i) s)") (simp_all flip: i)
    finally show ?case .
  next
    case (Suc r i s)
    let ?pos = "pos[k := of_nat i + 1]"
    have i: "Suc i < ?N" using Suc.hyps by simp
    have z: "zero_from (Suc k) ?pos"
      using \<open>zero_from k pos\<close> by (auto simp: zero_from_def nth_list_update)
    have u: "unat (of_nat (Suc i) :: u64) = Suc i"
      using i unat_u64_less[of "cnt ! k"] by (intro unat_of_nat_small) simp
    have more: "?pos ! k \<noteq> cnt ! k" using k i u by (auto simp: add.commute)
    have "nd_iter enter leaf leave cnt m k (pos[k := of_nat i]) s
      = nd_iter enter leaf leave cnt m (Suc k) ?pos (enter k (of_nat i) s)"
      using k by (simp add: nd_iter_down)
    also have "\<dots> = (case nd_walk enter leaf leave cnt m lv (enter k (of_nat i) s) of
        Inl e \<Rightarrow> Some (Inl e) | Inr s \<Rightarrow> nd_finish enter leaf leave cnt m (Suc k) ?pos s)"
      unfolding lv using prems k z by (intro outer) (auto simp: lv)
    also have "\<dots> = (case ?body i s of Inl e \<Rightarrow> Some (Inl e)
       | Inr s \<Rightarrow> nd_iter enter leaf leave cnt m k (pos[k := of_nat (Suc i)]) s)"
      using nd_finish_more[OF z more]
      by (cases "nd_walk enter leaf leave cnt m lv (enter k (of_nat i) s)")
        (simp_all add: add.commute)
    also have "\<dots> = (case ?body i s of Inl e \<Rightarrow> Some (Inl e)
       | Inr s \<Rightarrow> (case foldR ?body [Suc i..<?N] s of Inl e \<Rightarrow> Some (Inl e)
           | Inr s \<Rightarrow> nd_finish enter leaf leave cnt m k pos s))"
      using Suc.hyps(1)[of "Suc i"] Suc.hyps(2) i by (simp split: sum.split)
    finally show ?case using i by (cases "?body i s") (simp_all add: upt_conv_Cons)
  qed
  have "pos[k := of_nat 0] = pos"
    using prems k by (simp add: list_update_same_conv zero_from_def)
  then show ?case using loop[OF N, of s] by (simp add: km)
qed

text \<open>From the top the loop returns, with the result of the recursion.\<close>

lemma nd_iter_is_walk:
  assumes "m < l" "\<And>d. d < m \<Longrightarrow> cnt ! d \<noteq> 0"
  shows "nd_iter enter leaf leave cnt m 0 (replicate l 0) s
    = Some (nd_walk enter leaf leave cnt m m s)"
  using nd_iter_walk[of 0 m "replicate l 0" cnt enter leaf leave s] assms
  by (simp add: zero_from_def nd_finish_def split: sum.splits)

lemma foldR_cong [fundef_cong]:
  "xs = ys \<Longrightarrow> s = t \<Longrightarrow> (\<And>x s. x \<in> set ys \<Longrightarrow> f x s = g x s) \<Longrightarrow> foldR f xs s = foldR g ys t"
  by (induction ys arbitrary: xs s t) (auto intro!: arg_cong2[where f = bindR])

declare bindR_assoc [simp] bindR_Inr [simp]

lemma bindR_cong: "m = m' \<Longrightarrow> (\<And>x. m' = Inr x \<Longrightarrow> f x = g x) \<Longrightarrow> bindR m f = bindR m' g"
  by (cases m') simp_all

lemma seq_padding_walk:
  "lv \<le> m \<Longrightarrow> seq_padding leaf gi go cnt m lv s
    = bindR (nd_walk (\<lambda>_ _ s. s) leaf (pad gi go) cnt m lv s) (\<lambda>s. Inr (pad gi go (m - lv) s))"
proof (induction lv arbitrary: s)
  case (Suc lv)
  then show ?case
    by (simp add: Let_def Suc_diff_Suc cong: foldR_cong)
qed simp


text \<open>A fold that only looks at a part \<open>get s\<close> of the state, under an invariant \<open>I\<close>.\<close>

lemma foldR_part:
  assumes "\<And>x s. x \<in> set xs \<Longrightarrow> I s \<Longrightarrow>
      f x (get s) = map_sum id get (g x s) \<and> (\<forall>s'. g x s = Inr s' \<longrightarrow> I s')"
    and "I s"
  shows "foldR f xs (get s) = map_sum id get (foldR g xs s) \<and>
    (\<forall>s'. foldR g xs s = Inr s' \<longrightarrow> I s')"
  using assms
proof (induction xs arbitrary: s)
  case (Cons x xs)
  show ?case using Cons.prems(1)[of x s] Cons.prems(2) Cons.IH Cons.prems(1)
    by (cases "g x s") auto
qed simp

text \<open>The recursion with explicit addresses is the walk that keeps them in arrays.\<close>

fun addr_inv :: "nat \<Rightarrow> nat \<Rightarrow> u64 \<Rightarrow> u64 \<Rightarrow> dims \<times> dims \<times> bytes \<Rightarrow> bool" where
  "addr_inv n k i ob (ia, oa, out) \<longleftrightarrow>
    length ia = n + 1 \<and> length oa = n + 1 \<and> ia ! k = i \<and> oa ! k = ob"

fun get_out :: "dims \<times> dims \<times> bytes \<Rightarrow> bytes" where
  "get_out (ia, oa, out) = out"

lemma dynamic_walk:
  assumes "lv \<le> n" "addr_inv n (n - lv) i ob s"
  shows "non_seq_dynamic leaf ri ro si so cnt n lv i ob (get_out s)
      = map_sum id get_out (nd_walk (enter_addr ri ro si so) (addr_leaf leaf n) (\<lambda>_ s. s) cnt n lv s)
    \<and> (\<forall>s'. nd_walk (enter_addr ri ro si so) (addr_leaf leaf n) (\<lambda>_ s. s) cnt n lv s = Inr s' \<longrightarrow>
         (\<forall>k\<le>n - lv. \<forall>i ob. addr_inv n k i ob s \<longrightarrow> addr_inv n k i ob s'))"
  using assms
proof (induction lv arbitrary: i ob s)
  case 0
  obtain ia oa out where s: "s = (ia, oa, out)" by (cases s) auto
  show ?case using 0 unfolding s by (cases "leaf i ob out") auto
next
  case (Suc lv)
  let ?k = "n - Suc lv"
  have k: "Suc ?k = n - lv" "?k < n" using Suc.prems by auto
  let ?J = "\<lambda>s'. \<forall>k\<le>?k. \<forall>i ob. addr_inv n k i ob s \<longrightarrow> addr_inv n k i ob s'"
  let ?g = "\<lambda>j s. bindR (nd_walk (enter_addr ri ro si so) (addr_leaf leaf n) (\<lambda>_ s. s) cnt n lv
                   (enter_addr ri ro si so ?k (of_nat j) s)) Inr"
  have step: "non_seq_dynamic leaf ri ro si so cnt n lv
          (i + (ri ! ?k + of_nat j) * si ! ?k) (ob + (ro ! ?k + of_nat j) * so ! ?k) (get_out t)
        = map_sum id get_out (?g j t) \<and> (\<forall>s'. ?g j t = Inr s' \<longrightarrow> ?J s')"
    if t: "?J t" for j t
  proof -
    obtain ia oa out where tt: "t = (ia, oa, out)" by (cases t) auto
    let ?t = "enter_addr ri ro si so ?k (of_nat j) t"
    have a: "addr_inv n ?k i ob t" using t Suc.prems by blast
    have inv: "addr_inv n (n - lv) (i + (ri ! ?k + of_nat j) * si ! ?k)
        (ob + (ro ! ?k + of_nat j) * so ! ?k) ?t"
      using a k unfolding tt by (auto simp flip: k(1))
    have keep: "addr_inv n k i' ob' t \<Longrightarrow> addr_inv n k i' ob' ?t" if "k \<le> ?k" for k i' ob'
      using that unfolding tt by auto
    have eq: "get_out ?t = get_out t" unfolding tt by simp
    have "lv \<le> n" using Suc.prems(1) by simp
    note IH = Suc.IH[OF this inv, unfolded eq]
    have "?J s'" if "?g j t = Inr s'" for s'
    proof (intro allI impI)
      fix k i' ob' assume le: "k \<le> ?k" and s: "addr_inv n k i' ob' s"
      have "addr_inv n k i' ob' ?t" using keep[OF le] t le s by blast
      moreover have "k \<le> n - lv" using le by simp
      moreover have "nd_walk (enter_addr ri ro si so) (addr_leaf leaf n) (\<lambda>_ s. s) cnt n lv ?t = Inr s'"
        using that by (simp only: bindR_Inr)
      ultimately show "addr_inv n k i' ob' s'" using IH by blast
    qed
    then show ?thesis using IH by (simp only: bindR_Inr) blast
  qed
  have "foldR (\<lambda>j. non_seq_dynamic leaf ri ro si so cnt n lv
          (i + (ri ! ?k + of_nat j) * si ! ?k) (ob + (ro ! ?k + of_nat j) * so ! ?k))
        [0..<unat (cnt ! ?k)] (get_out s) = map_sum id get_out (foldR ?g [0..<unat (cnt ! ?k)] s) \<and>
      (\<forall>s'. foldR ?g [0..<unat (cnt ! ?k)] s = Inr s' \<longrightarrow> ?J s')"
  proof (rule foldR_part)
    show "?J s" by blast
  qed (rule step)
  then show ?case unfolding non_seq_dynamic.simps nd_walk.simps Let_def .
qed

lemma iter_dynamic_is_recursive:
  assumes "length si = length cnt" "\<And>d. d < length cnt \<Longrightarrow> cnt ! d \<noteq> 0"
  shows "iter_dynamic leaf base ri ro si so cnt out
    = Some (non_seq_dynamic leaf ri ro si so cnt (length si) (length si) base 0 out)"
proof -
  let ?n = "length cnt" let ?z = "replicate (?n + 1) (0 :: u64)" let ?b = "?z[0 := base]"
  let ?w = "nd_walk (enter_addr ri ro si so) (addr_leaf leaf ?n) (\<lambda>_ s. s) cnt ?n ?n (?b, ?z, out)"
  have "non_seq_dynamic leaf ri ro si so cnt ?n ?n base 0 (get_out (?b, ?z, out)) = map_sum id get_out ?w"
    by (rule dynamic_walk[THEN conjunct1]) simp_all
  also have "\<dots> = bindR ?w (\<lambda>(_, _, out). Inr out)" by (cases ?w) auto
  finally have "non_seq_dynamic leaf ri ro si so cnt ?n ?n base 0 out = bindR ?w (\<lambda>(_, _, out). Inr out)"
    unfolding get_out.simps .
  moreover have "nd_iter (enter_addr ri ro si so) (addr_leaf leaf ?n) (\<lambda>_ s. s) cnt ?n 0 ?z (?b, ?z, out)
      = Some ?w"
    by (rule nd_iter_is_walk) (use assms in simp_all)
  ultimately show ?thesis
    unfolding iter_dynamic_def assms(1) by (simp only: option.map)
qed

lemma iter_seq_is_recursive:
  assumes "m < length cnt" "\<And>d. d < m \<Longrightarrow> cnt ! d \<noteq> 0"
  shows "map_option (\<lambda>r. bindR r (\<lambda>(_, _, out). Inr (f out)))
      (nd_iter (\<lambda>_ _ s. s) leaf (pad gi go) cnt m 0 (replicate (length cnt) 0) s)
    = Some (bindR (seq_padding leaf gi go cnt m m s) (\<lambda>(_, _, out). Inr (f out)))"
proof -
  have p: "(\<lambda>x. case pad gi go d x of (_, _, out) \<Rightarrow> Inr (f out)) = (\<lambda>(_, _, out). Inr (f out))" for d
    by auto
  show ?thesis
    using nd_iter_is_walk[OF assms, of "\<lambda>_ _ s. s" leaf "pad gi go" s]
    by (simp add: seq_padding_walk p)
qed


subsection \<open>The safe mode\<close>

lemma ovlp_lengths [simp]:
  "length (GetEnd n s c) = n" "length (GetOvlpStart n s t) = n" "length (GetOvlpEnd n e f) = n"
  "length (GetOvlpCount n s e) = n" "length (GetRltvOvlpStartPos n s e) = n"
  "length (GetIoOvlpGapSize n st c oc) = n"
  by (simp_all add: GetEnd_def GetOvlpStart_def GetOvlpEnd_def GetOvlpCount_def
      GetRltvOvlpStartPos_def GetIoOvlpGapSize_def)

lemma length_io_strides [simp]: "length (io_strides e cs) = length cs"
  by (induction e cs rule: io_strides.induct) (simp_all add: Let_def)

lemma length_GetIoStrides [simp]: "length c = n \<Longrightarrow> length (GetIoStrides n c e) = n"
  by (simp add: GetIoStrides_def)

lemma min_cont_from_le: "min_cont_from a b c k \<le> k"
  by (induction k) simp_all

lemma GetMinContDim_less: "c \<noteq> [] \<Longrightarrow> GetMinContDim a b c < length c"
  using min_cont_from_le[of a b c "length c - 1"] by (cases c) (simp_all add: GetMinContDim_def)

lemma full_range:
  assumes "e - s + 1 = (0 :: 'a::len word)" "s \<le> e"
  shows "s = 0" "e = - 1"
proof -
  have e: "e = s - 1" using assms(1) by (simp add: algebra_simps eq_diff_eq)
  show s: "s = 0"
  proof (rule ccontr)
    assume "s \<noteq> 0"
    then have "unat (s - 1) < unat s" by (simp add: unat_minus_one unat_gt_0)
    then show False using assms(2) unfolding e by (simp add: word_nat)
  qed
  show "e = - 1" using e s by simp
qed

text \<open>In an overlap every count is positive: the whole range of \<open>size_t\<close> would need an empty block.\<close>

lemma ovlpCount_nonzero:
  assumes "solid inCount" "length inCount = n" "d < n"
    and "HasOvlp (GetOvlpStart n inStart outStart) (GetOvlpEnd n (GetEnd n inStart inCount) e)"
  shows "GetOvlpCount n (GetOvlpStart n inStart outStart)
    (GetOvlpEnd n (GetEnd n inStart inCount) e) ! d \<noteq> 0"
proof
  let ?s = "GetOvlpStart n inStart outStart ! d"
  let ?e = "GetOvlpEnd n (GetEnd n inStart inCount) e ! d"
  assume "GetOvlpCount n (GetOvlpStart n inStart outStart)
    (GetOvlpEnd n (GetEnd n inStart inCount) e) ! d = 0"
  then have "?e - ?s + 1 = 0" using assms(3) by (simp add: GetOvlpCount_def)
  moreover have "?s \<le> ?e" using assms(3,4) by (simp add: HasOvlp_def list_all_upt linorder_not_less)
  ultimately have s0: "?s = 0" and e: "?e = - 1" by (simp_all only: full_range)
  have "inStart ! d \<le> ?s" "?e \<le> inStart ! d + inCount ! d - 1"
    using assms(3) by (auto simp: GetOvlpStart_def GetOvlpEnd_def GetEnd_def linorder_not_less)
  then have "inStart ! d = 0" "inStart ! d + inCount ! d - 1 = - 1"
    using s0 e by (simp_all add: word_order.extremum_unique)
  then have "inCount ! d = 0" by simp
  then show False using solidD[OF assms(1), of d] assms(2,3) by simp
qed


lemma row_major_safe_mode:
  assumes "cnt \<noteq> []" "\<And>d. d < length cnt \<Longrightarrow> cnt ! d \<noteq> 0"
  shows "NdCopyRowMajor inp base out is ic os oc start cnt same es True
    = NdCopyRowMajor inp base out is ic os oc start cnt same es False"
proof -
  let ?m = "GetMinContDim ic oc cnt"
  have m: "?m < length cnt" by (rule GetMinContDim_less[OF assms(1)])
  note eq = iter_seq_is_recursive[of ?m cnt "Pair (0 :: int)", OF m assms(2)[OF less_trans[OF _ m]]]
  show ?thesis
    by (simp only: NdCopyRowMajor_def Let_def NdCopyIterDFSeqPadding_def NdCopyRecurDFSeqPadding_def
      NdCopyIterDFSeqPaddingRevEndian_def NdCopyRecurDFSeqPaddingRevEndian_def eq option.map
      not_True_eq_False not_False_eq_True if_True if_False)
qed

lemma col_major_safe_mode:
  assumes "length (fst conf) = length cnt" "\<And>d. d < length cnt \<Longrightarrow> cnt ! d \<noteq> 0"
  shows "NdCopyColMajor inp base out conf cnt same es True
    = NdCopyColMajor inp base out conf cnt same es False"
  using assms iter_dynamic_is_recursive[OF _ assms(2)]
  by (cases conf) (simp add: NdCopyColMajor_def Let_def NdCopyIterDFDynamic_def
      NdCopyRecurDFNonSeqDynamic_def NdCopyIterDFDynamicRevEndian_def
      NdCopyRecurDFNonSeqDynamicRevEndian_def)

lemma length_col_major_setup:
  assumes "length ic = n" "length imc = n" "length start = n"
  shows "length (fst (col_major_setup ir orr ic oc ims imc oms omc start es)) = n"
  using assms by (simp add: col_major_setup_def Let_def)

lemma safe_mode_runs_the_recursion:
  assumes "solid inCount"
  shows "NdCopy inp inBase inStart inCount irow ile out outStart outCount orow ole typeSize
      inMemStart inMemCount outMemStart outMemCount True =
    NdCopy inp inBase inStart inCount irow ile out outStart outCount orow ole typeSize
      inMemStart inMemCount outMemStart outMemCount False"
proof -
  let ?n = "length inStart"
  let ?os = "GetOvlpStart ?n inStart outStart"
  let ?oe = "GetOvlpEnd ?n (GetEnd ?n inStart inCount) (GetEnd ?n outStart outCount)"
  let ?oc = "GetOvlpCount ?n ?os ?oe"
  let ?bad = "?n = 0 \<or> ?n > 32 \<or>
      \<not> list_all (\<lambda>v. length v = ?n) [inCount, outStart, outCount, or_default inMemStart inStart,
        or_default inMemCount inCount, or_default outMemStart outStart, or_default outMemCount outCount]"
  show ?thesis
  proof (cases "?bad \<or> \<not> HasOvlp ?os ?oe")
    case True
    then show ?thesis unfolding NdCopy_def Let_def by presburger
  next
    case False
    then have ov: "HasOvlp ?os ?oe" and n: "?n \<noteq> 0" and len: "length inCount = ?n"
      "length (or_default inMemCount inCount) = ?n" by simp_all
    have nz: "?oc ! d \<noteq> 0" if "d < length ?oc" for d
      using ovlpCount_nonzero[OF assms len(1) _ ov] that by simp
    have ne: "?oc \<noteq> []" using n by (metis length_0_conv ovlp_lengths(4))
    have set: "length (fst (col_major_setup irow orow inCount outCount (or_default inMemStart inStart)
        (or_default inMemCount inCount) (or_default outMemStart outStart)
        (or_default outMemCount outCount) ?os (scast typeSize))) = length ?oc"
      by (simp add: length_col_major_setup[OF len ovlp_lengths(2)])
    show ?thesis
      unfolding NdCopy_def Let_def
      by (intro if_cong refl row_major_safe_mode[OF ne nz] col_major_safe_mode[OF set nz])
  qed
qed

end
