(* ===== verification/Adios_NdCopyRow.thy ===== *)
theory Adios_NdCopyRow
  imports Adios_NdCopy
begin

section \<open>The row-major copy moves the overlap\<close>

text \<open>
  The sequential recursion of \<open>NdCopy\<close> against a reference in natural numbers: \<open>nd_moves\<close> lists the
  element moves of an overlap from the counts and strides of its dimensions, \<open>put_elm\<close> makes one of
  them. The recursion makes exactly these moves (\<open>seq_padding_moves\<close>), whatever number of inner
  dimensions it takes as one block; the moves are those of the points of the overlap, from the
  position \<open>LinearIndexWithStartCount\<close> gives in the one buffer to that in the other.
\<close>

subsection \<open>The element moves\<close>

text \<open>
  The reference of the row-major copy. A dimension is a triple of the count of the overlap and the
  strides on both sides; \<open>nd_moves\<close> lists the offsets of the elements, input first.
\<close>

fun nd_moves :: "(nat \<times> nat \<times> nat) list \<Rightarrow> nat \<Rightarrow> nat \<Rightarrow> (nat \<times> nat) list" where
  "nd_moves [] a b = [(a, b)]"
| "nd_moves ((c, si, so) # ds) a b = concat (map (\<lambda>i. nd_moves ds (a + i * si) (b + i * so)) [0..<c])"

text \<open>One move: the \<open>es\<close> bytes at \<open>a\<close>, in order or reversed, replace those at \<open>b\<close>.\<close>

definition put_elm :: "(bytes \<Rightarrow> bytes) \<Rightarrow> bytes \<Rightarrow> nat \<Rightarrow> nat \<times> nat \<Rightarrow> bytes \<Rightarrow> bytes" where
  "put_elm f inp es ab out = splice out (snd ab) (f (take es (drop (fst ab) inp)))"

definition moves_fit :: "nat \<Rightarrow> nat \<Rightarrow> nat \<Rightarrow> (nat \<times> nat) list \<Rightarrow> bool" where
  "moves_fit es li lo ms \<longleftrightarrow> (\<forall>(a, b)\<in>set ms. a + es \<le> li \<and> b + es \<le> lo)"

lemma moves_fit_simps [simp]:
  "moves_fit es li lo []"
  "moves_fit es li lo ((a, b) # ms) \<longleftrightarrow> a + es \<le> li \<and> b + es \<le> lo \<and> moves_fit es li lo ms"
  "moves_fit es li lo (ms @ ns) \<longleftrightarrow> moves_fit es li lo ms \<and> moves_fit es li lo ns"
  by (auto simp: moves_fit_def)

lemma length_put_elm [simp]:
  assumes "a + es \<le> length inp" "b + es \<le> length out" "\<And>xs. length (f xs) = length xs"
  shows "length (put_elm f inp es (a, b) out) = length out"
  using assms by (simp add: put_elm_def)

lemma length_fold_put [simp]:
  assumes "moves_fit es (length inp) (length out) ms" "\<And>xs. length (f xs) = length xs"
  shows "length (fold (put_elm f inp es) ms out) = length out"
  using assms(1)
proof (induction ms arbitrary: out)
  case (Cons m ms)
  then show ?case by (cases m) (simp add: assms(2))
qed simp

text \<open>Adjacent elements.\<close>

definition run_moves :: "nat \<Rightarrow> nat \<Rightarrow> nat \<Rightarrow> nat \<Rightarrow> (nat \<times> nat) list" where
  "run_moves es N a b = map (\<lambda>j. (a + j * es, b + j * es)) [0..<N]"

lemma run_moves_Suc: "run_moves es (Suc N) a b = run_moves es N a b @ [(a + N * es, b + N * es)]"
  by (simp add: run_moves_def)

lemma run_moves_concat:
  "concat (map (\<lambda>i. run_moves es M (a + i * (M * es)) (b + i * (M * es))) [0..<c])
    = run_moves es (c * M) a b"
proof (induction c)
  case (Suc c)
  have "run_moves es (M + c * M) a b
      = run_moves es (c * M) a b @ run_moves es M (a + c * (M * es)) (b + c * (M * es))"
    unfolding run_moves_def add.commute[of M] upt_add_eq_append[OF le0]
    by (auto simp: map_add_upt[symmetric] algebra_simps intro!: map_cong)
  with Suc show ?case by (simp add: add.commute)
qed (simp add: run_moves_def)

lemma run_moves_fit:
  "0 < N \<Longrightarrow> moves_fit es li lo (run_moves es N a b) \<longleftrightarrow> a + N * es \<le> li \<and> b + N * es \<le> lo"
proof (induction N)
  case (Suc N)
  then show ?case by (cases N) (auto simp: run_moves_Suc algebra_simps run_moves_def)
qed simp

text \<open>Copying a block is copying its elements.\<close>

lemma block_is_run:
  assumes "a + N * es \<le> length inp" "b + N * es \<le> length out"
  shows "fold (put_elm id inp es) (run_moves es N a b) out
    = splice out b (take (N * es) (drop a inp))"
  using assms
proof (induction N)
  case 0
  then show ?case by (simp add: run_moves_def splice_def)
next
  case (Suc N)
  have "take (N * es + es) (drop a inp) = take (N * es) (drop a inp) @ take es (drop (a + N * es) inp)"
    by (subst take_add) (simp add: add.commute)
  then have "take (es + N * es) (drop a inp)
      = take (N * es) (drop a inp) @ take es (drop (a + N * es) inp)"
    by (simp only: add.commute)
  then show ?case
    using Suc splice_append[of b "take (N * es) (drop a inp)" "take es (drop (a + N * es) inp)" out]
    by (simp add: run_moves_Suc put_elm_def)
qed


subsection \<open>The sequential recursion makes the moves\<close>

text \<open>Words that stand for natural numbers.\<close>

lemma unat_fits: "x + n \<le> l \<Longrightarrow> l < 2 ^ 64 \<Longrightarrow> unat (of_nat x :: u64) = x"
  by (intro unat_of_nat_small) simp

text \<open>\<open>dim_ok\<close>: the words of one level stand for its count, its gaps and its strides.\<close>

fun dim_ok :: "dims \<Rightarrow> dims \<Rightarrow> dims \<Rightarrow> nat \<Rightarrow> nat \<times> nat \<times> nat \<Rightarrow> nat \<Rightarrow> nat \<Rightarrow> bool" where
  "dim_ok gi go cnt d (c, si, so) mi mo \<longleftrightarrow>
    unat (cnt ! d) = c \<and> c \<le> mi \<and> c \<le> mo \<and>
    gi ! d = of_nat ((mi - c) * si) \<and> go ! d = of_nat ((mo - c) * so)"

lemmas nat_words = of_nat_add of_nat_mult of_nat_diff

lemma foldR_moves:
  assumes body: "\<And>i a b out. i < (n :: nat) \<Longrightarrow> moves_fit es li lo (ms a b) \<Longrightarrow> length out = lo \<Longrightarrow>
      body i (of_nat a, of_nat b, out)
        = Inr (of_nat (a + si) :: u64, of_nat (b + so) :: u64, fold (put_elm f inp es) (ms a b) out)"
    and len: "\<And>ms out. moves_fit es li lo ms \<Longrightarrow> length out = lo \<Longrightarrow>
      length (fold (put_elm f inp es) ms out) = lo"
    and "moves_fit es li lo (concat (map (\<lambda>i. ms (a + i * si) (b + i * so)) [0..<n]))"
    and "length out = lo"
  shows "foldR body [0..<n] (of_nat a, of_nat b, out) = Inr (of_nat (a + n * si), of_nat (b + n * so),
    fold (put_elm f inp es) (concat (map (\<lambda>i. ms (a + i * si) (b + i * so)) [0..<n])) out)"
  using assms(1,3)
proof (induction n)
  case (Suc n)
  let ?ms = "concat (map (\<lambda>i. ms (a + i * si) (b + i * so)) [0..<n])"
  have fit: "moves_fit es li lo ?ms" "moves_fit es li lo (ms (a + n * si) (b + n * so))"
    using Suc.prems(2) by simp_all
  have IH: "foldR body [0..<n] (of_nat a, of_nat b, out)
      = Inr (of_nat (a + n * si), of_nat (b + n * so), fold (put_elm f inp es) ?ms out)"
    by (rule Suc.IH[OF _ fit(1)], rule Suc.prems(1)) auto
  have "body n (of_nat (a + n * si), of_nat (b + n * so), fold (put_elm f inp es) ?ms out)
      = Inr (of_nat (a + n * si + si), of_nat (b + n * so + so),
          fold (put_elm f inp es) (ms (a + n * si) (b + n * so)) (fold (put_elm f inp es) ?ms out))"
    by (rule Suc.prems(1)[OF lessI fit(2) len[OF fit(1) assms(4)]])
  then show ?case by (simp add: foldR_append IH algebra_simps del: nat_words)
qed simp

lemma of_nat_gap:
  "c \<le> m \<Longrightarrow> (of_nat (x + c * y) :: 'a::len word) + of_nat ((m - c) * y) = of_nat (x + m * y)"
  unfolding of_nat_add[symmetric] by (rule arg_cong[where f = of_nat]) (simp add: diff_mult_distrib)

lemma seq_padding_moves:
  assumes leaf: "\<And>a b out. moves_fit es li lo (nd_moves (drop m ds) a b) \<Longrightarrow> length out = lo \<Longrightarrow>
      leaf (of_nat a, of_nat b, out)
        = Inr (of_nat (a + fst (ds ! m) * fst (snd (ds ! m))) :: u64,
               of_nat (b + fst (ds ! m) * snd (snd (ds ! m))) :: u64,
               fold (put_elm f inp es) (nd_moves (drop m ds) a b) out)"
    and len: "\<And>ms out. moves_fit es li lo ms \<Longrightarrow> length out = lo \<Longrightarrow>
      length (fold (put_elm f inp es) ms out) = lo"
    and dim: "\<And>d. d \<le> m \<Longrightarrow> dim_ok gi go cnt d (ds ! d) (mi ! d) (mo ! d)"
    and up: "\<And>d. d < m \<Longrightarrow> fst (snd (ds ! d)) = mi ! Suc d * fst (snd (ds ! Suc d)) \<and>
        snd (snd (ds ! d)) = mo ! Suc d * snd (snd (ds ! Suc d))"
    and "m < length ds" "lv \<le> m"
    and "moves_fit es li lo (nd_moves (drop (m - lv) ds) a b)" "length out = lo"
  shows "seq_padding leaf gi go cnt m lv (of_nat a, of_nat b, out)
    = Inr (of_nat (a + mi ! (m - lv) * fst (snd (ds ! (m - lv)))),
           of_nat (b + mo ! (m - lv) * snd (snd (ds ! (m - lv)))),
           fold (put_elm f inp es) (nd_moves (drop (m - lv) ds) a b) out)"
  using assms(6-)
proof (induction lv arbitrary: a b out)
  case 0
  obtain c si so where d: "ds ! m = (c, si, so)" by (cases "ds ! m") auto
  have "leaf (of_nat a, of_nat b, out) = Inr (of_nat (a + c * si), of_nat (b + c * so),
      fold (put_elm f inp es) (nd_moves (drop m ds) a b) out)"
    using 0 leaf[of a b out] by (simp only: d fst_conv snd_conv diff_zero)
  then show ?case using dim[OF le_refl]
    by (simp add: d of_nat_gap del: nat_words)
next
  case (Suc lv)
  let ?d = "m - Suc lv"
  obtain c si so where d: "ds ! ?d = (c, si, so)" by (cases "ds ! ?d") auto
  have k: "Suc ?d = m - lv" "?d < m" using Suc.prems by auto
  have drop: "drop ?d ds = (c, si, so) # drop (m - lv) ds"
    using Cons_nth_drop_Suc[of ?d ds] \<open>m < length ds\<close> k d by simp
  have u: "mi ! (m - lv) * fst (snd (ds ! (m - lv))) = si" "mo ! (m - lv) * snd (snd (ds ! (m - lv))) = so"
    using up[OF k(2)] unfolding k(1) by (simp_all add: d)
  have fit: "moves_fit es li lo (concat (map (\<lambda>i. nd_moves (drop (m - lv) ds) (a + i * si) (b + i * so)) [0..<c]))"
    using Suc.prems by (simp add: drop)
  have IH: "seq_padding leaf gi go cnt m lv (of_nat a, of_nat b, out)
     = Inr (of_nat (a + si), of_nat (b + so), fold (put_elm f inp es) (nd_moves (drop (m - lv) ds) a b) out)"
    if "moves_fit es li lo (nd_moves (drop (m - lv) ds) a b)" "length out = lo" for a b out
    using Suc.IH[of a b out] Suc.prems(1) that u by simp
  have dd: "unat (cnt ! ?d) = c" "c \<le> mi ! ?d" "c \<le> mo ! ?d" "gi ! ?d = of_nat ((mi ! ?d - c) * si)"
    "go ! ?d = of_nat ((mo ! ?d - c) * so)"
    using dim[of ?d] d by simp_all
  have "foldR (\<lambda>_. seq_padding leaf gi go cnt m lv) [0..<c] (of_nat a, of_nat b, out)
    = Inr (of_nat (a + c * si), of_nat (b + c * so), fold (put_elm f inp es)
        (concat (map (\<lambda>i. nd_moves (drop (m - lv) ds) (a + i * si) (b + i * so)) [0..<c])) out)"
    by (rule foldR_moves[OF IH len fit Suc.prems(3)])
  then show ?case
    unfolding seq_padding.simps Let_def dd(1) drop nd_moves.simps d fst_conv snd_conv
    by (simp only: bindR.simps pad.simps dd of_nat_gap)
qed


subsection \<open>The leaves\<close>

lemma block_leaf_moves:
  assumes "a + N * es \<le> length inp" "b + N * es \<le> length out"
    and "length inp < 2 ^ 64" "length out < 2 ^ 64"
  shows "block_leaf inp (of_nat (N * es)) (of_nat a, of_nat b, out)
    = Inr (of_nat (a + N * es), of_nat (b + N * es), fold (put_elm id inp es) (run_moves es N a b) out)"
proof -
  have "unat (of_nat (N * es) :: u64) = N * es" "unat (of_nat a :: u64) = a" "unat (of_nat b :: u64) = b"
    using assms by (auto intro!: unat_of_nat_small simp del: nat_words)
  then show ?thesis
    using assms by (simp add: memcpy_def block_is_run del: nat_words flip: of_nat_add)
qed

lemma rev_leaf_moves:
  assumes fit: "a + N * es \<le> length inp" "b + N * es \<le> length out"
    and small: "length inp < 2 ^ 64" "length out < 2 ^ 64" and es: "0 < es"
  shows "rev_leaf inp (of_nat es) (of_nat (N * es) div of_nat es) (of_nat a, of_nat b, out)
    = Inr (of_nat (a + N * es), of_nat (b + N * es), fold (put_elm rev inp es) (run_moves es N a b) out)"
proof (cases "N = 0")
  case True
  then show ?thesis by (simp add: rev_leaf_def run_moves_def)
next
  case False
  have "es \<le> N * es" using False by simp
  then have u: "unat (of_nat (N * es) :: u64) = N * es" "unat (of_nat es :: u64) = es"
    using fit small order_trans[OF \<open>es \<le> N * es\<close>, of "length inp"]
    by (auto intro!: unat_of_nat_small simp del: nat_words)
  have N: "unat (of_nat (N * es) div of_nat es :: u64) = N"
    using u es by (simp add: unat_div del: nat_words)
  have step: "rev_step inp (of_nat es) (of_nat x, of_nat y, out)
      = Inr (of_nat (x + es), of_nat (y + es), fold (put_elm rev inp es) [(x, y)] out)"
    if "moves_fit es (length inp) lo [(x, y)]" "length out = lo" "lo < 2 ^ 64" for x y out lo
  proof -
    have "unat (of_nat x :: u64) = x" "unat (of_nat y :: u64) = y"
      using that small by (auto intro!: unat_of_nat_small simp del: nat_words)
    then show ?thesis using that u by (simp add: reverse_bytes_def put_elm_def)
  qed
  have run: "run_moves es N a b = concat (map (\<lambda>i. [(a + i * es, b + i * es)]) [0..<N])"
    by (simp add: run_moves_def)
  have fits: "moves_fit es (length inp) (length out) (run_moves es N a b)"
    using fit False by (simp add: run_moves_fit)
  show ?thesis
    unfolding rev_leaf_def N run
    by (rule foldR_moves[where lo = "length out" and li = "length inp"])
      (use step small fits length_fold_put in \<open>simp_all add: run del: nat_words fold_simps\<close>)
qed

text \<open>The leaf level: below \<open>m\<close> the strides are those of adjacent elements.\<close>

lemma nd_moves_run:
  assumes "\<And>d. d < length ds \<Longrightarrow> fst (snd (ds ! d)) = es * prod_list (map fst (drop (Suc d) ds))"
    "\<And>d. d < length ds \<Longrightarrow> snd (snd (ds ! d)) = es * prod_list (map fst (drop (Suc d) ds))"
  shows "nd_moves ds a b = run_moves es (prod_list (map fst ds)) a b"
  using assms
proof (induction ds arbitrary: a b)
  case Nil
  then show ?case by (simp add: run_moves_def)
next
  case (Cons x ds)
  obtain c si so where x: "x = (c, si, so)" by (cases x) auto
  have s: "si = prod_list (map fst ds) * es" "so = prod_list (map fst ds) * es"
    using Cons.prems[of 0] by (simp_all add: x)
  have "nd_moves ds a b = run_moves es (prod_list (map fst ds)) a b" for a b
    using Cons.IH Cons.prems[of "Suc d" for d] by simp
  then show ?case by (simp add: x s run_moves_concat)
qed


subsection \<open>The arrays of the row-major copy\<close>

definition row_stride :: "nat \<Rightarrow> dims \<Rightarrow> nat \<Rightarrow> nat" where
  "row_stride es c i = es * prod_list (drop (Suc i) (map unat c))"

definition row_dims :: "nat \<Rightarrow> dims \<Rightarrow> dims \<Rightarrow> dims \<Rightarrow> (nat \<times> nat \<times> nat) list" where
  "row_dims es cnt ic oc =
    map (\<lambda>i. (unat (cnt ! i), row_stride es ic i, row_stride es oc i)) [0..<length cnt]"

definition row_base :: "nat \<Rightarrow> dims \<Rightarrow> dims \<Rightarrow> dims \<Rightarrow> nat" where
  "row_base es s c start = sum_list (map (\<lambda>i. unat (start ! i - s ! i) * row_stride es c i) [0..<length c])"

lemma of_nat_prod_unat: "(of_nat (prod_list (map unat ws)) :: 'a::len word) = prod_list (ws :: 'a word list)"
  by (induction ws) simp_all

lemma io_strides_nth: "i < length cs \<Longrightarrow> io_strides e cs ! i = e * prod_list (drop (Suc i) cs)"
proof (induction e cs arbitrary: i rule: io_strides.induct)
  case (3 e c d cs)
  have "io_strides e (d # cs) \<noteq> []" by (metis length_0_conv length_io_strides list.distinct(1))
  with 3 show ?case by (cases i) (simp_all add: Let_def hd_conv_nth mult.left_commute)
qed simp_all

lemma GetIoStrides_nth:
  assumes "i < length c"
  shows "GetIoStrides (length c) c (of_nat es) ! i = of_nat (row_stride es c i)"
  using assms of_nat_prod_unat[of "drop (Suc i) c"]
  by (simp add: GetIoStrides_def io_strides_nth row_stride_def drop_map)

lemma GetOvlpBase_nat:
  "GetOvlpBase base (length c) s (GetIoStrides (length c) c (of_nat es)) start
    = base + of_nat (row_base es s c start)"
proof -
  have "fold (\<lambda>i b. b + (start ! i - s ! i) * GetIoStrides (length c) c (of_nat es) ! i) [0..<k] base
    = base + of_nat (sum_list (map (\<lambda>i. unat (start ! i - s ! i) * row_stride es c i) [0..<k]))"
    if "k \<le> length c" for k
    using that by (induction k) (simp_all add: GetIoStrides_nth)
  from this[OF le_refl] show ?thesis by (simp only: GetOvlpBase_def row_base_def)
qed

lemma GetBlockSize_nat:
  "GetBlockSize cnt m (of_nat es) = of_nat (prod_list (map unat (drop m cnt)) * es)"
proof -
  have "fold (\<lambda>i res. res * cnt ! i) [m..<length cnt] e = e * prod_list (drop m cnt)" for e
  proof (induction "length cnt - m" arbitrary: m e)
    case (Suc k)
    then have "[m..<length cnt] = m # [Suc m..<length cnt]" by (simp add: upt_conv_Cons)
    then show ?case using Suc.hyps(1)[of "Suc m"] Suc.hyps(2)
      by (simp add: Cons_nth_drop_Suc[symmetric] algebra_simps)
  qed simp
  then show ?thesis by (simp add: GetBlockSize_def of_nat_prod_unat)
qed

lemma min_cont_from_full:
  "min_cont_from a b c k < d \<Longrightarrow> d \<le> k \<Longrightarrow> a ! d = c ! d \<and> b ! d = c ! d"
  by (induction k) (auto split: if_splits simp: le_Suc_eq)

lemma GetMinContDim_full:
  assumes "GetMinContDim a b c < d" "d < length c"
  shows "a ! d = c ! d" "b ! d = c ! d"
  using min_cont_from_full[of a b c "length c - 1" d] assms by (simp_all add: GetMinContDim_def)

lemma drop_full:
  assumes "length a = length c" "\<And>d. m < d \<Longrightarrow> d < length c \<Longrightarrow> a ! d = c ! d" "m \<le> k"
  shows "drop (Suc k) a = drop (Suc k) c"
  using assms by (intro nth_equalityI) simp_all

lemma NdCopyRowMajor_moves:
  fixes es :: nat
  assumes len: "length ic = length cnt" "length oc = length cnt" and ne: "cnt \<noteq> []"
    and le: "\<And>d. d < length cnt \<Longrightarrow> cnt ! d \<le> ic ! d" "\<And>d. d < length cnt \<Longrightarrow> cnt ! d \<le> oc ! d"
    and nz: "\<And>d. d < length cnt \<Longrightarrow> cnt ! d \<noteq> 0"
    and es: "0 < es" "(of_nat es :: u64) \<noteq> 0"
    and base: "inBase + of_nat (row_base es is ic start) = of_nat a0"
    and fit: "moves_fit es (length inp) (length out)
        (nd_moves (row_dims es cnt ic oc) a0 (row_base es os oc start))"
    and small: "length inp < 2 ^ 64" "length out < 2 ^ 64"
  shows "NdCopyRowMajor inp inBase out is ic os oc start cnt same (of_nat es) False
    = Some (Inr (0, fold (put_elm (if same then id else rev) inp es)
        (nd_moves (row_dims es cnt ic oc) a0 (row_base es os oc start)) out))"
proof -
  let ?ds = "row_dims es cnt ic oc" let ?n = "length cnt"
  let ?m = "GetMinContDim ic oc cnt"
  let ?N = "prod_list (map unat (drop ?m cnt))"
  let ?gi = "GetIoOvlpGapSize ?n (GetIoStrides ?n ic (of_nat es)) ic cnt"
  let ?go = "GetIoOvlpGapSize ?n (GetIoStrides ?n oc (of_nat es)) oc cnt"
  let ?f = "if same then id else rev :: bytes \<Rightarrow> bytes"
  let ?leaf = "if same then block_leaf inp (of_nat (?N * es))
    else rev_leaf inp (of_nat es) (of_nat (?N * es) div of_nat es)"
  have m: "?m < ?n" by (rule GetMinContDim_less[OF ne])
  have lds: "length ?ds = ?n" by (simp add: row_dims_def)
  have ds: "?ds ! d = (unat (cnt ! d), row_stride es ic d, row_stride es oc d)" if "d < ?n" for d
    using that by (simp add: row_dims_def)
  have full: "drop (Suc d) ic = drop (Suc d) cnt" "drop (Suc d) oc = drop (Suc d) cnt" if "?m \<le> d" for d
    using drop_full[OF len(1) _ that] drop_full[OF len(2) _ that] GetMinContDim_full by blast+
  have st: "row_stride es ic d = prod_list (map unat (drop (Suc d) cnt)) * es"
    "row_stride es oc d = prod_list (map unat (drop (Suc d) cnt)) * es" if "?m \<le> d" for d
    using full[OF that] by (simp_all add: row_stride_def drop_map)
  have fsts: "map fst ?ds = map unat cnt"
    by (intro nth_equalityI) (simp_all add: lds ds)
  have run: "nd_moves (drop ?m ?ds) a b = run_moves es ?N a b" for a b
    using nd_moves_run[of "drop ?m ?ds" es a b] m
    by (simp add: fsts lds ds st drop_map[symmetric] add.commute[of ?m])
  have ext: "unat (cnt ! ?m) * row_stride es ic ?m = ?N * es" "unat (cnt ! ?m) * row_stride es oc ?m = ?N * es"
    using Cons_nth_drop_Suc[OF m] st[OF le_refl] by (simp_all flip: Cons_nth_drop_Suc[OF m])
  have "0 < ?N" using nz by (auto simp: prod_list_pos_iff in_set_conv_nth unat_gt_0)
  have leaf: "?leaf (of_nat a, of_nat b, out')
      = Inr (of_nat (a + fst (?ds ! ?m) * fst (snd (?ds ! ?m))), of_nat (b + fst (?ds ! ?m) * snd (snd (?ds ! ?m))),
             fold (put_elm ?f inp es) (nd_moves (drop ?m ?ds) a b) out')"
    if "moves_fit es (length inp) (length out) (nd_moves (drop ?m ?ds) a b)" "length out' = length out"
    for a b out'
  proof -
    have "a + ?N * es \<le> length inp" "b + ?N * es \<le> length out'"
      using that \<open>0 < ?N\<close> by (simp_all add: run run_moves_fit)
    then show ?thesis
      using block_leaf_moves[of a ?N es inp b out'] rev_leaf_moves[of a ?N es inp b out'] small that(2) es
      unfolding run ds[OF m] fst_conv snd_conv ext by (cases same) (simp_all only: if_True if_False)
  qed
  have flen: "length (fold (put_elm ?f inp es) ms out') = length out"
    if "moves_fit es (length inp) (length out) ms" "length out' = length out" for ms out'
    using that length_fold_put[of es inp out' ms ?f] by simp
  have dim: "dim_ok ?gi ?go cnt d (?ds ! d) (map unat ic ! d) (map unat oc ! d)" if "d \<le> ?m" for d
    using le[of d] that m len
    by (simp add: ds GetIoOvlpGapSize_def GetIoStrides_nth[where c = ic, unfolded len]
        GetIoStrides_nth[where c = oc, unfolded len] word_nat)
  have up: "fst (snd (?ds ! d)) = map unat ic ! Suc d * fst (snd (?ds ! Suc d)) \<and>
      snd (snd (?ds ! d)) = map unat oc ! Suc d * snd (snd (?ds ! Suc d))" if "d < ?m" for d
    using that m len Cons_nth_drop_Suc[of "Suc d" "map unat ic"] Cons_nth_drop_Suc[of "Suc d" "map unat oc"]
    by (simp add: ds row_stride_def flip: Cons_nth_drop_Suc)
  have fit0: "moves_fit es (length inp) (length out)
      (nd_moves (drop (?m - ?m) ?ds) a0 (row_base es os oc start))"
    using fit by simp
  have run: "seq_padding ?leaf ?gi ?go cnt ?m ?m
      (of_nat a0, of_nat (row_base es os oc start), out) = Inr
      (of_nat (a0 + map unat ic ! (?m - ?m) * fst (snd (?ds ! (?m - ?m)))),
       of_nat (row_base es os oc start + map unat oc ! (?m - ?m) * snd (snd (?ds ! (?m - ?m)))),
        fold (put_elm ?f inp es) (nd_moves (drop (?m - ?m) ?ds) a0 (row_base es os oc start)) out)"
    by (rule seq_padding_moves[OF leaf flen dim up _ le_refl fit0 refl]) (use m lds in simp_all)
  obtain x y where "seq_padding ?leaf ?gi ?go cnt ?m ?m
      (of_nat a0, of_nat (row_base es os oc start), out) = Inr (x, y,
        fold (put_elm ?f inp es) (nd_moves ?ds a0 (row_base es os oc start)) out)"
    using run unfolding diff_self_eq_0 drop_0 by blast
  then show ?thesis
    unfolding NdCopyRowMajor_def Let_def GetOvlpBase_nat[of _ ic, unfolded len]
      GetOvlpBase_nat[of _ oc, unfolded len] base add_0
      GetBlockSize_nat NdCopyRecurDFSeqPadding_def NdCopyRecurDFSeqPaddingRevEndian_def
    using es by (cases same) auto
qed


subsection \<open>Points of the overlap\<close>

definition dot :: "nat list \<Rightarrow> nat list \<Rightarrow> nat" where
  "dot qs ss = sum_list (map2 (*) qs ss)"

lemma dot_simps [simp]: "dot [] ss = 0" "dot (q # qs) (s # ss) = q * s + dot qs ss"
  by (simp_all add: dot_def)

lemma set_nd_moves:
  "set (nd_moves ds a b) = {(a + dot qs (map (\<lambda>x. fst (snd x)) ds), b + dot qs (map (\<lambda>x. snd (snd x)) ds)) | qs.
      list_all2 (<) qs (map fst ds)}"
proof (induction ds arbitrary: a b)
  case (Cons x ds)
  obtain c si so where x: "x = (c, si, so)" by (cases x) auto
  let ?S = "{(a + dot qs (map (\<lambda>x. fst (snd x)) (x # ds)), b + dot qs (map (\<lambda>x. snd (snd x)) (x # ds))) | qs.
      list_all2 (<) qs (map fst (x # ds))}"
  have "(u, v) \<in> set (nd_moves (x # ds) a b) \<longleftrightarrow> (\<exists>i qs. i < c \<and> list_all2 (<) qs (map fst ds) \<and>
      u = a + i * si + dot qs (map (\<lambda>x. fst (snd x)) ds) \<and> v = b + i * so + dot qs (map (\<lambda>x. snd (snd x)) ds))"
    for u v by (force simp: x Cons.IH)
  moreover have "(u, v) \<in> ?S \<longleftrightarrow> (\<exists>i qs. i < c \<and> list_all2 (<) qs (map fst ds) \<and>
      u = a + i * si + dot qs (map (\<lambda>x. fst (snd x)) ds) \<and> v = b + i * so + dot qs (map (\<lambda>x. snd (snd x)) ds))"
    for u v by (force simp: x list_all2_Cons2 add.assoc)
  ultimately show ?case by (intro set_eqI) (simp only: split_paired_all)
qed simp

lemma lin_snoc:
  "length qs = length cs \<Longrightarrow> lin (qs @ [q]) (cs @ [c]) = lin qs cs + prod_list cs * q"
  by (induction qs cs rule: list_induct2) (simp_all add: algebra_simps)

text \<open>The row-major index, times the size of an element, is the sum over the strides.\<close>

lemma dot_row_stride:
  "length qs = length cs \<Longrightarrow>
    es * lin (rev qs) (rev cs) = dot qs (map (\<lambda>i. es * prod_list (drop (Suc i) cs)) [0..<length cs])"
proof (induction qs cs rule: list_induct2)
  case (Cons q qs c cs)
  have "map (\<lambda>i. es * prod_list (drop (Suc i) (c # cs))) [0..<length (c # cs)]
      = es * prod_list cs # map (\<lambda>i. es * prod_list (drop (Suc i) cs)) [0..<length cs]"
    by (simp add: upt_conv_Cons map_Suc_upt[symmetric] del: upt_Suc)
  with Cons show ?case by (simp add: lin_snoc algebra_simps)
qed simp

lemma dot_add:
  "length xs = length ys \<Longrightarrow> length ss = length ys \<Longrightarrow>
    dot (map2 (+) xs ys) ss = dot xs ss + dot ys ss"
proof (induction xs ys arbitrary: ss rule: list_induct2)
  case (Cons x xs y ys)
  then show ?case by (cases ss) (simp_all add: algebra_simps)
qed simp

text \<open>The offset of a point in a buffer that holds the block \<open>s\<close>, \<open>c\<close> in row-major order.\<close>

definition row_offset :: "nat \<Rightarrow> dims \<Rightarrow> dims \<Rightarrow> dims \<Rightarrow> nat" where
  "row_offset es s c p = unat (LinearIndexWithStartCount s c p True) * es"

lemma row_offset_lin:
  assumes "in_block s c p" "length c = length s" "total c \<le> 18446744073709551616"
  shows "row_offset es s c p = es * lin (rev (rel_coords s p)) (rev (map unat c))"
proof -
  have len: "length p = length s" using assms(1) by (rule in_blockD)
  have "rel_coords (rev s) (rev p) = rev (rel_coords s p)"
    using len by (simp add: rel_coords_def rev_map zip_rev)
  then show ?thesis
    using assms len linear_loop_unat[of "rev s" "rev c" "rev p"]
    by (simp add: row_offset_def LinearIndexWithStartCount_def in_block_rev rev_map)
qed

lemma row_offset_dot:
  assumes "in_block s c p" "length c = length s" "total c \<le> 18446744073709551616"
  shows "row_offset es s c p = dot (rel_coords s p) (map (row_stride es c) [0..<length c])"
proof -
  have "length (rel_coords s p) = length (map unat c)"
    using in_blockD(3)[OF assms(1)] assms(2) by (simp add: rel_coords_def)
  then show ?thesis
    using dot_row_stride[of "rel_coords s p" "map unat c" es] row_offset_lin[OF assms]
    by (simp add: row_stride_def [abs_def])
qed

lemma row_base_dot: "length s = length c \<Longrightarrow> length start = length c \<Longrightarrow>
    row_base es s c start = dot (rel_coords s start) (map (row_stride es c) [0..<length c])"
  unfolding row_base_def dot_def
  by (rule arg_cong[where f = sum_list]) (auto simp: rel_coords_def intro!: nth_equalityI)

text \<open>A block inside another one: its points are offset by its corner.\<close>

definition covers :: "dims \<Rightarrow> dims \<Rightarrow> dims \<Rightarrow> dims \<Rightarrow> bool" where
  "covers s c start cnt \<longleftrightarrow> length start = length s \<and> length c = length s \<and> length cnt = length s \<and>
    (\<forall>p. in_block start cnt p \<longrightarrow> in_block s c p)"

lemma covers_offset:
  assumes cov: "covers s c start cnt" and p: "in_block start cnt p" and nz: "solid cnt"
    and small: "total c \<le> 18446744073709551616"
  shows "row_offset es s c p = row_base es s c start
    + dot (rel_coords start p) (map (row_stride es c) [0..<length c])"
proof -
  have len: "length start = length s" "length c = length s" "length cnt = length s"
    using cov by (simp_all add: covers_def)
  have start: "in_block start cnt start"
    using solidD[OF nz] len by (simp add: in_block_def)
  then have s: "in_block s c start" and ps: "in_block s c p" using cov p by (auto simp: covers_def)
  have lp: "length p = length s" using ps by (rule in_blockD)
  have "rel_coords s p = map2 (+) (rel_coords s start) (rel_coords start p)"
    using in_blockD(1)[OF p] in_blockD(1)[OF s] in_blockD(1)[OF ps] len lp
    by (intro nth_equalityI) (auto simp: rel_coords_def unat_diff_le word_nat)
  then show ?thesis
    using row_offset_dot[OF ps len(2) small] row_base_dot[of s c start] len lp
    by (simp add: dot_add rel_coords_def)
qed

lemma row_moves_points:
  assumes cov: "covers is ic start cnt" "covers os oc start cnt"
    and "fits start cnt" and nz: "solid cnt"
    and small: "total ic \<le> 18446744073709551616" "total oc \<le> 18446744073709551616"
  shows "set (nd_moves (row_dims es cnt ic oc) (row_base es is ic start) (row_base es os oc start))
    = (\<lambda>p. (row_offset es is ic p, row_offset es os oc p)) ` {p. in_block start cnt p}"
proof -
  have len: "length ic = length cnt" "length oc = length cnt" "length start = length cnt"
    using cov by (auto simp: covers_def)
  have ds: "map (\<lambda>x. fst (snd x)) (row_dims es cnt ic oc) = map (row_stride es ic) [0..<length ic]"
    "map (\<lambda>x. snd (snd x)) (row_dims es cnt ic oc) = map (row_stride es oc) [0..<length oc]"
    "map fst (row_dims es cnt ic oc) = map unat cnt"
    using len by (auto simp: row_dims_def intro!: nth_equalityI)
  have q: "\<exists>p. in_block start cnt p \<and> rel_coords start p = qs" if "list_all2 (<) qs (map unat cnt)" for qs
    using rel_coords_surj[OF assms(3) that] by blast
  show ?thesis
    unfolding set_nd_moves ds
    using covers_offset[OF cov(1) _ nz small(1), of _ es] covers_offset[OF cov(2) _ nz small(2), of _ es]
      in_block_rel_coords len q
    by (fastforce simp: image_iff)
qed


subsection \<open>The bytes after the moves\<close>

text \<open>Two moves write the same element, from the same place, or different bytes.\<close>

definition apart :: "nat \<Rightarrow> (nat \<times> nat) list \<Rightarrow> bool" where
  "apart es ms \<longleftrightarrow> (\<forall>(a, b)\<in>set ms. \<forall>(a', b')\<in>set ms.
    (a = a' \<and> b = b') \<or> b + es \<le> b' \<or> b' + es \<le> b)"

lemma put_elm_nth:
  assumes "a + es \<le> length inp" "b + es \<le> length out" "\<And>xs. length (f xs) = length xs"
    and "k < length out"
  shows "put_elm f inp es (a, b) out ! k =
    (if b \<le> k \<and> k < b + es then f (take es (drop a inp)) ! (k - b) else out ! k)"
  using assms by (simp add: put_elm_def splice_nth)

lemma fold_put_elsewhere:
  assumes f: "\<And>xs. length (f xs) = length xs"
    and "moves_fit es (length inp) (length out) ms" "k < length out"
    and "\<And>a b. (a, b) \<in> set ms \<Longrightarrow> \<not> (b \<le> k \<and> k < b + es)"
  shows "fold (put_elm f inp es) ms out ! k = out ! k"
  using assms(2-)
proof (induction ms rule: rev_induct)
  case (snoc m ms)
  obtain a b where m: "m = (a, b)" by (cases m)
  have "length (fold (put_elm f inp es) ms out) = length out" using f snoc.prems by simp
  then show ?case using snoc f by (auto simp: m put_elm_nth)
qed simp

lemma fold_put_there:
  assumes f: "\<And>xs. length (f xs) = length xs"
    and "moves_fit es (length inp) (length out) ms" "apart es ms" "(a, b) \<in> set ms" "j < es"
  shows "fold (put_elm f inp es) ms out ! (b + j) = f (take es (drop a inp)) ! j"
  using assms(2-)
proof (induction ms rule: rev_induct)
  case (snoc m ms)
  obtain a' b' where m: "m = (a', b')" by (cases m)
  have lo: "length (fold (put_elm f inp es) ms out) = length out" using f snoc.prems by simp
  have fit: "moves_fit es (length inp) (length out) ms" "a' + es \<le> length inp" "b' + es \<le> length out"
    and ap: "apart es ms" using snoc.prems by (auto simp: m apart_def)
  have k: "b + j < length out" using snoc.prems by (auto simp: m moves_fit_def)
  have "(a = a' \<and> b = b') \<or> (b + es \<le> b' \<or> b' + es \<le> b) \<and> (a, b) \<in> set ms"
    using snoc.prems(2,3,4) unfolding m apart_def by fastforce
  then show ?case
  proof
    assume "a = a' \<and> b = b'"
    then show ?thesis using k fit f lo snoc.prems(4) by (simp add: m put_elm_nth)
  next
    assume "(b + es \<le> b' \<or> b' + es \<le> b) \<and> (a, b) \<in> set ms"
    then show ?thesis using snoc.IH[OF fit(1) ap] k fit f lo snoc.prems(4)
      by (auto simp: m put_elm_nth)
  qed
qed simp

lemma row_offset_bound:
  assumes "in_block s c p" "fits s c" "total c * es \<le> l" "total c \<le> 18446744073709551616"
  shows "row_offset es s c p + es \<le> l"
proof -
  have "unat (LinearIndexWithStartCount s c p True) < total c"
    using bij_betw_apply[OF LinearIndex_bijection[OF assms(2,4), of True]] assms(1) by fastforce
  then have "Suc (unat (LinearIndexWithStartCount s c p True)) * es \<le> total c * es"
    by (intro mult_le_mono1) simp
  then show ?thesis using assms(3) by (simp add: row_offset_def)
qed

lemma row_offset_apart:
  assumes "in_block s c p" "in_block s c q" "fits s c" "total c \<le> 18446744073709551616"
  shows "p = q \<or> row_offset es s c p + es \<le> row_offset es s c q \<or> row_offset es s c q + es \<le> row_offset es s c p"
proof (cases "p = q")
  case False
  let ?i = "\<lambda>p. unat (LinearIndexWithStartCount s c p True)"
  have "?i p \<noteq> ?i q"
    using inj_onD[OF bij_betw_imp_inj_on[OF LinearIndex_bijection[OF assms(3,4), of True]]] assms(1,2) False
    by blast
  then have "Suc (?i p) \<le> ?i q \<or> Suc (?i q) \<le> ?i p" by auto
  then have "Suc (?i p) * es \<le> ?i q * es \<or> Suc (?i q) * es \<le> ?i p * es"
    using mult_le_mono1 by blast
  then show ?thesis by (simp add: row_offset_def add.commute)
qed simp

subsection \<open>The overlap\<close>

lemma count_of_ends:
  assumes "s \<le> e" "e - s + 1 \<noteq> (0 :: u64)"
  shows "unat (e - s + 1) = unat e - unat s + 1"
    and "s \<le> p \<Longrightarrow> p - s < e - s + 1 \<longleftrightarrow> p \<le> e"
proof -
  have "unat (e - s + 1) = unat (e - s) + 1"
    using unatSuc[of "e - s"] assms(2) by (simp add: add.commute)
  then show *: "unat (e - s + 1) = unat e - unat s + 1" by (simp add: unat_diff_le assms(1))
  show "p - s < e - s + 1 \<longleftrightarrow> p \<le> e" if "s \<le> p"
    using that assms(1) by (auto simp: word_nat * unat_diff_le)
qed

lemma ovlp_points:
  assumes len: "length outStart = length inStart" "inStart \<noteq> []"
    and inb: "fits inStart inCount" "solid inCount"
    and outb: "fits outStart outCount" "solid outCount"
  defines "n \<equiv> length inStart"
  defines "os \<equiv> GetOvlpStart n inStart outStart"
  defines "oe \<equiv> GetOvlpEnd n (GetEnd n inStart inCount) (GetEnd n outStart outCount)"
  shows "HasOvlp os oe \<Longrightarrow> in_block os (GetOvlpCount n os oe) p
      \<longleftrightarrow> in_block inStart inCount p \<and> in_block outStart outCount p"
    and "\<not> HasOvlp os oe \<Longrightarrow> \<not> (in_block inStart inCount p \<and> in_block outStart outCount p)"
    and "HasOvlp os oe \<Longrightarrow> fits os (GetOvlpCount n os oe)"
    and "HasOvlp os oe \<Longrightarrow> solid (GetOvlpCount n os oe)"
proof -
  have lc: "length inCount = n" "length outCount = n" "length outStart = n" "length os = n" "length oe = n"
    using inb outb len by (simp_all add: fits_def n_def os_def oe_def)
  have osd: "os ! d = max (inStart ! d) (outStart ! d)" if "d < n" for d
    using that by (auto simp: os_def GetOvlpStart_def max_def)
  have oed: "oe ! d = min (inStart ! d + inCount ! d - 1) (outStart ! d + outCount ! d - 1)" if "d < n" for d
    using that by (auto simp: oe_def GetOvlpEnd_def GetEnd_def min_def)
  have box: "in_box (os, oe) p \<longleftrightarrow> in_block inStart inCount p \<and> in_block outStart outCount p"
  proof -
    have "in_box (os, oe) p \<longleftrightarrow> in_box (StartEndBox inStart inCount False) p \<and>
        in_box (StartEndBox outStart outCount False) p"
      using lc osd oed by (auto simp: in_box_def n_def)
    then show ?thesis using StartEndBox_points[OF inb] StartEndBox_points[OF outb] by simp
  qed
  have cnt: "GetOvlpCount n os oe ! d = oe ! d - os ! d + 1" if "d < n" for d
    using that by (simp add: GetOvlpCount_def)
  have has: "os ! d \<le> oe ! d" if "HasOvlp os oe" "d < n" for d
    using that lc by (simp add: HasOvlp_def list_all_upt linorder_not_less)
  have nz: "oe ! d - os ! d + 1 \<noteq> 0" if h: "HasOvlp os oe" and d: "d < n" for d
  proof -
    have "GetOvlpCount n os oe ! d \<noteq> 0"
      using ovlpCount_nonzero[OF inb(2) lc(1) d] h unfolding os_def oe_def by blast
    then show ?thesis by (simp only: cnt[OF d]) simp
  qed
  note ends = count_of_ends[OF has nz]
  show "in_block os (GetOvlpCount n os oe) p \<longleftrightarrow> in_block inStart inCount p \<and> in_block outStart outCount p"
    if h: "HasOvlp os oe"
  proof -
    have "in_block os (GetOvlpCount n os oe) p \<longleftrightarrow> in_box (os, oe) p"
      unfolding in_block_def in_box_def using ends(2)[OF h _ h] lc cnt by auto
    then show ?thesis using box by simp
  qed
  show "\<not> (in_block inStart inCount p \<and> in_block outStart outCount p)" if h: "\<not> HasOvlp os oe"
  proof
    assume "in_block inStart inCount p \<and> in_block outStart outCount p"
    then have "in_box (os, oe) p" using box by simp
    then have "os ! d \<le> oe ! d" if "d < n" for d
      using that lc by (fastforce simp: in_box_def intro: order_trans)
    then show False using h lc by (auto simp: HasOvlp_def list_all_upt linorder_not_less)
  qed
  show "fits os (GetOvlpCount n os oe)" if h: "HasOvlp os oe"
    unfolding fits_def
  proof (intro conjI allI impI)
    fix d assume "d < length os"
    then have d: "d < n" using lc by simp
    have "unat (os ! d) \<le> unat (oe ! d)" using has[OF h d] by (simp add: word_nat)
    then show "unat (os ! d) + unat (GetOvlpCount n os oe ! d) \<le> 18446744073709551616"
      using ends(1)[OF h d h d] cnt[OF d] unat_u64_less[of "oe ! d"] by simp
  qed (use lc in simp)
  show "solid (GetOvlpCount n os oe)" if h: "HasOvlp os oe"
    using nz[OF h] cnt by (auto simp: solid_def in_set_conv_nth word_neq_0_conv[symmetric])
qed


subsection \<open>The copy\<close>

lemma covers_le:
  assumes cov: "covers s c start cnt" and d: "d < length cnt" and fit: "fits start cnt" and "solid cnt"
  shows "cnt ! d \<le> c ! d"
proof -
  let ?p = "map2 (\<lambda>a c. a + c - 1) start cnt"
  have len: "length start = length s" "length c = length s" "length cnt = length s"
    using cov by (simp_all add: covers_def)
  have nz: "0 < cnt ! d" if "d < length s" for d using solidD[OF \<open>solid cnt\<close>] that len by simp
  have e: "start ! d + cnt ! d - 1 - start ! d = cnt ! d - 1" "cnt ! d - 1 < cnt ! d"
    if "d < length s" for d using nz[OF that] by (simp_all add: word_nat unat_minus_one unat_gt_0)
  have "start ! d \<le> start ! d + cnt ! d - 1" if "d < length s" for d
    using last_in_block[OF nz[OF that], of "start ! d" "start ! d"] nz[OF that] fit that len
    by (simp add: fits_def)
  then have "in_block start cnt ?p" "in_block start cnt start"
    using len nz e by (auto simp: in_block_def)
  then have "in_block s c ?p" "in_block s c start" using cov by (simp_all add: covers_def)
  then have "?p ! d - s ! d < c ! d" "s ! d \<le> start ! d" "s ! d \<le> ?p ! d"
    using d len by (auto simp: in_block_def)
  moreover have st: "start ! d \<le> ?p ! d"
    using in_blockD(1)[OF \<open>in_block start cnt ?p\<close>] d len by simp
  moreover have "unat (cnt ! d - 1) = unat (?p ! d) - unat (start ! d)"
    using e(1)[of d] d len unat_diff_le[OF st] by simp
  ultimately have "unat (cnt ! d - 1) < unat (c ! d)"
    by (simp add: word_nat unat_diff_le)
  moreover have "unat (cnt ! d - 1) = unat (cnt ! d) - 1"
    using nz[of d] d len by (intro unat_minus_one) simp
  ultimately show ?thesis using nz[of d] d len by (simp add: word_nat)
qed

lemma nd_moves_shift:
  assumes "off \<le> a"
  shows "set (nd_moves ds (a - off) b) = (\<lambda>(x, y). (x - off, y)) ` set (nd_moves ds a b)"
  using assms by (force simp: set_nd_moves)

lemma dot_zero: "dot (map2 (\<lambda>x y. unat (x - y)) s s) ss = 0" for s :: dims
proof (induction s arbitrary: ss)
  case (Cons x s)
  then show ?case by (cases ss) (simp_all add: dot_def)
qed (simp add: dot_def)

lemma le_mult_size:
  "0 < es \<Longrightarrow> t * es \<le> l \<Longrightarrow> l < 2 ^ 64 \<Longrightarrow> (t :: nat) \<le> 18446744073709551616"
  using order_trans[of t "t * es" l] by simp

lemma NdCopy_row_major:
  fixes typeSize :: u32
  assumes es_def: "es = unat (scast typeSize :: u64)"
    and ims_def: "ims = or_default inMemStart inStart" and imc_def: "imc = or_default inMemCount inCount"
    and oms_def: "oms = or_default outMemStart outStart" and omc_def: "omc = or_default outMemCount outCount"
  assumes rank: "inStart \<noteq> []" "length inStart \<le> 32" "length outStart = length inStart"
    and inb: "fits inStart inCount" "solid inCount"
    and outb: "fits outStart outCount" "solid outCount"
    and mem: "length imc = length inStart" "length ims = length inStart" "fits oms omc"
      "length oms = length inStart"
    and cov: "\<And>p. in_block inStart inCount p \<Longrightarrow> in_block outStart outCount p \<Longrightarrow>
      in_block ims imc p \<and> in_block oms omc p \<and>
      off \<le> row_offset es ims imc p \<and> row_offset es ims imc p + es \<le> off + length inp"
    and es: "0 < es" and sizes: "total imc \<le> 18446744073709551616" "total omc * es \<le> length out"
      "length inp < 2 ^ 64" "length out < 2 ^ 64"
  shows "\<exists>out'. NdCopy inp (- of_nat off) inStart inCount True ile out outStart outCount True ole typeSize
        inMemStart inMemCount outMemStart outMemCount safeMode
      = Some (Inr (if \<exists>p. in_block inStart inCount p \<and> in_block outStart outCount p then 0 else 1, out'))
    \<and> length out' = length out
    \<and> (\<forall>p j. in_block inStart inCount p \<longrightarrow> in_block outStart outCount p \<longrightarrow> j < es \<longrightarrow>
        out' ! (row_offset es oms omc p + j)
          = inp ! (row_offset es ims imc p - off + (if ile = ole then j else es - 1 - j)))
    \<and> (\<forall>k < length out. (\<forall>p. in_block inStart inCount p \<longrightarrow> in_block outStart outCount p \<longrightarrow>
          \<not> (row_offset es oms omc p \<le> k \<and> k < row_offset es oms omc p + es)) \<longrightarrow> out' ! k = out ! k)"
proof -
  let ?n = "length inStart"
  define os where "os = GetOvlpStart ?n inStart outStart"
  define oe where "oe = GetOvlpEnd ?n (GetEnd ?n inStart inCount) (GetEnd ?n outStart outCount)"
  define oc where "oc = GetOvlpCount ?n os oe"
  let ?both = "\<lambda>p. in_block inStart inCount p \<and> in_block outStart outCount p"
  have lens: "length inCount = ?n" "length outCount = ?n" "length omc = ?n"
      "length os = ?n" "length oc = ?n"
    using inb outb mem rank by (simp_all add: fits_def os_def oc_def)
  note pts = ovlp_points[OF rank(3,1) inb outb, folded os_def oe_def, folded oc_def]
  have rks: "\<not> (?n = 0 \<or> ?n > 32 \<or> \<not> list_all (\<lambda>v. length v = ?n)
      [inCount, outStart, outCount, ims, imc, oms, omc])"
    using rank mem lens by simp
  have safe: "NdCopy inp (- of_nat off) inStart inCount True ile out outStart outCount True ole typeSize
        inMemStart inMemCount outMemStart outMemCount safeMode
      = NdCopy inp (- of_nat off) inStart inCount True ile out outStart outCount True ole typeSize
        inMemStart inMemCount outMemStart outMemCount False"
    using safe_mode_runs_the_recursion[OF inb(2)] by (cases safeMode) simp_all
  have E: "(scast typeSize :: u64) = of_nat es" by (simp add: es_def)
  have run: "NdCopy inp (- of_nat off) inStart inCount True ile out outStart outCount True ole typeSize
        inMemStart inMemCount outMemStart outMemCount False
      = (if \<not> HasOvlp os oe then Some (Inr (1, out))
         else NdCopyRowMajor inp (- of_nat off) out ims imc oms omc os oc (ile = ole) (of_nat es) False)"
    using rks unfolding NdCopy_def Let_def
    by (simp only: E simp_thms if_True if_False flip: os_def oe_def oc_def ims_def imc_def oms_def omc_def)
  show ?thesis
  proof (cases "HasOvlp os oe")
    case False
    then have "\<not> ?both p" for p using pts(2) by blast
    then show ?thesis using False run safe by (intro exI[of _ out]) auto
  next
    case True
    have small: "total omc \<le> 18446744073709551616"
      using sizes le_mult_size[OF es] by blast
    have cover: "covers ims imc os oc" "covers oms omc os oc"
      using cov pts(1)[OF True] lens mem rank by (auto simp: covers_def)
    note of = pts(3)[OF True] and os = pts(4)[OF True]
    let ?a = "row_base es ims imc os"
    let ?ms = "nd_moves (row_dims es oc imc omc) (?a - off) (row_base es oms omc os)"
    let ?f = "if ile = ole then id else rev :: bytes \<Rightarrow> bytes"
    have corner: "in_block os oc os" using solidD[OF os] lens by (simp add: in_block_def)
    have off: "off \<le> ?a"
    proof -
      have "row_offset es ims imc os = ?a"
        using covers_offset[OF cover(1) corner os sizes(1), of es] by (simp add: rel_coords_def dot_zero)
      then show ?thesis using cov[of os] pts(1)[OF True, of os] corner by simp
    qed
    have ms: "set ?ms = (\<lambda>p. (row_offset es ims imc p - off, row_offset es oms omc p)) ` {p. in_block os oc p}"
      unfolding nd_moves_shift[OF off] row_moves_points[OF cover of os sizes(1) small] by force
    have blk: "in_block oms omc p" "off \<le> row_offset es ims imc p"
      "row_offset es ims imc p + es \<le> off + length inp" "in_block ims imc p" if "in_block os oc p" for p
      using cov pts(1)[OF True] that by auto
    have fit: "moves_fit es (length inp) (length out) ?ms"
      using row_offset_bound[OF _ mem(3) sizes(2) small] blk by (fastforce simp: moves_fit_def ms)
    have apart: "apart es ?ms"
      using row_offset_apart[OF _ _ mem(3) small, of _ _ es] blk(1) unfolding apart_def ms by blast
    have fl: "length (?f xs) = length xs" for xs by simp
    let ?out' = "fold (put_elm ?f inp es) ?ms out"
    have "NdCopyRowMajor inp (- of_nat off) out ims imc oms omc os oc (ile = ole) (of_nat es) False
      = Some (Inr (0, ?out'))"
    proof (rule NdCopyRowMajor_moves)
      show "(of_nat es :: u64) \<noteq> 0" using es by (simp add: es_def unat_gt_0)
      show "oc ! d \<le> imc ! d" "oc ! d \<le> omc ! d" "oc ! d \<noteq> 0" if "d < length oc" for d
        using covers_le[OF cover(1) that of os] covers_le[OF cover(2) that of os] solidD[OF os that]
        by simp_all
      show "- of_nat off + of_nat ?a = (of_nat (?a - off) :: u64)" using off by (simp add: of_nat_diff)
    qed (use lens mem rank es fit sizes in \<open>auto\<close>)
    moreover have "length ?out' = length out" using fit by simp
    moreover obtain p0 where "?both p0"
      using that corner pts(1)[OF True] by blast
    moreover have "?out' ! (row_offset es oms omc p + j)
          = inp ! (row_offset es ims imc p - off + (if ile = ole then j else es - 1 - j))"
      if p: "?both p" and j: "j < es" for p j
    proof -
      have b: "in_block os oc p" using pts(1)[OF True] p by simp
      have e: "row_offset es ims imc p - off + es \<le> length inp" using blk(2,3)[OF b] by simp
      have "?out' ! (row_offset es oms omc p + j)
          = ?f (take es (drop (row_offset es ims imc p - off) inp)) ! j"
        using b by (intro fold_put_there[OF fl fit apart _ j]) (auto simp: ms)
      then show ?thesis using e j by (auto simp: rev_nth)
    qed
    moreover have "?out' ! k = out ! k"
      if "k < length out" "\<forall>p. in_block inStart inCount p \<longrightarrow> in_block outStart outCount p \<longrightarrow>
          \<not> (row_offset es oms omc p \<le> k \<and> k < row_offset es oms omc p + es)" for k
      using that pts(1)[OF True] by (intro fold_put_elsewhere[OF fl fit]) (auto simp: ms)
    ultimately show ?thesis
      using True run safe by (intro exI[of _ ?out']) auto
  qed
qed

subsection \<open>Properties\<close>

text \<open>
  C34: between two row-major buffers \<open>NdCopy\<close> copies the overlap of the two blocks and nothing else.
  Byte \<open>j\<close> of every point of the overlap arrives at that point's place in the output buffer, in the
  order of the bytes the receiver needs, and every byte that belongs to no such point is left as it
  was. The places are those of \<open>LinearIndexWithStartCount\<close> in the memory blocks; of the input only
  the part from offset \<open>off\<close> that holds the overlap has to be there. The result tells whether there
  is an overlap at all. This holds for every rank the arrays can hold, in both modes and for equal
  and different endianness.
\<close>

theorem NdCopy_copies_the_overlap:
  fixes typeSize :: u32
  assumes "es = unat (scast typeSize :: u64)"
    and "ims = or_default inMemStart inStart" "imc = or_default inMemCount inCount"
      "oms = or_default outMemStart outStart" "omc = or_default outMemCount outCount"
    and "inStart \<noteq> []" "length inStart \<le> 32" "length outStart = length inStart"
    and "fits inStart inCount" "solid inCount" "fits outStart outCount" "solid outCount"
    and "length imc = length inStart" "length ims = length inStart" "fits oms omc"
      "length oms = length inStart"
    and "\<And>p. in_block inStart inCount p \<Longrightarrow> in_block outStart outCount p \<Longrightarrow>
      in_block ims imc p \<and> in_block oms omc p \<and>
      off \<le> row_offset es ims imc p \<and> row_offset es ims imc p + es \<le> off + length inp"
    and "0 < es" "total imc \<le> 18446744073709551616" "total omc * es \<le> length out"
      "length inp < 2 ^ 64" "length out < 2 ^ 64"
  shows "\<exists>out'. NdCopy inp (- of_nat off) inStart inCount True ile out outStart outCount True ole typeSize
        inMemStart inMemCount outMemStart outMemCount safeMode
      = Some (Inr (if \<exists>p. in_block inStart inCount p \<and> in_block outStart outCount p then 0 else 1, out'))
    \<and> length out' = length out
    \<and> (\<forall>p j. in_block inStart inCount p \<longrightarrow> in_block outStart outCount p \<longrightarrow> j < es \<longrightarrow>
        out' ! (row_offset es oms omc p + j)
          = inp ! (row_offset es ims imc p - off + (if ile = ole then j else es - 1 - j)))
    \<and> (\<forall>k < length out. (\<forall>p. in_block inStart inCount p \<longrightarrow> in_block outStart outCount p \<longrightarrow>
          \<not> (row_offset es oms omc p \<le> k \<and> k < row_offset es oms omc p + es)) \<longrightarrow> out' ! k = out ! k)"
  using assms(17)
  by (intro NdCopy_row_major[OF assms(1-5) assms(6-8) assms(9,10) assms(11,12) assms(13-16) _
        assms(18) assms(19-22)]) blast

theorem NdCopy_copies_the_overlap_witness:
  "\<exists>out'. NdCopy [5, 6] (- of_nat 4) [0, 0] [2, 3] True True [7, 8] [1, 1] [1, 2] True True 1
      [] [] [] [] False = Some (Inr (0, out')) \<and> length out' = 2 \<and> out' ! 0 = 5 \<and> out' ! 1 = 6"
proof -
  have only: "p = [1, 1] \<or> p = [1, 2]" if p: "in_block [1, 1] [1, 2] p" for p :: dims
  proof -
    obtain x y where xy: "p = [x, y]" using in_blockD(3)[OF p] by (auto simp: length_Suc_conv)
    have "x - 1 < 1" "y - 1 < 2" using p by (simp_all add: xy in_block_Cons)
    then have "x - 1 = 0" "y - 1 = 0 \<or> y - 1 = 1" by (auto simp: word_nat word_unat_eq_iff less_Suc_eq)
    then show ?thesis by (auto simp: xy eq_diff_eq diff_eq_eq)
  qed
  have b: "in_block [0, 0] [2, 3] [1, 1]" "in_block [0, 0] [2, 3] [1, 2]"
    "in_block [1, 1] [1, 2] [1, 1]" "in_block [1, 1] [1, 2] [1, 2]"
    by (simp_all add: in_block_def less_Suc_eq)
  then have ex: "\<exists>p. in_block [0, 0] [2, 3] p \<and> in_block [1, 1] [1, 2] p" by blast
  have off: "row_offset 1 [0, 0] [2, 3] [1, 1] = 4" "row_offset 1 [0, 0] [2, 3] [1, 2] = 5"
    "row_offset 1 [1, 1] [1, 2] [1, 1] = 0" "row_offset 1 [1, 1] [1, 2] [1, 2] = 1"
    by (simp_all add: row_offset_def LinearIndexWithStartCount_def)
  have cov: "in_block [0, 0] [2, 3] p \<and> in_block [1, 1] [1, 2] p \<and>
      4 \<le> row_offset 1 [0, 0] [2, 3] p \<and> row_offset 1 [0, 0] [2, 3] p + 1 \<le> 4 + length [5 :: u8, 6]"
    if "in_block [0, 0] [2, 3] p" "in_block [1, 1] [1, 2] p" for p
    using only[OF that(2)] that off by auto
  obtain out' where o: "NdCopy [5, 6] (- of_nat 4) [0, 0] [2, 3] True True [7, 8] [1, 1] [1, 2] True True 1
      [] [] [] [] False = Some (Inr (if \<exists>p. in_block [0, 0] [2, 3] p \<and> in_block [1, 1] [1, 2] p then 0 else 1, out'))"
    "length out' = length [7 :: u8, 8]"
    "\<forall>p j. in_block [0, 0] [2, 3] p \<longrightarrow> in_block [1, 1] [1, 2] p \<longrightarrow> j < 1 \<longrightarrow>
      out' ! (row_offset 1 [1, 1] [1, 2] p + j)
        = [5, 6] ! (row_offset 1 [0, 0] [2, 3] p - 4 + (if True = True then j else 1 - 1 - j))"
  proof -
    have "total [2, 3] \<le> 18446744073709551616" "total [1, 2] * 1 \<le> length [7 :: u8, 8]"
      "fits [0, 0] [2, 3]" "solid [2, 3]" "fits [1, 1] [1, 2]" "solid [1, 2]"
      by (simp_all add: total_def fits_def solid_def less_Suc_eq)
    note T = NdCopy_copies_the_overlap[of 1 1 "[0, 0]" "[]" "[0, 0]" "[2, 3]" "[]" "[2, 3]" "[1, 1]" "[]"
        "[1, 1]" "[1, 2]" "[]" "[1, 2]" 4 "[5, 6]" "[7, 8]" True True False,
        OF _ _ _ _ _ _ _ _ this(3-6) _ _ this(5) _ cov _ this(1,2)]
    show ?thesis using that T by (simp add: or_default_def) blast
  qed
  then show ?thesis
    using o(3)[rule_format, OF b(1,3), of 0] o(3)[rule_format, OF b(2,4), of 0] ex off
    by (intro exI[of _ out']) simp
qed

text \<open>
  C35: the safe mode of \<open>NdCopy\<close>, the loops with an explicit position array, returns, and does what
  the recursion does: same result, same bytes, same errors. This holds in all four storage orders,
  for any buffers and memory blocks, as long as the input block is not empty.
\<close>

theorem safe_mode_is_equivalent:
  assumes "solid inCount"
  shows "NdCopy inp inBase inStart inCount inIsRowMajor inIsLittleEndian out outStart outCount
      outIsRowMajor outIsLittleEndian typeSize inMemStart inMemCount outMemStart outMemCount True =
    NdCopy inp inBase inStart inCount inIsRowMajor inIsLittleEndian out outStart outCount
      outIsRowMajor outIsLittleEndian typeSize inMemStart inMemCount outMemStart outMemCount False"
  by (rule safe_mode_runs_the_recursion[OF assms])

theorem safe_mode_is_equivalent_witness:
  "NdCopy [1, 2, 3, 4] 0 [0, 0] [2, 2] True True [5, 6] [0, 1] [2, 1] False True 1 [] [] [] [] True =
   NdCopy [1, 2, 3, 4] 0 [0, 0] [2, 2] True True [5, 6] [0, 1] [2, 1] False True 1 [] [] [] [] False"
  using safe_mode_is_equivalent[of "[2, 2]"] by (simp add: solid_def)


end
