(* ===== verification/Adios_Bp5Get.thy ===== *)
theory Adios_Bp5Get
  imports Adios_NdCopyRow Adios_Types
begin

section \<open>Reads of the BP5 format\<close>

text \<open>
  The read path of \<open>BP5Deserializer\<close> (source/adios2/toolkit/format/bp5/BP5Deserializer.cpp): from
  the queued requests \<open>GenerateReadRequests\<close> computes which bytes of which writer's data are needed,
  the engine reads them (\<open>BP5Reader::PerformLocalGets\<close>, one thread), and \<open>FinalizeGet\<close> moves them to
  the memory of the application with \<open>NdCopy\<close>.

  The metadata of an array, decoded by the FFS library, is the value of the function \<open>MetadataBase\<close>
  of the step and the rank of the writer, \<open>None\<close> where the variable was not written; the decompressor
  and the read of the data file are parameters. Requests for derived variables take other branches
  and are left out.
\<close>

text \<open>
  \<open>MetaArrayRecOperator\<close>: the counts and offsets of the blocks one after the other, \<open>Offsets\<close> null
  for local arrays. \<open>BP5VarRec\<close> (\<open>VB_ElementSize\<close> is \<open>m_ElementSize\<close> of the variable object).
\<close>

record meta_array =
  BlockCount :: u64
  Count :: dims
  Offsets :: "dims option"
  DataBlockLocation :: dims
  DataBlockSize :: dims

record var_rec =
  DimCount :: nat
  VarType :: DataType
  ElementSize :: u32
  VB_ElementSize :: u64
  HasOperator :: bool
  MetadataBase :: "nat \<Rightarrow> nat \<Rightarrow> meta_array option"

datatype request_type = Global | Local

record array_request =
  VarRec :: var_rec
  RequestType :: request_type
  ReqStep :: nat
  ReqBlockID :: u64
  ReqStart :: dims
  ReqCount :: dims
  MemoryStart :: dims
  MemoryCount :: dims
  HostMemory :: bool

text \<open>
  \<open>ReadRequest\<close>. The address of the destination is an offset in the application's memory when the
  read goes there directly; otherwise it is a temporary buffer.
\<close>

record read_request =
  Timestep :: nat
  WriterRank :: nat
  StartOffset :: u64
  ReadLength :: u64
  DestinationAddr :: u64
  DirectToAppMemory :: bool
  ReqIndex :: nat
  OffsetInBlock :: u64
  BlockID :: u64

text \<open>The members of the deserializer that the reads use.\<close>

record deserializer =
  ReaderIsRowMajor :: bool
  SourceIsLittleEndian :: bool
  ReaderIsLittleEndian :: bool
  FlattenSteps :: bool
  ControlArraySize :: nat
  WriterCohortSize :: "nat \<Rightarrow> nat"

definition noData :: u64 where
  "noData = - 1"

subsection \<open>Helpers of the file\<close>

definition BP5_IntersectionStartCount ::
  "nat \<Rightarrow> dims \<Rightarrow> dims \<Rightarrow> dims \<Rightarrow> dims \<Rightarrow> (dims \<times> dims) option" where
  "BP5_IntersectionStartCount n start1 count1 start2 count2 =
    (let end1 = (\<lambda>d. start1 ! d + count1 ! d - 1);
         end2 = (\<lambda>d. start2 ! d + count2 ! d - 1);
         s = (\<lambda>d. if start1 ! d < start2 ! d then start2 ! d else start1 ! d);
         e = (\<lambda>d. if end1 d > end2 d then end2 d else end1 d)
     in if list_ex (\<lambda>d. count1 ! d = 0 \<or> count2 ! d = 0 \<or> start2 ! d > end1 d \<or> end2 d < start1 ! d)
             [0..<n] then None
        else if list_ex (\<lambda>d. e d - s d + 1 = 0) [0..<n] then None
        else Some (map s [0..<n], map (\<lambda>d. e d - s d + 1) [0..<n]))"

definition BP5_LinearIndex :: "nat \<Rightarrow> dims \<Rightarrow> dims \<Rightarrow> bool \<Rightarrow> u64" where
  "BP5_LinearIndex n count pos IsRowMajor =
    fold (\<lambda>d offset. offset * count ! d + pos ! d) (if IsRowMajor then [0..<n] else rev [0..<n]) 0"

definition CalcBlockLength :: "nat \<Rightarrow> dims \<Rightarrow> u64" where
  "CalcBlockLength n count = fold (\<lambda>d len. len * count ! d) [1..<n] (count ! 0)"

definition IsContiguousTransfer :: "array_request \<Rightarrow> bool" where
  "IsContiguousTransfer Req \<longleftrightarrow> DimCount (VarRec Req) = 1"

text \<open>Whether the data may be read right into the application's memory.\<close>

definition direct_ok :: "deserializer \<Rightarrow> array_request \<Rightarrow> bool" where
  "direct_ok ds Req \<longleftrightarrow> HostMemory Req \<and> SourceIsLittleEndian ds = ReaderIsLittleEndian ds \<and>
    IsContiguousTransfer Req"

definition block_dims :: "var_rec \<Rightarrow> u64 \<Rightarrow> dims \<Rightarrow> dims" where
  "block_dims v block xs = take (DimCount v) (drop (unat block * DimCount v) xs)"

subsection \<open>GenerateReadRequests\<close>

text \<open>A block read: the block with number \<open>BlockID\<close> over all ranks of the step.\<close>

definition local_request ::
  "deserializer \<Rightarrow> array_request \<Rightarrow> nat \<Rightarrow> nat \<Rightarrow> meta_array \<Rightarrow> u64 \<Rightarrow> read_request result" where
  "local_request ds Req reqIndex rank meta NeededBlock =
    (let v = VarRec Req;
         loc = DataBlockLocation meta ! unat NeededBlock;
         typeSize = of_nat (GetDataTypeSize (VarType v)) :: u64;
         direct = (direct_ok ds Req \<and> \<not> HasOperator v);
         len = (if HasOperator v then DataBlockSize meta ! unat NeededBlock
                else typeSize * CalcBlockLength (DimCount v) (block_dims v NeededBlock (Count meta)));
         sub = (direct \<and> ReqStart Req \<noteq> [])
     in if loc = noData then Inl RuntimeError
        else Inr \<lparr> Timestep = ReqStep Req, WriterRank = rank,
               StartOffset = (if sub then loc + typeSize * (ReqStart Req ! 0) else loc),
               ReadLength = (if sub then typeSize * CalcBlockLength (DimCount v) (ReqCount Req) else len),
               DestinationAddr = 0, DirectToAppMemory = direct, ReqIndex = reqIndex,
               OffsetInBlock = 0, BlockID = NeededBlock \<rparr>)"

fun local_ranks ::
  "deserializer \<Rightarrow> array_request \<Rightarrow> nat \<Rightarrow> nat \<Rightarrow> nat list \<Rightarrow> u64 \<Rightarrow> (u64 \<times> read_request list) result" where
  "local_ranks ds Req reqIndex step [] NodeFirstBlock = Inr (NodeFirstBlock, [])"
| "local_ranks ds Req reqIndex step (rank # ranks) NodeFirstBlock =
    (case MetadataBase (VarRec Req) step rank of
       None \<Rightarrow> local_ranks ds Req reqIndex step ranks NodeFirstBlock
     | Some meta \<Rightarrow>
         if BlockCount meta = 0 then local_ranks ds Req reqIndex step ranks NodeFirstBlock
         else if NodeFirstBlock \<le> ReqBlockID Req \<and>
                 NodeFirstBlock + BlockCount meta - 1 \<ge> ReqBlockID Req then
           bindR (local_request ds Req reqIndex rank meta (ReqBlockID Req - NodeFirstBlock))
             (\<lambda>rr. Inr (NodeFirstBlock, [rr]))
         else local_ranks ds Req reqIndex step ranks (NodeFirstBlock + BlockCount meta))"

fun local_steps ::
  "deserializer \<Rightarrow> array_request \<Rightarrow> nat \<Rightarrow> nat list \<Rightarrow> u64 \<Rightarrow> read_request list result" where
  "local_steps ds Req reqIndex [] NodeFirstBlock = Inr []"
| "local_steps ds Req reqIndex (step # steps) NodeFirstBlock =
    bindR (local_ranks ds Req reqIndex step [0..<WriterCohortSize ds step] NodeFirstBlock)
      (\<lambda>(NodeFirstBlock, rrs). bindR (local_steps ds Req reqIndex steps NodeFirstBlock)
        (\<lambda>rest. Inr (rrs @ rest)))"

text \<open>A selection of the global array: one block of one writer.\<close>

definition global_request ::
  "deserializer \<Rightarrow> array_request \<Rightarrow> nat \<Rightarrow> nat \<Rightarrow> nat \<Rightarrow> meta_array \<Rightarrow> u64 \<Rightarrow> read_request list result"
  where
  "global_request ds Req reqIndex step rank meta Block =
    (let v = VarRec Req; n = DimCount v;
         blkOffsets = block_dims v Block (case Offsets meta of Some os \<Rightarrow> os | None \<Rightarrow> []);
         blkCount = block_dims v Block (Count meta);
         loc = DataBlockLocation meta ! unat Block
     in if Offsets meta = None \<and> 0 < n then Inl UndefinedBehaviour
        else case BP5_IntersectionStartCount n (ReqStart Req) (ReqCount Req) blkOffsets blkCount of
          None \<Rightarrow> Inr []
        | Some (istart, icount) \<Rightarrow>
            if HasOperator v then
              (if loc = noData then Inl RuntimeError
               else Inr [\<lparr> Timestep = step, WriterRank = rank, StartOffset = loc,
                      ReadLength = DataBlockSize meta ! unat Block, DestinationAddr = 0,
                      DirectToAppMemory = False, ReqIndex = reqIndex, OffsetInBlock = 0,
                      BlockID = Block \<rparr>])
            else
              (let rel = map (\<lambda>d. istart ! d - blkOffsets ! d) [0..<n];
                   StartOffsetInBlock =
                     VB_ElementSize v * BP5_LinearIndex n blkCount rel (ReaderIsRowMajor ds);
                   relEnd = map (\<lambda>d. rel ! d + icount ! d - 1) [0..<n];
                   EndOffsetInBlock =
                     VB_ElementSize v * (BP5_LinearIndex n blkCount relEnd (ReaderIsRowMajor ds) + 1);
                   direct = direct_ok ds Req;
                   ContigOffset = (blkOffsets ! 0 - ReqStart Req ! 0) * VB_ElementSize v
               in if loc = noData then Inl RuntimeError
                  else Inr [\<lparr> Timestep = step, WriterRank = rank,
                         StartOffset = loc + StartOffsetInBlock,
                         ReadLength = EndOffsetInBlock - StartOffsetInBlock,
                         DestinationAddr = (if direct then (if ContigOffset <s 0 then 0 else ContigOffset) else 0),
                         DirectToAppMemory = direct, ReqIndex = reqIndex,
                         OffsetInBlock = StartOffsetInBlock, BlockID = Block \<rparr>]))"

fun concatR :: "('a \<Rightarrow> 'b list result) \<Rightarrow> 'a list \<Rightarrow> 'b list result" where
  "concatR f [] = Inr []"
| "concatR f (x # xs) = bindR (f x) (\<lambda>ys. bindR (concatR f xs) (\<lambda>zs. Inr (ys @ zs)))"

definition global_rank ::
  "deserializer \<Rightarrow> array_request \<Rightarrow> nat \<Rightarrow> nat \<Rightarrow> nat \<Rightarrow> read_request list result" where
  "global_rank ds Req reqIndex step rank =
    (case MetadataBase (VarRec Req) step rank of
       None \<Rightarrow> Inr []
     | Some meta \<Rightarrow> concatR (\<lambda>b. global_request ds Req reqIndex step rank meta (of_nat b))
                        [0..<unat (BlockCount meta)])"

definition generate_one :: "deserializer \<Rightarrow> nat \<Rightarrow> array_request \<Rightarrow> read_request list result" where
  "generate_one ds reqIndex Req =
    (let steps = (if FlattenSteps ds then [0..<ControlArraySize ds] else [ReqStep Req])
     in case RequestType Req of
          Local \<Rightarrow> local_steps ds Req reqIndex steps 0
        | Global \<Rightarrow> concatR (\<lambda>step. concatR (global_rank ds Req reqIndex step)
                                [0..<WriterCohortSize ds step]) steps)"

definition GenerateReadRequests :: "deserializer \<Rightarrow> array_request list \<Rightarrow> read_request list result" where
  "GenerateReadRequests ds reqs =
    concatR (\<lambda>i. generate_one ds i (reqs ! i)) [0..<length reqs]"

subsection \<open>FinalizeGet\<close>

definition complex_type :: "DataType \<Rightarrow> bool" where
  "complex_type t \<longleftrightarrow> t = DT_FloatComplex \<or> t = DT_DoubleComplex"

text \<open>
  The dimensions as \<open>NdCopy\<close> gets them: reversed for a column-major reader, and with the fastest
  dimension doubled when the halves of complex numbers are swapped one by one.
\<close>

definition major_order :: "deserializer \<Rightarrow> dims \<Rightarrow> dims" where
  "major_order ds xs = (if ReaderIsRowMajor ds then xs else rev xs)"

definition double_last :: "bool \<Rightarrow> dims \<Rightarrow> dims" where
  "double_last split xs =
    (if split \<and> xs \<noteq> [] then xs[length xs - 1 := xs ! (length xs - 1) * 2] else xs)"

definition FinalizeGet ::
  "(bytes \<Rightarrow> nat \<Rightarrow> bytes result) \<Rightarrow> deserializer \<Rightarrow> array_request list \<Rightarrow> read_request \<Rightarrow> bytes \<Rightarrow> bytes \<Rightarrow>
   bytes result" where
  "FinalizeGet decompress ds reqs Read IncomingData AppData =
    (let Req = reqs ! ReqIndex Read; v = VarRec Req; n = DimCount v
     in if DirectToAppMemory Read then Inr AppData
        else case MetadataBase v (Timestep Read) (WriterRank Read) of
          None \<Rightarrow> Inl UndefinedBehaviour
        | Some meta \<Rightarrow>
            (let RankOffset = (case Offsets meta of Some os \<Rightarrow> block_dims v (BlockID Read) os | None \<Rightarrow> []);
                 RankSize = block_dims v (BlockID Read) (Count meta);
                 incoming =
                   (if HasOperator v then
                      bindR (decompress IncomingData
                               (unat (fold (\<lambda>d x. x * RankSize ! d) [0..<n] (scast (ElementSize v) :: u64))))
                        (\<lambda>buf. Inr (buf, 0, 0))
                    else Inr (IncomingData, 0, - OffsetInBlock Read));
                 SelSize = (if ReqCount Req \<noteq> [] then ReqCount Req
                            else if RequestType Req = Local then RankSize else []);
                 SelOffset = (if ReqStart Req \<noteq> [] then ReqStart Req
                              else if RequestType Req = Local then replicate n 0 else []);
                 split = (complex_type (VarType v) \<and> SourceIsLittleEndian ds \<noteq> ReaderIsLittleEndian ds);
                 dims = (\<lambda>xs. double_last split (major_order ds xs));
                 inStart = dims (if RequestType Req = Local then replicate n 0 else RankOffset);
                 inCount = dims RankSize;
                 outStart = dims (take n SelOffset);
                 outCount = dims (take n SelSize);
                 outMemStart = dims (MemoryStart Req);
                 outMemCount = dims (MemoryCount Req);
                 elmSize = (if split then ElementSize v div 2 else ElementSize v);
                 ret = (\<lambda>r. case r of None \<Rightarrow> Inl UndefinedBehaviour
                              | Some r \<Rightarrow> bindR r (\<lambda>(_, out). Inr out))
             in if MemoryStart Req \<noteq> [] then
                  (let selectionBox = StartEndBox outStart outCount False;
                       BlockBox = StartEndBox inStart inCount False;
                       inter = IntersectionBox selectionBox BlockBox;
                       intersectCount = map2 (\<lambda>e s. e - (s - 1)) (snd inter) (fst inter);
                       blockCount = map2 (\<lambda>e s. e - (s - 1)) (snd BlockBox) (fst BlockBox);
                       intersectStart = map2 (+) (fst inter) outMemStart
                   in bindR incoming (\<lambda>(buf, data, _).
                        ret (NdCopy buf data intersectStart intersectCount True (SourceIsLittleEndian ds)
                               AppData intersectStart intersectCount True (ReaderIsLittleEndian ds) elmSize
                               intersectStart blockCount outStart outMemCount False)))
                else
                  bindR incoming (\<lambda>(buf, _, virtual).
                    ret (NdCopy buf virtual inStart inCount True (SourceIsLittleEndian ds)
                           AppData outStart outCount True (ReaderIsLittleEndian ds) elmSize
                           [] [] [] [] False))))"

subsection \<open>PerformLocalGets\<close>

text \<open>
  The engine, on one thread: each piece is read into the application's memory or into the temporary
  buffer, and finalized before the next one. \<open>read step rank offset len\<close> are the bytes of the data
  file. The memory of the application is one buffer per request.
\<close>

definition perform_app ::
  "(nat \<Rightarrow> nat \<Rightarrow> u64 \<Rightarrow> u64 \<Rightarrow> bytes result) \<Rightarrow> (bytes \<Rightarrow> nat \<Rightarrow> bytes result) \<Rightarrow> deserializer \<Rightarrow>
   array_request list \<Rightarrow> read_request \<Rightarrow> bytes \<Rightarrow> bytes result" where
  "perform_app read decompress ds reqs Req app =
    bindR (read (Timestep Req) (WriterRank Req) (StartOffset Req) (ReadLength Req)) (\<lambda>bs.
    bindR (if DirectToAppMemory Req then memcpy app (DestinationAddr Req) bs 0 (ReadLength Req)
           else Inr app)
      (FinalizeGet decompress ds reqs Req bs))"

definition perform_one ::
  "(nat \<Rightarrow> nat \<Rightarrow> u64 \<Rightarrow> u64 \<Rightarrow> bytes result) \<Rightarrow> (bytes \<Rightarrow> nat \<Rightarrow> bytes result) \<Rightarrow> deserializer \<Rightarrow>
   array_request list \<Rightarrow> read_request \<Rightarrow> bytes list \<Rightarrow> bytes list result" where
  "perform_one read decompress ds reqs Req bufs =
    bindR (perform_app read decompress ds reqs Req (bufs ! ReqIndex Req))
      (\<lambda>app. Inr (bufs[ReqIndex Req := app]))"

definition PerformLocalGets ::
  "(nat \<Rightarrow> nat \<Rightarrow> u64 \<Rightarrow> u64 \<Rightarrow> bytes result) \<Rightarrow> (bytes \<Rightarrow> nat \<Rightarrow> bytes result) \<Rightarrow> deserializer \<Rightarrow>
   array_request list \<Rightarrow> bytes list \<Rightarrow> bytes list result" where
  "PerformLocalGets read decompress ds reqs bufs =
    bindR (GenerateReadRequests ds reqs) (\<lambda>rrs. foldR (perform_one read decompress ds reqs) rrs bufs)"

end
