(* ===== verification/Adios_Bp5GetCorrect.thy ===== *)
theory Adios_Bp5GetCorrect
  imports Adios_Bp5Get
begin

section \<open>BP5 reads deliver the selection\<close>

text \<open>
  What a read of a selection of a global array leaves in the memory of the application: each point of
  the selection gets the bytes of the last block that holds it. One block is \<open>copied\<close>; the blocks of
  all ranks and all requests are put together from that.
\<close>

subsection \<open>The intersection\<close>

lemma ends_of_block:
  assumes "unat s + unat c \<le> 18446744073709551616" "(c :: u64) \<noteq> 0"
  shows "s \<le> s + c - 1"
proof -
  have "0 < c" using assms(2) by (simp add: word_neq_0_conv)
  then show ?thesis using last_in_block[of c s s] assms(1) by simp
qed

lemma has_dim:
  "a \<le> ea \<Longrightarrow> b \<le> eb \<Longrightarrow> (if a < b then b else a) \<le> (if ea > eb then eb else ea)
    \<longleftrightarrow> b \<le> ea \<and> a \<le> (eb :: 'a::linorder)"
  by auto

lemma BP5_IntersectionStartCount_ovlp:
  assumes len: "length ss = n" "length sc = n" "length bs = n" "length bc = n"
    and fits: "fits ss sc" "fits bs bc"
  defines "os \<equiv> GetOvlpStart n ss bs"
  defines "oe \<equiv> GetOvlpEnd n (GetEnd n ss sc) (GetEnd n bs bc)"
  shows "BP5_IntersectionStartCount n ss sc bs bc =
    (if solid sc \<and> solid bc \<and> HasOvlp os oe then Some (os, GetOvlpCount n os oe) else None)"
proof -
  have nz: "solid c \<longleftrightarrow> (\<forall>d<n. c ! d \<noteq> 0)" if "length c = n" for c
    using that by (auto simp: solid_def in_set_conv_nth word_neq_0_conv)
  have os: "os ! d = (if ss ! d < bs ! d then bs ! d else ss ! d)" if "d < n" for d
    using that by (auto simp: os_def GetOvlpStart_def)
  have oe: "oe ! d = (if ss ! d + sc ! d - 1 > bs ! d + bc ! d - 1 then bs ! d + bc ! d - 1
      else ss ! d + sc ! d - 1)" if "d < n" for d
    using that by (auto simp: oe_def GetOvlpEnd_def GetEnd_def)
  have le: "ss ! d \<le> ss ! d + sc ! d - 1" "bs ! d \<le> bs ! d + bc ! d - 1"
    if "solid sc" "solid bc" "d < n" for d
    using that fits len nz by (auto simp: fits_def intro!: ends_of_block)
  have los: "length os = n" "length oe = n" by (simp_all add: os_def oe_def)
  have hle: "HasOvlp os oe \<longleftrightarrow> (\<forall>d<n. os ! d \<le> oe ! d)"
    by (simp add: HasOvlp_def list_all_upt los linorder_not_less)
  have cnt: "oe ! d - os ! d + 1 \<noteq> 0" if "solid sc" "HasOvlp os oe" "d < n" for d
    using ovlpCount_nonzero[of sc n d ss bs "GetEnd n bs bc"] that len(2)
    by (simp add: GetOvlpCount_def flip: os_def oe_def)
  let ?sep = "\<lambda>d. bs ! d > ss ! d + sc ! d - 1 \<or> bs ! d + bc ! d - 1 < ss ! d"
  have res: "map (\<lambda>d. if ss ! d < bs ! d then bs ! d else ss ! d) [0..<n] = os"
    "map (\<lambda>d. (if ss ! d + sc ! d - 1 > bs ! d + bc ! d - 1 then bs ! d + bc ! d - 1
      else ss ! d + sc ! d - 1) - (if ss ! d < bs ! d then bs ! d else ss ! d) + 1) [0..<n]
      = GetOvlpCount n os oe"
  proof -
    show "map (\<lambda>d. if ss ! d < bs ! d then bs ! d else ss ! d) [0..<n] = os"
      by (rule nth_equalityI) (simp_all add: los os)
    show "map (\<lambda>d. (if ss ! d + sc ! d - 1 > bs ! d + bc ! d - 1 then bs ! d + bc ! d - 1
        else ss ! d + sc ! d - 1) - (if ss ! d < bs ! d then bs ! d else ss ! d) + 1) [0..<n]
        = GetOvlpCount n os oe"
      unfolding GetOvlpCount_def map_eq_conv
    proof
      fix d assume "d \<in> set [0..<n]"
      then have d: "d < n" by simp
      show "(if ss ! d + sc ! d - 1 > bs ! d + bc ! d - 1 then bs ! d + bc ! d - 1
          else ss ! d + sc ! d - 1) - (if ss ! d < bs ! d then bs ! d else ss ! d) + 1
          = oe ! d - os ! d + 1"
        by (subst os[OF d], subst oe[OF d]) (rule refl)
    qed
  qed
  consider "\<not> (solid sc \<and> solid bc)" | "solid sc" "solid bc" "HasOvlp os oe"
    | "solid sc" "solid bc" "\<not> HasOvlp os oe" by argo
  then show ?thesis
  proof cases
    case 1
    then obtain d where d: "d < n" "sc ! d = 0 \<or> bc ! d = 0"
      using nz[OF len(2)] nz[OF len(4)] by blast
    have "BP5_IntersectionStartCount n ss sc bs bc = None"
      unfolding BP5_IntersectionStartCount_def Let_def list_ex_upt
      by (rule if_P) (use d in blast)
    with 1 show ?thesis by (simp only: simp_thms if_False split: if_split) blast
  next
    case 2
    have sep: "\<not> ?sep d" if "d < n" for d
    proof -
      have "os ! d \<le> oe ! d" using hle 2(3) that by blast
      then show ?thesis
        unfolding os[OF that] oe[OF that] has_dim[OF le[OF 2(1,2) that]] by (simp add: linorder_not_less)
    qed
    have z: "sc ! d \<noteq> 0 \<and> bc ! d \<noteq> 0" if "d < n" for d
      using 2 nz len that by blast
    have e: "oe ! d - os ! d + 1 \<noteq> 0" if "d < n" for d
      using cnt[OF 2(1,3) that] .
    have "BP5_IntersectionStartCount n ss sc bs bc = Some (os, GetOvlpCount n os oe)"
      unfolding BP5_IntersectionStartCount_def Let_def list_ex_upt res
      using sep z e unfolding os oe by (auto simp: os[symmetric] oe[symmetric])
    with 2 show ?thesis by simp
  next
    case 3
    then obtain d where d: "d < n" "\<not> os ! d \<le> oe ! d" using hle by blast
    then have "?sep d" using has_dim[OF le[OF 3(1,2) d(1)]] os[OF d(1)] oe[OF d(1)] by auto
    then have "BP5_IntersectionStartCount n ss sc bs bc = None"
      unfolding BP5_IntersectionStartCount_def Let_def list_ex_upt
      by (intro if_P) (use d in blast)
    with 3 show ?thesis by simp
  qed
qed


subsection \<open>Places of points\<close>

text \<open>The byte offset of a point of a block in memory, in the storage order of the reader.\<close>

definition place :: "deserializer \<Rightarrow> nat \<Rightarrow> dims \<Rightarrow> dims \<Rightarrow> dims \<Rightarrow> nat" where
  "place ds es s c p = unat (LinearIndexWithStartCount s c p (ReaderIsRowMajor ds)) * es"

lemma place_row: "place ds es s c p = row_offset es (major_order ds s) (major_order ds c) (major_order ds p)"
  by (simp add: place_def row_offset_def major_order_def LinearIndex_column_is_reversed_row)

lemma major_order_simps [simp]:
  "length (major_order ds xs) = length xs" "major_order ds xs = [] \<longleftrightarrow> xs = []"
  "solid (major_order ds xs) \<longleftrightarrow> solid xs" "total (major_order ds xs) = total xs"
  "fits s c \<Longrightarrow> fits (major_order ds s) (major_order ds c)"
  by (simp_all add: major_order_def fits_rev)

lemma in_block_major:
  "length c = length s \<Longrightarrow> length p = length s \<Longrightarrow>
    in_block (major_order ds s) (major_order ds c) (major_order ds p) \<longleftrightarrow> in_block s c p"
  by (simp add: major_order_def in_block_rev)

lemma major_order_twice [simp]: "major_order ds (major_order ds xs) = xs"
  by (simp add: major_order_def)

lemma fold_horner:
  assumes "length cs = n" "length qs = n" "k \<le> n"
  shows "fold (\<lambda>d x. x * cs ! d + qs ! d) [0..<k] (0 :: u64)
      = of_nat (lin (rev (take k (map unat qs))) (rev (take k (map unat cs))))"
  using assms(3)
proof (induction k)
  case (Suc k)
  then show ?case using assms(1,2) by (simp add: take_Suc_conv_app_nth algebra_simps)
qed simp

lemma foldr_horner:
  assumes "length cs = n" "length qs = n" "k \<le> n"
  shows "foldr (\<lambda>d x. x * cs ! d + qs ! d) [k..<n] (0 :: u64)
      = of_nat (lin (drop k (map unat qs)) (drop k (map unat cs)))"
  using assms(3)
proof (induction "n - k" arbitrary: k)
  case (Suc m)
  then have "[k..<n] = k # [Suc k..<n]" "drop k (map unat qs) = unat (qs ! k) # drop (Suc k) (map unat qs)"
    "drop k (map unat cs) = unat (cs ! k) # drop (Suc k) (map unat cs)"
    using assms Cons_nth_drop_Suc[of k "map unat qs"] Cons_nth_drop_Suc[of k "map unat cs"]
    by (simp_all add: upt_conv_Cons)
  then show ?case using Suc.hyps(1)[of "Suc k"] Suc.hyps(2) Suc.prems by (simp add: algebra_simps)
qed (use assms in simp)

lemma BP5_LinearIndex_point:
  assumes "length s = n" "length c = n" "length p = n"
  shows "BP5_LinearIndex n c (map (\<lambda>d. p ! d - s ! d) [0..<n]) rm = LinearIndexWithStartCount s c p rm"
proof -
  let ?q = "map (\<lambda>d. p ! d - s ! d) [0..<n]"
  have q: "rel_coords s p = map unat ?q" "rel_coords (rev s) (rev p) = rev (map unat ?q)"
    using assms by (auto simp: rel_coords_def rev_nth intro!: nth_equalityI)
  show ?thesis
    using fold_horner[of c n ?q n] foldr_horner[of c n ?q 0] assms
    by (cases rm) (simp_all add: BP5_LinearIndex_def LinearIndexWithStartCount_def linear_loop_lin q
        rev_map flip: foldr_conv_fold)
qed

lemma lin_mono: "list_all2 (\<le>) qs rs \<Longrightarrow> length cs = length qs \<Longrightarrow> lin qs cs \<le> lin rs cs"
proof (induction qs rs arbitrary: cs rule: list_all2_induct)
  case (Cons q qs r rs)
  obtain c cs' where "cs = c # cs'" "length cs' = length qs" using Cons.prems by (cases cs) auto
  then show ?case using Cons by (simp add: add_le_mono)
qed simp

lemma row_offset_mono:
  assumes "in_block s c p" "in_block s c q" "\<And>d. d < length s \<Longrightarrow> p ! d \<le> q ! d"
    and "length c = length s" "total c \<le> 18446744073709551616"
  shows "row_offset es s c p \<le> row_offset es s c q"
proof -
  have "list_all2 (\<le>) (rel_coords s p) (rel_coords s q)"
    using assms by (auto simp: list_all2_conv_all_nth rel_coords_def in_block_def word_nat unat_diff_le
        intro!: diff_le_mono)
  then have "list_all2 (\<le>) (rev (rel_coords s p)) (rev (rel_coords s q))" by simp
  moreover have "length (rev (map unat c)) = length (rev (rel_coords s p))"
    using assms by (simp add: rel_coords_def in_block_def)
  ultimately show ?thesis
    using assms by (simp add: row_offset_lin lin_mono mult_le_mono2)
qed

lemma place_mono:
  assumes "in_block s c p" "in_block s c q" "\<And>d. d < length s \<Longrightarrow> p ! d \<le> q ! d"
    and "length c = length s" "total c \<le> 18446744073709551616"
  shows "place ds es s c p \<le> place ds es s c q"
  unfolding place_row
proof (rule row_offset_mono)
  have "length p = length s" "length q = length s" using assms(1,2) by (simp_all add: in_blockD(3))
  then show "in_block (major_order ds s) (major_order ds c) (major_order ds p)"
    "in_block (major_order ds s) (major_order ds c) (major_order ds q)"
    "\<And>d. d < length (major_order ds s) \<Longrightarrow> major_order ds p ! d \<le> major_order ds q ! d"
    using assms by (auto simp: in_block_major) (auto simp: major_order_def rev_nth)
qed (use assms in simp_all)

lemma place_bound:
  assumes "in_block s c p" "fits s c" "total c * es \<le> l" "total c \<le> 18446744073709551616"
  shows "place ds es s c p + es \<le> l"
  unfolding place_row
  using assms by (intro row_offset_bound) (auto simp: in_block_major in_blockD(3) fits_def[of s])

lemma place_word:
  assumes "in_block s c p" "fits s c" "total c * es < 18446744073709551616" "0 < es"
  shows "of_nat es * LinearIndexWithStartCount s c p (ReaderIsRowMajor ds) = (of_nat (place ds es s c p) :: u64)"
  by (simp add: place_def)


subsection \<open>One block\<close>

text \<open>
  \<open>copied\<close>: the points of the selection \<open>ss\<close>, \<open>sc\<close> that lie in the block \<open>bs\<close>, \<open>bc\<close> have the bytes of
  the block's content, in the order of the reader, and the rest of the memory is as it was.
\<close>

definition swap_byte :: "deserializer \<Rightarrow> nat \<Rightarrow> nat \<Rightarrow> nat" where
  "swap_byte ds es j = (if SourceIsLittleEndian ds = ReaderIsLittleEndian ds then j else es - 1 - j)"

definition copied ::
  "deserializer \<Rightarrow> nat \<Rightarrow> dims \<times> dims \<times> bytes \<Rightarrow> dims \<Rightarrow> dims \<Rightarrow> bytes \<Rightarrow> bytes \<Rightarrow> bool" where
  "copied ds es block ss sc out out' \<longleftrightarrow>
    (case block of (bs, bc, content) \<Rightarrow>
      length out' = length out \<and>
      (\<forall>p j. in_block ss sc p \<longrightarrow> in_block bs bc p \<longrightarrow> j < es \<longrightarrow>
         out' ! (place ds es ss sc p + j) = content ! (place ds es bs bc p + swap_byte ds es j)) \<and>
      (\<forall>k < length out. (\<forall>p. in_block ss sc p \<longrightarrow> in_block bs bc p \<longrightarrow>
           \<not> (place ds es ss sc p \<le> k \<and> k < place ds es ss sc p + es)) \<longrightarrow> out' ! k = out ! k))"

text \<open>What is assumed of a request and its memory, and of a block and the data of its writer.\<close>

definition request_ok :: "deserializer \<Rightarrow> array_request \<Rightarrow> bytes \<Rightarrow> bool" where
  "request_ok ds Req out \<longleftrightarrow>
    (let v = VarRec Req; n = DimCount v; es = unat (VB_ElementSize v)
     in RequestType Req = Global \<and> MemoryStart Req = [] \<and> 0 < n \<and> n \<le> 32 \<and>
        length (ReqStart Req) = n \<and> fits (ReqStart Req) (ReqCount Req) \<and>
        (scast (ElementSize v) :: u64) = VB_ElementSize v \<and> 0 < es \<and>
        (complex_type (VarType v) \<longrightarrow> SourceIsLittleEndian ds = ReaderIsLittleEndian ds) \<and>
        total (ReqCount Req) * es \<le> length out \<and> length out < 2 ^ 63)"

definition block_start :: "var_rec \<Rightarrow> meta_array \<Rightarrow> u64 \<Rightarrow> dims" where
  "block_start v meta b = block_dims v b (case Offsets meta of Some os \<Rightarrow> os | None \<Rightarrow> [])"

definition block_count :: "var_rec \<Rightarrow> meta_array \<Rightarrow> u64 \<Rightarrow> dims" where
  "block_count v meta b = block_dims v b (Count meta)"

definition block_size :: "var_rec \<Rightarrow> meta_array \<Rightarrow> u64 \<Rightarrow> nat" where
  "block_size v meta b = total (block_count v meta b) * unat (VB_ElementSize v)"

definition stored_bytes :: "bytes \<Rightarrow> u64 \<Rightarrow> nat \<Rightarrow> bytes" where
  "stored_bytes stream loc n = take n (drop (unat loc) stream)"

text \<open>The content of a block: its bytes in the data of the writer, decompressed if need be.\<close>

definition block_content ::
  "(bytes \<Rightarrow> nat \<Rightarrow> bytes result) \<Rightarrow> bytes \<Rightarrow> var_rec \<Rightarrow> meta_array \<Rightarrow> u64 \<Rightarrow> bytes result" where
  "block_content decompress stream v meta b =
    (if HasOperator v
     then decompress (stored_bytes stream (DataBlockLocation meta ! unat b) (unat (DataBlockSize meta ! unat b)))
            (block_size v meta b)
     else Inr (stored_bytes stream (DataBlockLocation meta ! unat b) (block_size v meta b)))"

definition block_ok ::
  "(bytes \<Rightarrow> nat \<Rightarrow> bytes result) \<Rightarrow> bytes \<Rightarrow> var_rec \<Rightarrow> meta_array \<Rightarrow> u64 \<Rightarrow> bool" where
  "block_ok decompress stream v meta b \<longleftrightarrow>
    length (block_start v meta b) = DimCount v \<and> fits (block_start v meta b) (block_count v meta b) \<and>
    DataBlockLocation meta ! unat b \<noteq> noData \<and> length stream < 2 ^ 63 \<and> block_size v meta b < 2 ^ 63 \<and>
    unat (DataBlockLocation meta ! unat b) +
      (if HasOperator v then unat (DataBlockSize meta ! unat b) else block_size v meta b) \<le> length stream \<and>
    (case block_content decompress stream v meta b of
       Inl _ \<Rightarrow> False | Inr content \<Rightarrow> length content = block_size v meta b)"

definition reads_stream ::
  "(nat \<Rightarrow> nat \<Rightarrow> u64 \<Rightarrow> u64 \<Rightarrow> bytes result) \<Rightarrow> (nat \<Rightarrow> nat \<Rightarrow> bytes) \<Rightarrow> bool" where
  "reads_stream read stream \<longleftrightarrow>
    (\<forall>step rank off n. unat off + unat n \<le> length (stream step rank) \<longrightarrow>
       read step rank off n = Inr (stored_bytes (stream step rank) off (unat n)))"

lemma copied_apart:
  assumes "\<And>p. in_block ss sc p \<Longrightarrow> \<not> in_block bs bc p"
  shows "copied ds es (bs, bc, content) ss sc out out"
  using assms by (simp add: copied_def)

text \<open>\<open>NdCopy\<close> with the dimensions in the order of the reader.\<close>

lemma NdCopy_copied:
  assumes len: "length ss = n" "length bs = n" "0 < n" "n \<le> 32"
    and fit: "fits ss sc" "fits bs bc" and sol: "solid sc" "solid bc"
    and es: "es = unat (scast typeSize :: u64)" "0 < es"
    and part: "\<And>p. in_block ss sc p \<Longrightarrow> in_block bs bc p \<Longrightarrow>
      off \<le> place ds es bs bc p \<and> place ds es bs bc p + es \<le> off + length inp"
    and cont: "\<And>k. off \<le> k \<Longrightarrow> k < off + length inp \<Longrightarrow> inp ! (k - off) = content ! k"
    and sizes: "total bc \<le> 18446744073709551616" "total sc * es \<le> length out"
      "length inp < 2 ^ 64" "length out < 2 ^ 64"
  shows "\<exists>x out'. NdCopy inp (- of_nat off) (major_order ds bs) (major_order ds bc) True
        (SourceIsLittleEndian ds) out (major_order ds ss) (major_order ds sc) True
        (ReaderIsLittleEndian ds) typeSize [] [] [] [] False = Some (Inr (x, out'))
    \<and> copied ds es (bs, bc, content) ss sc out out'"
proof -
  let ?m = "major_order ds"
  have lc: "length sc = n" "length bc = n" using fit len by (simp_all add: fits_def)
  have part': "in_block (?m bs) (?m bc) p \<and> in_block (?m ss) (?m sc) p \<and>
      off \<le> row_offset es (?m bs) (?m bc) p \<and> row_offset es (?m bs) (?m bc) p + es \<le> off + length inp"
    if "in_block (?m bs) (?m bc) p" "in_block (?m ss) (?m sc) p" for p
  proof -
    have lp: "length p = n" using in_blockD(3)[OF that(1)] len by simp
    have "in_block ss sc (?m p)" "in_block bs bc (?m p)"
      using that in_block_major[of sc ss "?m p" ds] in_block_major[of bc bs "?m p" ds] len lc lp by simp_all
    then show ?thesis using part[of "?m p"] that by (simp add: place_row)
  qed
  obtain x out' where o: "NdCopy inp (- of_nat off) (?m bs) (?m bc) True
        (SourceIsLittleEndian ds) out (?m ss) (?m sc) True
        (ReaderIsLittleEndian ds) typeSize [] [] [] [] False = Some (Inr (x, out'))"
    "length out' = length out"
    "\<And>p j. in_block (?m bs) (?m bc) p \<Longrightarrow> in_block (?m ss) (?m sc) p \<Longrightarrow> j < es \<Longrightarrow>
        out' ! (row_offset es (?m ss) (?m sc) p + j)
          = inp ! (row_offset es (?m bs) (?m bc) p - off + swap_byte ds es j)"
    "\<And>k. k < length out \<Longrightarrow> (\<And>p. in_block (?m bs) (?m bc) p \<Longrightarrow> in_block (?m ss) (?m sc) p \<Longrightarrow>
          \<not> (row_offset es (?m ss) (?m sc) p \<le> k \<and> k < row_offset es (?m ss) (?m sc) p + es)) \<Longrightarrow>
        out' ! k = out ! k"
    using NdCopy_row_major[of es typeSize "?m bs" "[]" "?m bs" "?m bc" "[]" "?m bc" "?m ss" "[]" "?m ss"
        "?m sc" "[]" "?m sc" off inp out "SourceIsLittleEndian ds" "ReaderIsLittleEndian ds" False,
        OF es(1) _ _ _ _ _ _ _ _ _ _ _ _ _ _ _ part' es(2)] len lc fit sol sizes
    unfolding swap_byte_def by (simp add: or_default_def) blast
  have "copied ds es (bs, bc, content) ss sc out out'"
    unfolding copied_def prod.case
  proof (intro conjI allI impI)
    show "length out' = length out" by (rule o)
    fix p j assume p: "in_block ss sc p" "in_block bs bc p" and j: "j < es"
    have lp: "length p = n" using in_blockD(3)[OF p(1)] len by simp
    have m: "in_block (?m bs) (?m bc) (?m p)" "in_block (?m ss) (?m sc) (?m p)"
      using p len lc lp by (simp_all add: in_block_major)
    have sw: "swap_byte ds es j < es" using j by (auto simp: swap_byte_def)
    have "inp ! (place ds es bs bc p + swap_byte ds es j - off) = content ! (place ds es bs bc p + swap_byte ds es j)"
      using part[OF p] sw by (intro cont) auto
    then show "out' ! (place ds es ss sc p + j) = content ! (place ds es bs bc p + swap_byte ds es j)"
      using o(3)[OF m j] part[OF p] by (simp add: place_row)
  next
    fix k assume k: "k < length out" and no: "\<forall>p. in_block ss sc p \<longrightarrow> in_block bs bc p \<longrightarrow>
           \<not> (place ds es ss sc p \<le> k \<and> k < place ds es ss sc p + es)"
    show "out' ! k = out ! k"
    proof (rule o(4)[OF k])
      fix p assume p: "in_block (?m bs) (?m bc) p" "in_block (?m ss) (?m sc) p"
      have lp: "length p = n" using in_blockD(3)[OF p(1)] len by simp
      have "in_block ss sc (?m p)" "in_block bs bc (?m p)"
        using p in_block_major[of sc ss "?m p" ds] in_block_major[of bc bs "?m p" ds] len lc lp by simp_all
      then show "\<not> (row_offset es (?m ss) (?m sc) p \<le> k \<and> k < row_offset es (?m ss) (?m sc) p + es)"
        using no[rule_format, of "?m p"] by (simp add: place_row)
    qed
  qed
  with o(1) show ?thesis by blast
qed


lemma request_okD:
  assumes "request_ok ds Req out" "v = VarRec Req" "n = DimCount v" "es = unat (VB_ElementSize v)"
  shows "RequestType Req = Global" "MemoryStart Req = []" "0 < n" "n \<le> 32" "length (ReqStart Req) = n"
    "length (ReqCount Req) = n" "fits (ReqStart Req) (ReqCount Req)"
    "(scast (ElementSize v) :: u64) = VB_ElementSize v" "0 < es"
    "complex_type (VarType v) \<Longrightarrow> SourceIsLittleEndian ds = ReaderIsLittleEndian ds"
    "total (ReqCount Req) * es \<le> length out" "length out < 2 ^ 63"
  using assms by (simp_all add: request_ok_def Let_def fits_def)

lemma block_okD:
  assumes "block_ok decompress stream v meta b"
  shows "length (block_start v meta b) = DimCount v" "length (block_count v meta b) = DimCount v"
    "fits (block_start v meta b) (block_count v meta b)"
    "DataBlockLocation meta ! unat b \<noteq> noData" "length stream < 2 ^ 63" "block_size v meta b < 2 ^ 63"
    "HasOperator v \<Longrightarrow>
      unat (DataBlockLocation meta ! unat b) + unat (DataBlockSize meta ! unat b) \<le> length stream"
    "\<not> HasOperator v \<Longrightarrow>
      unat (DataBlockLocation meta ! unat b) + block_size v meta b \<le> length stream"
    "block_content decompress stream v meta b = Inr content \<Longrightarrow> length content = block_size v meta b"
  using assms by (auto simp: block_ok_def fits_def split: if_splits)

lemma block_ok_offsets:
  assumes "block_ok decompress stream v meta b"
  shows "\<not> (Offsets meta = None \<and> 0 < DimCount v)"
proof
  assume none: "Offsets meta = None \<and> 0 < DimCount v"
  then have "block_start v meta b = []" by (simp add: block_start_def block_dims_def)
  with block_okD(1)[OF assms] none show False by simp
qed

lemma fold_mult:
  "fold (\<lambda>d x. x * cs ! d) [0..<length cs] (e :: u64) = e * of_nat (total cs)"
proof -
  have "fold (\<lambda>d x. x * cs ! d) [0..<k] e = e * of_nat (prod_list (take k (map unat cs)))"
    if "k \<le> length cs" for k
    using that by (induction k) (simp_all add: take_Suc_conv_app_nth algebra_simps)
  from this[of "length cs"] show ?thesis by (simp add: total_def)
qed

lemma FinalizeGet_global:
  assumes req: "request_ok ds Req out" and v: "v = VarRec Req" and Req: "Req = reqs ! ReqIndex rr"
    and meta: "MetadataBase v (Timestep rr) (WriterRank rr) = Some meta"
    and blk: "block_ok decompress stream v meta (BlockID rr)" and "\<not> DirectToAppMemory rr"
  shows "FinalizeGet decompress ds reqs rr bs app =
    bindR (if HasOperator v
           then bindR (decompress bs (block_size v meta (BlockID rr))) (\<lambda>buf. Inr (buf, 0 :: u64, 0))
           else Inr (bs, 0, - OffsetInBlock rr))
      (\<lambda>(buf, _, base). case NdCopy buf base (major_order ds (block_start v meta (BlockID rr)))
           (major_order ds (block_count v meta (BlockID rr))) True (SourceIsLittleEndian ds) app
           (major_order ds (ReqStart Req)) (major_order ds (ReqCount Req)) True (ReaderIsLittleEndian ds)
           (ElementSize v) [] [] [] [] False of
         None \<Rightarrow> Inl UndefinedBehaviour | Some r \<Rightarrow> bindR r (\<lambda>(_, out). Inr out))"
proof -
  note r = request_okD[OF req v refl refl] and b = block_okD[OF blk]
  have split: "(complex_type (VarType v) \<and> SourceIsLittleEndian ds \<noteq> ReaderIsLittleEndian ds) = False"
    using r(10) by blast
  have size: "unat (fold (\<lambda>d x. x * block_count v meta (BlockID rr) ! d) [0..<DimCount v]
      (VB_ElementSize v)) = block_size v meta (BlockID rr)"
  proof -
    have "fold (\<lambda>d x. x * block_count v meta (BlockID rr) ! d) [0..<DimCount v] (VB_ElementSize v)
        = (of_nat (block_size v meta (BlockID rr)) :: u64)"
      using fold_mult[of "block_count v meta (BlockID rr)" "VB_ElementSize v"] b(2)
      by (simp add: block_size_def mult.commute)
    then show ?thesis using b(6) by (simp add: unat_of_nat_small)
  qed
  have ne: "ReqStart Req \<noteq> []" "ReqCount Req \<noteq> []" using r(3,5,6) by auto
  have off: "(case Offsets meta of Some os \<Rightarrow> block_dims v (BlockID rr) os | None \<Rightarrow> [])
      = block_start v meta (BlockID rr)"
    by (simp add: block_start_def block_dims_def split: option.split)
  show ?thesis
    unfolding FinalizeGet_def Let_def Req[symmetric] v[symmetric] meta option.case split double_last_def
    using r ne assms(6) size
    by (simp add: off block_count_def[symmetric] split del: if_split cong: if_cong)
qed


text \<open>The corners of the overlap bound the places of its points in the block.\<close>

lemma overlap_corners:
  assumes len: "length ss = n" "length bs = n" "0 < n" and fit: "fits ss sc" "fits bs bc"
    and x: "BP5_IntersectionStartCount n ss sc bs bc = Some (os, oc)"
    and small: "total bc \<le> 18446744073709551616"
  defines "oe \<equiv> map (\<lambda>d. os ! d + oc ! d - 1) [0..<n]"
  shows "solid sc" "solid bc" "length os = n" "length oc = n"
    and "in_block ss sc os" "in_block bs bc os" "in_block bs bc oe"
    and "\<And>p. in_block ss sc p \<Longrightarrow> in_block bs bc p \<Longrightarrow>
      place ds es bs bc os \<le> place ds es bs bc p \<and> place ds es bs bc p \<le> place ds es bs bc oe"
    and "d < n \<Longrightarrow> os ! d = max (ss ! d) (bs ! d)"
    and "in_block ss sc oe" "fits os oc" "solid oc"
    and "\<And>p. in_block os oc p \<longleftrightarrow> in_block ss sc p \<and> in_block bs bc p"
proof -
  have lc: "length sc = n" "length bc = n" using fit len by (simp_all add: fits_def)
  let ?os = "GetOvlpStart n ss bs" and ?oe = "GetOvlpEnd n (GetEnd n ss sc) (GetEnd n bs bc)"
  have h: "solid sc" "solid bc" "HasOvlp ?os ?oe" and os: "os = ?os" and oc: "oc = GetOvlpCount n ?os ?oe"
    using x BP5_IntersectionStartCount_ovlp[OF len(1) lc(1) len(2) lc(2) fit]
    by (auto split: if_splits)
  show "solid sc" "solid bc" by (rule h)+
  show l: "length os = n" "length oc = n" by (simp_all add: os oc)
  have ne: "ss \<noteq> []" using len by auto
  note pts = ovlp_points[OF _ ne fit(1) h(1) fit(2) h(2), unfolded len, OF refl]
  have pt: "in_block os oc p \<longleftrightarrow> in_block ss sc p \<and> in_block bs bc p" for p
    using pts(1)[OF h(3)] by (simp add: os oc)
  have fo: "fits os oc" "solid oc" using pts(3,4)[OF h(3)] by (simp_all add: os oc)
  have co: "in_block os oc os" using solidD[OF fo(2)] l by (simp add: in_block_def)
  then show "in_block ss sc os" "in_block bs bc os" using pt by simp_all
  have rng: "os ! d \<le> p ! d \<and> p ! d \<le> oe ! d" if "in_block os oc p" "d < n" for p d
    using last_in_block[of "oc ! d" "os ! d" "p ! d"] that fo l solidD[OF fo(2), of d]
    by (auto simp: fits_def in_block_def oe_def)
  have le: "os ! d \<le> oe ! d" if "d < n" for d using rng[OF co that] by simp
  have "in_block os oc oe"
    unfolding in_block_def
  proof (intro conjI allI impI)
    fix d assume "d < length os"
    then have d: "d < n" using l by simp
    have "os ! d \<le> oe ! d \<and> oe ! d \<le> os ! d + oc ! d - 1" using le[OF d] d by (simp add: oe_def)
    then show "os ! d \<le> oe ! d" "oe ! d - os ! d < oc ! d"
      using last_in_block[of "oc ! d" "os ! d" "oe ! d"] fo l d solidD[OF fo(2), of d] by (auto simp: fits_def)
  qed (use l in \<open>simp add: oe_def\<close>)
  then show oe: "in_block bs bc oe" and "in_block ss sc oe" using pt by simp_all
  show "fits os oc" "solid oc" by (rule fo)+
  show "in_block os oc p \<longleftrightarrow> in_block ss sc p \<and> in_block bs bc p" for p by (rule pt)
  show "place ds es bs bc os \<le> place ds es bs bc p \<and> place ds es bs bc p \<le> place ds es bs bc oe"
    if "in_block ss sc p" "in_block bs bc p" for p
    using rng[of p] pt that oe co len lc small
    by (intro conjI place_mono) auto
  show "d < n \<Longrightarrow> os ! d = max (ss ! d) (bs ! d)"
    by (auto simp: os GetOvlpStart_def max_def)
qed


text \<open>The direct read of one dimension.\<close>

lemma place_1: "place ds es [s] [c] [x] = unat (x - s) * es"
  by (simp add: place_def LinearIndexWithStartCount_def)

lemma direct_copied:
  assumes blk: "in_block [s] [c] [o1]" "in_block [b] [k] [o1]" "in_block [b] [k] [o2]" "in_block [s] [c] [o2]"
    and pts: "\<And>x. in_block [s] [c] [x] \<Longrightarrow> in_block [b] [k] [x] \<longleftrightarrow> o1 \<le> x \<and> x \<le> o2"
    and es: "0 < es" and le: "o1 \<le> o2"
    and S: "S = unat (o1 - b) * es" and L: "L = (unat (o2 - o1) + 1) * es" and D: "D = unat (o1 - s) * es"
    and bytes: "length bs = L" "\<And>m. m < L \<Longrightarrow> bs ! m = content ! (S + m)"
    and fit: "D + L \<le> length out" and same: "SourceIsLittleEndian ds = ReaderIsLittleEndian ds"
  shows "copied ds es ([b], [k], content) [s] [c] out (splice out D bs)"
  unfolding copied_def prod.case
proof (intro conjI allI impI)
  show "length (splice out D bs) = length out" using fit bytes by simp
  have ge: "s \<le> o1" "b \<le> o1" using blk by (simp_all add: in_block_Cons)
  fix p j assume p: "in_block [s] [c] p" "in_block [b] [k] p" and j: "j < es"
  obtain x where x: "p = [x]" using in_blockD(3)[OF p(1)] by (auto simp: length_Suc_conv)
  have xr: "o1 \<le> x" "x \<le> o2" using pts p unfolding x by auto
  let ?m = "unat (x - o1)"
  have u: "unat (x - s) = unat (o1 - s) + ?m" "unat (x - b) = unat (o1 - b) + ?m" "?m \<le> unat (o2 - o1)"
    using xr ge le order_trans[OF ge(1) xr(1)] order_trans[OF ge(2) xr(1)]
    by (simp_all add: unat_diff_le word_nat)
  have m: "?m * es + j < L"
  proof -
    have "?m * es + j < (?m + 1) * es" using j by simp
    also have "\<dots> \<le> L" unfolding L using u(3) by (intro mult_le_mono1) simp
    finally show ?thesis .
  qed
  have "splice out D bs ! (D + (?m * es + j)) = bs ! (?m * es + j)"
    using m fit bytes by (simp add: splice_nth)
  then show "splice out D bs ! (place ds es [s] [c] p + j) = content ! (place ds es [b] [k] p + swap_byte ds es j)"
    using bytes(2)[OF m] same unfolding x place_1 u S D swap_byte_def
    by (simp add: algebra_simps)
next
  have ge: "s \<le> o1" "b \<le> o1" using blk by (simp_all add: in_block_Cons)
  fix m assume m: "m < length out" and no: "\<forall>p. in_block [s] [c] p \<longrightarrow> in_block [b] [k] p \<longrightarrow>
           \<not> (place ds es [s] [c] p \<le> m \<and> m < place ds es [s] [c] p + es)"
  have "\<not> (D \<le> m \<and> m < D + L)"
  proof
    assume r: "D \<le> m \<and> m < D + L"
    let ?q = "(m - D) div es"
    have "m - D < (unat (o2 - o1) + 1) * es" using r unfolding L by linarith
    then have "?q < unat (o2 - o1) + 1" by (rule less_mult_imp_div_less)
    then have q: "?q \<le> unat (o2 - o1)" by simp
    have lt: "?q < 2 ^ 64" using q unat_u64_less[of "o2 - o1"] by simp
    define x where "x = o1 + of_nat ?q"
    have o2: "unat o2 = unat o1 + unat (o2 - o1)" using le by (simp add: unat_diff_le word_nat)
    have ux: "unat x = unat o1 + ?q"
      unfolding x_def using q o2 unat_u64_less[of o2] lt
      by (subst unat_add_small) (simp_all add: unat_of_nat_small)
    have xr: "o1 \<le> x" "x \<le> o2" using ux q o2 by (simp_all add: word_nat)
    have "in_block [s] [c] [x]"
      using blk xr ge order_trans[OF ge(1) xr(1)] by (auto simp: in_block_Cons word_nat unat_diff_le)
    moreover then have "in_block [b] [k] [x]" using pts xr by blast
    ultimately have "\<not> (unat (x - s) * es \<le> m \<and> m < unat (x - s) * es + es)" using no place_1 by metis
    moreover have "unat (x - s) * es = D + ?q * es"
      using ux order_trans[OF ge(1) xr(1)] ge by (simp add: unat_diff_le D algebra_simps word_nat)
    moreover have "?q * es \<le> m - D" "m - D < ?q * es + es"
      using es dividend_less_div_times[of es "m - D"] by simp_all
    ultimately show False using r by linarith
  qed
  then show "splice out D bs ! m = out ! m" using m fit bytes by (auto simp: splice_nth)
qed


lemma length_stored [simp]: "unat loc + n \<le> length stream \<Longrightarrow> length (stored_bytes stream loc n) = n"
  by (simp add: stored_bytes_def)

lemma stored_bytes_nth: "unat loc + n \<le> length stream \<Longrightarrow> k < n \<Longrightarrow>
    stored_bytes stream loc n ! k = stream ! (unat loc + k)"
  by (simp add: stored_bytes_def)

text \<open>Finalizing a piece that was not read directly: the overlap arrives.\<close>

lemma FinalizeGet_copied:
  assumes req: "request_ok ds Req out" and v: "v = VarRec Req" and Req: "Req = reqs ! ReqIndex rr"
    and meta: "MetadataBase v (Timestep rr) (WriterRank rr) = Some meta"
    and blk: "block_ok decompress stream v meta (BlockID rr)" and nd: "\<not> DirectToAppMemory rr"
    and sol: "solid (ReqCount Req)" "solid (block_count v meta (BlockID rr))"
    and es: "es = unat (VB_ElementSize v)"
    and src: "(if HasOperator v
           then bindR (decompress bs (block_size v meta (BlockID rr))) (\<lambda>buf. Inr (buf, 0 :: u64, 0))
           else Inr (bs, 0, - OffsetInBlock rr)) = Inr (buf, 0, - of_nat off)"
    and part: "\<And>p. in_block (ReqStart Req) (ReqCount Req) p \<Longrightarrow>
      in_block (block_start v meta (BlockID rr)) (block_count v meta (BlockID rr)) p \<Longrightarrow>
      off \<le> place ds es (block_start v meta (BlockID rr)) (block_count v meta (BlockID rr)) p \<and>
      place ds es (block_start v meta (BlockID rr)) (block_count v meta (BlockID rr)) p + es \<le> off + length buf"
    and cont: "\<And>k. off \<le> k \<Longrightarrow> k < off + length buf \<Longrightarrow> buf ! (k - off) = content ! k"
    and small: "length buf < 2 ^ 63"
  shows "\<exists>out'. FinalizeGet decompress ds reqs rr bs out = Inr out' \<and>
    copied ds es (block_start v meta (BlockID rr), block_count v meta (BlockID rr), content)
      (ReqStart Req) (ReqCount Req) out out'"
proof -
  note r = request_okD[OF req v refl es] and b = block_okD[OF blk]
  have tot: "total (block_count v meta (BlockID rr)) \<le> 18446744073709551616"
    using b(6) le_mult_size[OF r(9), of _ "block_size v meta (BlockID rr)"] by (simp add: block_size_def es)
  obtain x out' where "NdCopy buf (- of_nat off) (major_order ds (block_start v meta (BlockID rr)))
        (major_order ds (block_count v meta (BlockID rr))) True
        (SourceIsLittleEndian ds) out (major_order ds (ReqStart Req)) (major_order ds (ReqCount Req)) True
        (ReaderIsLittleEndian ds) (ElementSize v) [] [] [] [] False = Some (Inr (x, out'))"
    "copied ds es (block_start v meta (BlockID rr), block_count v meta (BlockID rr), content)
      (ReqStart Req) (ReqCount Req) out out'"
  proof -
    have ES: "es = unat (scast (ElementSize v) :: u64)" using r(8) es by simp
    have "length buf < 2 ^ 64" "length out < 2 ^ 64" using small r(12) by simp_all
    then show ?thesis
      using that NdCopy_copied[OF r(5) b(1) r(3,4) r(7) b(3) sol ES r(9) part cont tot r(11)] by blast
  qed
  then show ?thesis
    using FinalizeGet_global[OF req v Req meta blk nd, of bs out] unfolding src by auto
qed

lemma in_block_nonempty: "in_block s c p \<Longrightarrow> length c = length s \<Longrightarrow> solid c"
  by (fastforce simp: in_block_def solid_def in_set_conv_nth word_nat)

lemma no_overlap:
  assumes len: "length ss = n" "length bs = n" "0 < n" and fit: "fits ss sc" "fits bs bc"
    and none: "BP5_IntersectionStartCount n ss sc bs bc = None" and p: "in_block ss sc p"
  shows "\<not> in_block bs bc p"
proof
  assume q: "in_block bs bc p"
  have lc: "length sc = n" "length bc = n" using fit len by (simp_all add: fits_def)
  have sol: "solid sc" "solid bc" using in_block_nonempty p q lc len by auto
  have ne: "ss \<noteq> []" using len by auto
  have "\<not> HasOvlp (GetOvlpStart n ss bs) (GetOvlpEnd n (GetEnd n ss sc) (GetEnd n bs bc))"
    using none BP5_IntersectionStartCount_ovlp[OF len(1) lc(1) len(2) lc(2) fit] sol by (auto split: if_splits)
  then show False
    using ovlp_points(2)[OF _ ne fit(1) sol(1) fit(2) sol(2), unfolded len, OF refl] p q by blast
qed

text \<open>The offset of a direct read in the memory of the application, a signed difference cut at 0.\<close>

lemma sint_small:
  assumes "m < 2 ^ 63"
  shows "sint (of_nat m :: u64) = int m" "sint (- of_nat m :: u64) = - int m"
proof -
  have "sint (word_of_int (int m) :: u64) = int m" "sint (word_of_int (- int m) :: u64) = - int m"
    unfolding sint_sbintrunc' using assms by (simp_all add: signed_take_bit_int_eq_self)
  then show "sint (of_nat m :: u64) = int m" "sint (- of_nat m :: u64) = - int m" by simp_all
qed

lemma contig_offset:
  assumes "s \<le> b \<Longrightarrow> unat (b - s) * unat w < 2 ^ 63" "b < s \<Longrightarrow> unat (s - b) * unat w < 2 ^ 63"
  shows "(if (b - s) * w <s 0 then 0 else (b - s) * w) = (of_nat (unat (max s b - s) * unat w) :: u64)"
proof (cases "s \<le> b")
  case True
  let ?m = "unat (b - s) * unat w"
  have e: "(b - s) * w = of_nat ?m" by (simp del: of_nat_mult add: of_nat_mult)
  have "\<not> (of_nat ?m :: u64) <s 0"
    unfolding word_sless_alt using sint_small(1)[OF assms(1)[OF True]] by (simp add: not_less)
  then show ?thesis unfolding e using True by (simp only: if_False max_absorb2)
next
  case False
  then have lt: "b < s" by simp
  let ?m = "unat (s - b) * unat w"
  have e: "(b - s) * w = - of_nat ?m" by (simp add: algebra_simps)
  have "sint (- of_nat ?m :: u64) \<le> 0" using sint_small(2)[OF assms(2)[OF lt]] by simp
  moreover have "(- of_nat ?m :: u64) = 0" if "\<not> sint (- of_nat ?m :: u64) < 0"
  proof -
    have "int ?m = 0"
      using that unfolding sint_small(2)[OF assms(2)[OF lt]] by linarith
    then have "?m = 0" by (simp only: of_nat_eq_0_iff)
    then show ?thesis unfolding \<open>?m = 0\<close> by simp
  qed
  ultimately show ?thesis
    unfolding e word_sless_alt using lt by (auto simp: max_def)
qed

lemma global_request_piece:
  fixes ds :: deserializer
  assumes v: "v = VarRec Req" and nop: "\<not> HasOperator v" and es: "es = unat (VB_ElementSize v)" "0 < es"
    and len: "length (ReqStart Req) = DimCount v" "0 < DimCount v" and fit: "fits (ReqStart Req) (ReqCount Req)"
    and blk: "block_ok decompress stream v meta b"
    and int: "BP5_IntersectionStartCount (DimCount v) (ReqStart Req) (ReqCount Req)
      (block_start v meta b) (block_count v meta b) = Some (os, oc)"
  defines "S \<equiv> place ds es (block_start v meta b) (block_count v meta b) os"
    and "E \<equiv> place ds es (block_start v meta b) (block_count v meta b)
      (map (\<lambda>d. os ! d + oc ! d - 1) [0..<DimCount v]) + es"
    and "loc \<equiv> DataBlockLocation meta ! unat b"
  shows "global_request ds Req i step rank meta b = Inr [\<lparr> Timestep = step, WriterRank = rank,
      StartOffset = loc + of_nat S, ReadLength = of_nat (E - S),
      DestinationAddr = (if direct_ok ds Req
        then (if (block_start v meta b ! 0 - ReqStart Req ! 0) * VB_ElementSize v <s 0 then 0
              else (block_start v meta b ! 0 - ReqStart Req ! 0) * VB_ElementSize v) else 0),
      DirectToAppMemory = direct_ok ds Req, ReqIndex = i, OffsetInBlock = of_nat S, BlockID = b \<rparr>]"
    and "S + es \<le> E" "E \<le> block_size v meta b"
proof -
  let ?n = "DimCount v" let ?bs = "block_start v meta b" let ?bc = "block_count v meta b"
  let ?oe = "map (\<lambda>d. os ! d + oc ! d - 1) [0..<?n]"
  note k = block_okD[OF blk]
  have size: "total ?bc * es < 18446744073709551616" using k(6) by (simp add: block_size_def es)
  have tot: "total ?bc \<le> 18446744073709551616"
    using k(6) le_mult_size[OF es(2), of _ "block_size v meta b"] by (simp add: block_size_def es)
  note c = overlap_corners[OF len(1) k(1) len(2) fit k(3) int tot]
  have VB: "VB_ElementSize v = of_nat es" by (simp add: es)
  have rel: "map (\<lambda>d. map (\<lambda>d. os ! d - ?bs ! d) [0..<?n] ! d + oc ! d - 1) [0..<?n]
      = map (\<lambda>d. ?oe ! d - ?bs ! d) [0..<?n]"
    by simp
  have s: "VB_ElementSize v * BP5_LinearIndex ?n ?bc (map (\<lambda>d. os ! d - ?bs ! d) [0..<?n]) (ReaderIsRowMajor ds)
      = of_nat S"
    unfolding S_def VB BP5_LinearIndex_point[OF k(1) k(2) c(3)]
    by (rule place_word[OF c(6) k(3) size es(2)])
  have e: "VB_ElementSize v * (BP5_LinearIndex ?n ?bc (map (\<lambda>d. ?oe ! d - ?bs ! d) [0..<?n]) (ReaderIsRowMajor ds) + 1)
      = of_nat E"
  proof -
    have "length ?oe = ?n" by simp
    from BP5_LinearIndex_point[OF k(1) k(2) this, of "ReaderIsRowMajor ds"]
      place_word[OF c(7) k(3) size es(2), of ds]
    show ?thesis unfolding E_def VB by (simp add: distrib_left)
  qed
  show se: "S + es \<le> E" using c(8)[OF c(5,6)] by (simp add: S_def E_def)
  show eb: "E \<le> block_size v meta b"
    unfolding E_def by (intro place_bound[OF c(7) k(3) _ tot]) (simp add: block_size_def es)
  have diff: "(of_nat E :: u64) - of_nat S = of_nat (E - S)" using se by (simp add: of_nat_diff)
  show "global_request ds Req i step rank meta b = Inr [\<lparr> Timestep = step, WriterRank = rank,
      StartOffset = loc + of_nat S, ReadLength = of_nat (E - S),
      DestinationAddr = (if direct_ok ds Req
        then (if (?bs ! 0 - ReqStart Req ! 0) * VB_ElementSize v <s 0 then 0
              else (?bs ! 0 - ReqStart Req ! 0) * VB_ElementSize v) else 0),
      DirectToAppMemory = direct_ok ds Req, ReqIndex = i, OffsetInBlock = of_nat S, BlockID = b \<rparr>]"
    unfolding global_request_def Let_def v[symmetric] block_start_def[symmetric] block_count_def[symmetric]
      int option.case prod.case rel s e diff loc_def
    using nop k(4) block_ok_offsets[OF blk] by (simp only: if_False if_True)
qed

text \<open>A piece of one dimension that is read right into the memory of the application.\<close>

lemma direct_piece:
  assumes len: "length ss = 1" "length bs = 1" and fit: "fits ss sc" "fits bs bc"
    and int: "BP5_IntersectionStartCount 1 ss sc bs bc = Some (os, oc)"
    and tot: "total bc \<le> 18446744073709551616" and es: "es = unat w" "0 < es"
    and out: "total sc * es \<le> length out" "length out < 2 ^ 63" and size: "total bc * es < 2 ^ 63"
    and same: "SourceIsLittleEndian ds = ReaderIsLittleEndian ds"
  defines "S \<equiv> place ds es bs bc os"
    and "E \<equiv> place ds es bs bc (map (\<lambda>d. os ! d + oc ! d - 1) [0..<1]) + es"
    and "D \<equiv> (if (bs ! 0 - ss ! 0) * w <s 0 then 0 else (bs ! 0 - ss ! 0) * w)"
  assumes bytes: "length data = E - S" "\<And>m. m < E - S \<Longrightarrow> data ! m = content ! (S + m)"
  shows "\<exists>out'. memcpy out D data 0 (of_nat (E - S)) = Inr out' \<and> copied ds es (bs, bc, content) ss sc out out'"
proof -
  note c = overlap_corners[OF len _ fit int tot, simplified]
  obtain s b c0 k0 o1 n0 where e: "ss = [s]" "bs = [b]" "sc = [c0]" "bc = [k0]" "os = [o1]" "oc = [n0]"
    using len fit c(3,4) by (auto simp: fits_def length_Suc_conv)
  define o2 where "o2 = o1 + n0 - 1"
  have blk: "in_block [s] [c0] [o1]" "in_block [b] [k0] [o1]" "in_block [b] [k0] [o2]" "in_block [s] [c0] [o2]"
    using c(5-7,10) by (simp_all add: e o2_def)
  have ge: "s \<le> o1" "b \<le> o1" "s \<le> o2" "b \<le> o2" "o1 - s < c0" "o2 - s < c0" "o1 - b < k0" "o2 - b < k0"
    using blk by (simp_all add: in_block_Cons)
  have n0: "0 < n0" "unat o1 + unat n0 \<le> 18446744073709551616"
    using c(11,12) by (auto simp: e fits_def solid_def word_neq_0_conv)
  have rng: "in_block os oc [x] \<longleftrightarrow> o1 \<le> x \<and> x \<le> o2" for x
    using last_in_block[OF n0, of x] by (simp add: e in_block_Cons o2_def in_block_def)
  have pts: "in_block [b] [k0] [x] \<longleftrightarrow> o1 \<le> x \<and> x \<le> o2" if "in_block [s] [c0] [x]" for x
    using c(13)[of "[x]"] rng[of x] that by (simp add: e)
  have le: "o1 \<le> o2" using pts[OF blk(4)] blk(3) by simp
  have S: "S = unat (o1 - b) * es" unfolding S_def e by (rule place_1)
  have E: "E = unat (o2 - b) * es + es" unfolding E_def e by (simp add: place_1 o2_def)
  have o2b: "unat (o2 - b) = unat (o1 - b) + unat (o2 - o1)" "unat (o2 - s) = unat (o1 - s) + unat (o2 - o1)"
    using ge le by (simp_all add: unat_diff_le word_nat)
  have L: "E - S = (unat (o2 - o1) + 1) * es" by (simp add: S E o2b algebra_simps)
  have big: "unat x * es < 2 ^ 63" if "x < y" "total [y] * es < 2 ^ 63" for x y :: u64
  proof -
    have "unat x \<le> unat y" using that(1) by (simp add: word_nat)
    then have "unat x * es \<le> unat y * es" by (rule mult_le_mono1)
    with that(2) show ?thesis by (simp only: total_def list.map prod_list.Cons prod_list.Nil mult_1_right)
  qed
  have m: "o1 = max s b" using c(9)[of 0] by (simp add: e)
  have sb: "b - s < c0" if "s \<le> b" using that m ge(5) by (simp add: max_absorb2)
  have bs: "s - b < k0" if "b < s" using that m ge(7) by (simp add: max_absorb1 less_imp_le)
  have D: "D = of_nat (unat (o1 - s) * es)"
    unfolding D_def e nth_Cons_0 m es(1)
    by (rule contig_offset) (use big sb bs out size es e in auto)
  have fit': "unat (o1 - s) * es + (E - S) \<le> length out"
  proof -
    have "place ds es [s] [c0] [o2] + es \<le> length out"
      using le_mult_size[OF es(2) out(1)] out(1,2) fit(1) unfolding e
      by (intro place_bound[OF blk(4)]) simp_all
    then show ?thesis unfolding place_1 o2b(2) L by (simp add: algebra_simps)
  qed
  have u: "unat D = unat (o1 - s) * es" "unat (of_nat (E - S) :: u64) = E - S"
    unfolding D using fit' out(2) by (simp_all add: unat_of_nat_small del: of_nat_mult)
  have "memcpy out D data 0 (of_nat (E - S)) = Inr (splice out (unat (o1 - s) * es) data)"
    unfolding memcpy_def u using fit' bytes(1) by simp
  moreover have "copied ds es (bs, bc, content) ss sc out (splice out (unat (o1 - s) * es) data)"
    unfolding e
    by (rule direct_copied[OF blk pts es(2) le S L refl bytes fit' same]) assumption+
  ultimately show ?thesis by blast
qed

lemma global_request_copied:
  assumes req: "request_ok ds Req out" and v: "v = VarRec Req" and Req: "Req = reqs ! i"
    and meta: "MetadataBase v step rank = Some meta"
    and blk: "block_ok decompress (stream step rank) v meta b"
    and rd: "reads_stream read stream"
    and cont: "block_content decompress (stream step rank) v meta b = Inr content"
    and es: "es = unat (VB_ElementSize v)"
  shows "\<exists>rrs out'. global_request ds Req i step rank meta b = Inr rrs \<and> (\<forall>rr\<in>set rrs. ReqIndex rr = i) \<and>
    foldR (perform_app read decompress ds reqs) rrs out = Inr out' \<and>
    copied ds es (block_start v meta b, block_count v meta b, content) (ReqStart Req) (ReqCount Req) out out'"
proof -
  let ?n = "DimCount v" let ?ss = "ReqStart Req" let ?sc = "ReqCount Req"
  let ?bs = "block_start v meta b" let ?bc = "block_count v meta b"
  let ?loc = "DataBlockLocation meta ! unat b"
  note r = request_okD[OF req v refl es] and k = block_okD[OF blk]
  have tot: "total ?bc \<le> 18446744073709551616"
    using k(6) le_mult_size[OF r(9), of _ "block_size v meta b"] by (simp add: block_size_def es)
  show ?thesis
  proof (cases "BP5_IntersectionStartCount ?n ?ss ?sc ?bs ?bc")
    case None
    then have none: "global_request ds Req i step rank meta b = Inr []"
      unfolding global_request_def Let_def v[symmetric] block_start_def[symmetric] block_count_def[symmetric]
      using block_ok_offsets[OF blk] by (simp only: if_False option.case)
    have "\<not> in_block ?bs ?bc p" if "in_block ?ss ?sc p" for p
      by (rule no_overlap[OF r(5) k(1) r(3) r(7) k(3) None that])
    then show ?thesis using none copied_apart by fastforce
  next
    case (Some x)
    obtain os oc where x: "x = (os, oc)" by (cases x)
    note int = Some[unfolded x]
    define oe where "oe = map (\<lambda>d. os ! d + oc ! d - 1) [0..<?n]"
    note c = overlap_corners[OF r(5) k(1) r(3) r(7) k(3) int tot, folded oe_def]
    show ?thesis
    proof (cases "HasOperator v")
      case True
      let ?rr = "\<lparr> Timestep = step, WriterRank = rank, StartOffset = ?loc,
                      ReadLength = DataBlockSize meta ! unat b, DestinationAddr = 0,
                      DirectToAppMemory = False, ReqIndex = i, OffsetInBlock = 0, BlockID = b \<rparr>"
      have rr: "global_request ds Req i step rank meta b = Inr [?rr]"
        unfolding global_request_def Let_def v[symmetric] block_start_def[symmetric]
          block_count_def[symmetric] int
        using True k(4) block_ok_offsets[OF blk] by simp
      let ?bs' = "stored_bytes (stream step rank) ?loc (unat (DataBlockSize meta ! unat b))"
      have got: "read step rank ?loc (DataBlockSize meta ! unat b) = Inr ?bs'"
        using rd k(7)[OF True] by (simp add: reads_stream_def)
      have dec: "decompress ?bs' (block_size v meta b) = Inr content"
        using cont True by (simp add: block_content_def)
      have lc: "length content = total ?bc * es" using k(9)[OF cont] by (simp add: block_size_def es)
      obtain out' where o: "FinalizeGet decompress ds reqs ?rr ?bs' out = Inr out'"
        "copied ds es (?bs, ?bc, content) ?ss ?sc out out'"
        using FinalizeGet_copied[OF req v, of reqs ?rr meta decompress "stream step rank" es ?bs' content 0 content]
          Req meta blk c(1,2) es dec True place_bound[OF _ k(3) _ tot, of _ es "length content" ds] lc k(6) k(9)[OF cont]
        by (auto simp: block_size_def)
      then show ?thesis using rr got by (auto simp: perform_app_def)
    next
      case False
      define S where "S = place ds es ?bs ?bc os"
      define E where "E = place ds es ?bs ?bc oe + es"
      note g = global_request_piece[OF v False es r(9) r(5) r(3) r(7) blk int, where ds = ds,
          folded oe_def S_def E_def]
      let ?st = "stream step rank"
      let ?data = "stored_bytes ?st (?loc + of_nat S) (E - S)"
      have fit: "unat ?loc + E \<le> length ?st" "length ?st < 2 ^ 63" using k(8)[OF False] g(3) k(5) by simp_all
      have small: "S < 2 ^ 64" "E < 2 ^ 64" using fit g(2) by simp_all
      have u: "unat (?loc + of_nat S) = unat ?loc + S" "unat (of_nat (E - S) :: u64) = E - S"
        using fit g(2) small by (simp_all add: unat_add_small unat_of_nat_small del: of_nat_diff)
      have got: "read step rank (?loc + of_nat S) (of_nat (E - S)) = Inr ?data"
        using rd fit g(2) u by (simp add: reads_stream_def)
      have len: "length ?data = E - S" using fit g(2) u by (intro length_stored) simp
      have content: "content = stored_bytes ?st ?loc (block_size v meta b)"
        using cont False by (simp add: block_content_def)
      have bytes: "?data ! m = content ! (S + m)" if "m < E - S" for m
      proof -
        have "?data ! m = ?st ! (unat ?loc + S + m)"
          using that fit g(2) u by (subst stored_bytes_nth) simp_all
        also have "\<dots> = content ! (S + m)"
          unfolding content using that g(3) k(8)[OF False] by (subst stored_bytes_nth) (simp_all add: add.assoc)
        finally show ?thesis .
      qed
      show ?thesis
      proof (cases "direct_ok ds Req")
        case True
        then have n: "?n = 1" and same: "SourceIsLittleEndian ds = ReaderIsLittleEndian ds"
          by (simp_all add: direct_ok_def IsContiguousTransfer_def v)
        have len': "length ?data = place ds es ?bs ?bc (map (\<lambda>d. os ! d + oc ! d - 1) [0..<1]) + es
            - place ds es ?bs ?bc os"
          using len by (simp add: S_def E_def oe_def n)
        have bytes': "?data ! m = content ! (place ds es ?bs ?bc os + m)"
          if "m < place ds es ?bs ?bc (map (\<lambda>d. os ! d + oc ! d - 1) [0..<1]) + es - place ds es ?bs ?bc os" for m
          using bytes[of m] that by (simp add: S_def E_def oe_def n)
        have size: "total ?bc * es < 2 ^ 63" using k(6) by (simp add: block_size_def es)
        obtain out' where o: "memcpy out (if (?bs ! 0 - ?ss ! 0) * VB_ElementSize v <s 0 then 0
              else (?bs ! 0 - ?ss ! 0) * VB_ElementSize v) ?data 0 (of_nat (E - S)) = Inr out'"
          "copied ds es (?bs, ?bc, content) ?ss ?sc out out'"
          using direct_piece[OF r(5)[unfolded n] k(1)[unfolded n] r(7) k(3) int[unfolded n] tot es r(9) r(11,12)
              size same len' bytes'] unfolding S_def E_def oe_def n by blast
        then show ?thesis
          using g(1) True got by (auto simp: perform_app_def FinalizeGet_def)
      next
        case nd: False
        let ?rr = "\<lparr> Timestep = step, WriterRank = rank, StartOffset = ?loc + of_nat S,
            ReadLength = of_nat (E - S), DestinationAddr = 0, DirectToAppMemory = False, ReqIndex = i,
            OffsetInBlock = of_nat S, BlockID = b \<rparr>"
        have part: "S \<le> place ds es ?bs ?bc p \<and> place ds es ?bs ?bc p + es \<le> S + length ?data"
          if "in_block ?ss ?sc p" "in_block ?bs ?bc p" for p
          using c(8)[OF that] g(2) len by (simp add: S_def E_def)
        have cont': "?data ! (m - S) = content ! m" if "S \<le> m" "m < S + length ?data" for m
          using bytes[of "m - S"] that len by simp
        have "\<exists>out'. FinalizeGet decompress ds reqs ?rr ?data out = Inr out' \<and>
            copied ds es (block_start v meta (BlockID ?rr), block_count v meta (BlockID ?rr), content) ?ss ?sc out out'"
        proof (rule FinalizeGet_copied[where off = S and buf = ?data and decompress = decompress
              and stream = ?st, OF req v])
          show "MetadataBase v (Timestep ?rr) (WriterRank ?rr) = Some meta" using meta by simp
          show "length ?data < 2 ^ 63" using len fit by linarith
          fix m assume "S \<le> m" "m < S + length ?data"
          then show "?data ! (m - S) = content ! m" by (rule cont')
        qed (use Req blk c(1,2) es False part in simp_all)
        then obtain out' where o: "FinalizeGet decompress ds reqs ?rr ?data out = Inr out'"
          "copied ds es (?bs, ?bc, content) ?ss ?sc out out'" by auto
        then show ?thesis using g(1) nd got by (auto simp: perform_app_def)
      qed
    qed
  qed
qed

end
