(* ===== verification/Adios_Bp5Deliver.thy ===== *)
theory Adios_Bp5Deliver
  imports Adios_Bp5GetCorrect
begin

section \<open>The whole read\<close>

text \<open>
  The pieces of all blocks, ranks, steps and requests put together: what \<open>PerformLocalGets\<close> leaves in
  the buffers of the application.
\<close>

subsection \<open>Several blocks\<close>

text \<open>
  The specification: a point of the selection has the bytes of the last block that holds it, or those
  it had before; no other byte changes.
\<close>

definition latest :: "(dims \<times> dims \<times> bytes) list \<Rightarrow> dims \<Rightarrow> (dims \<times> dims \<times> bytes) option" where
  "latest blocks p = find (\<lambda>(bs, bc, _). in_block bs bc p) (rev blocks)"

definition delivers ::
  "deserializer \<Rightarrow> nat \<Rightarrow> (dims \<times> dims \<times> bytes) list \<Rightarrow> dims \<Rightarrow> dims \<Rightarrow> bytes \<Rightarrow> bytes \<Rightarrow> bool" where
  "delivers ds es blocks ss sc out out' \<longleftrightarrow>
    length out' = length out \<and>
    (\<forall>p j. in_block ss sc p \<longrightarrow> j < es \<longrightarrow>
       out' ! (place ds es ss sc p + j) =
         (case latest blocks p of
            None \<Rightarrow> out ! (place ds es ss sc p + j)
          | Some (bs, bc, content) \<Rightarrow> content ! (place ds es bs bc p + swap_byte ds es j))) \<and>
    (\<forall>k < length out. (\<forall>p. in_block ss sc p \<longrightarrow>
         \<not> (place ds es ss sc p \<le> k \<and> k < place ds es ss sc p + es)) \<longrightarrow> out' ! k = out ! k)"

lemma find_app: "find P (xs @ ys) = (case find P xs of None \<Rightarrow> find P ys | Some x \<Rightarrow> Some x)"
  by (induction xs) simp_all

lemma latest_append:
  "latest (xs @ ys) p = (case latest ys p of None \<Rightarrow> latest xs p | Some b \<Rightarrow> Some b)"
  by (simp add: latest_def find_app split: option.split)

lemma delivers_Nil [simp]: "delivers ds es [] ss sc out out"
  by (simp add: delivers_def latest_def)

lemma delivers_trans:
  assumes "delivers ds es xs ss sc out out1" "delivers ds es ys ss sc out1 out2"
  shows "delivers ds es (xs @ ys) ss sc out out2"
  unfolding delivers_def
proof (intro conjI allI impI)
  show "length out2 = length out" using assms by (simp add: delivers_def)
next
  fix p j assume p: "in_block ss sc p" "j < es"
  show "out2 ! (place ds es ss sc p + j) = (case latest (xs @ ys) p of
        None \<Rightarrow> out ! (place ds es ss sc p + j)
      | Some (bs, bc, content) \<Rightarrow> content ! (place ds es bs bc p + swap_byte ds es j))"
    using assms p unfolding delivers_def latest_append by (cases "latest ys p") simp_all
next
  fix k assume "k < length out" "\<forall>p. in_block ss sc p \<longrightarrow>
      \<not> (place ds es ss sc p \<le> k \<and> k < place ds es ss sc p + es)"
  then show "out2 ! k = out ! k" using assms by (simp add: delivers_def)
qed

lemma place_apart:
  assumes "in_block s c p" "in_block s c q" "fits s c" "total c \<le> 18446744073709551616"
    and "place ds es s c q \<le> place ds es s c p + j" "place ds es s c p + j < place ds es s c q + es" "j < es"
  shows "p = q"
proof -
  let ?m = "major_order ds"
  have "length p = length s" "length q = length s" "length c = length s"
    using assms(1-3) by (simp_all add: in_blockD(3) fits_def)
  then have "?m p = ?m q"
    using row_offset_apart[of "?m s" "?m c" "?m p" "?m q" es] assms
    by (auto simp: in_block_major place_row)
  then show ?thesis by (metis major_order_twice)
qed

lemma delivers_one:
  assumes "copied ds es (bs, bc, content) ss sc out out'" "fits ss sc" "total sc \<le> 18446744073709551616"
    and "total sc * es \<le> length out"
  shows "delivers ds es [(bs, bc, content)] ss sc out out'"
  unfolding delivers_def
proof (intro conjI allI impI)
  fix p j assume p: "in_block ss sc p" "j < es"
  show "out' ! (place ds es ss sc p + j) = (case latest [(bs, bc, content)] p of
        None \<Rightarrow> out ! (place ds es ss sc p + j)
      | Some (bs, bc, content) \<Rightarrow> content ! (place ds es bs bc p + swap_byte ds es j))"
  proof (cases "in_block bs bc p")
    case True
    then show ?thesis using assms(1) p by (simp add: copied_def latest_def)
  next
    case False
    have "place ds es ss sc p + j < length out"
      using place_bound[OF p(1) assms(2,4,3), of ds] p(2) by simp
    moreover have "\<not> (place ds es ss sc q \<le> place ds es ss sc p + j \<and>
        place ds es ss sc p + j < place ds es ss sc q + es)" if "in_block ss sc q" "in_block bs bc q" for q
      using place_apart[OF p(1) that(1) assms(2,3), of ds es j] False that(2) p(2) by blast
    ultimately show ?thesis using assms(1) False by (simp add: copied_def latest_def)
  qed
qed (use assms(1) in \<open>auto simp: copied_def\<close>)

text \<open>
  What a list of read requests of one request of the application does to its buffer, whatever the
  buffer holds.
\<close>

definition serves ::
  "(nat \<Rightarrow> nat \<Rightarrow> u64 \<Rightarrow> u64 \<Rightarrow> bytes result) \<Rightarrow> (bytes \<Rightarrow> nat \<Rightarrow> bytes result) \<Rightarrow> deserializer \<Rightarrow>
   array_request list \<Rightarrow> nat \<Rightarrow> read_request list result \<Rightarrow> (dims \<times> dims \<times> bytes) list \<Rightarrow> bool" where
  "serves read decompress ds reqs i pieces blocks \<longleftrightarrow>
    (\<exists>rrs. pieces = Inr rrs \<and> (\<forall>rr\<in>set rrs. ReqIndex rr = i) \<and>
      (\<forall>out. request_ok ds (reqs ! i) out \<longrightarrow>
        (\<exists>out'. foldR (perform_app read decompress ds reqs) rrs out = Inr out' \<and>
           delivers ds (unat (VB_ElementSize (VarRec (reqs ! i)))) blocks
             (ReqStart (reqs ! i)) (ReqCount (reqs ! i)) out out')))"

lemma servesI:
  assumes "pieces = Inr rrs" "\<And>rr. rr \<in> set rrs \<Longrightarrow> ReqIndex rr = i"
    "\<And>out. request_ok ds (reqs ! i) out \<Longrightarrow>
      \<exists>out'. foldR (perform_app read decompress ds reqs) rrs out = Inr out' \<and>
        delivers ds (unat (VB_ElementSize (VarRec (reqs ! i)))) blocks
          (ReqStart (reqs ! i)) (ReqCount (reqs ! i)) out out'"
  shows "serves read decompress ds reqs i pieces blocks"
  using assms by (auto simp: serves_def)

lemma serves_Nil [simp]: "serves read decompress ds reqs i (Inr []) []"
  by (rule servesI) auto

lemma request_ok_length: "request_ok ds Req out \<Longrightarrow> length out' = length out \<Longrightarrow> request_ok ds Req out'"
  by (simp add: request_ok_def)

lemma serves_append:
  assumes "serves read decompress ds reqs i a xs" "serves read decompress ds reqs i b ys"
  shows "serves read decompress ds reqs i (bindR a (\<lambda>r. bindR b (\<lambda>s. Inr (r @ s)))) (xs @ ys)"
proof -
  obtain r s where a: "a = Inr r" "\<forall>rr\<in>set r. ReqIndex rr = i" and b: "b = Inr s" "\<forall>rr\<in>set s. ReqIndex rr = i"
    using assms by (auto simp: serves_def)
  show ?thesis
  proof (rule servesI)
    show "bindR a (\<lambda>r. bindR b (\<lambda>s. Inr (r @ s))) = Inr (r @ s)" using a b by simp
    fix out assume ok: "request_ok ds (reqs ! i) out"
    obtain out1 where o1: "foldR (perform_app read decompress ds reqs) r out = Inr out1"
      "delivers ds (unat (VB_ElementSize (VarRec (reqs ! i)))) xs (ReqStart (reqs ! i)) (ReqCount (reqs ! i)) out out1"
      using assms(1) ok a by (auto simp: serves_def)
    then have "request_ok ds (reqs ! i) out1" using ok request_ok_length by (auto simp: delivers_def)
    then obtain out2 where o2: "foldR (perform_app read decompress ds reqs) s out1 = Inr out2"
      "delivers ds (unat (VB_ElementSize (VarRec (reqs ! i)))) ys (ReqStart (reqs ! i)) (ReqCount (reqs ! i)) out1 out2"
      using assms(2) b by (auto simp: serves_def)
    show "\<exists>out'. foldR (perform_app read decompress ds reqs) (r @ s) out = Inr out' \<and>
        delivers ds (unat (VB_ElementSize (VarRec (reqs ! i)))) (xs @ ys)
          (ReqStart (reqs ! i)) (ReqCount (reqs ! i)) out out'"
      using o1 o2 delivers_trans by (auto simp: foldR_append)
  qed (use a b in auto)
qed

lemma serves_concatR:
  assumes "\<And>x. x \<in> set xs \<Longrightarrow> serves read decompress ds reqs i (f x) (g x)"
  shows "serves read decompress ds reqs i (concatR f xs) (concat (map g xs))"
  using assms by (induction xs) (simp_all add: serves_append)

subsection \<open>The blocks of a request\<close>

definition rank_blocks ::
  "(bytes \<Rightarrow> nat \<Rightarrow> bytes result) \<Rightarrow> (nat \<Rightarrow> nat \<Rightarrow> bytes) \<Rightarrow> var_rec \<Rightarrow> nat \<Rightarrow> nat \<Rightarrow>
   (dims \<times> dims \<times> bytes) list" where
  "rank_blocks decompress stream v step rank =
    (case MetadataBase v step rank of
       None \<Rightarrow> []
     | Some meta \<Rightarrow>
         map (\<lambda>b. (block_start v meta (of_nat b), block_count v meta (of_nat b),
             case block_content decompress (stream step rank) v meta (of_nat b) of Inl _ \<Rightarrow> [] | Inr c \<Rightarrow> c))
           [0..<unat (BlockCount meta)])"

definition request_steps :: "deserializer \<Rightarrow> array_request \<Rightarrow> nat list" where
  "request_steps ds Req = (if FlattenSteps ds then [0..<ControlArraySize ds] else [ReqStep Req])"

definition selection_blocks ::
  "(bytes \<Rightarrow> nat \<Rightarrow> bytes result) \<Rightarrow> (nat \<Rightarrow> nat \<Rightarrow> bytes) \<Rightarrow> deserializer \<Rightarrow> array_request \<Rightarrow>
   (dims \<times> dims \<times> bytes) list" where
  "selection_blocks decompress stream ds Req =
    concat (map (\<lambda>step. concat (map (rank_blocks decompress stream (VarRec Req) step)
        [0..<WriterCohortSize ds step])) (request_steps ds Req))"

definition rank_ok ::
  "(bytes \<Rightarrow> nat \<Rightarrow> bytes result) \<Rightarrow> (nat \<Rightarrow> nat \<Rightarrow> bytes) \<Rightarrow> var_rec \<Rightarrow> nat \<Rightarrow> nat \<Rightarrow> bool" where
  "rank_ok decompress stream v step rank \<longleftrightarrow>
    (case MetadataBase v step rank of
       None \<Rightarrow> True
     | Some meta \<Rightarrow> list_all (\<lambda>b. block_ok decompress (stream step rank) v meta (of_nat b))
         [0..<unat (BlockCount meta)])"

definition blocks_ok ::
  "(bytes \<Rightarrow> nat \<Rightarrow> bytes result) \<Rightarrow> (nat \<Rightarrow> nat \<Rightarrow> bytes) \<Rightarrow> deserializer \<Rightarrow> array_request \<Rightarrow> bool" where
  "blocks_ok decompress stream ds Req \<longleftrightarrow>
    list_all (\<lambda>step. list_all (rank_ok decompress stream (VarRec Req) step) [0..<WriterCohortSize ds step])
      (request_steps ds Req)"

lemma serves_block:
  assumes meta: "MetadataBase (VarRec (reqs ! i)) step rank = Some meta"
    and blk: "block_ok decompress (stream step rank) (VarRec (reqs ! i)) meta b"
    and rd: "reads_stream read stream"
    and cont: "block_content decompress (stream step rank) (VarRec (reqs ! i)) meta b = Inr content"
    and some: "request_ok ds (reqs ! i) out0"
  shows "serves read decompress ds reqs i (global_request ds (reqs ! i) i step rank meta b)
    [(block_start (VarRec (reqs ! i)) meta b, block_count (VarRec (reqs ! i)) meta b, content)]"
proof -
  note g = global_request_copied[OF _ refl refl meta blk rd cont refl]
  obtain rrs where rrs: "global_request ds (reqs ! i) i step rank meta b = Inr rrs" "\<forall>rr\<in>set rrs. ReqIndex rr = i"
    using g[OF some] by blast
  show ?thesis
  proof (rule servesI[OF rrs(1)])
    fix out assume ok: "request_ok ds (reqs ! i) out"
    note r = request_okD[OF ok refl refl refl]
    have tot: "total (ReqCount (reqs ! i)) \<le> 18446744073709551616"
      by (rule le_mult_size[OF r(9,11)]) (use r(12) in simp)
    show "\<exists>out'. foldR (perform_app read decompress ds reqs) rrs out = Inr out' \<and>
        delivers ds (unat (VB_ElementSize (VarRec (reqs ! i))))
          [(block_start (VarRec (reqs ! i)) meta b, block_count (VarRec (reqs ! i)) meta b, content)]
          (ReqStart (reqs ! i)) (ReqCount (reqs ! i)) out out'"
      using g[OF ok] rrs(1) delivers_one[OF _ r(7) tot r(11)] by auto
  qed (use rrs in blast)
qed

lemma serves_rank:
  assumes "rank_ok decompress stream (VarRec (reqs ! i)) step rank" "reads_stream read stream"
    and "request_ok ds (reqs ! i) out0"
  shows "serves read decompress ds reqs i (global_rank ds (reqs ! i) i step rank)
    (rank_blocks decompress stream (VarRec (reqs ! i)) step rank)"
proof (cases "MetadataBase (VarRec (reqs ! i)) step rank")
  case None
  then show ?thesis by (simp add: global_rank_def rank_blocks_def)
next
  case (Some meta)
  let ?v = "VarRec (reqs ! i)"
  have one: "serves read decompress ds reqs i (global_request ds (reqs ! i) i step rank meta (of_nat b))
      [(block_start ?v meta (of_nat b), block_count ?v meta (of_nat b),
        case block_content decompress (stream step rank) ?v meta (of_nat b) of Inl _ \<Rightarrow> [] | Inr c \<Rightarrow> c)]"
    if "b \<in> set [0..<unat (BlockCount meta)]" for b
  proof -
    have ok: "block_ok decompress (stream step rank) ?v meta (of_nat b)"
      using assms(1) that by (simp add: rank_ok_def Some list_all_upt)
    then obtain c where "block_content decompress (stream step rank) ?v meta (of_nat b) = Inr c"
      by (auto simp: block_ok_def split: sum.splits)
    then show ?thesis using serves_block[OF Some ok assms(2) _ assms(3)] by simp
  qed
  have "serves read decompress ds reqs i
      (concatR (\<lambda>b. global_request ds (reqs ! i) i step rank meta (of_nat b)) [0..<unat (BlockCount meta)])
      (concat (map (\<lambda>b. [(block_start ?v meta (of_nat b), block_count ?v meta (of_nat b),
        case block_content decompress (stream step rank) ?v meta (of_nat b) of Inl _ \<Rightarrow> [] | Inr c \<Rightarrow> c)])
          [0..<unat (BlockCount meta)]))"
    by (rule serves_concatR) (rule one)
  then show ?thesis by (simp add: global_rank_def rank_blocks_def Some)
qed

lemma serves_request:
  assumes "blocks_ok decompress stream ds (reqs ! i)" "reads_stream read stream"
    and ok: "request_ok ds (reqs ! i) out0"
  shows "serves read decompress ds reqs i (generate_one ds i (reqs ! i))
    (selection_blocks decompress stream ds (reqs ! i))"
proof -
  have "RequestType (reqs ! i) = Global" using request_okD(1)[OF ok refl refl refl] .
  moreover have "rank_ok decompress stream (VarRec (reqs ! i)) step rank"
    if "step \<in> set (request_steps ds (reqs ! i))" "rank \<in> set [0..<WriterCohortSize ds step]" for step rank
    using assms(1) that by (auto simp: blocks_ok_def list_all_iff)
  ultimately show ?thesis
    using assms(2) ok
    by (simp add: generate_one_def Let_def flip: request_steps_def)
      (auto simp: selection_blocks_def intro!: serves_concatR serves_rank)
qed

subsection \<open>Several requests\<close>

lemma perform_own_buffer:
  assumes "\<forall>rr\<in>set rrs. ReqIndex rr = i" "i < length bufs"
  shows "foldR (perform_one read decompress ds reqs) rrs bufs
    = bindR (foldR (perform_app read decompress ds reqs) rrs (bufs ! i)) (\<lambda>app. Inr (bufs[i := app]))"
  using assms
proof (induction rrs arbitrary: bufs)
  case (Cons rr rrs)
  then show ?case
    by (cases "perform_app read decompress ds reqs rr (bufs ! i)") (simp_all add: perform_one_def)
qed simp

lemma requests_prefix:
  assumes len: "length bufs = length reqs"
    and each: "\<And>i. i < length reqs \<Longrightarrow> serves read decompress ds reqs i (generate_one ds i (reqs ! i)) (blocks i)"
    and ok: "\<And>i. i < length reqs \<Longrightarrow> request_ok ds (reqs ! i) (bufs ! i)"
    and "m \<le> length reqs"
  shows "\<exists>rrs bufs'. concatR (\<lambda>i. generate_one ds i (reqs ! i)) [0..<m] = Inr rrs \<and>
    foldR (perform_one read decompress ds reqs) rrs bufs = Inr bufs' \<and> length bufs' = length bufs \<and>
    (\<forall>i < m. delivers ds (unat (VB_ElementSize (VarRec (reqs ! i)))) (blocks i)
        (ReqStart (reqs ! i)) (ReqCount (reqs ! i)) (bufs ! i) (bufs' ! i)) \<and>
    (\<forall>i < length bufs. m \<le> i \<longrightarrow> bufs' ! i = bufs ! i)"
  using assms(4)
proof (induction m)
  case (Suc m)
  then have m: "m < length reqs" by simp
  obtain rrs bufs' where IH: "concatR (\<lambda>i. generate_one ds i (reqs ! i)) [0..<m] = Inr rrs"
    "foldR (perform_one read decompress ds reqs) rrs bufs = Inr bufs'" "length bufs' = length bufs"
    "\<forall>i < m. delivers ds (unat (VB_ElementSize (VarRec (reqs ! i)))) (blocks i)
        (ReqStart (reqs ! i)) (ReqCount (reqs ! i)) (bufs ! i) (bufs' ! i)"
    "\<forall>i < length bufs. m \<le> i \<longrightarrow> bufs' ! i = bufs ! i"
    using Suc by auto
  have same: "bufs' ! m = bufs ! m" using IH(5) m len by simp
  obtain rs out where s: "generate_one ds m (reqs ! m) = Inr rs" "\<forall>rr\<in>set rs. ReqIndex rr = m"
    "foldR (perform_app read decompress ds reqs) rs (bufs ! m) = Inr out"
    "delivers ds (unat (VB_ElementSize (VarRec (reqs ! m)))) (blocks m)
        (ReqStart (reqs ! m)) (ReqCount (reqs ! m)) (bufs ! m) out"
    using each[OF m] ok[OF m] by (auto simp: serves_def)
  have gen: "concatR f (xs @ [x]) = bindR (concatR f xs) (\<lambda>a. bindR (f x) (\<lambda>b. Inr (a @ b)))"
    for f :: "nat \<Rightarrow> read_request list result" and xs x
    by (induction xs) (simp_all add: bindR_assoc bindR_Inr)
  have "foldR (perform_one read decompress ds reqs) rs bufs' = Inr (bufs'[m := out])"
    using perform_own_buffer[OF s(2), of bufs'] s(3) m len IH(3) same by simp
  then have "foldR (perform_one read decompress ds reqs) (rrs @ rs) bufs = Inr (bufs'[m := out])"
    using IH(2) by (simp add: foldR_append)
  moreover have "concatR (\<lambda>i. generate_one ds i (reqs ! i)) [0..<Suc m] = Inr (rrs @ rs)"
    using IH(1) s(1) gen[of "\<lambda>i. generate_one ds i (reqs ! i)" "[0..<m]" m] by simp
  ultimately show ?case using IH(3-5) s(4) m len by (auto simp: less_Suc_eq)
qed simp

lemma all_requests:
  assumes "length bufs = length reqs" "reads_stream read stream"
    and "\<And>i. i < length reqs \<Longrightarrow>
      request_ok ds (reqs ! i) (bufs ! i) \<and> blocks_ok decompress stream ds (reqs ! i)"
  shows "\<exists>bufs'. PerformLocalGets read decompress ds reqs bufs = Inr bufs' \<and> length bufs' = length bufs \<and>
    (\<forall>i < length reqs. delivers ds (unat (VB_ElementSize (VarRec (reqs ! i))))
        (selection_blocks decompress stream ds (reqs ! i))
        (ReqStart (reqs ! i)) (ReqCount (reqs ! i)) (bufs ! i) (bufs' ! i))"
proof -
  have "serves read decompress ds reqs i (generate_one ds i (reqs ! i))
      (selection_blocks decompress stream ds (reqs ! i))" if "i < length reqs" for i
    using serves_request assms that by blast
  from requests_prefix[OF assms(1) this _ le_refl] show ?thesis
    unfolding PerformLocalGets_def GenerateReadRequests_def using assms(3) by fastforce
qed


text \<open>
  The example: a \<open>2 \<times> 3\<close> array of two-byte elements, written by two ranks as blocks of one row each,
  rank 0 behind a padding of one byte; the selection is the last two columns.
\<close>

definition demo_stream :: "nat \<Rightarrow> nat \<Rightarrow> bytes" where
  "demo_stream step rank = (if rank = 0 then [99, 1, 2, 3, 4, 5, 6] else [7, 8, 9, 10, 11, 12])"

definition demo_read :: "nat \<Rightarrow> nat \<Rightarrow> u64 \<Rightarrow> u64 \<Rightarrow> bytes result" where
  "demo_read step rank off n =
    (if unat off + unat n \<le> length (demo_stream step rank)
     then Inr (stored_bytes (demo_stream step rank) off (unat n)) else Inl RuntimeError)"

definition demo_var :: var_rec where
  "demo_var = \<lparr> DimCount = 2, VarType = DT_Int16, ElementSize = 2, VB_ElementSize = 2, HasOperator = False,
     MetadataBase = (\<lambda>step rank. Some \<lparr> BlockCount = 1, Count = [1, 3],
       Offsets = Some [of_nat rank, 0], DataBlockLocation = [if rank = 0 then 1 else 0], DataBlockSize = [6] \<rparr>) \<rparr>"

definition demo_request :: array_request where
  "demo_request = \<lparr> VarRec = demo_var, RequestType = Global, ReqStep = 0, ReqBlockID = 0, ReqStart = [0, 1],
     ReqCount = [2, 2], MemoryStart = [], MemoryCount = [], HostMemory = True \<rparr>"

definition demo_reader :: deserializer where
  "demo_reader = \<lparr> ReaderIsRowMajor = True, SourceIsLittleEndian = True, ReaderIsLittleEndian = False,
     FlattenSteps = False, ControlArraySize = 1, WriterCohortSize = (\<lambda>_. 2) \<rparr>"

lemma demo_read_stream: "reads_stream demo_read demo_stream"
  by (simp add: reads_stream_def demo_read_def)

lemma demo_request_ok: "request_ok demo_reader demo_request (replicate 8 0)"
  by (simp add: request_ok_def demo_request_def demo_var_def fits_def total_def complex_type_def Let_def
      less_Suc_eq)

lemma demo_rank_ok: "rank < 2 \<Longrightarrow> rank_ok (\<lambda>bs n. Inr bs) demo_stream demo_var step rank"
  by (auto simp: rank_ok_def demo_var_def block_ok_def block_content_def block_size_def block_start_def
      block_count_def block_dims_def demo_stream_def stored_bytes_def noData_def fits_def total_def less_Suc_eq
      less_2_cases_iff)

lemma demo_blocks_ok: "blocks_ok (\<lambda>bs n. Inr bs) demo_stream demo_reader demo_request"
  by (auto simp: blocks_ok_def list_all_iff demo_rank_ok demo_request_def demo_reader_def)


subsection \<open>Where reads go wrong\<close>

text \<open>One rank and one block of one step; \<open>n\<close> is the number of dimensions.\<close>

definition one_block_var :: "nat \<Rightarrow> DataType \<Rightarrow> bool \<Rightarrow> dims \<Rightarrow> dims \<Rightarrow> var_rec" where
  "one_block_var n t operator start count = \<lparr> DimCount = n, VarType = t, ElementSize = 1, VB_ElementSize = 1,
     HasOperator = operator,
     MetadataBase = (\<lambda>step rank. Some \<lparr> BlockCount = 1, Count = count, Offsets = Some start,
       DataBlockLocation = [of_nat step], DataBlockSize = [of_nat (total count)] \<rparr>) \<rparr>"

definition one_block_request :: "var_rec \<Rightarrow> request_type \<Rightarrow> dims \<Rightarrow> dims \<Rightarrow> dims \<Rightarrow> dims \<Rightarrow> array_request" where
  "one_block_request v t start count mstart mcount = \<lparr> VarRec = v, RequestType = t, ReqStep = 0, ReqBlockID = 0,
     ReqStart = start, ReqCount = count, MemoryStart = mstart, MemoryCount = mcount, HostMemory = True \<rparr>"

definition one_rank_reader :: "bool \<Rightarrow> deserializer" where
  "one_rank_reader flatten = \<lparr> ReaderIsRowMajor = True, SourceIsLittleEndian = True, ReaderIsLittleEndian = True,
     FlattenSteps = flatten, ControlArraySize = 2, WriterCohortSize = (\<lambda>_. 1) \<rparr>"

definition one_block_read :: "nat \<Rightarrow> nat \<Rightarrow> u64 \<Rightarrow> u64 \<Rightarrow> bytes result" where
  "one_block_read step rank off n = Inr (take (unat n) (drop (unat off) [10, 11, 12, 13, 14, 15, 16]))"


end
