(* ===== verification/Adios_Bp5File.thy ===== *)
theory Adios_Bp5File
  imports Adios_Bytes
begin

section \<open>The metadata files of BP5\<close>

text \<open>
  What rank 0 of a BP5 writer puts into \<open>md.idx\<close>, \<open>md.0\<close> and \<open>mmd.0\<close>, and how a reader finds metadata
  and data again (source/adios2/engine/bp5/BP5Writer.cpp and BP5Reader.cpp). Each step appends a
  record to the index, with the place of its metadata and, for every writer, where its flushes and
  its last data lie in the data file; a record of the subfile of every rank precedes it when that
  has changed, and the first record follows a header of 64 bytes.

  A file is the list of its bytes, written by appending. The positions in a buffer are words, as in
  the code; what lies past the end of a buffer is the error \<open>UndefinedBehaviour\<close>. The version numbers
  come from the build and the file id from \<open>std::random_device\<close>: both are arguments.
\<close>

subsection \<open>Writing the index\<close>

record index_writer =
  w_Version :: "nat \<times> nat \<times> nat"
  w_LittleEndian :: bool
  w_ColumnMajor :: bool
  w_FlattenSteps :: bool
  w_CommSize :: nat
  w_NumAggregators :: u64
  w_SubStreams :: u64
  w_WriterSubfileMap :: "u64 list"
  w_FlushPosSizeInfo :: "u64 list list"
  w_WriterDataPos :: "u64 list"
  w_MetaDataPos :: u64

text \<open>\<open>helper::CopyToBuffer\<close> of bytes to a buffer and a position in it.\<close>

type_synonym cursor = "bytes \<times> u64"

definition CopyToBuffer :: "bytes \<Rightarrow> cursor \<Rightarrow> cursor result" where
  "CopyToBuffer bs = (\<lambda>(buf, pos).
    if unat pos + length bs \<le> length buf
    then Inr (splice buf (unat pos) bs, pos + of_nat (length bs)) else Inl UndefinedBehaviour)"

definition host64 :: "index_writer \<Rightarrow> u64 \<Rightarrow> bytes" where
  "host64 w x = ordered (w_LittleEndian w) (u64_bytes x)"

definition host32 :: "index_writer \<Rightarrow> u32 \<Rightarrow> bytes" where
  "host32 w x = ordered (w_LittleEndian w) (le_bytes 4 (unat x))"

text \<open>\<open>std::to_string\<close> of a natural number, and the test of the position in \<open>MakeHeader\<close>.\<close>

fun dec_string :: "nat \<Rightarrow> string" where
  "dec_string n = (if n < 10 then [char_of (48 + n)] else dec_string (n div 10) @ [char_of (48 + n mod 10)])"

declare dec_string.simps [simp del]

definition check_position :: "u64 \<Rightarrow> cursor \<Rightarrow> cursor result" where
  "check_position expected s = (if snd s \<noteq> expected then Inl RuntimeError else Inr s)"

definition version_tag :: "nat \<times> nat \<times> nat \<Rightarrow> string \<Rightarrow> string" where
  "version_tag = (\<lambda>(major, minor, patch) fileType.
    (let tag = ''ADIOS-BP v'' @ dec_string major @ ''.'' @ [char_of ((48 + minor) mod 256)] @ ''.'' @
               dec_string patch @ '' '';
         maxTypeLen = 32 - of_nat (length tag) :: u64
     in tag @ take (unat maxTypeLen) fileType))"

definition MakeHeader :: "index_writer \<Rightarrow> u32 \<Rightarrow> string \<Rightarrow> bool \<Rightarrow> cursor \<Rightarrow> cursor result" where
  "MakeHeader w uuid fileType isActive = (\<lambda>(buffer, position).
    if position > 0 then Inl InvalidArgument
    else
      (let buffer = (if length buffer < 64 then buffer @ replicate (64 - length buffer) 0 else buffer);
           tag = version_tag (w_Version w) fileType;
           (major, minor, patch) = w_Version w;
           first = (\<lambda>s. [hd (chars s @ [0])])
       in bindR (check_position 0 (buffer, position)) (\<lambda>s.
          bindR (if length tag < 32
                 then bindR (CopyToBuffer (chars tag) s) (\<lambda>(b, p). Inr (b, p + (32 - of_nat (length tag))))
                 else CopyToBuffer (take 32 (chars tag)) s) (\<lambda>s.
          bindR (CopyToBuffer (first (dec_string major)) s) (\<lambda>s.
          bindR (CopyToBuffer (first [char_of ((48 + minor) mod 256 :: nat)]) s) (\<lambda>s.
          bindR (CopyToBuffer (first (dec_string patch)) s) (\<lambda>s.
          bindR (check_position 36 (fst s, 36)) (\<lambda>s.
          bindR (CopyToBuffer [if w_LittleEndian w then 0 else 1] s) (\<lambda>s.
          bindR (check_position 37 s) (\<lambda>s.
          bindR (CopyToBuffer [5] s) (\<lambda>s.
          bindR (check_position 38 s) (\<lambda>s.
          bindR (CopyToBuffer [2] s) (\<lambda>s.
          bindR (check_position 39 s) (\<lambda>s.
          bindR (CopyToBuffer [if isActive then 1 else 0] s) (\<lambda>s.
          bindR (CopyToBuffer [if w_ColumnMajor w then 121 else 110] s) (\<lambda>s.
          bindR (CopyToBuffer [of_bool (w_FlattenSteps w)] s) (\<lambda>s.
          bindR (check_position 42 s) (\<lambda>s.
          bindR (CopyToBuffer (host32 w uuid) s) (\<lambda>s. Inr (fst s, 64))))))))))))))))))))"

text \<open>The data positions of one writer: a pair for each flush, and the last position.\<close>

definition copy_flush :: "index_writer \<Rightarrow> nat \<Rightarrow> u64 list \<Rightarrow> cursor \<Rightarrow> cursor result" where
  "copy_flush w writer info s =
    (if 2 * writer + 1 < length info
     then CopyToBuffer (host64 w (info ! (2 * writer)) @ host64 w (info ! (2 * writer + 1))) s
     else Inl UndefinedBehaviour)"

definition copy_positions :: "index_writer \<Rightarrow> nat \<Rightarrow> cursor \<Rightarrow> cursor result" where
  "copy_positions w writer s =
    bindR (foldR (copy_flush w writer) (w_FlushPosSizeInfo w) s) (\<lambda>s.
      if writer < length (w_WriterDataPos w) then CopyToBuffer (host64 w (w_WriterDataPos w ! writer)) s
      else Inl UndefinedBehaviour)"

definition index_bufsize :: "index_writer \<Rightarrow> u64 \<Rightarrow> u64" where
  "index_bufsize w MetaDataPos =
    (let F = of_nat (length (w_FlushPosSizeInfo w)); n = of_nat (w_CommSize w)
     in 1 + (4 + (F * 2 + 1) * n) * 8 + (if MetaDataPos = 0 then 64 else 0) +
        (if w_WriterSubfileMap w \<noteq> [] then 1 + (4 + n) * 8 else 0))"

definition copy_writer_map :: "index_writer \<Rightarrow> cursor \<Rightarrow> cursor result" where
  "copy_writer_map w s =
    bindR (CopyToBuffer [119] s) (\<lambda>s.
    bindR (CopyToBuffer (host64 w ((3 + of_nat (w_CommSize w)) * 8)) s) (\<lambda>s.
    bindR (CopyToBuffer (host64 w (of_nat (w_CommSize w))) s) (\<lambda>s.
    bindR (CopyToBuffer (host64 w (w_NumAggregators w)) s) (\<lambda>s.
    bindR (CopyToBuffer (host64 w (w_SubStreams w)) s) (\<lambda>s.
      if w_CommSize w \<le> length (w_WriterSubfileMap w)
      then CopyToBuffer (concat (map (host64 w) (take (w_CommSize w) (w_WriterSubfileMap w)))) s
      else Inl UndefinedBehaviour)))))"

definition copy_step_record :: "index_writer \<Rightarrow> u64 \<Rightarrow> u64 \<Rightarrow> cursor \<Rightarrow> cursor result" where
  "copy_step_record w MetaDataPos MetaDataSize s =
    (let F = of_nat (length (w_FlushPosSizeInfo w)) :: u64 in
     bindR (CopyToBuffer [115] s) (\<lambda>s.
     bindR (CopyToBuffer (host64 w ((3 + (F * 2 + 1) * of_nat (w_CommSize w)) * 8)) s) (\<lambda>s.
     bindR (CopyToBuffer (host64 w MetaDataPos) s) (\<lambda>s.
     bindR (CopyToBuffer (host64 w MetaDataSize) s) (\<lambda>s.
     bindR (CopyToBuffer (host64 w F) s) (\<lambda>s.
     foldR (copy_positions w) [0..<w_CommSize w] s))))))"

text \<open>The bytes appended to \<open>md.idx\<close>, and the writer with the lists emptied.\<close>

definition WriteMetadataFileIndex ::
  "index_writer \<Rightarrow> u32 \<Rightarrow> u64 \<Rightarrow> u64 \<Rightarrow> (bytes \<times> index_writer) result" where
  "WriteMetadataFileIndex w uuid MetaDataPos MetaDataSize =
    (let s = (replicate (unat (index_bufsize w MetaDataPos)) 0, 0)
     in bindR (if MetaDataPos = 0 then MakeHeader w uuid ''Index Table'' True s else Inr s) (\<lambda>s.
        bindR (if w_WriterSubfileMap w \<noteq> [] then copy_writer_map w s else Inr s) (\<lambda>s.
        bindR (copy_step_record w MetaDataPos MetaDataSize s) (\<lambda>(buf, pos).
          Inr (buf, w\<lparr>w_WriterSubfileMap := [], w_FlushPosSizeInfo := []\<rparr>)))))"

text \<open>\<open>UpdateActiveFlag\<close>: the flag in the header of the index.\<close>

definition UpdateActiveFlag :: "bool \<Rightarrow> bytes \<Rightarrow> bytes" where
  "UpdateActiveFlag active file = splice file 39 [if active then 1 else 0]"

subsection \<open>Writing the metadata\<close>

text \<open>
  An \<open>iovec\<close> is a pointer, null or to bytes, and a length. The sizes of all blocks precede the blocks;
  the two versions of \<open>WriteMetadata\<close> get the blocks of the ranks one by one or in one buffer.
\<close>

type_synonym iovec = "bytes option \<times> u64"

definition write_iovec :: "iovec \<Rightarrow> bytes result" where
  "write_iovec = (\<lambda>(base, len).
    case base of None \<Rightarrow> Inr []
    | Some b \<Rightarrow> if unat len \<le> length b then Inr (take (unat len) b) else Inl UndefinedBehaviour)"

definition iovec_size :: "iovec \<Rightarrow> u64" where
  "iovec_size = (\<lambda>(base, len). case base of None \<Rightarrow> 0 | Some _ \<Rightarrow> len)"

definition WriteMetadata_blocks ::
  "index_writer \<Rightarrow> iovec list \<Rightarrow> iovec list \<Rightarrow> (bytes \<times> u64 \<times> index_writer) result" where
  "WriteMetadata_blocks w MetaDataBlocks AttributeBlocks =
    (let SizeVector = map snd MetaDataBlocks; AttrSizeVector = map snd AttributeBlocks;
         MDataTotalSize = sum_list (map (\<lambda>s. 8 + s) (SizeVector @ AttrSizeVector));
         MetaDataSize = 8 + 8 * of_nat (length AttrSizeVector) + 8 * of_nat (length AttrSizeVector) +
           sum_list (map iovec_size (MetaDataBlocks @ AttributeBlocks))
     in bindR (mapR write_iovec (MetaDataBlocks @ AttributeBlocks)) (\<lambda>blocks.
          Inr (host64 w MDataTotalSize @ concat (map (host64 w) SizeVector) @
                 concat (map (host64 w) AttrSizeVector) @ concat blocks,
               MetaDataSize, w\<lparr>w_MetaDataPos := w_MetaDataPos w + MetaDataSize\<rparr>)))"

definition WriteMetadata_contig ::
  "index_writer \<Rightarrow> bytes \<Rightarrow> u64 list \<Rightarrow> iovec list \<Rightarrow> (bytes \<times> u64 \<times> index_writer) result" where
  "WriteMetadata_contig w ContigMetaData SizeVector AttributeBlocks =
    (let AttrSizeVector = map (\<lambda>a. if a < length AttributeBlocks then snd (AttributeBlocks ! a) else 0)
           [0..<length SizeVector];
         MDataTotalSize = sum_list SizeVector + of_nat (length SizeVector) * 8 +
           sum_list (map (\<lambda>s. 8 + s) AttrSizeVector);
         MetaDataSize = 8 + 8 * of_nat (length AttrSizeVector) + 8 * of_nat (length AttrSizeVector) +
           of_nat (length ContigMetaData) + sum_list (map iovec_size AttributeBlocks)
     in bindR (mapR write_iovec AttributeBlocks) (\<lambda>blocks.
          Inr (host64 w MDataTotalSize @ concat (map (host64 w) SizeVector) @
                 concat (map (host64 w) AttrSizeVector) @ ContigMetaData @ concat blocks,
               MetaDataSize, w\<lparr>w_MetaDataPos := w_MetaDataPos w + MetaDataSize\<rparr>)))"

text \<open>\<open>mmd.0\<close>: the FFS formats, each an id and a description.\<close>

definition WriteMetaMetadata :: "index_writer \<Rightarrow> (bytes \<times> bytes) list \<Rightarrow> bytes" where
  "WriteMetaMetadata w blocks =
    concat (map (\<lambda>(ID, Info). host64 w (of_nat (length ID)) @ host64 w (of_nat (length Info)) @ ID @ Info) blocks)"

subsection \<open>Reading the index\<close>

record writer_map =
  WriterCount :: u32
  AggregatorCount :: u32
  SubfileCount :: u32
  RankToSubfile :: "u64 list"

record index_reader =
  VersionTag :: bytes
  IsLittleEndian :: bool
  WriterIsActive :: bool
  WriterIsRowMajor :: bool
  r_FlattenSteps :: bool
  FileUUID :: u32
  WriterMap :: "u64 \<rightharpoonup> writer_map"
  WriterMapIndex :: "u64 list"
  LastMapStep :: u64
  LastWriterCount :: u64
  MetadataIndexTable :: "u64 \<rightharpoonup> u64 list"
  FilteredMetadataInfo :: "(u64 \<times> u64) list"
  StepsCount :: u64
  AbsStepsInFile :: u64

text \<open>The parameters of the reader: streaming, \<open>IgnoreFlattenSteps\<close> and the selection of steps.\<close>

record reader_params =
  Streaming :: bool
  IgnoreFlattenSteps :: bool
  IsSelectedStep :: "u64 \<Rightarrow> bool"

definition get_bytes_at :: "nat \<Rightarrow> bytes \<Rightarrow> u64 \<Rightarrow> (bytes \<times> u64) result" where
  "get_bytes_at n buffer position =
    (if unat position + n \<le> length buffer
     then Inr (take n (drop (unat position) buffer), position + of_nat n) else Inl UndefinedBehaviour)"

definition ReadValue8 :: "bytes \<Rightarrow> u64 \<Rightarrow> (u8 \<times> u64) result" where
  "ReadValue8 buffer position = bindR (get_bytes_at 1 buffer position) (\<lambda>(bs, p). Inr (hd bs, p))"

definition ReadValue32 :: "bool \<Rightarrow> bytes \<Rightarrow> u64 \<Rightarrow> (u32 \<times> u64) result" where
  "ReadValue32 little buffer position =
    bindR (get_bytes_at 4 buffer position) (\<lambda>(bs, p). Inr (of_nat (le_nat (ordered little bs)), p))"

definition ReadValue64 :: "bool \<Rightarrow> bytes \<Rightarrow> u64 \<Rightarrow> (u64 \<times> u64) result" where
  "ReadValue64 little buffer position =
    bindR (get_bytes_at 8 buffer position) (\<lambda>(bs, p). Inr (of_nat (le_nat (ordered little bs)), p))"

definition ParseHeader :: "reader_params \<Rightarrow> bytes \<Rightarrow> index_reader \<Rightarrow> index_reader result" where
  "ParseHeader params buffer r =
    bindR (get_bytes_at 32 buffer 0) (\<lambda>(tag, _).
    bindR (ReadValue8 buffer 36) (\<lambda>(endianness, _).
    bindR (ReadValue8 buffer 37) (\<lambda>(version, _).
      if version \<noteq> 5 then Inl RuntimeError
      else bindR (ReadValue8 buffer 38) (\<lambda>(minorversion, _).
        if minorversion \<noteq> 2 then Inl RuntimeError
        else bindR (ReadValue8 buffer 39) (\<lambda>(activeChar, _).
          bindR (ReadValue8 buffer 40) (\<lambda>(val, _).
          bindR (ReadValue8 buffer 41) (\<lambda>(flatten_val, _).
          bindR (ReadValue32 (endianness = 0) buffer 42) (\<lambda>(uuid, _).
            Inr (r\<lparr>VersionTag := tag, IsLittleEndian := (endianness = 0), WriterIsActive := (activeChar = 1),
                   WriterIsRowMajor := (val = 110),
                   r_FlattenSteps := (flatten_val \<noteq> 0 \<and> \<not> IgnoreFlattenSteps params),
                   FileUUID := uuid\<rparr>)))))))))"

text \<open>The locals of the loop over the records.\<close>

record parse_state =
  position :: u64
  metadataSizeToRead :: u64
  MetadataPosTotalSkip :: u64
  minfo_pos :: u64
  minfo_size :: u64
  run_n :: nat
  rd :: index_reader

fun read_subfiles :: "bool \<Rightarrow> bytes \<Rightarrow> nat \<Rightarrow> u64 \<Rightarrow> (u64 list \<times> u64) result" where
  "read_subfiles little buffer 0 pos = Inr ([], pos)"
| "read_subfiles little buffer (Suc n) pos =
    bindR (ReadValue64 little buffer pos) (\<lambda>(x, pos).
    bindR (read_subfiles little buffer n pos) (\<lambda>(xs, pos). Inr (x # xs, pos)))"

definition writer_map_record :: "bytes \<Rightarrow> u64 \<Rightarrow> parse_state \<Rightarrow> parse_state result" where
  "writer_map_record buffer pos s =
    (let r = rd s; little = IsLittleEndian r in
     bindR (ReadValue64 little buffer pos) (\<lambda>(wc, pos).
     bindR (ReadValue64 little buffer pos) (\<lambda>(ac, pos).
     bindR (ReadValue64 little buffer pos) (\<lambda>(sc, pos).
     bindR (read_subfiles little buffer (unat (ucast wc :: u32)) pos) (\<lambda>(subfiles, pos).
       Inr (s\<lparr>position := pos,
              rd := r\<lparr>WriterMap := (WriterMap r)(StepsCount r \<mapsto>
                        \<lparr>WriterCount = ucast wc, AggregatorCount = ucast ac, SubfileCount = ucast sc,
                         RankToSubfile = subfiles\<rparr>),
                      LastMapStep := StepsCount r, LastWriterCount := ucast (ucast wc :: u32)\<rparr>\<rparr>))))))"

definition take_step :: "reader_params \<Rightarrow> u64 \<Rightarrow> u64 \<Rightarrow> u64 \<Rightarrow> u64 \<Rightarrow> parse_state \<Rightarrow> parse_state" where
  "take_step params MetadataPos MetadataSize FlushCount pos s =
    (let s = (if run_n s = 0 then s\<lparr>minfo_pos := MetadataPos, MetadataPosTotalSkip := MetadataPos\<rparr> else s);
         r = rd s
     in if IsSelectedStep params (AbsStepsInFile r) then
          s\<lparr>minfo_size := minfo_size s + MetadataSize,
            metadataSizeToRead := metadataSizeToRead s + MetadataSize,
            rd := r\<lparr>WriterMapIndex := WriterMapIndex r @ [LastMapStep r],
                    MetadataIndexTable := (MetadataIndexTable r)(StepsCount r \<mapsto>
                      [MetadataPos - MetadataPosTotalSkip s, MetadataSize, FlushCount, pos, MetadataPos]),
                    StepsCount := StepsCount r + 1\<rparr>\<rparr>
        else
          s\<lparr>MetadataPosTotalSkip := MetadataPosTotalSkip s + MetadataSize,
            minfo_pos := MetadataPos + MetadataSize, minfo_size := 0,
            rd := (if minfo_size s > 0
                   then r\<lparr>FilteredMetadataInfo := FilteredMetadataInfo r @ [(minfo_pos s, minfo_size s)]\<rparr> else r)\<rparr>)"

definition step_record :: "reader_params \<Rightarrow> bytes \<Rightarrow> u64 \<Rightarrow> parse_state \<Rightarrow> parse_state result" where
  "step_record params buffer pos s =
    (let little = IsLittleEndian (rd s) in
     bindR (ReadValue64 little buffer pos) (\<lambda>(MetadataPos, pos).
     bindR (ReadValue64 little buffer pos) (\<lambda>(MetadataSize, pos).
     bindR (ReadValue64 little buffer pos) (\<lambda>(FlushCount, pos).
       (let s = take_step params MetadataPos MetadataSize FlushCount pos s; r = rd s
        in Inr (s\<lparr>position := pos + 8 * LastWriterCount r * (2 * FlushCount + 1),
                  rd := r\<lparr>AbsStepsInFile := AbsStepsInFile r + 1\<rparr>, run_n := run_n s + 1\<rparr>))))))"

partial_function (option) parse_records ::
  "reader_params \<Rightarrow> bytes \<Rightarrow> parse_state \<Rightarrow> parse_state result option" where
  "parse_records params buffer s =
    (if position s < of_nat (length buffer) \<and>
        metadataSizeToRead s < (if Streaming params then 16777216 else MaxSizeT) then
       (if position s + 9 > of_nat (length buffer) then Some (Inr s)
        else case bindR (ReadValue8 buffer (position s)) (\<lambda>(recordID, pos).
               bindR (ReadValue64 (IsLittleEndian (rd s)) buffer pos) (\<lambda>(recordLength, pos).
                 Inr (recordID, recordLength, pos))) of
          Inl e \<Rightarrow> Some (Inl e)
        | Inr (recordID, recordLength, pos) \<Rightarrow>
            if pos + recordLength > of_nat (length buffer) then Some (Inr s)
            else (case (if recordID = 119 then writer_map_record buffer pos s
                        else if recordID = 115 then step_record params buffer pos s
                        else Inr (s\<lparr>position := pos\<rparr>)) of
                    Inl e \<Rightarrow> Some (Inl e)
                  | Inr s' \<Rightarrow>
                      if position s' - pos \<noteq> recordLength then Some (Inl RuntimeError)
                      else parse_records params buffer s'))
     else Some (Inr s))"

declare parse_records.simps [code]

definition ParseMetadataIndex ::
  "reader_params \<Rightarrow> bytes \<Rightarrow> u64 \<Rightarrow> bool \<Rightarrow> index_reader \<Rightarrow> (u64 \<times> index_reader) result option" where
  "ParseMetadataIndex params buffer pos hasHeader r =
    (case (if hasHeader then bindR (ParseHeader params buffer r) (\<lambda>r. Inr (r, 64)) else Inr (r, pos)) of
       Inl e \<Rightarrow> Some (Inl e)
     | Inr (r, pos) \<Rightarrow>
         map_option (\<lambda>res. bindR res (\<lambda>s.
             Inr (position s, if minfo_size s > 0
                then (rd s)\<lparr>FilteredMetadataInfo := FilteredMetadataInfo (rd s) @ [(minfo_pos s, minfo_size s)]\<rparr>
                else rd s)))
           (parse_records params buffer
             \<lparr>position = pos, metadataSizeToRead = 0, MetadataPosTotalSkip = 0, minfo_pos = 0, minfo_size = 0,
              run_n = 0, rd = r\<lparr>MetadataIndexTable := Map.empty, FilteredMetadataInfo := []\<rparr>\<rparr>))"

subsection \<open>Reading the metadata\<close>

text \<open>The part of \<open>UpdateBuffer\<close> that reads the selected runs of \<open>md.0\<close> one after the other.\<close>

definition read_at :: "bytes \<Rightarrow> u64 \<Rightarrow> u64 \<Rightarrow> bytes result" where
  "read_at file pos n = (if unat pos + unat n \<le> length file
     then Inr (take (unat n) (drop (unat pos) file)) else Inl IosFailure)"

definition ReadMetadata :: "bytes \<Rightarrow> (u64 \<times> u64) list \<Rightarrow> bytes result" where
  "ReadMetadata file runs = bindR (mapR (\<lambda>(pos, n). read_at file pos n) runs) (\<lambda>bs. Inr (concat bs))"

text \<open>\<open>size\<close> bytes at a pointer into the metadata, as they are handed to the deserializer.\<close>

definition block_at :: "bytes \<Rightarrow> u64 \<Rightarrow> u64 \<Rightarrow> bytes result" where
  "block_at md pos n = (if unat pos + unat n \<le> length md
     then Inr (take (unat n) (drop (unat pos) md)) else Inl UndefinedBehaviour)"

fun install_blocks :: "bool \<Rightarrow> bytes \<Rightarrow> nat \<Rightarrow> u64 \<Rightarrow> u64 \<Rightarrow> (bytes list \<times> u64 \<times> u64) result" where
  "install_blocks little md 0 Position MDPosition = Inr ([], Position, MDPosition)"
| "install_blocks little md (Suc n) Position MDPosition =
    bindR (ReadValue64 little md Position) (\<lambda>(size', Position).
    bindR (block_at md MDPosition size') (\<lambda>b.
    bindR (install_blocks little md n Position (MDPosition + size')) (\<lambda>(bs, ps). Inr (b # bs, ps))))"

text \<open>
  The blocks \<open>InstallMetadataForTimestep\<close> installs: the metadata of every writer, and the attributes
  that are not empty.
\<close>

definition InstallMetadataForTimestep ::
  "index_reader \<Rightarrow> bytes \<Rightarrow> u64 \<Rightarrow> (bytes list \<times> bytes list) result" where
  "InstallMetadataForTimestep r md Step =
    (case MetadataIndexTable r Step of
       Some (pgstart # _) \<Rightarrow>
         (if unat Step < length (WriterMapIndex r) then
            (let wc = (case WriterMap r (WriterMapIndex r ! unat Step) of
                         Some m \<Rightarrow> unat (WriterCount m) | None \<Rightarrow> 0);
                 Position = pgstart + 8;
                 MDPosition = Position + 2 * 8 * of_nat wc
             in bindR (install_blocks (IsLittleEndian r) md wc Position MDPosition) (\<lambda>(blocks, Position, MDPosition).
                bindR (install_blocks (IsLittleEndian r) md wc Position MDPosition) (\<lambda>(attrs, _).
                  Inr (blocks, filter (\<lambda>b. b \<noteq> []) attrs))))
          else Inl UndefinedBehaviour)
     | _ \<Rightarrow> Inl UndefinedBehaviour)"

text \<open>\<open>InstallMetaMetaData\<close> installs the formats from \<open>Position\<close> to the end of the buffer.\<close>

partial_function (option) InstallMetaMetaData ::
  "bool \<Rightarrow> bytes \<Rightarrow> (bytes \<times> bytes) list \<Rightarrow> u64 \<Rightarrow> ((bytes \<times> bytes) list \<times> u64) result option" where
  "InstallMetaMetaData little buffer installed Position =
    (if Position < of_nat (length buffer) then
       (case bindR (ReadValue64 little buffer Position) (\<lambda>(idLen, pos).
               bindR (ReadValue64 little buffer pos) (\<lambda>(infoLen, pos).
               bindR (block_at buffer pos idLen) (\<lambda>ID.
               bindR (block_at buffer (pos + idLen) infoLen) (\<lambda>Info.
                 Inr ((ID, Info), pos + (idLen + infoLen)))))) of
          Inl e \<Rightarrow> Some (Inl e)
        | Inr (mm, pos) \<Rightarrow> InstallMetaMetaData little buffer (installed @ [mm]) pos)
     else Some (Inr (installed, Position)))"

declare InstallMetaMetaData.simps [code]

subsection \<open>Reading the data\<close>

text \<open>
  \<open>ReadData\<close>: the offsets of the metadata count all flushes of a writer as one piece; the table of
  the index tells where each lies. \<open>file\<close> is the data file of the writer's subfile.
\<close>

definition read_file :: "bytes \<Rightarrow> u64 \<Rightarrow> u64 \<Rightarrow> u64 \<Rightarrow> bytes result" where
  "read_file file base offset len =
    (if base > MaxSizeT - offset then Inl RuntimeError else read_at file (base + offset) len)"

fun flush_loop :: "bool \<Rightarrow> bytes \<Rightarrow> bytes \<Rightarrow> nat \<Rightarrow> u64 \<Rightarrow> u64 \<Rightarrow> u64 \<Rightarrow> u64 \<Rightarrow> bytes result" where
  "flush_loop little idx file 0 pos SumDataSize StartOffset len =
    bindR (ReadValue64 little idx pos) (\<lambda>(ThisDataPos, _).
      read_file file ThisDataPos (StartOffset - SumDataSize) len)"
| "flush_loop little idx file (Suc n) pos SumDataSize StartOffset len =
    bindR (ReadValue64 little idx pos) (\<lambda>(ThisDataPos, pos).
    bindR (ReadValue64 little idx pos) (\<lambda>(ThisDataSize, pos).
      if StartOffset < SumDataSize + ThisDataSize
      then read_file file ThisDataPos (StartOffset - SumDataSize) len
      else flush_loop little idx file n pos (SumDataSize + ThisDataSize) StartOffset len))"

definition ReadData ::
  "index_reader \<Rightarrow> bytes \<Rightarrow> bytes \<Rightarrow> u64 \<Rightarrow> u64 \<Rightarrow> u64 \<Rightarrow> u64 \<Rightarrow> bytes result" where
  "ReadData r idx file WriterRank Timestep StartOffset Length =
    (case MetadataIndexTable r Timestep of
       Some [_, _, FlushCount, DataPosPos, _] \<Rightarrow>
         flush_loop (IsLittleEndian r) idx file (unat FlushCount)
           (DataPosPos + WriterRank * (2 * FlushCount + 1) * 8) 0 StartOffset Length
     | _ \<Rightarrow> Inl UndefinedBehaviour)"

text \<open>The subfile of a writer, as \<open>PerformLocalGets\<close> looks it up.\<close>

definition subfile_of :: "index_reader \<Rightarrow> u64 \<Rightarrow> u64 \<Rightarrow> u64 result" where
  "subfile_of r Timestep WriterRank =
    (if unat Timestep < length (WriterMapIndex r) then
       (case WriterMap r (WriterMapIndex r ! unat Timestep) of
          Some m \<Rightarrow> if unat WriterRank < length (RankToSubfile m) then Inr (RankToSubfile m ! unat WriterRank)
                    else Inl UndefinedBehaviour
        | None \<Rightarrow> Inl UndefinedBehaviour)
     else Inl UndefinedBehaviour)"

end
