(* ===== verification/Adios_Bp5FileWrite.thy ===== *)
theory Adios_Bp5FileWrite
  imports Adios_Bp5File
begin

section \<open>The bytes of the index\<close>

text \<open>
  \<open>WriteMetadataFileIndex\<close> fills its buffer exactly: what it writes is the header, the record of the
  subfiles and the record of the step, one behind the other, and every copy lies in the buffer.
\<close>

subsection \<open>A buffer that is filled from the front\<close>

definition filled :: "nat \<Rightarrow> bytes \<Rightarrow> cursor" where
  "filled N done = (done @ replicate (N - length done) 0, of_nat (length done))"

lemma CopyToBuffer_filled:
  assumes "length done + length bs \<le> N" "N < 2 ^ 64"
  shows "CopyToBuffer bs (filled N done) = Inr (filled N (done @ bs))"
proof -
  have u: "unat (of_nat (length done) :: u64) = length done" using assms by (intro unat_of_nat_small) simp
  have "splice (done @ replicate (N - length done) 0) (length done) bs
      = (done @ bs) @ replicate (N - length (done @ bs)) 0"
    using assms by (simp add: splice_def diff_diff_add)
  then show ?thesis using assms by (simp add: CopyToBuffer_def filled_def u)
qed

lemma skip_filled:
  "length done + g \<le> N \<Longrightarrow>
    (fst (filled N done), of_nat (length done + g)) = filled N (done @ replicate g 0)"
  by (simp add: filled_def flip: replicate_add)

lemma filled_full: "length bs = N \<Longrightarrow> filled N bs = (bs, of_nat N)"
  by (simp add: filled_def)

lemma foldR_filled:
  assumes "\<And>x done. x \<in> set xs \<Longrightarrow> length done + length (g x) \<le> N \<Longrightarrow>
      f x (filled N done) = Inr (filled N (done @ g x))"
    and "length done + length (concat (map g xs)) \<le> N"
  shows "foldR f xs (filled N done) = Inr (filled N (done @ concat (map g xs)))"
  using assms
proof (induction xs arbitrary: "done")
  case (Cons x xs)
  have "f x (filled N done) = Inr (filled N (done @ g x))" using Cons.prems by (intro Cons.prems(1)) simp_all
  then show ?case using Cons by simp
qed simp

subsection \<open>The records\<close>

definition tag_field :: "index_writer \<Rightarrow> bytes" where
  "tag_field w = (let tag = version_tag (w_Version w) ''Index Table''
    in take 32 (chars tag) @ replicate (32 - length tag) 0)"

lemma length_tag_field [simp]: "length (tag_field w) = 32"
  by (simp add: tag_field_def Let_def min_def)

definition header_bytes :: "index_writer \<Rightarrow> u32 \<Rightarrow> bytes" where
  "header_bytes w uuid =
    (let (major, minor, patch) = w_Version w; first = (\<lambda>s. hd (chars s @ [0]))
     in tag_field w @
        [first (dec_string major), first [char_of ((48 + minor) mod 256 :: nat)], first (dec_string patch), 0] @
        [if w_LittleEndian w then 0 else 1, 5, 2, 1, if w_ColumnMajor w then 121 else 110,
         of_bool (w_FlattenSteps w)] @ host32 w uuid @ replicate 18 0)"

definition map_bytes :: "index_writer \<Rightarrow> bytes" where
  "map_bytes w = [119] @ host64 w ((3 + of_nat (w_CommSize w)) * 8) @ host64 w (of_nat (w_CommSize w)) @
    host64 w (w_NumAggregators w) @ host64 w (w_SubStreams w) @ concat (map (host64 w) (w_WriterSubfileMap w))"

definition flush_bytes :: "index_writer \<Rightarrow> nat \<Rightarrow> u64 list \<Rightarrow> bytes" where
  "flush_bytes w writer info = host64 w (info ! (2 * writer)) @ host64 w (info ! (2 * writer + 1))"

definition position_bytes :: "index_writer \<Rightarrow> nat \<Rightarrow> bytes" where
  "position_bytes w writer =
    concat (map (flush_bytes w writer) (w_FlushPosSizeInfo w)) @ host64 w (w_WriterDataPos w ! writer)"

definition step_bytes :: "index_writer \<Rightarrow> u64 \<Rightarrow> u64 \<Rightarrow> bytes" where
  "step_bytes w pos size' =
    [115] @ host64 w ((3 + (of_nat (length (w_FlushPosSizeInfo w)) * 2 + 1) * of_nat (w_CommSize w)) * 8) @
    host64 w pos @ host64 w size' @ host64 w (of_nat (length (w_FlushPosSizeInfo w))) @
    concat (map (position_bytes w) [0..<w_CommSize w])"

lemma length_host [simp]: "length (host64 w x) = 8" "length (host32 w y) = 4"
  by (simp_all add: host64_def host32_def)

lemma concat_length_const: "(\<And>x. x \<in> set xs \<Longrightarrow> length (f x) = k) \<Longrightarrow> length (concat (map f xs)) = k * length xs"
  by (induction xs) simp_all

lemma length_records [simp]:
  "length (header_bytes w uuid) = 64"
  "length (map_bytes w) = 33 + 8 * length (w_WriterSubfileMap w)"
  "length (flush_bytes w writer info) = 16"
  "length (position_bytes w writer) = 8 * (2 * length (w_FlushPosSizeInfo w) + 1)"
  "length (step_bytes w pos size') = 33 + 8 * (2 * length (w_FlushPosSizeInfo w) + 1) * w_CommSize w"
proof -
  show "length (header_bytes w uuid) = 64" by (simp add: header_bytes_def Let_def split: prod.split)
  show "length (map_bytes w) = 33 + 8 * length (w_WriterSubfileMap w)"
    by (simp add: map_bytes_def concat_length_const[where k = 8])
  show "length (flush_bytes w writer info) = 16" for writer info by (simp add: flush_bytes_def)
  then have "length (concat (map (flush_bytes w writer) (w_FlushPosSizeInfo w)))
      = 16 * length (w_FlushPosSizeInfo w)" for writer
    by (intro concat_length_const) simp
  then show *: "length (position_bytes w writer) = 8 * (2 * length (w_FlushPosSizeInfo w) + 1)" for writer
    by (simp add: position_bytes_def)
  have "length (concat (map (position_bytes w) [0..<w_CommSize w]))
      = 8 * (2 * length (w_FlushPosSizeInfo w) + 1) * length [0..<w_CommSize w]"
    by (rule concat_length_const) (rule *)
  then show "length (step_bytes w pos size') = 33 + 8 * (2 * length (w_FlushPosSizeInfo w) + 1) * w_CommSize w"
    by (simp add: step_bytes_def)
qed

subsection \<open>The copies of each record\<close>

text \<open>What a writer needs: a pair for every rank in each flush, a position and perhaps a subfile for each.\<close>

definition writer_ok :: "index_writer \<Rightarrow> bool" where
  "writer_ok w \<longleftrightarrow>
    (\<forall>info\<in>set (w_FlushPosSizeInfo w). length info = 2 * w_CommSize w) \<and>
    length (w_WriterDataPos w) = w_CommSize w \<and>
    (w_WriterSubfileMap w \<noteq> [] \<longrightarrow> length (w_WriterSubfileMap w) = w_CommSize w) \<and>
    8 * (2 * length (w_FlushPosSizeInfo w) + 1) * w_CommSize w + 8 * w_CommSize w < 2 ^ 63"

lemma MakeHeader_filled:
  assumes "64 \<le> N" "N < 2 ^ 64"
  shows "MakeHeader w uuid ''Index Table'' True (filled N []) = Inr (filled N (header_bytes w uuid))"
proof -
  obtain major minor patch where v: "w_Version w = (major, minor, patch)" by (cases "w_Version w") blast
  let ?tag = "version_tag (w_Version w) ''Index Table''"
  note copy = CopyToBuffer_filled[where N = N]
  have z: "filled N [] = (replicate N 0, 0)" by (simp add: filled_def)
  have tag: "(if length ?tag < 32
        then bindR (CopyToBuffer (chars ?tag) (filled N [])) (\<lambda>(b, p). Inr (b, p + (32 - of_nat (length ?tag))))
        else CopyToBuffer (take 32 (chars ?tag)) (filled N [])) = Inr (filled N (tag_field w))"
  proof (cases "length ?tag < 32")
    case True
    have c: "CopyToBuffer (chars ?tag) (filled N []) = Inr (filled N (chars ?tag))"
      using copy[of "[]" "chars ?tag"] True assms by simp
    have "(fst (filled N (chars ?tag)), of_nat (length (chars ?tag) + (32 - length ?tag)))
        = filled N (chars ?tag @ replicate (32 - length ?tag) 0)"
      using True assms by (intro skip_filled) simp
    moreover have "length (chars ?tag) + (32 - length ?tag) = 32" using True by simp
    ultimately have "(fst (filled N (chars ?tag)), 32) = filled N (tag_field w)"
      using True by (simp add: tag_field_def Let_def)
    moreover have "snd (filled N (chars ?tag)) + (32 - of_nat (length ?tag)) = 32" by (simp add: filled_def)
    ultimately show ?thesis
      unfolding c using True by (cases "filled N (chars ?tag)") simp
  next
    case False
    then show ?thesis using copy[of "[]" "take 32 (chars ?tag)"] assms by (simp add: tag_field_def)
  qed
  define a where "a = hd (chars (dec_string major) @ [0])"
  define b where "b = hd (chars [char_of ((48 + minor) mod 256 :: nat)] @ [0])"
  define c where "c = hd (chars (dec_string patch) @ [0])"
  have cp: "CopyToBuffer bs (filled N d) = Inr (filled N (d @ bs))" if "length d + length bs \<le> 64" for bs d
    using copy[of d bs] that assms by simp
  have h36: "(fst (filled N (tag_field w @ [a, b, c])), 36) = filled N (tag_field w @ [a, b, c, 0])"
    using skip_filled[of "tag_field w @ [a, b, c]" 1 N] assms by simp
  have h64: "(fst (filled N d), 64) = filled N (d @ replicate 18 0)" if "length d = 46" for d
    using skip_filled[of d 18 N] assms that by simp
  have chk: "check_position p (filled N d) = Inr (filled N d)" if "of_nat (length d) = p" for p d
    using that by (simp add: check_position_def filled_def)
  have buf: "(if length (replicate N 0) < 64 then x else replicate N (0 :: u8), 0) = filled N []" for x
    using assms by (simp add: filled_def)
  show ?thesis
    unfolding MakeHeader_def z prod.case Let_def v header_bytes_def
    unfolding buf a_def[symmetric] b_def[symmetric] c_def[symmetric]
    using tag[unfolded v] by (simp add: cp chk h36 h64 del: One_nat_def)
qed

lemma copy_writer_map_filled:
  assumes "writer_ok w" "w_WriterSubfileMap w \<noteq> []" "length done + length (map_bytes w) \<le> N" "N < 2 ^ 64"
  shows "copy_writer_map w (filled N done) = Inr (filled N (done @ map_bytes w))"
  using assms by (simp add: copy_writer_map_def CopyToBuffer_filled writer_ok_def map_bytes_def
      concat_length_const[where k = 8])

lemma copy_positions_filled:
  assumes "writer_ok w" "writer < w_CommSize w" "length done + length (position_bytes w writer) \<le> N" "N < 2 ^ 64"
  shows "copy_positions w writer (filled N done) = Inr (filled N (done @ position_bytes w writer))"
proof -
  have "foldR (copy_flush w writer) (w_FlushPosSizeInfo w) (filled N done)
      = Inr (filled N (done @ concat (map (flush_bytes w writer) (w_FlushPosSizeInfo w))))"
  proof (rule foldR_filled)
    fix info and "done" :: bytes
    assume "info \<in> set (w_FlushPosSizeInfo w)" "length done + length (flush_bytes w writer info) \<le> N"
    then show "copy_flush w writer info (filled N done) = Inr (filled N (done @ flush_bytes w writer info))"
      using assms by (simp add: copy_flush_def writer_ok_def CopyToBuffer_filled flush_bytes_def)
  qed (use assms in \<open>simp add: concat_length_const[where k = 16]\<close>)
  then show ?thesis
    using assms by (simp add: copy_positions_def writer_ok_def CopyToBuffer_filled position_bytes_def
        concat_length_const[where k = 16])
qed

lemma copy_step_record_filled:
  assumes "writer_ok w" "length done + length (step_bytes w pos size') \<le> N" "N < 2 ^ 64"
  shows "copy_step_record w pos size' (filled N done) = Inr (filled N (done @ step_bytes w pos size'))"
proof -
  let ?len = "8 * (2 * length (w_FlushPosSizeInfo w) + 1) * w_CommSize w"
  let ?d = "done @ [115] @ host64 w ((3 + (of_nat (length (w_FlushPosSizeInfo w)) * 2 + 1) * of_nat (w_CommSize w)) * 8)
    @ host64 w pos @ host64 w size' @ host64 w (of_nat (length (w_FlushPosSizeInfo w)))"
  have l: "length (concat (map (position_bytes w) [0..<w_CommSize w])) = ?len"
    using concat_length_const[of "[0..<w_CommSize w]" "position_bytes w"] by simp
  have fit: "length done + 33 + ?len \<le> N" using assms(2) by simp
  have "foldR (copy_positions w) [0..<w_CommSize w] (filled N ?d)
      = Inr (filled N (?d @ concat (map (position_bytes w) [0..<w_CommSize w])))"
    using assms(1,3) fit l by (intro foldR_filled copy_positions_filled) auto
  then show ?thesis
    using fit assms(3) by (simp add: copy_step_record_def Let_def CopyToBuffer_filled step_bytes_def)
qed

definition index_bytes :: "index_writer \<Rightarrow> u32 \<Rightarrow> u64 \<Rightarrow> u64 \<Rightarrow> bytes" where
  "index_bytes w uuid pos size' =
    (if pos = 0 then header_bytes w uuid else []) @ (if w_WriterSubfileMap w \<noteq> [] then map_bytes w else []) @
    step_bytes w pos size'"

lemma length_index_bytes:
  "length (index_bytes w uuid pos size') =
    (if pos = 0 then 64 else 0) + (if w_WriterSubfileMap w \<noteq> [] then 33 + 8 * length (w_WriterSubfileMap w) else 0) +
    (33 + 8 * (2 * length (w_FlushPosSizeInfo w) + 1) * w_CommSize w)"
  by (simp add: index_bytes_def)

lemma WriteMetadataFileIndex_bytes:
  assumes "writer_ok w"
  shows "WriteMetadataFileIndex w uuid pos size' =
    Inr (index_bytes w uuid pos size', w\<lparr>w_WriterSubfileMap := [], w_FlushPosSizeInfo := []\<rparr>)"
proof -
  define N where "N = length (index_bytes w uuid pos size')"
  have N: "N < 2 ^ 64" using assms by (auto simp: N_def length_index_bytes writer_ok_def)
  have "index_bufsize w pos = of_nat N"
    using assms by (simp add: index_bufsize_def N_def length_index_bytes Let_def writer_ok_def algebra_simps)
  then have u: "unat (index_bufsize w pos) = N" using N by (simp add: unat_of_nat_small)
  define h where "h = (if pos = 0 then header_bytes w uuid else [])"
  define m where "m = (if w_WriterSubfileMap w \<noteq> [] then map_bytes w else [])"
  have all: "index_bytes w uuid pos size' = h @ m @ step_bytes w pos size'"
    by (simp add: index_bytes_def h_def m_def)
  then have fit: "length h + length m + length (step_bytes w pos size') = N" by (simp add: N_def)
  have z: "(replicate N 0, 0) = filled N []" by (simp add: filled_def)
  have 1: "(if pos = 0 then MakeHeader w uuid ''Index Table'' True (filled N []) else Inr (filled N []))
      = Inr (filled N h)"
  proof (cases "pos = 0")
    case True
    then have "64 \<le> N" using fit by (simp add: h_def)
    then show ?thesis using True N by (simp add: h_def MakeHeader_filled)
  qed (simp add: h_def)
  have 2: "(if w_WriterSubfileMap w \<noteq> [] then copy_writer_map w (filled N h) else Inr (filled N h))
      = Inr (filled N (h @ m))"
  proof (cases "w_WriterSubfileMap w = []")
    case False
    then show ?thesis using copy_writer_map_filled[OF assms False, of h N] fit N by (simp add: m_def)
  qed (simp add: m_def)
  have 3: "copy_step_record w pos size' (filled N (h @ m)) = Inr (filled N (index_bytes w uuid pos size'))"
    using copy_step_record_filled[OF assms, of "h @ m" pos size' N] fit N unfolding all by simp
  have full: "filled N (index_bytes w uuid pos size') = (index_bytes w uuid pos size', of_nat N)"
    by (rule filled_full) (simp add: N_def)
  show ?thesis
    unfolding WriteMetadataFileIndex_def Let_def u z 1 bindR.simps 2 3 full prod.case ..
qed

end
