(* ===== verification/Adios_Bp5FileParse.thy ===== *)
theory Adios_Bp5FileParse
  imports Adios_Bp5FileWrite
begin

section \<open>Parsing the index\<close>

text \<open>
  \<open>ParseMetadataIndex\<close> on what \<open>WriteMetadataFileIndex\<close> wrote: each record is consumed as a whole and
  has the effect of its handler on the values that were written (\<open>map_effect\<close>, \<open>step_effect\<close>).
\<close>

subsection \<open>Values\<close>

lemma reads_bound: "reads buf p bs \<Longrightarrow> p + length bs \<le> length buf"
  by (simp add: reads_def)

lemma of_nat_less_u64: "a < 2 ^ 64 \<Longrightarrow> b < 2 ^ 64 \<Longrightarrow> (of_nat a :: u64) < of_nat b \<longleftrightarrow> a < b"
  by (simp add: word_less_nat_alt unat_of_nat_small)

lemma get_bytes_at_reads:
  assumes "reads buf p bs" "n = length bs" "length buf < 2 ^ 63"
  shows "get_bytes_at n buf (of_nat p) = Inr (bs, of_nat (p + n))"
proof -
  have "unat (of_nat p :: u64) = p" using reads_bound[OF assms(1)] assms(3) by (intro unat_of_nat_small) simp
  then show ?thesis using assms by (simp add: get_bytes_at_def reads_def)
qed

lemma ReadValue8_reads:
  "reads buf p [x] \<Longrightarrow> length buf < 2 ^ 63 \<Longrightarrow> ReadValue8 buf (of_nat p) = Inr (x, of_nat (p + 1))"
  using get_bytes_at_reads[of buf p "[x]" 1] by (simp add: ReadValue8_def)

lemma ReadValue64_reads:
  "reads buf p (host64 w x) \<Longrightarrow> length buf < 2 ^ 63 \<Longrightarrow>
    ReadValue64 (w_LittleEndian w) buf (of_nat p) = Inr (x, of_nat (p + 8))"
  using get_bytes_at_reads[of buf p "host64 w x" 8] by (simp add: ReadValue64_def host64_def)

lemma le_nat_u32: "(of_nat (le_nat (le_bytes 4 (unat x))) :: u32) = x"
proof -
  have "unat x < 256 ^ 4" using unsigned_less[of x] by simp
  then show ?thesis by (simp add: le_nat_le_bytes)
qed

lemma ReadValue32_reads:
  assumes "reads buf p (host32 w x)" "length buf < 2 ^ 63"
  shows "ReadValue32 (w_LittleEndian w) buf (of_nat p) = Inr (x, of_nat (p + 4))"
  unfolding ReadValue32_def get_bytes_at_reads[OF assms(1) length_host(2)[symmetric] assms(2)] bindR.simps prod.case
    host32_def ordered_simps(2) le_nat_u32 ..

lemma read_subfiles_reads:
  "reads buf p (concat (map (host64 w) xs)) \<Longrightarrow> length buf < 2 ^ 63 \<Longrightarrow>
    read_subfiles (w_LittleEndian w) buf (length xs) (of_nat p) = Inr (xs, of_nat (p + 8 * length xs))"
proof (induction xs arbitrary: p)
  case (Cons x xs)
  then have "reads buf p (host64 w x)" "reads buf (p + 8) (concat (map (host64 w) xs))"
    by (simp_all add: reads_append)
  then have v: "ReadValue64 (w_LittleEndian w) buf (of_nat p) = Inr (x, of_nat (p + 8))"
    and vs: "read_subfiles (w_LittleEndian w) buf (length xs) (of_nat (p + 8)) = Inr (xs, of_nat (p + 8 + 8 * length xs))"
    using Cons.IH[of "p + 8"] Cons.prems(2) by (blast intro: ReadValue64_reads)+
  have "p + 8 + 8 * length xs = p + 8 * length (x # xs)" by simp
  then show ?case using v vs by (simp add: add.assoc del: of_nat_add)
qed simp

lemma reads_record:
  assumes "reads buf p (i # host64 w l @ body)"
  shows "reads buf p [i]" "reads buf (p + 1) (host64 w l)" "reads buf (p + 9) body"
proof -
  have "reads buf p ([i] @ host64 w l @ body)" using assms by simp
  then have "reads buf p [i] \<and> reads buf (p + 1) (host64 w l) \<and> reads buf (p + 1 + 8) body"
    unfolding reads_append by simp
  then show "reads buf p [i]" "reads buf (p + 1) (host64 w l)" "reads buf (p + 9) body"
    by (simp_all only: add.assoc one_plus_numeral add_num_simps)
qed

subsection \<open>One record\<close>

definition room :: "reader_params \<Rightarrow> parse_state \<Rightarrow> bool" where
  "room params s \<longleftrightarrow> metadataSizeToRead s < (if Streaming params then 16777216 else MaxSizeT)"

lemma parse_records_record:
  assumes rd: "reads buf p (i # host64 w (of_nat l) @ body)" and l: "length body = l"
    and le: "IsLittleEndian (rd s) = w_LittleEndian w" and p: "position s = of_nat p"
    and buf: "length buf < 2 ^ 63" and room: "room params s"
    and run: "(if i = 119 then writer_map_record buf (of_nat (p + 9)) s
               else if i = 115 then step_record params buf (of_nat (p + 9)) s
               else Inr (s\<lparr>position := of_nat (p + 9)\<rparr>)) = Inr s'"
    and p': "position s' = of_nat (p + 9 + l)"
  shows "parse_records params buf s = parse_records params buf s'"
proof -
  have b: "p + 9 + l \<le> length buf" using reads_bound[OF rd] l by simp
  note r = reads_record[OF rd]
  have get: "bindR (ReadValue8 buf (position s)) (\<lambda>(recordID, pos).
      bindR (ReadValue64 (IsLittleEndian (rd s)) buf pos) (\<lambda>(recordLength, pos).
        Inr (recordID, recordLength, pos))) = Inr (i, of_nat l, of_nat (p + 9))"
    using ReadValue8_reads[OF r(1) buf] ReadValue64_reads[OF r(2) buf] by (simp add: p le add.assoc)
  have lt: "(of_nat a :: u64) < of_nat (length buf) \<longleftrightarrow> a < length buf"
    "(of_nat (length buf) :: u64) < of_nat a \<longleftrightarrow> length buf < a" if "a < 2 ^ 63" for a
    using that buf by (simp_all add: of_nat_less_u64)
  have small: "p < 2 ^ 63" "p + 9 < 2 ^ 63" "p + 9 + l < 2 ^ 63" using b buf by simp_all
  have pl: "(of_nat (p + 9) :: u64) + of_nat l = of_nat (p + 9 + l)" by simp
  have p9: "(of_nat p :: u64) + 9 = of_nat (p + 9)" by simp
  have diff: "position s' - of_nat (p + 9) = (of_nat l :: u64)" unfolding p' by simp
  have 1: "position s < of_nat (length buf)" unfolding p using lt(1)[OF small(1)] b by simp
  have 2: "\<not> position s + 9 > of_nat (length buf)" unfolding p p9 using lt(2)[OF small(2)] b by simp
  have 3: "\<not> of_nat (p + 9) + of_nat l > (of_nat (length buf) :: u64)" unfolding pl using lt(2)[OF small(3)] b by simp
  show ?thesis
    apply (subst parse_records.simps)
    unfolding get sum.case prod.case run diff
    using 1 2 3 room by (simp add: room_def)
qed

subsection \<open>The record of the subfiles\<close>

definition map_value :: "index_writer \<Rightarrow> u64 list \<Rightarrow> writer_map" where
  "map_value w subfiles =
    \<lparr>WriterCount = of_nat (w_CommSize w), AggregatorCount = ucast (w_NumAggregators w),
     SubfileCount = ucast (w_SubStreams w), RankToSubfile = subfiles\<rparr>"

definition map_effect :: "index_writer \<Rightarrow> nat \<Rightarrow> parse_state \<Rightarrow> parse_state" where
  "map_effect w p s =
    (let r = rd s in
     s\<lparr>position := of_nat (p + length (map_bytes w)),
       rd := r\<lparr>WriterMap := (WriterMap r)(StepsCount r \<mapsto> map_value w (w_WriterSubfileMap w)),
               LastMapStep := StepsCount r, LastWriterCount := of_nat (w_CommSize w)\<rparr>\<rparr>)"

lemma map_record_effect:
  assumes rd: "reads buf p (map_bytes w)" and ok: "writer_ok w" "w_WriterSubfileMap w \<noteq> []" "w_CommSize w < 2 ^ 32"
    and le: "IsLittleEndian (rd s) = w_LittleEndian w" and p: "position s = of_nat p"
    and buf: "length buf < 2 ^ 63" and room: "room params s"
  shows "parse_records params buf s = parse_records params buf (map_effect w p s)"
proof -
  let ?n = "w_CommSize w"
  have n: "length (w_WriterSubfileMap w) = ?n" using ok by (simp add: writer_ok_def)
  let ?body = "host64 w (of_nat ?n) @ host64 w (w_NumAggregators w) @ host64 w (w_SubStreams w) @
    concat (map (host64 w) (w_WriterSubfileMap w))"
  have l: "length ?body = 24 + 8 * ?n" by (simp add: concat_length_const[where k = 8] n)
  have k: "(3 + of_nat ?n) * 8 = (of_nat (24 + 8 * ?n) :: u64)" by (simp add: algebra_simps)
  have bytes: "map_bytes w = 119 # host64 w (of_nat (24 + 8 * ?n)) @ ?body"
    by (simp only: map_bytes_def k append_Cons append_Nil append_assoc)
  note r = reads_record(3)[OF rd[unfolded bytes]]
  have c: "ucast (of_nat ?n :: u64) = (of_nat ?n :: u32)" "unat (of_nat ?n :: u32) = ?n"
    "ucast (of_nat ?n :: u32) = (of_nat ?n :: u64)"
  proof -
    show u: "unat (of_nat ?n :: u32) = ?n" using ok(3) by (intro unat_of_nat_small) simp
    show "ucast (of_nat ?n :: u64) = (of_nat ?n :: u32)" "ucast (of_nat ?n :: u32) = (of_nat ?n :: u64)"
      using ok(3) u by (simp_all add: word_unat_eq_iff unsigned_ucast_eq unsigned_of_nat take_bit_nat_eq_self
          take_bit_eq_mod)
  qed
  have run: "writer_map_record buf (of_nat (p + 9)) s = Inr (map_effect w p s)"
  proof -
    have v: "reads buf (p + 9) (host64 w (of_nat ?n))" "reads buf (p + 17) (host64 w (w_NumAggregators w))"
      "reads buf (p + 25) (host64 w (w_SubStreams w))"
      "reads buf (p + 33) (concat (map (host64 w) (w_WriterSubfileMap w)))"
      using r by (simp_all add: reads_append add.assoc)
    show ?thesis
      unfolding writer_map_record_def Let_def le
      using ReadValue64_reads[OF v(1) buf] ReadValue64_reads[OF v(2) buf] ReadValue64_reads[OF v(3) buf]
        read_subfiles_reads[OF v(4) buf]
      by (simp add: c n map_effect_def map_value_def Let_def add.assoc del: of_nat_add)
  qed
  show ?thesis
  proof (rule parse_records_record[OF rd[unfolded bytes] l le p buf room])
    show "(if (119 :: u8) = 119 then writer_map_record buf (of_nat (p + 9)) s
        else if (119 :: u8) = 115 then step_record params buf (of_nat (p + 9)) s
        else Inr (s\<lparr>position := of_nat (p + 9)\<rparr>)) = Inr (map_effect w p s)"
      using run by simp
    show "position (map_effect w p s) = of_nat (p + 9 + (24 + 8 * ?n))" by (simp add: map_effect_def Let_def n)
  qed
qed

subsection \<open>The record of a step\<close>

definition step_effect :: "reader_params \<Rightarrow> index_writer \<Rightarrow> u64 \<Rightarrow> u64 \<Rightarrow> nat \<Rightarrow> parse_state \<Rightarrow> parse_state" where
  "step_effect params w pos size' p s =
    (let s = take_step params pos size' (of_nat (length (w_FlushPosSizeInfo w))) (of_nat (p + 33)) s; r = rd s
     in s\<lparr>position := of_nat (p + length (step_bytes w pos size')),
          rd := r\<lparr>AbsStepsInFile := AbsStepsInFile r + 1\<rparr>, run_n := run_n s + 1\<rparr>)"

lemma take_step_keeps [simp]:
  "LastWriterCount (rd (take_step params pos size' F dp s)) = LastWriterCount (rd s)"
  "IsLittleEndian (rd (take_step params pos size' F dp s)) = IsLittleEndian (rd s)"
  "AbsStepsInFile (rd (take_step params pos size' F dp s)) = AbsStepsInFile (rd s)"
  "LastMapStep (rd (take_step params pos size' F dp s)) = LastMapStep (rd s)"
  "WriterMap (rd (take_step params pos size' F dp s)) = WriterMap (rd s)"
  "run_n (take_step params pos size' F dp s) = run_n s"
  by (simp_all add: take_step_def Let_def)

lemma step_record_effect:
  assumes rd: "reads buf p (step_bytes w pos size')" and n: "LastWriterCount (rd s) = of_nat (w_CommSize w)"
    and le: "IsLittleEndian (rd s) = w_LittleEndian w" and p: "position s = of_nat p"
    and buf: "length buf < 2 ^ 63" and room: "room params s"
  shows "parse_records params buf s = parse_records params buf (step_effect params w pos size' p s)"
proof -
  let ?n = "w_CommSize w" let ?F = "length (w_FlushPosSizeInfo w)"
  let ?l = "24 + 8 * (2 * ?F + 1) * ?n"
  let ?body = "host64 w pos @ host64 w size' @ host64 w (of_nat ?F) @ concat (map (position_bytes w) [0..<?n])"
  have bytes: "step_bytes w pos size' = 115 # host64 w (of_nat ?l) @ ?body"
  proof -
    have k: "(3 + (of_nat ?F * 2 + 1) * of_nat ?n) * 8 = (of_nat ?l :: u64)" by (simp add: algebra_simps)
    show ?thesis by (simp only: step_bytes_def k append_Cons append_Nil append_assoc)
  qed
  have l: "length ?body = ?l"
    using length_records(5)[of w pos size'] unfolding bytes by simp
  note r = reads_record(3)[OF rd[unfolded bytes]]
  have v: "reads buf (p + 9) (host64 w pos)" "reads buf (p + 17) (host64 w size')"
    "reads buf (p + 25) (host64 w (of_nat ?F))"
    using r by (simp_all add: reads_append add.assoc)
  have e: "(of_nat (p + 33) :: u64) + 8 * of_nat ?n * (2 * of_nat ?F + 1) = of_nat (p + 9 + ?l)"
    by (simp add: algebra_simps)
  have q: "length (step_bytes w pos size') = 9 + ?l" by simp
  have run: "step_record params buf (of_nat (p + 9)) s = Inr (step_effect params w pos size' p s)"
  proof -
    have 3: "ReadValue64 (w_LittleEndian w) buf (of_nat (p + 9)) = Inr (pos, of_nat (p + 17))"
      "ReadValue64 (w_LittleEndian w) buf (of_nat (p + 17)) = Inr (size', of_nat (p + 25))"
      "ReadValue64 (w_LittleEndian w) buf (of_nat (p + 25)) = Inr (of_nat ?F, of_nat (p + 33))"
      using ReadValue64_reads[OF v(1) buf] ReadValue64_reads[OF v(2) buf] ReadValue64_reads[OF v(3) buf]
      by (simp_all add: add.assoc)
    show ?thesis
      unfolding step_record_def Let_def le 3 bindR.simps prod.case take_step_keeps n e step_effect_def q
      by (simp only: add.assoc)
  qed
  show ?thesis
  proof (rule parse_records_record[OF rd[unfolded bytes] l le p buf room])
    show "(if (115 :: u8) = 119 then writer_map_record buf (of_nat (p + 9)) s
        else if (115 :: u8) = 115 then step_record params buf (of_nat (p + 9)) s
        else Inr (s\<lparr>position := of_nat (p + 9)\<rparr>)) = Inr (step_effect params w pos size' p s)"
      using run by simp
    show "position (step_effect params w pos size' p s) = of_nat (p + 9 + ?l)"
      unfolding step_effect_def Let_def q by (simp add: add.assoc del: of_nat_add)
  qed
qed

end
