(* ===== verification/Adios_Bp5FileRound.thy ===== *)
theory Adios_Bp5FileRound
  imports Adios_Bp5FileParse
begin

section \<open>What a reader finds in the index\<close>

text \<open>
  The steps a writer has put into the index, and the tables a reader has after parsing them: where the
  metadata of each selected step lies in the memory that \<open>ReadMetadata\<close> fills, where the positions of
  the data are enumerated, and which subfile each writer wrote to.
\<close>

subsection \<open>The steps of a writer\<close>

record index_step =
  s_map :: "u64 list"
  s_flushes :: "u64 list list"
  s_datapos :: "u64 list"
  s_pos :: u64
  s_size :: u64

definition step_writer :: "index_writer \<Rightarrow> index_step \<Rightarrow> index_writer" where
  "step_writer w s = w\<lparr>w_WriterSubfileMap := s_map s, w_FlushPosSizeInfo := s_flushes s, w_WriterDataPos := s_datapos s\<rparr>"

fun write_index :: "index_writer \<Rightarrow> u32 \<Rightarrow> index_step list \<Rightarrow> bytes result" where
  "write_index w uuid [] = Inr []"
| "write_index w uuid (s # ss) =
    bindR (WriteMetadataFileIndex (step_writer w s) uuid (s_pos s) (s_size s)) (\<lambda>(bs, w).
    bindR (write_index w uuid ss) (\<lambda>rest. Inr (bs @ rest)))"

definition rec_bytes :: "index_writer \<Rightarrow> index_step \<Rightarrow> bytes" where
  "rec_bytes w s = (if s_map s \<noteq> [] then map_bytes (step_writer w s) else []) @
    step_bytes (step_writer w s) (s_pos s) (s_size s)"

definition sizes_before :: "index_step list \<Rightarrow> nat \<Rightarrow> nat" where
  "sizes_before ss k = sum_list (map (\<lambda>i. unat (s_size (ss ! i))) [0..<k])"

definition rec_pos :: "index_writer \<Rightarrow> index_step list \<Rightarrow> nat \<Rightarrow> nat" where
  "rec_pos w ss k = 64 + sum_list (map (\<lambda>i. length (rec_bytes w (ss ! i))) [0..<k])"

text \<open>What the writer keeps: the metadata of the steps lies without gaps, the first step has a map.\<close>

definition steps_ok :: "index_writer \<Rightarrow> index_step list \<Rightarrow> bool" where
  "steps_ok w ss \<longleftrightarrow> ss \<noteq> [] \<and> s_map (ss ! 0) \<noteq> [] \<and> 0 < w_CommSize w \<and> w_CommSize w < 2 ^ 32 \<and>
    list_all (\<lambda>s. writer_ok (step_writer w s) \<and> s_size s \<noteq> 0) ss \<and>
    list_all (\<lambda>k. unat (s_pos (ss ! k)) = sizes_before ss k) [0..<length ss] \<and>
    sizes_before ss (length ss) < 2 ^ 63 \<and> rec_pos w ss (length ss) < 2 ^ 63"

lemma step_writer_simps [simp]:
  "w_WriterSubfileMap (step_writer w s) = s_map s" "w_FlushPosSizeInfo (step_writer w s) = s_flushes s"
  "w_WriterDataPos (step_writer w s) = s_datapos s" "w_CommSize (step_writer w s) = w_CommSize w"
  "w_LittleEndian (step_writer w s) = w_LittleEndian w" "host64 (step_writer w s) = host64 w"
  "header_bytes (step_writer w s) uuid = header_bytes w uuid"
  "step_writer (w\<lparr>w_WriterSubfileMap := m, w_FlushPosSizeInfo := f\<rparr>) s = step_writer w s"
  "step_writer (step_writer w s) t = step_writer w t"
  by (auto simp: step_writer_def host64_def[abs_def] header_bytes_def tag_field_def host32_def)

lemma write_index_concat:
  "list_all (\<lambda>s. writer_ok (step_writer w s)) ss \<Longrightarrow>
    write_index w uuid ss = Inr (concat (map (\<lambda>s. index_bytes (step_writer w s) uuid (s_pos s) (s_size s)) ss))"
proof (induction ss arbitrary: w)
  case (Cons s ss)
  let ?w = "(step_writer w s)\<lparr>w_WriterSubfileMap := [], w_FlushPosSizeInfo := []\<rparr>"
  have e: "step_writer ?w t = step_writer w t" for t by simp
  have "write_index ?w uuid ss
      = Inr (concat (map (\<lambda>s. index_bytes (step_writer ?w s) uuid (s_pos s) (s_size s)) ss))"
    using Cons.prems by (intro Cons.IH) (simp add: e)
  then show ?case using Cons.prems by (simp add: WriteMetadataFileIndex_bytes e)
qed simp

lemma sizes_Suc: "sizes_before ss (Suc k) = sizes_before ss k + unat (s_size (ss ! k))"
  by (simp add: sizes_before_def)

lemma rec_pos_Suc: "rec_pos w ss (Suc k) = rec_pos w ss k + length (rec_bytes w (ss ! k))"
  by (simp add: rec_pos_def)

lemma sizes_mono: "i \<le> k \<Longrightarrow> sizes_before ss i \<le> sizes_before ss k"
  by (induction k) (auto simp: sizes_Suc le_Suc_eq)

lemma rec_pos_mono: "i \<le> k \<Longrightarrow> rec_pos w ss i \<le> rec_pos w ss k"
  by (induction k) (auto simp: rec_pos_Suc le_Suc_eq)

lemma steps_okD:
  assumes "steps_ok w ss"
  shows "ss \<noteq> []" "s_map (ss ! 0) \<noteq> []" "0 < w_CommSize w" "w_CommSize w < 2 ^ 32"
    "\<And>k. k < length ss \<Longrightarrow> writer_ok (step_writer w (ss ! k))"
    "\<And>k. k < length ss \<Longrightarrow> s_size (ss ! k) \<noteq> 0"
    "\<And>k. k < length ss \<Longrightarrow> unat (s_pos (ss ! k)) = sizes_before ss k"
    "sizes_before ss (length ss) < 2 ^ 63" "rec_pos w ss (length ss) < 2 ^ 63"
  using assms by (auto simp: steps_ok_def list_all_length)

lemma index_is_records:
  assumes "steps_ok w ss"
  shows "write_index w uuid ss = Inr (header_bytes w uuid @ concat (map (rec_bytes w) ss))"
proof -
  note ok = steps_okD[OF assms]
  have idx: "index_bytes (step_writer w (ss ! k)) uuid (s_pos (ss ! k)) (s_size (ss ! k))
      = (if k = 0 then header_bytes w uuid else []) @ rec_bytes w (ss ! k)" if "k < length ss" for k
  proof -
    have "s_pos (ss ! k) = 0 \<longleftrightarrow> k = 0"
    proof
      assume "s_pos (ss ! k) = 0"
      then have "sizes_before ss k = 0" using ok(7)[OF that] by simp
      moreover have "0 < sizes_before ss 1"
        using ok(1) ok(6)[of 0] by (simp add: sizes_before_def word_neq_0_conv[symmetric] unat_gt_0)
      ultimately show "k = 0" using sizes_mono[of 1 k ss] by (cases k) simp_all
    next
      assume "k = 0"
      then have "unat (s_pos (ss ! k)) = 0" using ok(7)[OF that] by (simp add: sizes_before_def)
      then show "s_pos (ss ! k) = 0" by (simp add: unat_eq_0)
    qed
    then show ?thesis by (simp add: index_bytes_def rec_bytes_def)
  qed
  obtain s ss' where ss: "ss = s # ss'" using ok(1) by (cases ss) simp_all
  have "index_bytes (step_writer w t) uuid (s_pos t) (s_size t) = rec_bytes w t" if "t \<in> set ss'" for t
    using that idx[of "Suc k" for k] unfolding ss by (auto simp: in_set_conv_nth)
  then have "map (\<lambda>s. index_bytes (step_writer w s) uuid (s_pos s) (s_size s)) ss' = map (rec_bytes w) ss'" by simp
  moreover have "index_bytes (step_writer w s) uuid (s_pos s) (s_size s) = header_bytes w uuid @ rec_bytes w s"
    using idx[of 0] unfolding ss by simp
  ultimately have "concat (map (\<lambda>s. index_bytes (step_writer w s) uuid (s_pos s) (s_size s)) ss)
      = header_bytes w uuid @ concat (map (rec_bytes w) ss)"
    unfolding ss by (simp only: list.map concat.simps append_assoc)
  moreover have "list_all (\<lambda>s. writer_ok (step_writer w s)) ss" using ok(5) by (auto simp: list_all_length)
  ultimately show ?thesis using write_index_concat[of w ss uuid] by (simp only:)
qed

subsection \<open>All records\<close>

definition rec_effect :: "reader_params \<Rightarrow> index_writer \<Rightarrow> nat \<Rightarrow> index_step \<Rightarrow> parse_state \<Rightarrow> parse_state" where
  "rec_effect params w p s st =
    step_effect params (step_writer w s) (s_pos s) (s_size s)
      (p + (if s_map s \<noteq> [] then length (map_bytes (step_writer w s)) else 0))
      (if s_map s \<noteq> [] then map_effect (step_writer w s) p st else st)"

text \<open>The state after \<open>k\<close> steps.\<close>

fun after_steps :: "reader_params \<Rightarrow> index_writer \<Rightarrow> index_step list \<Rightarrow> nat \<Rightarrow> parse_state \<Rightarrow> parse_state" where
  "after_steps params w ss 0 st = st"
| "after_steps params w ss (Suc k) st =
    rec_effect params w (rec_pos w ss k) (ss ! k) (after_steps params w ss k st)"

lemma map_effect_keeps [simp]:
  "IsLittleEndian (rd (map_effect w p s)) = IsLittleEndian (rd s)"
  "LastWriterCount (rd (map_effect w p s)) = of_nat (w_CommSize w)"
  "position (map_effect w p s) = of_nat (p + length (map_bytes w))"
  "room params (map_effect w p s) = room params s"
  "metadataSizeToRead (map_effect w p s) = metadataSizeToRead s"
  "run_n (map_effect w p s) = run_n s"
  by (simp_all add: map_effect_def Let_def room_def)

lemma step_effect_keeps [simp]:
  "IsLittleEndian (rd (step_effect params w x y p s)) = IsLittleEndian (rd s)"
  "LastWriterCount (rd (step_effect params w x y p s)) = LastWriterCount (rd s)"
  "position (step_effect params w x y p s) = of_nat (p + length (step_bytes w x y))"
  by (simp_all add: step_effect_def Let_def)

lemma step_effect_toRead:
  "metadataSizeToRead (step_effect params w x y p s) =
    metadataSizeToRead s + (if IsSelectedStep params (AbsStepsInFile (rd s)) then y else 0)"
  by (simp add: step_effect_def take_step_def Let_def)

lemma rec_effect_keeps [simp]:
  "IsLittleEndian (rd (rec_effect params w p s st)) = IsLittleEndian (rd st)"
  "position (rec_effect params w p s st) = of_nat (p + length (rec_bytes w s))"
  by (simp_all add: rec_effect_def rec_bytes_def add.assoc del: length_records of_nat_add)

lemma parse_one_step:
  assumes rd: "reads buf p (rec_bytes w s)" and ok: "writer_ok (step_writer w s)" "w_CommSize w < 2 ^ 32"
    and le: "IsLittleEndian (rd st) = w_LittleEndian w" and p: "position st = of_nat p"
    and n: "s_map s = [] \<Longrightarrow> LastWriterCount (rd st) = of_nat (w_CommSize w)"
    and buf: "length buf < 2 ^ 63" and room: "room params st"
  shows "parse_records params buf st = parse_records params buf (rec_effect params w p s st)"
proof (cases "s_map s = []")
  case True
  then show ?thesis
    using step_record_effect[of buf p "step_writer w s" "s_pos s" "s_size s" st params] assms
    by (simp add: rec_effect_def rec_bytes_def)
next
  case False
  let ?w = "step_writer w s" let ?st = "map_effect ?w p st"
  have r: "reads buf p (map_bytes ?w)" "reads buf (p + length (map_bytes ?w)) (step_bytes ?w (s_pos s) (s_size s))"
    using rd False by (simp_all add: rec_bytes_def reads_append del: length_records)
  have "parse_records params buf st = parse_records params buf ?st"
    using False assms by (intro map_record_effect[OF r(1)]) simp_all
  also have "\<dots> = parse_records params buf (step_effect params ?w (s_pos s) (s_size s) (p + length (map_bytes ?w)) ?st)"
    using le buf room by (intro step_record_effect[OF r(2)]) (simp_all del: length_records)
  finally show ?thesis using False by (simp add: rec_effect_def del: length_records)
qed

lemma reads_concat_nth:
  "reads buf p (concat (map f xs)) \<Longrightarrow> k < length xs \<Longrightarrow>
    reads buf (p + sum_list (map (\<lambda>i. length (f (xs ! i))) [0..<k])) (f (xs ! k))"
proof (induction xs arbitrary: p k)
  case (Cons x xs)
  then have r: "reads buf p (f x)" "reads buf (p + length (f x)) (concat (map f xs))"
    by (simp_all add: reads_append)
  show ?case
  proof (cases k)
    case (Suc j)
    have "sum_list (map (\<lambda>i. length (f ((x # xs) ! i))) [0..<Suc j])
        = length (f x) + sum_list (map (\<lambda>i. length (f (xs ! i))) [0..<j])"
      by (simp add: upt_conv_Cons map_Suc_upt[symmetric] comp_def del: upt_Suc)
    then show ?thesis using Cons.IH[OF r(2), of j] Cons.prems(2) Suc by (simp add: add.assoc)
  qed (use r in simp)
qed simp

subsection \<open>The tables\<close>

text \<open>The number of the selected steps before a step, and where their metadata ends in memory.\<close>

definition selected :: "reader_params \<Rightarrow> nat \<Rightarrow> nat list" where
  "selected params k = filter (\<lambda>i. IsSelectedStep params (of_nat i)) [0..<k]"

definition mem_before :: "reader_params \<Rightarrow> index_step list \<Rightarrow> nat \<Rightarrow> nat" where
  "mem_before params ss k = sum_list (map (\<lambda>i. unat (s_size (ss ! i))) (selected params k))"

text \<open>The subfiles in force at a step, and where the positions of its data are enumerated.\<close>

fun map_at :: "index_step list \<Rightarrow> nat \<Rightarrow> u64 list" where
  "map_at ss 0 = s_map (ss ! 0)"
| "map_at ss (Suc k) = (if s_map (ss ! Suc k) = [] then map_at ss k else s_map (ss ! Suc k))"

definition data_pos :: "index_writer \<Rightarrow> index_step list \<Rightarrow> nat \<Rightarrow> nat" where
  "data_pos w ss k = rec_pos w ss k +
    (if s_map (ss ! k) \<noteq> [] then length (map_bytes (step_writer w (ss ! k))) else 0) + 33"

text \<open>The segment of \<open>md.0\<close> with the metadata of a step.\<close>

definition md_segment :: "bytes \<Rightarrow> index_step \<Rightarrow> bytes" where
  "md_segment md s = take (unat (s_size s)) (drop (unat (s_pos s)) md)"

definition table_ok :: "reader_params \<Rightarrow> index_writer \<Rightarrow> index_step list \<Rightarrow> nat \<Rightarrow> index_reader \<Rightarrow> bool" where
  "table_ok params w ss k r \<longleftrightarrow>
    (\<forall>i<k. IsSelectedStep params (of_nat i) \<longrightarrow>
      MetadataIndexTable r (of_nat (length (selected params i))) =
        Some [of_nat (mem_before params ss i), s_size (ss ! i), of_nat (length (s_flushes (ss ! i))),
          of_nat (data_pos w ss i), s_pos (ss ! i)] \<and>
      (\<exists>c. WriterMapIndex r ! length (selected params i) = of_nat c \<and> c \<le> length (selected params i) \<and>
         WriterMap r (of_nat c) = Some (map_value w (map_at ss i))))"

definition runs_ok :: "bytes \<Rightarrow> reader_params \<Rightarrow> index_step list \<Rightarrow> nat \<Rightarrow> parse_state \<Rightarrow> bool" where
  "runs_ok md params ss k st \<longleftrightarrow>
    (\<exists>a b content. minfo_pos st = of_nat a \<and> minfo_size st = of_nat b \<and> a + b = sizes_before ss k \<and>
      ReadMetadata md (FilteredMetadataInfo (rd st)) = Inr content \<and>
      content @ take b (drop a md) = concat (map (\<lambda>i. md_segment md (ss ! i)) (selected params k)))"

definition parsed :: "bytes \<Rightarrow> reader_params \<Rightarrow> index_writer \<Rightarrow> index_step list \<Rightarrow> nat \<Rightarrow> parse_state \<Rightarrow> bool" where
  "parsed md params w ss k st \<longleftrightarrow>
    position st = of_nat (rec_pos w ss k) \<and> IsLittleEndian (rd st) = w_LittleEndian w \<and> run_n st = k \<and>
    StepsCount (rd st) = of_nat (length (selected params k)) \<and> AbsStepsInFile (rd st) = of_nat k \<and>
    length (WriterMapIndex (rd st)) = length (selected params k) \<and>
    metadataSizeToRead st = of_nat (mem_before params ss k) \<and>
    MetadataPosTotalSkip st = of_nat (sizes_before ss k) - of_nat (mem_before params ss k) \<and>
    (0 < k \<longrightarrow> LastWriterCount (rd st) = of_nat (w_CommSize w) \<and>
      (\<exists>c. LastMapStep (rd st) = of_nat c \<and> c \<le> length (selected params k) \<and>
         WriterMap (rd st) (of_nat c) = Some (map_value w (map_at ss (k - 1))))) \<and>
    table_ok params w ss k (rd st) \<and> runs_ok md params ss k st"

lemma selected_Suc: "selected params (Suc k) = selected params k @ (if IsSelectedStep params (of_nat k) then [k] else [])"
  by (simp add: selected_def)

lemma length_selected: "length (selected params k) \<le> k"
  by (induction k) (simp_all add: selected_Suc selected_def)

lemma length_selected_mono: "i < k \<Longrightarrow> IsSelectedStep params (of_nat i) \<Longrightarrow> length (selected params i) < length (selected params k)"
proof (induction k)
  case (Suc k)
  then show ?case by (cases "i = k") (auto simp: selected_Suc)
qed simp

lemma mem_before_le: "mem_before params ss k \<le> sizes_before ss k"
  by (induction k) (simp_all add: mem_before_def sizes_Suc selected_Suc, simp_all add: selected_def sizes_before_def)

lemma of_nat_eq_u64: "a < 2 ^ 64 \<Longrightarrow> b < 2 ^ 64 \<Longrightarrow> (of_nat a :: u64) = of_nat b \<longleftrightarrow> a = b"
  by (simp add: word_unat_eq_iff unat_of_nat_small)

lemma steps_few:
  assumes "steps_ok w ss"
  shows "length ss < 2 ^ 63"
proof -
  have "33 * k \<le> rec_pos w ss k" for k by (induction k) (simp_all add: rec_pos_Suc rec_bytes_def)
  from this[of "length ss"] steps_okD(9)[OF assms] show ?thesis by simp
qed

definition map_state :: "index_writer \<Rightarrow> nat \<Rightarrow> index_step \<Rightarrow> parse_state \<Rightarrow> parse_state" where
  "map_state w p s st = (if s_map s \<noteq> [] then map_effect (step_writer w s) p st else st)"

lemma map_state_rd:
  assumes ok: "steps_ok w ss" and k: "k < length ss" and inv: "parsed md params w ss k st"
  defines "st' \<equiv> map_state w (rec_pos w ss k) (ss ! k) st"
  shows "table_ok params w ss k (rd st')"
    and "LastWriterCount (rd st') = of_nat (w_CommSize w)"
    and "\<exists>c. LastMapStep (rd st') = of_nat c \<and> c \<le> length (selected params k) \<and>
         WriterMap (rd st') (of_nat c) = Some (map_value w (map_at ss k))"
proof -
  note small = steps_few[OF ok] and o = steps_okD[OF ok]
  have mv: "map_value (step_writer w s) m = map_value w m" for s m
    by (simp add: map_value_def step_writer_def)
  have cnt: "length (selected params k) < 2 ^ 64" using length_selected[of params k] k small by simp
  have tab: "table_ok params w ss k (rd st)" using inv by (simp add: parsed_def)
  have all: "table_ok params w ss k (rd st') \<and> LastWriterCount (rd st') = of_nat (w_CommSize w) \<and>
    (\<exists>c. LastMapStep (rd st') = of_nat c \<and> c \<le> length (selected params k) \<and>
         WriterMap (rd st') (of_nat c) = Some (map_value w (map_at ss k)))"
  proof (cases "s_map (ss ! k) = []")
    case True
    then have "0 < k" using o(2) by (cases k) simp_all
    then show ?thesis using True inv tab by (cases k) (auto simp: st'_def map_state_def parsed_def)
  next
    case False
    have cur: "map_at ss k = s_map (ss ! k)" using False by (cases k) simp_all
    have sc: "StepsCount (rd st) = of_nat (length (selected params k))" using inv by (simp add: parsed_def)
    have rd': "rd st' = (rd st)\<lparr>WriterMap := (WriterMap (rd st))(of_nat (length (selected params k)) \<mapsto> map_value w (map_at ss k)),
        LastMapStep := of_nat (length (selected params k)), LastWriterCount := of_nat (w_CommSize w)\<rparr>"
      using False by (simp add: st'_def map_state_def map_effect_def Let_def sc cur mv)
    have "table_ok params w ss k (rd st')"
      unfolding table_ok_def
    proof (intro allI impI conjI)
      fix i assume i: "i < k" "IsSelectedStep params (of_nat i)"
      note t = tab[unfolded table_ok_def, rule_format, OF i]
      show "MetadataIndexTable (rd st') (of_nat (length (selected params i))) =
        Some [of_nat (mem_before params ss i), s_size (ss ! i), of_nat (length (s_flushes (ss ! i))),
          of_nat (data_pos w ss i), s_pos (ss ! i)]"
        using t by (simp add: rd')
      obtain c where c: "WriterMapIndex (rd st) ! length (selected params i) = of_nat c"
        "c \<le> length (selected params i)" "WriterMap (rd st) (of_nat c) = Some (map_value w (map_at ss i))"
        using t by blast
      have "c < length (selected params k)" using c(2) length_selected_mono[OF i] by simp
      then have "(of_nat c :: u64) \<noteq> of_nat (length (selected params k))"
        using cnt of_nat_eq_u64[of c "length (selected params k)"] by simp
      then show "\<exists>c. WriterMapIndex (rd st') ! length (selected params i) = of_nat c \<and>
          c \<le> length (selected params i) \<and> WriterMap (rd st') (of_nat c) = Some (map_value w (map_at ss i))"
        using c by (intro exI[of _ c]) (simp add: rd')
    qed
    then show ?thesis by (auto simp: rd')
  qed
  then show "table_ok params w ss k (rd st')" "LastWriterCount (rd st') = of_nat (w_CommSize w)"
    "\<exists>c. LastMapStep (rd st') = of_nat c \<and> c \<le> length (selected params k) \<and>
         WriterMap (rd st') (of_nat c) = Some (map_value w (map_at ss k))" by blast+
qed

lemma map_state_keeps [simp]:
  "run_n (map_state w p s st) = run_n st" "metadataSizeToRead (map_state w p s st) = metadataSizeToRead st"
  "MetadataPosTotalSkip (map_state w p s st) = MetadataPosTotalSkip st"
  "minfo_pos (map_state w p s st) = minfo_pos st" "minfo_size (map_state w p s st) = minfo_size st"
  "StepsCount (rd (map_state w p s st)) = StepsCount (rd st)"
  "AbsStepsInFile (rd (map_state w p s st)) = AbsStepsInFile (rd st)"
  "WriterMapIndex (rd (map_state w p s st)) = WriterMapIndex (rd st)"
  "FilteredMetadataInfo (rd (map_state w p s st)) = FilteredMetadataInfo (rd st)"
  by (simp_all add: map_state_def map_effect_def Let_def)

lemma take_drop_append: "take b (drop a xs) @ take c (drop (a + b) xs) = take (b + c) (drop a xs)"
  by (simp add: take_add add.commute)

lemma ReadMetadata_snoc:
  "ReadMetadata md (runs @ [(p, n)]) = bindR (ReadMetadata md runs) (\<lambda>c. bindR (read_at md p n) (\<lambda>b. Inr (c @ b)))"
proof -
  have "mapR f (xs @ [x]) = bindR (mapR f xs) (\<lambda>ys. bindR (f x) (\<lambda>y. Inr (ys @ [y])))"
    for f :: "u64 \<times> u64 \<Rightarrow> bytes result" and xs x
    by (induction xs) (simp_all add: bindR_assoc bindR_Inr)
  then show ?thesis by (simp add: ReadMetadata_def bindR_assoc)
qed

lemma runs_step:
  assumes ok: "steps_ok w ss" and k: "k < length ss" and md: "sizes_before ss (length ss) \<le> length md"
    and runs: "runs_ok md params ss k st" and n: "run_n st = k" and abs: "AbsStepsInFile (rd st) = of_nat k"
  shows "runs_ok md params ss (Suc k) (take_step params (s_pos (ss ! k)) (s_size (ss ! k)) F dp st)"
proof -
  let ?s = "ss ! k" let ?z = "unat (s_size (ss ! k))"
  note o = steps_okD[OF ok]
  obtain a b content where ab: "minfo_pos st = of_nat a" "minfo_size st = of_nat b" "a + b = sizes_before ss k"
    "ReadMetadata md (FilteredMetadataInfo (rd st)) = Inr content"
    "content @ take b (drop a md) = concat (map (\<lambda>i. md_segment md (ss ! i)) (selected params k))"
    using runs by (auto simp: runs_ok_def)
  have le: "sizes_before ss (Suc k) \<le> sizes_before ss (length ss)" using k by (intro sizes_mono) simp
  have small: "sizes_before ss (Suc k) < 2 ^ 63" using le o(8) by simp
  then have sab: "a + b < 2 ^ 63" using ab(3) by (simp add: sizes_Suc)
  have pos: "unat (s_pos ?s) = a + b" "s_pos ?s = of_nat (a + b)" "s_size ?s = of_nat ?z"
    using o(7)[OF k] ab(3) unat_of_nat_small[OF _, of "a + b"] sab
    by (simp_all add: word_unat_eq_iff unat_of_nat_small del: of_nat_add)
  have seg: "md_segment md ?s = take ?z (drop (a + b) md)" by (simp add: md_segment_def pos(1))
  have start: "k = 0 \<Longrightarrow> a = 0 \<and> b = 0" using ab(3) by (simp add: sizes_before_def)
  let ?st = "if run_n st = 0 then st\<lparr>minfo_pos := s_pos ?s, MetadataPosTotalSkip := s_pos ?s\<rparr> else st"
  have mp: "minfo_pos ?st = of_nat a" using start n ab(1) pos(2) by auto
  show ?thesis
  proof (cases "IsSelectedStep params (of_nat k)")
    case True
    have "minfo_pos (take_step params (s_pos ?s) (s_size ?s) F dp st) = of_nat a"
      "minfo_size (take_step params (s_pos ?s) (s_size ?s) F dp st) = of_nat (b + ?z)"
      "ReadMetadata md (FilteredMetadataInfo (rd (take_step params (s_pos ?s) (s_size ?s) F dp st))) = Inr content"
      using True mp ab(2,4) abs by (simp_all add: take_step_def Let_def)
    moreover have "a + (b + ?z) = sizes_before ss (Suc k)" using ab(3) by (simp add: sizes_Suc)
    moreover have "content @ take (b + ?z) (drop a md)
        = concat (map (\<lambda>i. md_segment md (ss ! i)) (selected params (Suc k)))"
      using True ab(5) by (simp add: selected_Suc seg flip: take_drop_append)
    ultimately show ?thesis unfolding runs_ok_def by blast
  next
    case False
    have "minfo_pos (take_step params (s_pos ?s) (s_size ?s) F dp st) = of_nat (a + b + ?z)"
      "minfo_size (take_step params (s_pos ?s) (s_size ?s) F dp st) = of_nat 0"
      using False pos(2) abs by (simp_all add: take_step_def Let_def)
    moreover have "ReadMetadata md (FilteredMetadataInfo (rd (take_step params (s_pos ?s) (s_size ?s) F dp st)))
        = Inr (content @ take b (drop a md))"
    proof (cases "b = 0")
      case True
      then show ?thesis using False ab(2,4) abs by (simp add: take_step_def Let_def)
    next
      case b: False
      have ub: "unat (of_nat b :: u64) = b" "unat (of_nat a :: u64) = a"
        using sab by (simp_all add: unat_of_nat_small)
      have "(0 :: u64) < of_nat b" using b ub by (simp add: word_less_nat_alt)
      then have "FilteredMetadataInfo (rd (take_step params (s_pos ?s) (s_size ?s) F dp st))
          = FilteredMetadataInfo (rd st) @ [(of_nat a, of_nat b)]"
        using False ab(2) mp abs by (simp add: take_step_def Let_def)
      moreover have "a + b \<le> length md" using ab(3) sizes_mono[of k "length ss" ss] k md by simp
      ultimately show ?thesis using ab(4) ub by (simp add: ReadMetadata_snoc read_at_def)
    qed
    moreover have "a + b + ?z + 0 = sizes_before ss (Suc k)" using ab(3) by (simp add: sizes_Suc)
    moreover have "(content @ take b (drop a md)) @ take 0 (drop (a + b + ?z) md)
        = concat (map (\<lambda>i. md_segment md (ss ! i)) (selected params (Suc k)))"
      using False ab(5) by (simp add: selected_Suc)
    ultimately show ?thesis unfolding runs_ok_def by blast
  qed
qed

lemma data_pos_eq: "data_pos w ss k = rec_pos w ss k +
    (if s_map (ss ! k) \<noteq> [] then length (map_bytes (step_writer w (ss ! k))) else 0) + 33"
  by (simp add: data_pos_def)

text \<open>The step keeps the invariant.\<close>

lemma parsed_Suc:
  assumes ok: "steps_ok w ss" and k: "k < length ss" and md: "sizes_before ss (length ss) \<le> length md"
    and inv: "parsed md params w ss k st"
  shows "parsed md params w ss (Suc k) (rec_effect params w (rec_pos w ss k) (ss ! k) st)"
proof -
  let ?s = "ss ! k" let ?F = "of_nat (length (s_flushes ?s)) :: u64" let ?dp = "of_nat (data_pos w ss k) :: u64"
  let ?j = "length (selected params k)"
  note o = steps_okD[OF ok]
  define st1 where "st1 = map_state w (rec_pos w ss k) ?s st"
  define st2 where "st2 = take_step params (s_pos ?s) (s_size ?s) ?F ?dp st1"
  define st3 where "st3 = rec_effect params w (rec_pos w ss k) ?s st"
  note m = map_state_rd[OF ok k inv, folded st1_def]
  have st3: "st3 = st2\<lparr>position := of_nat (rec_pos w ss k + length (rec_bytes w ?s)),
      rd := (rd st2)\<lparr>AbsStepsInFile := AbsStepsInFile (rd st2) + 1\<rparr>, run_n := run_n st2 + 1\<rparr>"
    by (simp add: st3_def st2_def st1_def rec_effect_def step_effect_def map_state_def Let_def data_pos_eq
        rec_bytes_def add.assoc del: length_records of_nat_add)
  have i: "run_n st = k" "StepsCount (rd st) = of_nat ?j" "AbsStepsInFile (rd st) = of_nat k"
    "length (WriterMapIndex (rd st)) = ?j" "metadataSizeToRead st = of_nat (mem_before params ss k)"
    "MetadataPosTotalSkip st = of_nat (sizes_before ss k) - of_nat (mem_before params ss k)"
    "runs_ok md params ss k st" "IsLittleEndian (rd st) = w_LittleEndian w"
    using inv by (simp_all add: parsed_def)
  have runs1: "runs_ok md params ss k st1" using i(7) by (simp add: runs_ok_def st1_def)
  have runs: "runs_ok md params ss (Suc k) st2"
    unfolding st2_def using i by (intro runs_step[OF ok k md runs1]) (simp_all add: st1_def)
  have le: "sizes_before ss k < 2 ^ 63" using sizes_mono[of k "length ss" ss] k o(8) by simp
  have pos: "s_pos ?s = of_nat (sizes_before ss k)"
    using o(7)[OF k] le by (simp add: word_unat_eq_iff unat_of_nat_small)
  have skip: "(if k = 0 then s_pos ?s else MetadataPosTotalSkip st1)
      = of_nat (sizes_before ss k) - of_nat (mem_before params ss k)"
  proof (cases "k = 0")
    case True
    then show ?thesis using pos by (simp add: mem_before_def selected_def)
  qed (use i(6) in \<open>simp add: st1_def\<close>)
  have few: "k < 2 ^ 63" using k steps_few[OF ok] by simp
  have cnt: "?j < 2 ^ 63" using length_selected[of params k] few by simp
  have other: "length (selected params i) < ?j" if "i < k" "IsSelectedStep params (of_nat i)" for i
    using length_selected_mono[OF that] .
  have neq: "(of_nat (length (selected params i)) :: u64) \<noteq> of_nat ?j"
    if "i < k" "IsSelectedStep params (of_nat i)" for i
    using other[OF that] cnt of_nat_eq_u64[of "length (selected params i)" ?j] by simp
  obtain c where c: "LastMapStep (rd st1) = of_nat c" "c \<le> ?j"
    "WriterMap (rd st1) (of_nat c) = Some (map_value w (map_at ss k))" using m(3) by blast
  have idx1: "WriterMapIndex (rd st1) = WriterMapIndex (rd st)" "StepsCount (rd st1) = of_nat ?j"
    "AbsStepsInFile (rd st1) = of_nat k" "run_n st1 = k"
    using i by (simp_all add: st1_def)
  have tab: "table_ok params w ss (Suc k) (rd st2)"
    unfolding table_ok_def
  proof (intro allI impI)
    fix l assume l: "l < Suc k" "IsSelectedStep params (of_nat l)"
    show "MetadataIndexTable (rd st2) (of_nat (length (selected params l))) =
        Some [of_nat (mem_before params ss l), s_size (ss ! l), of_nat (length (s_flushes (ss ! l))),
          of_nat (data_pos w ss l), s_pos (ss ! l)] \<and>
      (\<exists>c. WriterMapIndex (rd st2) ! length (selected params l) = of_nat c \<and> c \<le> length (selected params l) \<and>
         WriterMap (rd st2) (of_nat c) = Some (map_value w (map_at ss l)))"
    proof (cases "l = k")
      case True
      have p: "s_pos ?s - (if k = 0 then s_pos ?s else MetadataPosTotalSkip st1) = of_nat (mem_before params ss k)"
        by (subst skip, subst pos) simp
      have "MetadataIndexTable (rd st2) (of_nat ?j)
          = Some [s_pos ?s - (if k = 0 then s_pos ?s else MetadataPosTotalSkip st1), s_size ?s, ?F, ?dp, s_pos ?s]"
        "WriterMapIndex (rd st2) ! ?j = of_nat c" "WriterMap (rd st2) = WriterMap (rd st1)"
        using l True idx1 c(1) i(4) by (auto simp: st2_def take_step_def Let_def nth_append)
      then show ?thesis using c p unfolding True by auto
    next
      case False
      then have l': "l < k" using l by simp
      note t = m(1)[unfolded table_ok_def, rule_format, OF l' l(2)]
      have "MetadataIndexTable (rd st2) (of_nat (length (selected params l)))
          = MetadataIndexTable (rd st1) (of_nat (length (selected params l)))"
        "WriterMapIndex (rd st2) ! length (selected params l) = WriterMapIndex (rd st1) ! length (selected params l)"
        "WriterMap (rd st2) = WriterMap (rd st1)"
        using idx1 neq[OF l' l(2)] other[OF l' l(2)] i(4)
        by (auto simp: st2_def take_step_def Let_def nth_append)
      then show ?thesis using t by simp
    qed
  qed
  have sel: "selected params (Suc k) = selected params k @ (if IsSelectedStep params (of_nat k) then [k] else [])"
    by (rule selected_Suc)
  have mem: "mem_before params ss (Suc k) = mem_before params ss k +
      (if IsSelectedStep params (of_nat k) then unat (s_size ?s) else 0)"
    by (simp add: mem_before_def sel)
  have z: "of_nat (unat (s_size ?s)) = s_size ?s" by simp
  show ?thesis
    unfolding st3_def[symmetric] parsed_def
  proof (intro conjI impI)
    show "position st3 = of_nat (rec_pos w ss (Suc k))" by (simp add: st3 rec_pos_Suc del: of_nat_add)
    show "IsLittleEndian (rd st3) = w_LittleEndian w" using i(8) by (simp add: st3_def)
    show "run_n st3 = Suc k" using idx1 by (simp add: st3 st2_def)
    show "StepsCount (rd st3) = of_nat (length (selected params (Suc k)))"
      "AbsStepsInFile (rd st3) = of_nat (Suc k)"
      "length (WriterMapIndex (rd st3)) = length (selected params (Suc k))"
      using idx1 i(4) by (simp_all add: st3 st2_def take_step_def Let_def sel)
    show "metadataSizeToRead st3 = of_nat (mem_before params ss (Suc k))"
      using idx1 i(5) by (simp add: st3 st2_def take_step_def Let_def mem st1_def)
    show "MetadataPosTotalSkip st3 = of_nat (sizes_before ss (Suc k)) - of_nat (mem_before params ss (Suc k))"
      using idx1 skip by (auto simp: st3 st2_def take_step_def Let_def mem sizes_Suc)
    show "LastWriterCount (rd st3) = of_nat (w_CommSize w)" using m(2) by (simp add: st3 st2_def)
    show "\<exists>c. LastMapStep (rd st3) = of_nat c \<and> c \<le> length (selected params (Suc k)) \<and>
         WriterMap (rd st3) (of_nat c) = Some (map_value w (map_at ss (Suc k - 1)))"
      using c by (intro exI[of _ c]) (simp add: st3 st2_def sel)
    show "table_ok params w ss (Suc k) (rd st3)" using tab by (simp add: st3 table_ok_def)
    show "runs_ok md params ss (Suc k) st3" using runs by (simp add: st3 runs_ok_def)
  qed
qed

end
