(* ===== verification/Adios_Bp5FileFind.thy ===== *)
theory Adios_Bp5FileFind
  imports Adios_Bp5FileRound
begin

section \<open>Metadata and data are found again\<close>

text \<open>
  The files of a writer, step after step, and a reader that parses the index, reads the metadata of the
  selected steps and looks up data: the reader gets the blocks of every rank and step, the subfile of
  every rank, and the bytes of the data wherever its flushes lie.
\<close>

subsection \<open>The whole index\<close>

definition size_limit :: "reader_params \<Rightarrow> nat" where
  "size_limit params = (if Streaming params then 16777216 else 18446744073709551615)"

definition fresh_reader :: "index_reader \<Rightarrow> bool" where
  "fresh_reader r \<longleftrightarrow> WriterMapIndex r = [] \<and> StepsCount r = 0 \<and> AbsStepsInFile r = 0"

lemma parse_all:
  assumes ok: "steps_ok w ss" and md: "sizes_before ss (length ss) \<le> length md"
    and rd: "reads buf 64 (concat (map (rec_bytes w) ss))" and buf: "length buf = rec_pos w ss (length ss)"
    and limit: "sizes_before ss (length ss) < size_limit params"
    and st: "parsed md params w ss 0 st"
  shows "parse_records params buf st = Some (Inr (after_steps params w ss (length ss) st)) \<and>
    parsed md params w ss (length ss) (after_steps params w ss (length ss) st)"
proof -
  note o = steps_okD[OF ok]
  have small: "length buf < 2 ^ 63" using o(9) buf by simp
  have "parse_records params buf st = parse_records params buf (after_steps params w ss k st) \<and>
    parsed md params w ss k (after_steps params w ss k st)" if "k \<le> length ss" for k
    using that
  proof (induction k)
    case (Suc k)
    let ?st = "after_steps params w ss k st"
    have k: "k < length ss" and IH: "parse_records params buf st = parse_records params buf ?st"
      "parsed md params w ss k ?st" using Suc by auto
    have r: "reads buf (rec_pos w ss k) (rec_bytes w (ss ! k))"
      using reads_concat_nth[OF rd k] by (simp add: rec_pos_def)
    have le: "mem_before params ss k \<le> sizes_before ss (length ss)"
      using mem_before_le[of params ss k] sizes_mono[of k "length ss" ss] k by simp
    have "unat (metadataSizeToRead ?st) = mem_before params ss k"
      using IH(2) le o(8) by (simp add: parsed_def unat_of_nat_small)
    then have room: "room params ?st"
      using le limit by (auto simp: room_def size_limit_def word_less_nat_alt)
    have "s_map (ss ! k) = [] \<Longrightarrow> LastWriterCount (rd ?st) = of_nat (w_CommSize w)"
      using IH(2) o(2) by (cases k) (auto simp: parsed_def)
    then have "parse_records params buf ?st
        = parse_records params buf (rec_effect params w (rec_pos w ss k) (ss ! k) ?st)"
      using IH(2) o(4) o(5)[OF k] small room by (intro parse_one_step[OF r]) (simp_all add: parsed_def)
    then show ?case using IH(1) parsed_Suc[OF ok k md IH(2)] by simp
  qed (use st in simp)
  from this[of "length ss"] have e: "parse_records params buf st = parse_records params buf (after_steps params w ss (length ss) st)"
    and p: "parsed md params w ss (length ss) (after_steps params w ss (length ss) st)" by auto
  have "\<not> position (after_steps params w ss (length ss) st) < of_nat (length buf)"
    using p buf by (simp add: parsed_def)
  then have "parse_records params buf (after_steps params w ss (length ss) st)
      = Some (Inr (after_steps params w ss (length ss) st))"
    by (subst parse_records.simps) simp
  with e p show ?thesis by simp
qed

lemma header_fields:
  "\<exists>x1 x2 x3. header_bytes w uuid = tag_field w @ [x1, x2, x3, 0] @
    [if w_LittleEndian w then 0 else 1, 5, 2, 1, if w_ColumnMajor w then 121 else 110, of_bool (w_FlattenSteps w)] @
    host32 w uuid @ replicate 18 0"
  by (cases "w_Version w") (auto simp: header_bytes_def)

definition parsed_header :: "reader_params \<Rightarrow> index_writer \<Rightarrow> u32 \<Rightarrow> bool \<Rightarrow> index_reader \<Rightarrow> index_reader" where
  "parsed_header params w uuid active r =
    r\<lparr>VersionTag := tag_field w, IsLittleEndian := w_LittleEndian w, WriterIsActive := active,
      WriterIsRowMajor := (\<not> w_ColumnMajor w),
      r_FlattenSteps := (w_FlattenSteps w \<and> \<not> IgnoreFlattenSteps params), FileUUID := uuid\<rparr>"

lemma ParseHeader_header:
  assumes rd: "reads buf 0 (tag_field w @ [x1, x2, x3, 0] @
      [if w_LittleEndian w then 0 else 1, 5, 2, if active then 1 else 0, if w_ColumnMajor w then 121 else 110,
       of_bool (w_FlattenSteps w)] @ host32 w uuid @ rest)"
    and buf: "length buf < 2 ^ 63"
  shows "ParseHeader params buf r = Inr (parsed_header params w uuid active r)"
proof -
  have n: "NO_MATCH [] xs" for xs :: bytes by (simp add: NO_MATCH_def)
  have r: "reads buf 0 (tag_field w)" "reads buf 36 [if w_LittleEndian w then 0 else 1]" "reads buf 37 [5]"
    "reads buf 38 [2]" "reads buf 39 [if active then 1 else 0]"
    "reads buf 40 [if w_ColumnMajor w then 121 else 110]" "reads buf 41 [of_bool (w_FlattenSteps w)]"
    "reads buf 42 (host32 w uuid)"
    using rd by (simp_all add: reads_append reads_Cons)
  have g: "get_bytes_at 32 buf 0 = Inr (tag_field w, 32)"
    using get_bytes_at_reads[OF r(1) _ buf, of 32] by simp
  note v = ReadValue8_reads[OF r(2) buf] ReadValue8_reads[OF r(3) buf] ReadValue8_reads[OF r(4) buf]
    ReadValue8_reads[OF r(5) buf] ReadValue8_reads[OF r(6) buf] ReadValue8_reads[OF r(7) buf]
  have u: "ReadValue32 (w_LittleEndian w) buf 42 = Inr (uuid, 46)"
    using ReadValue32_reads[OF r(8) buf] by simp
  have le: "((if w_LittleEndian w then 0 else 1 :: u8) = 0) = w_LittleEndian w" by simp
  show ?thesis
    using v u by (simp add: ParseHeader_def g le parsed_header_def)
qed

lemma reads_whole: "reads bs 0 bs"
  by (simp add: reads_def)

lemma reads_shift: "reads (a @ b) (length a + p) x \<longleftrightarrow> reads b p x"
  by (simp add: reads_def)

lemma reads_flagged:
  assumes "reads idx p bs" "40 \<le> p"
  shows "reads (UpdateActiveFlag active idx) p bs"
proof -
  have l: "40 \<le> length idx" using assms reads_bound[OF assms(1)] by simp
  have "p - 39 = Suc (p - 40)" using assms(2) by simp
  then have "drop p (UpdateActiveFlag active idx) = drop p idx"
    using l assms(2) by (simp add: UpdateActiveFlag_def splice_def)
  moreover have "length (UpdateActiveFlag active idx) = length idx"
    using l by (simp add: UpdateActiveFlag_def)
  ultimately show ?thesis using assms(1) by (simp add: reads_def)
qed

text \<open>The index of all steps, with the flag of the header updated, as a reader parses it.\<close>

lemma parse_index:
  assumes ok: "steps_ok w ss" and md: "sizes_before ss (length ss) \<le> length md"
    and limit: "sizes_before ss (length ss) < size_limit params" and fresh: "fresh_reader r"
  shows "\<exists>idx r'. write_index w uuid ss = Inr idx \<and>
    ParseMetadataIndex params (UpdateActiveFlag active idx) 0 True r = Some (Inr (of_nat (length idx), r')) \<and>
    reads (UpdateActiveFlag active idx) 64 (concat (map (rec_bytes w) ss)) \<and>
    length (UpdateActiveFlag active idx) = rec_pos w ss (length ss) \<and>
    IsLittleEndian r' = w_LittleEndian w \<and> WriterIsActive r' = active \<and>
    WriterIsRowMajor r' = (\<not> w_ColumnMajor w) \<and>
    r_FlattenSteps r' = (w_FlattenSteps w \<and> \<not> IgnoreFlattenSteps params) \<and> FileUUID r' = uuid \<and>
    StepsCount r' = of_nat (length (selected params (length ss))) \<and>
    length (WriterMapIndex r') = length (selected params (length ss)) \<and>
    table_ok params w ss (length ss) r' \<and>
    ReadMetadata md (FilteredMetadataInfo r') = Inr (concat (map (\<lambda>i. md_segment md (ss ! i)) (selected params (length ss))))"
proof -
  note o = steps_okD[OF ok]
  let ?recs = "concat (map (rec_bytes w) ss)"
  define idx where "idx = header_bytes w uuid @ ?recs"
  let ?buf = "UpdateActiveFlag active idx"
  have wr: "write_index w uuid ss = Inr idx" unfolding idx_def by (rule index_is_records[OF ok])
  have lr: "length ?recs = rec_pos w ss (length ss) - 64" "64 \<le> rec_pos w ss (length ss)"
  proof -
    have "map (\<lambda>i. length (rec_bytes w (ss ! i))) [0..<length ss] = map (length \<circ> rec_bytes w) ss"
      by (rule nth_equalityI) simp_all
    then show "length ?recs = rec_pos w ss (length ss) - 64" "64 \<le> rec_pos w ss (length ss)"
      by (simp_all add: rec_pos_def length_concat)
  qed
  have len: "length idx = rec_pos w ss (length ss)" "length ?buf = rec_pos w ss (length ss)"
    using lr by (simp_all add: idx_def UpdateActiveFlag_def del: length_splice) (simp_all add: splice_def)
  have buf: "length ?buf < 2 ^ 63" using len o(9) by simp
  have "reads idx 64 ?recs" unfolding idx_def using reads_shift[of "header_bytes w uuid" ?recs 0 ?recs] reads_whole by simp
  then have recs: "reads ?buf 64 ?recs" by (rule reads_flagged) simp
  obtain x1 x2 x3 where h: "header_bytes w uuid = tag_field w @ [x1, x2, x3, 0] @
    [if w_LittleEndian w then 0 else 1, 5, 2, 1, if w_ColumnMajor w then 121 else 110, of_bool (w_FlattenSteps w)] @
    host32 w uuid @ replicate 18 0" using header_fields by blast
  have flagged: "?buf = tag_field w @ [x1, x2, x3, 0] @
    [if w_LittleEndian w then 0 else 1, 5, 2, if active then 1 else 0, if w_ColumnMajor w then 121 else 110,
     of_bool (w_FlattenSteps w)] @ host32 w uuid @ replicate 18 0 @ ?recs"
    unfolding idx_def h by (simp add: UpdateActiveFlag_def splice_def)
  have header: "ParseHeader params ?buf r = Inr (parsed_header params w uuid active r)"
    by (rule ParseHeader_header[OF _ buf, where rest = "replicate 18 0 @ ?recs"], subst flagged) (rule reads_whole)
  define st0 where "st0 = \<lparr>position = 64 :: u64, metadataSizeToRead = 0, MetadataPosTotalSkip = 0, minfo_pos = 0,
      minfo_size = 0, run_n = 0, rd = (parsed_header params w uuid active r)\<lparr>MetadataIndexTable := Map.empty,
        FilteredMetadataInfo := []\<rparr>\<rparr>"
  have "parsed md params w ss 0 st0"
    using fresh by (auto simp: parsed_def st0_def parsed_header_def rec_pos_def selected_def mem_before_def
        sizes_before_def table_ok_def runs_ok_def ReadMetadata_def fresh_reader_def)
  note all = parse_all[OF ok md recs len(2) limit this]
  define st where "st = after_steps params w ss (length ss) st0"
  have pr: "parse_records params ?buf st0 = Some (Inr st)" and inv: "parsed md params w ss (length ss) st"
    using all unfolding st_def by blast+
  have keep: "VersionTag (rd (after_steps params w ss k st0)) = VersionTag (rd st0) \<and>
      WriterIsActive (rd (after_steps params w ss k st0)) = WriterIsActive (rd st0) \<and>
      WriterIsRowMajor (rd (after_steps params w ss k st0)) = WriterIsRowMajor (rd st0) \<and>
      r_FlattenSteps (rd (after_steps params w ss k st0)) = r_FlattenSteps (rd st0) \<and>
      FileUUID (rd (after_steps params w ss k st0)) = FileUUID (rd st0)" for k
    by (induction k) (simp_all add: rec_effect_def step_effect_def take_step_def map_effect_def Let_def)
  obtain a b content where runs: "minfo_pos st = of_nat a" "minfo_size st = of_nat b" "a + b = sizes_before ss (length ss)"
    "ReadMetadata md (FilteredMetadataInfo (rd st)) = Inr content"
    "content @ take b (drop a md) = concat (map (\<lambda>i. md_segment md (ss ! i)) (selected params (length ss)))"
    using inv by (auto simp: parsed_def runs_ok_def)
  have ab: "a + b < 2 ^ 63" using runs(3) o(8) by simp
  have ub: "unat (of_nat b :: u64) = b" "unat (of_nat a :: u64) = a" using ab by (simp_all add: unat_of_nat_small)
  define r' where "r' = (if minfo_size st > 0
      then (rd st)\<lparr>FilteredMetadataInfo := FilteredMetadataInfo (rd st) @ [(minfo_pos st, minfo_size st)]\<rparr> else rd st)"
  have "ParseMetadataIndex params ?buf 0 True r = Some (Inr (position st, r'))"
    by (simp add: ParseMetadataIndex_def header pr[unfolded st0_def] r'_def)
  then have P: "ParseMetadataIndex params ?buf 0 True r = Some (Inr (of_nat (length idx), r'))"
    using inv len by (simp add: parsed_def)
  have read: "ReadMetadata md (FilteredMetadataInfo r') = Inr (concat (map (\<lambda>i. md_segment md (ss ! i)) (selected params (length ss))))"
  proof (cases "b = 0")
    case True
    then show ?thesis using runs by (simp add: r'_def)
  next
    case False
    then have "(0 :: u64) < of_nat b" using ub by (simp add: word_less_nat_alt)
    then show ?thesis
      using runs ub md by (simp add: r'_def ReadMetadata_snoc read_at_def)
  qed
  have r': "IsLittleEndian r' = IsLittleEndian (rd st)" "WriterIsActive r' = WriterIsActive (rd st)"
    "WriterIsRowMajor r' = WriterIsRowMajor (rd st)" "r_FlattenSteps r' = r_FlattenSteps (rd st)"
    "FileUUID r' = FileUUID (rd st)" "StepsCount r' = StepsCount (rd st)" "WriterMapIndex r' = WriterMapIndex (rd st)"
    "WriterMap r' = WriterMap (rd st)" "MetadataIndexTable r' = MetadataIndexTable (rd st)"
    by (simp_all add: r'_def)
  have tab: "table_ok params w ss (length ss) r'" using inv by (simp add: parsed_def table_ok_def r')
  have hd0: "WriterIsActive (rd st) = active" "WriterIsRowMajor (rd st) = (\<not> w_ColumnMajor w)"
    "r_FlattenSteps (rd st) = (w_FlattenSteps w \<and> \<not> IgnoreFlattenSteps params)" "FileUUID (rd st) = uuid"
    using keep[of "length ss"] unfolding st_def by (simp_all add: st0_def parsed_header_def)
  show ?thesis
    using wr P recs len read tab inv hd0 r' by (intro exI[of _ idx] exI[of _ r']) (simp add: parsed_def)
qed

subsection \<open>Data\<close>

text \<open>
  The pieces of the data of a writer: a range that lies in one of them, and a data file that holds
  them at the positions of the index.
\<close>

fun in_piece :: "bytes list \<Rightarrow> nat \<Rightarrow> nat \<Rightarrow> bool" where
  "in_piece [] off n \<longleftrightarrow> False"
| "in_piece (d # ds) off n \<longleftrightarrow> off + n \<le> length d \<or> length d \<le> off \<and> in_piece ds (off - length d) n"

definition holds_pieces :: "bytes \<Rightarrow> nat \<Rightarrow> index_step \<Rightarrow> bytes list \<Rightarrow> bool" where
  "holds_pieces file writer s pieces \<longleftrightarrow>
    length pieces = length (s_flushes s) + 1 \<and>
    list_all (\<lambda>i. reads file (unat (s_flushes s ! i ! (2 * writer))) (pieces ! i) \<and>
        unat (s_flushes s ! i ! (2 * writer + 1)) = length (pieces ! i)) [0..<length (s_flushes s)] \<and>
    reads file (unat (s_datapos s ! writer)) (last pieces) \<and>
    length file < 2 ^ 63 \<and> sum_list (map length pieces) < 2 ^ 63"

lemma read_file_piece:
  assumes "reads file (unat base) d" "off + n \<le> length d" "length file < 2 ^ 63"
  shows "read_file file base (of_nat off) (of_nat n) = Inr (take n (drop off d))"
proof -
  have b: "unat base + length d \<le> length file" using reads_bound[OF assms(1)] by simp
  then have u: "unat (of_nat off :: u64) = off" "unat (of_nat n :: u64) = n"
    using assms(2,3) by (simp_all add: unat_of_nat_small)
  have s: "unat (base + of_nat off) = unat base + off"
    using b assms(2,3) u by (simp add: unat_add_small)
  have "unat (MaxSizeT - of_nat off) = 18446744073709551615 - off"
    using b assms(2,3) u by (subst unat_sub) (simp_all add: word_le_nat_alt)
  then have le: "\<not> base > MaxSizeT - of_nat off" using b assms(2,3) by (simp add: word_less_nat_alt)
  have "take n (drop (unat base + off) file) = take n (drop off (take (length d) (drop (unat base) file)))"
    using assms(2) by (simp add: drop_take add.commute min_def)
  then have "take n (drop (unat base + off) file) = take n (drop off d)" using assms(1) by (simp add: reads_def)
  then show ?thesis using le b assms(2) u s by (simp add: read_file_def read_at_def)
qed

lemma flush_loop_pieces:
  assumes "reads idx p (concat (map (flush_bytes w writer) fs) @ host64 w last_pos)" "length idx < 2 ^ 63"
    and "length pieces = length fs + 1"
    and "\<And>i. i < length fs \<Longrightarrow> reads file (unat (fs ! i ! (2 * writer))) (pieces ! i) \<and>
        unat (fs ! i ! (2 * writer + 1)) = length (pieces ! i)"
    and "reads file (unat last_pos) (last pieces)" "length file < 2 ^ 63"
    and "in_piece pieces off n" "done + sum_list (map length pieces) < 2 ^ 63"
  shows "flush_loop (w_LittleEndian w) idx file (length fs) (of_nat p) (of_nat done) (of_nat (done + off)) (of_nat n)
    = Inr (take n (drop off (concat pieces)))"
  using assms(1,3,4,5,7,8)
proof (induction fs arbitrary: p pieces off "done")
  case Nil
  then obtain d where d: "pieces = [d]" by (auto simp: length_Suc_conv)
  have "reads idx p (host64 w last_pos)" using Nil.prems(1) by simp
  then have v: "ReadValue64 (w_LittleEndian w) idx (of_nat p) = Inr (last_pos, of_nat (p + 8))"
    by (rule ReadValue64_reads) (rule assms(2))
  have "reads file (unat last_pos) d" "off + n \<le> length d" using Nil.prems by (simp_all add: d)
  from read_file_piece[OF this assms(6)] show ?case by (simp add: d v)
next
  case (Cons f fs)
  obtain d ds where d: "pieces = d # ds" "length ds = length fs + 1" using Cons.prems(2) by (cases pieces) simp_all
  have dl: "last pieces = last ds" using d by (cases ds) simp_all
  let ?pos = "f ! (2 * writer)" and ?size = "f ! (2 * writer + 1)"
  have r: "reads idx p (host64 w ?pos)" "reads idx (p + 8) (host64 w ?size)"
    "reads idx (p + 16) (concat (map (flush_bytes w writer) fs) @ host64 w last_pos)"
    using Cons.prems(1) by (simp_all add: flush_bytes_def[of w writer f] reads_append add.assoc)
  have v: "ReadValue64 (w_LittleEndian w) idx (of_nat p) = Inr (?pos, of_nat (p + 8))"
    "ReadValue64 (w_LittleEndian w) idx (of_nat (p + 8)) = Inr (?size, of_nat (p + 16))"
    using ReadValue64_reads[OF r(1) assms(2)] ReadValue64_reads[OF r(2) assms(2)] by (simp_all add: add.assoc)
  have f: "reads file (unat ?pos) d" "unat ?size = length d" using Cons.prems(3)[of 0] by (simp_all add: d)
  have sz: "?size = of_nat (length d)" unfolding f(2)[symmetric] by simp
  have sum: "done + (length d + sum_list (map length ds)) < 2 ^ 63" using Cons.prems(6) by (simp add: d)
  have len: "length (concat ds) = sum_list (map length ds)" by (simp add: length_concat)
  have inl: "in_piece ds q n \<Longrightarrow> q + n \<le> length (concat ds)" for q ds
  proof (induction ds arbitrary: q)
    case (Cons d ds)
    then show ?case by force
  qed simp
  have off: "off + n \<le> length d + length (concat ds)" using inl[OF Cons.prems(5)] by (simp add: d)
  have cond: "(of_nat (done + off) :: u64) < of_nat done + ?size \<longleftrightarrow> off < length d"
  proof -
    have "(of_nat done :: u64) + ?size = of_nat (done + length d)" unfolding sz by simp
    then show ?thesis using off sum len by (simp add: of_nat_less_u64 del: of_nat_add)
  qed
  have body: "flush_loop (w_LittleEndian w) idx file (length (f # fs)) (of_nat p) (of_nat done) (of_nat (done + off)) (of_nat n)
      = (if off < length d then read_file file ?pos (of_nat off) (of_nat n)
         else flush_loop (w_LittleEndian w) idx file (length fs) (of_nat (p + 16)) (of_nat (done + length d))
           (of_nat (done + off)) (of_nat n))"
    unfolding list.size(4) add_Suc_right add_0_right flush_loop.simps v bindR.simps prod.case cond
    unfolding sz by simp
  show ?case
  proof (cases "off < length d")
    case True
    then have "off + n \<le> length d" using Cons.prems(5) by (simp add: d)
    then show ?thesis
      using body True read_file_piece[OF f(1) _ assms(6)] by (simp add: d)
  next
    case False
    have "in_piece ds (off - length d) n"
    proof (cases "off + n \<le> length d")
      case True
      then have "off = length d" "n = 0" using False by simp_all
      then show ?thesis using d(2) by (cases ds) simp_all
    qed (use Cons.prems(5) d in simp)
    then have "flush_loop (w_LittleEndian w) idx file (length fs) (of_nat (p + 16)) (of_nat (done + length d))
        (of_nat (done + length d + (off - length d))) (of_nat n)
        = Inr (take n (drop (off - length d) (concat ds)))"
      using Cons.prems(3)[of "Suc i" for i] Cons.prems(4) sum dl d(2)
      by (intro Cons.IH[OF r(3)]) (auto simp: d(1))
    then show ?thesis using body False by (simp add: d(1))
  qed
qed

end
