(* ===== verification/Adios_Bp5FileRead.thy ===== *)
theory Adios_Bp5FileRead
  imports Adios_Bp5FileFind
begin

section \<open>Reading back the files of BP5\<close>

text \<open>
  The composition: the steps a writer makes, with both metadata files, and what a reader gets from them,
  the metadata and attribute blocks of every rank, the subfile of every rank, and its data.
\<close>

subsection \<open>A step in the index\<close>

lemma reads_const_nth:
  assumes "reads buf p (concat (map f [0..<n]))" "\<And>i. i < n \<Longrightarrow> length (f i) = c" "i < n"
  shows "reads buf (p + i * c) (f i)"
proof -
  have "map (\<lambda>j. length (f ([0..<n] ! j))) [0..<i] = replicate i c"
    using assms(2,3) by (intro nth_equalityI) simp_all
  then show ?thesis using reads_concat_nth[OF assms(1), of i] assms(3) by (simp add: sum_list_replicate)
qed

lemma step_positions:
  assumes rd: "reads buf 64 (concat (map (rec_bytes w) ss))" and k: "k < length ss" and wr: "wr < w_CommSize w"
  shows "reads buf (data_pos w ss k + wr * (8 * (2 * length (s_flushes (ss ! k)) + 1)))
    (position_bytes (step_writer w (ss ! k)) wr)"
proof -
  let ?s = "ss ! k" let ?w = "step_writer w ?s"
  have "reads buf (rec_pos w ss k) (rec_bytes w ?s)" using reads_concat_nth[OF rd k] by (simp add: rec_pos_def)
  moreover define q where "q = rec_pos w ss k + (if s_map ?s \<noteq> [] then length (map_bytes ?w) else 0)"
  ultimately have "reads buf q (step_bytes ?w (s_pos ?s) (s_size ?s))"
    by (cases "s_map ?s = []") (simp_all add: rec_bytes_def reads_append del: length_records)
  then have "reads buf (33 + q) (concat (map (position_bytes ?w) [0..<w_CommSize w]))"
    unfolding step_bytes_def by (simp add: reads_append reads_Cons add.assoc)
  moreover have "33 + q = data_pos w ss k" by (simp add: data_pos_def q_def del: length_records)
  ultimately have "reads buf (data_pos w ss k) (concat (map (position_bytes ?w) [0..<w_CommSize w]))"
    by simp
  from reads_const_nth[OF this _ wr, of "8 * (2 * length (s_flushes ?s) + 1)"] show ?thesis by simp
qed

lemma flushes_small:
  assumes "steps_ok w ss" "k < length ss"
  shows "length (s_flushes (ss ! k)) < 2 ^ 59"
proof -
  have "writer_ok (step_writer w (ss ! k))" "0 < w_CommSize w" using steps_okD[OF assms(1)] assms(2) by blast+
  then have b: "8 * (2 * length (s_flushes (ss ! k)) + 1) * w_CommSize w + 8 * w_CommSize w < 2 ^ 63"
    by (simp add: writer_ok_def)
  have "8 * (2 * length (s_flushes (ss ! k)) + 1) * 1 \<le> 8 * (2 * length (s_flushes (ss ! k)) + 1) * w_CommSize w"
    using \<open>0 < w_CommSize w\<close> by (intro mult_le_mono2) simp
  from le_less_trans[OF le_trans[OF this le_add1] b] show ?thesis by simp
qed

lemma map_at_length:
  assumes "steps_ok w ss" "k < length ss"
  shows "length (map_at ss k) = w_CommSize w"
  using assms(2)
proof (induction k)
  case 0
  then show ?case using steps_okD(2)[OF assms(1)] steps_okD(5)[OF assms(1), of 0] by (simp add: writer_ok_def)
next
  case (Suc k)
  then show ?case using steps_okD(5)[OF assms(1), of "Suc k"] by (simp add: writer_ok_def)
qed

lemma found_subfile:
  assumes ok: "steps_ok w ss" and k: "k < length ss" and sel: "IsSelectedStep params (of_nat k)"
    and tab: "table_ok params w ss (length ss) r" and len: "length (WriterMapIndex r) = length (selected params (length ss))"
    and wr: "wr < w_CommSize w"
  shows "subfile_of r (of_nat (length (selected params k))) (of_nat wr) = Inr (map_at ss k ! wr)"
    and "case WriterMap r (WriterMapIndex r ! length (selected params k)) of
      Some m \<Rightarrow> unat (WriterCount m) = w_CommSize w | None \<Rightarrow> False"
proof -
  let ?j = "length (selected params k)"
  have j: "?j < length (selected params (length ss))" using length_selected_mono[OF k sel] .
  have small: "?j < 2 ^ 63" using j length_selected[of params "length ss"] steps_few[OF ok] by simp
  have u: "unat (of_nat ?j :: u64) = ?j" using small by (intro unat_of_nat_small) simp
  have n: "w_CommSize w < 2 ^ 32" using steps_okD(4)[OF ok] .
  then have uw: "unat (of_nat wr :: u64) = wr" using wr by (intro unat_of_nat_small) simp
  obtain c where "WriterMapIndex r ! ?j = of_nat c" "WriterMap r (of_nat c) = Some (map_value w (map_at ss k))"
    using tab k sel unfolding table_ok_def by blast
  then have m: "WriterMap r (WriterMapIndex r ! ?j) = Some (map_value w (map_at ss k))" by simp
  then show "subfile_of r (of_nat ?j) (of_nat wr) = Inr (map_at ss k ! wr)"
    using j len u uw wr map_at_length[OF ok k] by (simp add: subfile_of_def map_value_def)
  show "case WriterMap r (WriterMapIndex r ! ?j) of Some m \<Rightarrow> unat (WriterCount m) = w_CommSize w | None \<Rightarrow> False"
    using m n by (simp add: map_value_def unat_of_nat_small)
qed

lemma found_data:
  assumes ok: "steps_ok w ss" and k: "k < length ss" and sel: "IsSelectedStep params (of_nat k)"
    and tab: "table_ok params w ss (length ss) r" and le: "IsLittleEndian r = w_LittleEndian w"
    and rd: "reads idx 64 (concat (map (rec_bytes w) ss))" and idx: "length idx < 2 ^ 63"
    and wr: "wr < w_CommSize w" and held: "holds_pieces file wr (ss ! k) pieces" and piece: "in_piece pieces off n"
  shows "ReadData r idx file (of_nat wr) (of_nat (length (selected params k))) (of_nat off) (of_nat n)
    = Inr (take n (drop off (concat pieces)))"
proof -
  let ?s = "ss ! k" let ?F = "length (s_flushes ?s)"
  have F: "unat (of_nat ?F :: u64) = ?F" using flushes_small[OF ok k] by (intro unat_of_nat_small) simp
  have t: "MetadataIndexTable r (of_nat (length (selected params k))) =
      Some [of_nat (mem_before params ss k), s_size ?s, of_nat ?F, of_nat (data_pos w ss k), s_pos ?s]"
    using tab k sel unfolding table_ok_def by blast
  have pos: "(of_nat (data_pos w ss k) :: u64) + of_nat wr * (2 * of_nat ?F + 1) * 8
      = of_nat (data_pos w ss k + wr * (8 * (2 * ?F + 1)))" by (simp add: algebra_simps)
  have "reads idx (data_pos w ss k + wr * (8 * (2 * ?F + 1)))
      (concat (map (flush_bytes (step_writer w ?s) wr) (s_flushes ?s)) @ host64 w (s_datapos ?s ! wr))"
    using step_positions[OF rd k wr] by (simp add: position_bytes_def)
  then have "flush_loop (w_LittleEndian (step_writer w ?s)) idx file ?F
      (of_nat (data_pos w ss k + wr * (8 * (2 * ?F + 1)))) (of_nat 0) (of_nat (0 + off)) (of_nat n)
      = Inr (take n (drop off (concat pieces)))"
    using held piece idx by (intro flush_loop_pieces) (auto simp: holds_pieces_def list_all_upt)
  then show ?thesis by (simp add: ReadData_def t F pos le del: of_nat_add of_nat_mult)
qed

subsection \<open>Both metadata files\<close>

text \<open>
  What a step hands to rank 0: the metadata blocks of all ranks and their attribute blocks, the
  subfiles when they have changed, and the positions of the data. The metadata position of the index
  is the end of \<open>md.0\<close> before the step.
\<close>

record step_input =
  in_blocks :: "bytes list"
  in_attrs :: "bytes list"
  in_map :: "u64 list"
  in_flushes :: "u64 list list"
  in_datapos :: "u64 list"

fun write_steps :: "index_writer \<Rightarrow> u32 \<Rightarrow> step_input list \<Rightarrow> (bytes \<times> bytes) result" where
  "write_steps w uuid [] = Inr ([], [])"
| "write_steps w uuid (s # ss) =
    bindR (WriteMetadata_contig w (concat (in_blocks s)) (map (\<lambda>b. of_nat (length b)) (in_blocks s))
             (map (\<lambda>a. (Some a, of_nat (length a))) (in_attrs s))) (\<lambda>(md, size', w').
    bindR (WriteMetadataFileIndex (w'\<lparr>w_WriterSubfileMap := in_map s, w_FlushPosSizeInfo := in_flushes s,
             w_WriterDataPos := in_datapos s\<rparr>) uuid (w_MetaDataPos w) size') (\<lambda>(idx, w').
    bindR (write_steps w' uuid ss) (\<lambda>(mds, idxs). Inr (md @ mds, idx @ idxs))))"

definition all_attrs :: "step_input \<Rightarrow> bytes list" where
  "all_attrs s = in_attrs s @ replicate (length (in_blocks s) - length (in_attrs s)) []"

definition md_bytes :: "index_writer \<Rightarrow> step_input \<Rightarrow> bytes" where
  "md_bytes w s =
    host64 w (of_nat (sum_list (map length (in_blocks s)) + sum_list (map length (all_attrs s)) +
      16 * length (in_blocks s))) @
    concat (map (\<lambda>b. host64 w (of_nat (length b))) (in_blocks s)) @
    concat (map (\<lambda>b. host64 w (of_nat (length b))) (all_attrs s)) @ concat (in_blocks s) @ concat (all_attrs s)"

fun to_steps :: "index_writer \<Rightarrow> nat \<Rightarrow> step_input list \<Rightarrow> index_step list" where
  "to_steps w p [] = []"
| "to_steps w p (s # ss) =
    \<lparr>s_map = in_map s, s_flushes = in_flushes s, s_datapos = in_datapos s, s_pos = of_nat p,
     s_size = of_nat (length (md_bytes w s))\<rparr> # to_steps w (p + length (md_bytes w s)) ss"

definition inputs_ok :: "index_writer \<Rightarrow> step_input list \<Rightarrow> bool" where
  "inputs_ok w ins \<longleftrightarrow> ins \<noteq> [] \<and> in_map (ins ! 0) \<noteq> [] \<and> 0 < w_CommSize w \<and> w_CommSize w < 2 ^ 32 \<and>
    w_MetaDataPos w = 0 \<and>
    list_all (\<lambda>s. length (in_blocks s) = w_CommSize w \<and> length (in_attrs s) \<le> w_CommSize w) ins \<and>
    list_all (\<lambda>s. writer_ok (step_writer w s)) (to_steps w 0 ins) \<and>
    sum_list (map (\<lambda>s. length (md_bytes w s)) ins) < 2 ^ 63 \<and>
    rec_pos w (to_steps w 0 ins) (length ins) < 2 ^ 63"

lemma sum_list_of_nat: "sum_list (map (\<lambda>x. of_nat (f x)) xs) = (of_nat (sum_list (map f xs)) :: u64)"
  by (induction xs) simp_all

lemma length_md_bytes:
  assumes "length (in_attrs s) \<le> length (in_blocks s)"
  shows "length (md_bytes w s) = 8 + 16 * length (in_blocks s) + sum_list (map length (in_blocks s)) +
    sum_list (map length (in_attrs s))"
proof -
  have "length (all_attrs s) = length (in_blocks s)" "concat (all_attrs s) = concat (in_attrs s)"
    using assms by (simp_all add: all_attrs_def)
  moreover have "length (concat (map (\<lambda>b. host64 w (of_nat (length b))) bs)) = 8 * length bs" for bs :: "bytes list"
    by (rule concat_length_const) simp
  ultimately show ?thesis by (simp add: md_bytes_def length_concat)
qed

lemma WriteMetadata_contig_bytes:
  assumes "length (in_attrs s) \<le> length (in_blocks s)" "length (md_bytes w s) < 2 ^ 63"
  shows "WriteMetadata_contig w (concat (in_blocks s)) (map (\<lambda>b. of_nat (length b)) (in_blocks s))
      (map (\<lambda>a. (Some a, of_nat (length a))) (in_attrs s))
    = Inr (md_bytes w s, of_nat (length (md_bytes w s)),
        w\<lparr>w_MetaDataPos := w_MetaDataPos w + of_nat (length (md_bytes w s))\<rparr>)"
proof -
  let ?nb = "length (in_blocks s)"
  have len: "sum_list (map length (in_attrs s)) < 2 ^ 63" using length_md_bytes[OF assms(1)] assms(2) by simp
  have small: "length a < 2 ^ 63" if "a \<in> set (in_attrs s)" for a
    using member_le_sum_list[of "length a" "map length (in_attrs s)"] that len by simp
  have w: "mapR write_iovec (map (\<lambda>a. (Some a, of_nat (length a))) xs) = Inr xs"
    if "\<And>a. a \<in> set xs \<Longrightarrow> length a < 2 ^ 63" for xs
    using that
  proof (induction xs)
    case (Cons a xs)
    have "length a < 2 ^ 63" by (rule Cons.prems) simp
    then have "unat (of_nat (length a) :: u64) = length a" by (intro unat_of_nat_small) simp
    with Cons show ?case by (simp add: write_iovec_def)
  qed simp
  have written: "mapR write_iovec (map (\<lambda>a. (Some a, of_nat (length a))) (in_attrs s)) = Inr (in_attrs s)"
    by (rule w) (rule small)
  have sizes: "map (\<lambda>a. if a < length (map (\<lambda>a. (Some a, of_nat (length a) :: u64)) (in_attrs s))
        then snd (map (\<lambda>a. (Some a, of_nat (length a))) (in_attrs s) ! a) else 0) [0..<?nb]
      = map (\<lambda>a. of_nat (length a)) (all_attrs s)"
    using assms(1) by (intro nth_equalityI) (auto simp: all_attrs_def nth_append)
  have la: "length (all_attrs s) = ?nb" "sum_list (map length (all_attrs s)) = sum_list (map length (in_attrs s))"
    "concat (all_attrs s) = concat (in_attrs s)"
    using assms(1) by (simp_all add: all_attrs_def sum_list_replicate)
  have e: "sum_list (map (\<lambda>s. 8 + s) (map (\<lambda>a. of_nat (length a)) (all_attrs s)))
      = (of_nat (8 * ?nb + sum_list (map length (all_attrs s))) :: u64)"
  proof -
    have "sum_list (map (\<lambda>s. 8 + s) (map (\<lambda>a. of_nat (length a)) xs))
        = (of_nat (8 * length xs + sum_list (map length xs)) :: u64)" for xs :: "bytes list"
      by (induction xs) (simp_all add: algebra_simps)
    from this[of "all_attrs s"] la(1) show ?thesis by simp
  qed
  have t: "sum_list (map (\<lambda>b. of_nat (length b)) (in_blocks s)) + of_nat ?nb * 8 +
      (of_nat (8 * ?nb + sum_list (map length (all_attrs s))) :: u64)
      = of_nat (sum_list (map length (in_blocks s)) + sum_list (map length (all_attrs s)) + 16 * ?nb)"
    by (simp add: sum_list_of_nat algebra_simps)
  have iov: "sum_list (map iovec_size (map (\<lambda>a. (Some a, of_nat (length a))) (in_attrs s)))
      = of_nat (sum_list (map length (in_attrs s)))"
    by (simp add: iovec_size_def comp_def sum_list_of_nat)
  have z: "(8 :: u64) + 8 * of_nat (length (map (\<lambda>a. of_nat (length a) :: u64) (all_attrs s))) +
      8 * of_nat (length (map (\<lambda>a. of_nat (length a) :: u64) (all_attrs s))) +
      of_nat (length (concat (in_blocks s))) + of_nat (sum_list (map length (in_attrs s)))
      = of_nat (length (md_bytes w s))"
    by (simp add: length_md_bytes[OF assms(1)] length_concat la(1) algebra_simps)
  have bytes: "host64 w (of_nat (sum_list (map length (in_blocks s)) + sum_list (map length (all_attrs s)) + 16 * ?nb)) @
      concat (map (host64 w) (map (\<lambda>b. of_nat (length b)) (in_blocks s))) @
      concat (map (host64 w) (map (\<lambda>a. of_nat (length a)) (all_attrs s))) @ concat (in_blocks s) @ concat (in_attrs s)
      = md_bytes w s"
    by (simp add: md_bytes_def la(3) comp_def)
  show ?thesis
    unfolding WriteMetadata_contig_def Let_def length_map[of _ "in_blocks s"] sizes e t iov written bindR.simps
      z bytes ..
qed

lemma metadata_pos_irrelevant [simp]:
  "host64 (w\<lparr>w_MetaDataPos := p\<rparr>) = host64 w" "header_bytes (w\<lparr>w_MetaDataPos := p\<rparr>) = header_bytes w"
  "map_bytes (w\<lparr>w_MetaDataPos := p\<rparr>) = map_bytes w" "step_bytes (w\<lparr>w_MetaDataPos := p\<rparr>) = step_bytes w"
  "writer_ok (w\<lparr>w_MetaDataPos := p\<rparr>) = writer_ok w"
  by (auto simp: fun_eq_iff host64_def header_bytes_def tag_field_def host32_def map_bytes_def step_bytes_def
      position_bytes_def flush_bytes_def writer_ok_def intro!: arg_cong[where f = concat])

lemma index_bytes_pos [simp]: "index_bytes (w\<lparr>w_MetaDataPos := p\<rparr>) = index_bytes w"
  by (simp add: index_bytes_def fun_eq_iff)

definition same_file :: "index_writer \<Rightarrow> index_writer \<Rightarrow> bool" where
  "same_file v w \<longleftrightarrow> (\<exists>m f d p. v = w\<lparr>w_WriterSubfileMap := m, w_FlushPosSizeInfo := f, w_WriterDataPos := d, w_MetaDataPos := p\<rparr>)"

lemma same_fileD:
  assumes "same_file v w"
  shows "md_bytes v s = md_bytes w s" "to_steps v p ss = to_steps w p ss"
    "index_bytes (step_writer v x) uuid y z = index_bytes (step_writer w x) uuid y z"
    "writer_ok (step_writer v x) = writer_ok (step_writer w x)"
proof -
  obtain m f d q where v: "v = w\<lparr>w_WriterSubfileMap := m, w_FlushPosSizeInfo := f, w_WriterDataPos := d, w_MetaDataPos := q\<rparr>"
    using assms by (auto simp: same_file_def)
  have h: "host64 v = host64 w" by (simp add: v host64_def fun_eq_iff)
  then have md: "md_bytes v s = md_bytes w s" for s by (simp add: md_bytes_def)
  then show "md_bytes v s = md_bytes w s" .
  show "to_steps v p ss = to_steps w p ss" by (induction ss arbitrary: p) (simp_all add: md)
  have "step_writer v x = (step_writer w x)\<lparr>w_MetaDataPos := q\<rparr>" by (simp add: v step_writer_def)
  then show "index_bytes (step_writer v x) uuid y z = index_bytes (step_writer w x) uuid y z"
    "writer_ok (step_writer v x) = writer_ok (step_writer w x)" by simp_all
qed

lemma write_steps_bytes:
  assumes "list_all (\<lambda>s. length (in_attrs s) \<le> length (in_blocks s) \<and> length (md_bytes w s) < 2 ^ 63) ss"
    and "list_all (\<lambda>s. writer_ok (step_writer w s)) (to_steps w p ss)" and "w_MetaDataPos w = of_nat p"
  shows "write_steps w uuid ss = Inr (concat (map (md_bytes w) ss),
    concat (map (\<lambda>s. index_bytes (step_writer w s) uuid (s_pos s) (s_size s)) (to_steps w p ss)))"
  using assms
proof (induction ss arbitrary: w p)
  case (Cons s ss)
  let ?size = "of_nat (length (md_bytes w s)) :: u64"
  let ?st = "\<lparr>s_map = in_map s, s_flushes = in_flushes s, s_datapos = in_datapos s, s_pos = of_nat p, s_size = ?size\<rparr>"
  let ?w1 = "w\<lparr>w_MetaDataPos := w_MetaDataPos w + ?size\<rparr>"
  let ?w2 = "?w1\<lparr>w_WriterSubfileMap := in_map s, w_FlushPosSizeInfo := in_flushes s, w_WriterDataPos := in_datapos s\<rparr>"
  let ?w3 = "?w2\<lparr>w_WriterSubfileMap := [], w_FlushPosSizeInfo := []\<rparr>"
  have w2: "?w2 = (step_writer w ?st)\<lparr>w_MetaDataPos := w_MetaDataPos w + ?size\<rparr>" by (simp add: step_writer_def)
  have ok: "writer_ok ?w2" using Cons.prems(2) unfolding w2 by simp
  have c: "WriteMetadata_contig w (concat (in_blocks s)) (map (\<lambda>b. of_nat (length b)) (in_blocks s))
      (map (\<lambda>a. (Some a, of_nat (length a))) (in_attrs s)) = Inr (md_bytes w s, ?size, ?w1)"
    using Cons.prems(1) by (intro WriteMetadata_contig_bytes) simp_all
  have i: "WriteMetadataFileIndex ?w2 uuid (w_MetaDataPos w) ?size
      = Inr (index_bytes (step_writer w ?st) uuid (of_nat p) ?size, ?w3)"
    unfolding WriteMetadataFileIndex_bytes[OF ok] using Cons.prems(3) unfolding w2 by simp
  have same: "same_file ?w3 w" 
    unfolding same_file_def
    by (intro exI[of _ "[]"] exI[of _ "in_datapos s"] exI[of _ "w_MetaDataPos w + ?size"]) simp
  note d = same_fileD[OF same]
  have "write_steps ?w3 uuid ss = Inr (concat (map (md_bytes w) ss),
      concat (map (\<lambda>s. index_bytes (step_writer w s) uuid (s_pos s) (s_size s)) (to_steps w (p + length (md_bytes w s)) ss)))"
    using Cons.IH[of ?w3 "p + length (md_bytes w s)"] Cons.prems unfolding d by simp
  then show ?case by (simp only: write_steps.simps c i bindR.simps prod.case to_steps.simps list.map concat.simps index_step.simps)
qed simp

lemma to_steps_nth:
  "length (to_steps w p ins) = length ins"
  "k < length ins \<Longrightarrow> to_steps w p ins ! k = \<lparr>s_map = in_map (ins ! k), s_flushes = in_flushes (ins ! k),
     s_datapos = in_datapos (ins ! k), s_pos = of_nat (p + sum_list (map (\<lambda>i. length (md_bytes w (ins ! i))) [0..<k])),
     s_size = of_nat (length (md_bytes w (ins ! k)))\<rparr>"
proof -
  show "length (to_steps w p ins) = length ins" by (induction ins arbitrary: p) simp_all
  show "k < length ins \<Longrightarrow> to_steps w p ins ! k = \<lparr>s_map = in_map (ins ! k), s_flushes = in_flushes (ins ! k),
     s_datapos = in_datapos (ins ! k), s_pos = of_nat (p + sum_list (map (\<lambda>i. length (md_bytes w (ins ! i))) [0..<k])),
     s_size = of_nat (length (md_bytes w (ins ! k)))\<rparr>"
  proof (induction ins arbitrary: p k)
    case (Cons s ss)
    show ?case
    proof (cases k)
      case (Suc j)
      have "sum_list (map (\<lambda>i. length (md_bytes w ((s # ss) ! i))) [0..<Suc j])
          = length (md_bytes w s) + sum_list (map (\<lambda>i. length (md_bytes w (ss ! i))) [0..<j])"
        by (simp add: upt_conv_Cons map_Suc_upt[symmetric] comp_def del: upt_Suc)
      then show ?thesis using Cons.IH[of j "p + length (md_bytes w s)"] Cons.prems Suc
        by (simp add: add.assoc del: of_nat_add)
    qed simp
  qed simp
qed

lemma inputs_steps:
  assumes "inputs_ok w ins"
  shows "steps_ok w (to_steps w 0 ins)"
    and "sizes_before (to_steps w 0 ins) (length ins) = length (concat (map (md_bytes w) ins))"
    and "k < length ins \<Longrightarrow> md_segment (concat (map (md_bytes w) ins)) (to_steps w 0 ins ! k) = md_bytes w (ins ! k)"
proof -
  let ?ss = "to_steps w 0 ins"
  let ?before = "\<lambda>k. sum_list (map (\<lambda>i. length (md_bytes w (ins ! i))) [0..<k])"
  have l: "length ?ss = length ins" by (rule to_steps_nth)
  have total: "sum_list (map (\<lambda>s. length (md_bytes w s)) ins) = ?before (length ins)"
  proof -
    have "map (\<lambda>i. length (md_bytes w (ins ! i))) [0..<length ins] = map (\<lambda>s. length (md_bytes w s)) ins"
      by (rule nth_equalityI) simp_all
    then show ?thesis by simp
  qed
  have all: "?before (length ins) < 2 ^ 63" using assms total by (simp add: inputs_ok_def)
  have mono: "?before i \<le> ?before k" if "i \<le> k" for i k
    using that by (induction k) (auto simp: le_Suc_eq)
  have each: "?before k + length (md_bytes w (ins ! k)) < 2 ^ 63" if "k < length ins" for k
    using mono[of "Suc k" "length ins"] that all by simp
  have size: "unat (s_size (?ss ! k)) = length (md_bytes w (ins ! k))" if "k < length ins" for k
    using to_steps_nth(2)[OF that, of w 0] each[OF that] by (simp add: unat_of_nat_small)
  have sb: "sizes_before ?ss k = ?before k" if "k \<le> length ins" for k
    using that by (induction k) (simp_all add: sizes_Suc size, simp add: sizes_before_def)
  have pos: "unat (s_pos (?ss ! k)) = ?before k" if "k < length ins" for k
    using to_steps_nth(2)[OF that, of w 0] each[OF that] by (simp add: unat_of_nat_small)
  show tot: "sizes_before ?ss (length ins) = length (concat (map (md_bytes w) ins))"
    using sb[of "length ins"] total by (simp add: length_concat comp_def)
  have "0 < length (md_bytes w s)" for s by (simp add: md_bytes_def)
  then have nz: "s_size (?ss ! k) \<noteq> 0" if "k < length ins" for k
    using size[OF that] by (metis length_greater_0_conv less_numeral_extra(3) unat_0)
  have "s_map (?ss ! 0) = in_map (ins ! 0)" "ins \<noteq> []"
    using to_steps_nth(2)[of 0 ins w 0] assms by (simp_all add: inputs_ok_def)
  then show "steps_ok w ?ss"
    using assms l nz pos sb all unfolding steps_ok_def inputs_ok_def
    by (auto simp: list_all_length list_all_upt)
  show "md_segment (concat (map (md_bytes w) ins)) (?ss ! k) = md_bytes w (ins ! k)" if "k < length ins"
    using reads_concat_nth[OF reads_whole that, of "md_bytes w"] pos[OF that] size[OF that]
    by (simp add: md_segment_def reads_def)
qed

lemma install_blocks_reads:
  assumes "reads md p (concat (map (\<lambda>b. host64 w (of_nat (length b))) bs))" "reads md q (concat bs)" "length md < 2 ^ 63"
  shows "install_blocks (w_LittleEndian w) md (length bs) (of_nat p) (of_nat q)
    = Inr (bs, of_nat (p + 8 * length bs), of_nat (q + length (concat bs)))"
  using assms(1,2)
proof (induction bs arbitrary: p q)
  case (Cons b bs)
  have r: "reads md p (host64 w (of_nat (length b)))" "reads md (p + 8) (concat (map (\<lambda>b. host64 w (of_nat (length b))) bs))"
    "reads md q b" "reads md (q + length b) (concat bs)"
    using Cons.prems by (simp_all add: reads_append)
  have lb: "q + length b \<le> length md" using reads_bound[OF r(3)] .
  then have u: "unat (of_nat q :: u64) = q" "unat (of_nat (length b) :: u64) = length b"
    using assms(3) by (simp_all add: unat_of_nat_small)
  have blk: "block_at md (of_nat q) (of_nat (length b)) = Inr b"
    using r(3) lb by (simp add: block_at_def u reads_def)
  have IH: "install_blocks (w_LittleEndian w) md (length bs) (of_nat (p + 8)) (of_nat (q + length b))
    = Inr (bs, of_nat (p + 8 + 8 * length bs), of_nat (q + length b + length (concat bs)))"
    by (rule Cons.IH[OF r(2,4)])
  have q: "(of_nat q :: u64) + of_nat (length b) = of_nat (q + length b)" by simp
  show ?case
    unfolding list.size(4) add_Suc_right add_0_right install_blocks.simps ReadValue64_reads[OF r(1) assms(3)]
      bindR.simps prod.case blk q IH
    by (simp add: add.assoc del: of_nat_add)
qed simp

lemma InstallMetadata_step:
  assumes tab: "MetadataIndexTable r (of_nat j) = Some (of_nat m # rest)" and j: "j < length (WriterMapIndex r)" "j < 2 ^ 63"
    and map: "case WriterMap r (WriterMapIndex r ! j) of Some m \<Rightarrow> unat (WriterCount m) = w_CommSize w | None \<Rightarrow> False"
    and le: "IsLittleEndian r = w_LittleEndian w" and rd: "reads md m (md_bytes w s)" and md: "length md < 2 ^ 63"
    and n: "length (in_blocks s) = w_CommSize w" "length (in_attrs s) \<le> w_CommSize w"
  shows "InstallMetadataForTimestep r md (of_nat j) = Inr (in_blocks s, filter (\<lambda>b. b \<noteq> []) (in_attrs s))"
proof -
  let ?n = "w_CommSize w" let ?b = "in_blocks s" let ?a = "all_attrs s"
  have la: "length ?a = ?n" "filter (\<lambda>b. b \<noteq> []) ?a = filter (\<lambda>b. b \<noteq> []) (in_attrs s)"
    using n by (simp_all add: all_attrs_def)
  have c8: "length (concat (map (\<lambda>b. host64 w (of_nat (length b))) bs)) = 8 * length bs" for bs :: "bytes list"
    by (rule concat_length_const) simp
  have r: "reads md (m + 8) (concat (map (\<lambda>b. host64 w (of_nat (length b))) ?b))"
    "reads md (m + 8 + 8 * ?n) (concat (map (\<lambda>b. host64 w (of_nat (length b))) ?a))"
    "reads md (m + 8 + 16 * ?n) (concat ?b)" "reads md (m + 8 + 16 * ?n + length (concat ?b)) (concat ?a)"
    using rd by (simp_all add: md_bytes_def reads_append c8 n la add.assoc)
  have i1: "install_blocks (w_LittleEndian w) md ?n (of_nat (m + 8)) (of_nat (m + 8 + 16 * ?n))
      = Inr (?b, of_nat (m + 8 + 8 * ?n), of_nat (m + 8 + 16 * ?n + length (concat ?b)))"
    using install_blocks_reads[OF r(1,3) md] n by simp
  have i2: "install_blocks (w_LittleEndian w) md ?n (of_nat (m + 8 + 8 * ?n)) (of_nat (m + 8 + 16 * ?n + length (concat ?b)))
      = Inr (?a, of_nat (m + 8 + 8 * ?n + 8 * ?n), of_nat (m + 8 + 16 * ?n + length (concat ?b) + length (concat ?a)))"
    using install_blocks_reads[OF r(2,4) md] la by simp
  obtain mp where mp: "WriterMap r (WriterMapIndex r ! j) = Some mp" "unat (WriterCount mp) = ?n"
    using map by (cases "WriterMap r (WriterMapIndex r ! j)") auto
  have u: "unat (of_nat j :: u64) = j" using j(2) by (intro unat_of_nat_small) simp
  have p: "(of_nat m :: u64) + 8 = of_nat (m + 8)" "of_nat (m + 8) + 2 * 8 * of_nat ?n = (of_nat (m + 8 + 16 * ?n) :: u64)"
    by simp_all
  show ?thesis
    unfolding InstallMetadataForTimestep_def tab option.case list.case u Let_def mp p
    using j(1) by (simp only: if_True le p i1 i2 bindR.simps prod.case la)
qed

end
