(* ===== verification/Adios_Bp5Files.thy ===== *)
theory Adios_Bp5Files
  imports Adios_Bp5FileRead
begin

section \<open>The files of BP5, written and read\<close>

text \<open>
  The theorems about the metadata files: what \<open>WriteMetadata\<close> and \<open>WriteMetadataFileIndex\<close> have written
  in any number of steps is what \<open>ParseMetadataIndex\<close>, \<open>InstallMetadataForTimestep\<close> and \<open>ReadData\<close>
  find, whatever steps the reader selects.
\<close>

lemma selected_split:
  assumes "k < l" "IsSelectedStep params (of_nat k)"
  shows "\<exists>rest. selected params l = selected params k @ k # rest"
  using assms(1)
proof (induction l)
  case (Suc l)
  show ?case
  proof (cases "k = l")
    case True
    then show ?thesis using assms(2) by (simp add: selected_Suc)
  next
    case False
    then show ?thesis using Suc by (auto simp: selected_Suc)
  qed
qed simp

lemma segment_in_memory:
  assumes "k < l" "IsSelectedStep params (of_nat k)"
    and "\<And>i. i < l \<Longrightarrow> length (seg i) = unat (s_size (ss ! i))"
  shows "reads (concat (map seg (selected params l))) (mem_before params ss k) (seg k)"
proof -
  obtain rest where s: "selected params l = selected params k @ k # rest" using selected_split[OF assms(1,2)] by blast
  have "map (length \<circ> seg) (selected params k) = map (\<lambda>i. unat (s_size (ss ! i))) (selected params k)"
    using assms(1,3) by (auto simp: selected_def)
  then have "length (concat (map seg (selected params k))) = mem_before params ss k"
    unfolding length_concat mem_before_def map_map by (rule arg_cong)
  then show ?thesis unfolding s by (simp add: reads_def)
qed

text \<open>Everything a reader finds, from which the theorems follow.\<close>

lemma files_found:
  assumes inp: "inputs_ok w ins" and limit: "length (concat (map (md_bytes w) ins)) < size_limit params"
    and fresh: "fresh_reader r"
  shows "\<exists>md idx r' mem. write_steps w uuid ins = Inr (md, idx) \<and>
    ParseMetadataIndex params (UpdateActiveFlag active idx) 0 True r = Some (Inr (of_nat (length idx), r')) \<and>
    IsLittleEndian r' = w_LittleEndian w \<and> WriterIsActive r' = active \<and> WriterIsRowMajor r' = (\<not> w_ColumnMajor w) \<and>
    r_FlattenSteps r' = (w_FlattenSteps w \<and> \<not> IgnoreFlattenSteps params) \<and> FileUUID r' = uuid \<and>
    StepsCount r' = of_nat (length (selected params (length ins))) \<and>
    ReadMetadata md (FilteredMetadataInfo r') = Inr mem \<and>
    (\<forall>k < length ins. IsSelectedStep params (of_nat k) \<longrightarrow>
      InstallMetadataForTimestep r' mem (of_nat (length (selected params k))) =
        Inr (in_blocks (ins ! k), filter (\<lambda>b. b \<noteq> []) (in_attrs (ins ! k))) \<and>
      (\<forall>wr < w_CommSize w.
        subfile_of r' (of_nat (length (selected params k))) (of_nat wr) = Inr (map_at (to_steps w 0 ins) k ! wr) \<and>
        (\<forall>file pieces off n. holds_pieces file wr (to_steps w 0 ins ! k) pieces \<longrightarrow> in_piece pieces off n \<longrightarrow>
          ReadData r' (UpdateActiveFlag active idx) file (of_nat wr) (of_nat (length (selected params k)))
            (of_nat off) (of_nat n) = Inr (take n (drop off (concat pieces))))))"
proof -
  define ss where "ss = to_steps w 0 ins"
  define md where "md = concat (map (md_bytes w) ins)"
  have len: "length ss = length ins" by (simp add: ss_def to_steps_nth)
  have ok: "steps_ok w ss" and tot: "sizes_before ss (length ss) = length md"
    and seg: "\<And>k. k < length ins \<Longrightarrow> md_segment md (ss ! k) = md_bytes w (ins ! k)"
    using inputs_steps[OF inp] unfolding ss_def[symmetric] md_def[symmetric] len by blast+
  have md: "sizes_before ss (length ss) \<le> length md" and mdlim: "sizes_before ss (length ss) < size_limit params"
    using tot limit by (simp_all add: md_def)
  have small: "length md < 2 ^ 63" using tot steps_okD(8)[OF ok] by simp
  have lin: "length (in_attrs s) \<le> length (in_blocks s) \<and> length (md_bytes w s) < 2 ^ 63" if "s \<in> set ins" for s
  proof
    show "length (in_attrs s) \<le> length (in_blocks s)" using inp that by (auto simp: inputs_ok_def list_all_iff)
    have "length (md_bytes w s) \<le> length md"
      using that member_le_sum_list[of "length (md_bytes w s)" "map (length \<circ> md_bytes w) ins"]
      by (simp add: md_def length_concat)
    then show "length (md_bytes w s) < 2 ^ 63" using small by simp
  qed
  obtain idx r' where F: "write_index w uuid ss = Inr idx"
    "ParseMetadataIndex params (UpdateActiveFlag active idx) 0 True r = Some (Inr (of_nat (length idx), r'))"
    "reads (UpdateActiveFlag active idx) 64 (concat (map (rec_bytes w) ss))"
    "length (UpdateActiveFlag active idx) = rec_pos w ss (length ss)"
    "IsLittleEndian r' = w_LittleEndian w" "WriterIsActive r' = active"
    "WriterIsRowMajor r' = (\<not> w_ColumnMajor w)"
    "r_FlattenSteps r' = (w_FlattenSteps w \<and> \<not> IgnoreFlattenSteps params)" "FileUUID r' = uuid"
    "StepsCount r' = of_nat (length (selected params (length ss)))"
    "length (WriterMapIndex r') = length (selected params (length ss))"
    "table_ok params w ss (length ss) r'"
    "ReadMetadata md (FilteredMetadataInfo r') = Inr (concat (map (\<lambda>i. md_segment md (ss ! i)) (selected params (length ss))))"
    using parse_index[OF ok md mdlim fresh, of uuid active] by blast
  let ?mem = "concat (map (\<lambda>i. md_segment md (ss ! i)) (selected params (length ss)))"
  have idxlen: "length (UpdateActiveFlag active idx) < 2 ^ 63" using F(4) steps_okD(9)[OF ok] by simp
  have wok: "list_all (\<lambda>s. writer_ok (step_writer w s)) ss" using steps_okD(5)[OF ok] by (simp add: list_all_length)
  have "write_steps w uuid ins = Inr (md, concat (map (\<lambda>s. index_bytes (step_writer w s) uuid (s_pos s) (s_size s)) ss))"
    unfolding md_def ss_def
    using lin wok inp by (intro write_steps_bytes) (auto simp: list_all_iff ss_def inputs_ok_def)
  then have W: "write_steps w uuid ins = Inr (md, idx)" using F(1) write_index_concat[OF wok, of uuid] by simp
  have step: "InstallMetadataForTimestep r' ?mem (of_nat (length (selected params k))) =
        Inr (in_blocks (ins ! k), filter (\<lambda>b. b \<noteq> []) (in_attrs (ins ! k))) \<and>
      (\<forall>wr < w_CommSize w.
        subfile_of r' (of_nat (length (selected params k))) (of_nat wr) = Inr (map_at ss k ! wr) \<and>
        (\<forall>file pieces off n. holds_pieces file wr (ss ! k) pieces \<longrightarrow> in_piece pieces off n \<longrightarrow>
          ReadData r' (UpdateActiveFlag active idx) file (of_nat wr) (of_nat (length (selected params k)))
            (of_nat off) (of_nat n) = Inr (take n (drop off (concat pieces)))))"
    if k: "k < length ins" and sel: "IsSelectedStep params (of_nat k)" for k
  proof (intro conjI allI impI)
    have kss: "k < length ss" using k len by simp
    note sub = found_subfile[OF ok kss sel F(12,11)]
    let ?j = "length (selected params k)"
    have j: "?j < length (WriterMapIndex r')" using length_selected_mono[OF kss sel] F(11) by simp
    have j63: "?j < 2 ^ 63" using length_selected[of params k] kss steps_few[OF ok] by simp
    have t: "MetadataIndexTable r' (of_nat ?j) = Some [of_nat (mem_before params ss k), s_size (ss ! k),
        of_nat (length (s_flushes (ss ! k))), of_nat (data_pos w ss k), s_pos (ss ! k)]"
      using F(12) kss sel unfolding table_ok_def by blast
    have sl: "length (md_segment md (ss ! i)) = unat (s_size (ss ! i))" if "i < length ss" for i
    proof -
      have "sizes_before ss (Suc i) \<le> length md" using sizes_mono[of "Suc i" "length ss" ss] that tot by simp
      then show ?thesis using steps_okD(7)[OF ok that] by (simp add: md_segment_def sizes_Suc)
    qed
    have rm: "reads ?mem (mem_before params ss k) (md_bytes w (ins ! k))"
      using segment_in_memory[OF kss sel, of "\<lambda>i. md_segment md (ss ! i)" ss] sl seg[OF k] by simp
    have memlen: "length ?mem < 2 ^ 63"
    proof -
      have "length ?mem = mem_before params ss (length ss)"
        using sl by (auto simp: length_concat mem_before_def selected_def intro!: arg_cong[where f = sum_list])
      then show ?thesis using mem_before_le[of params ss "length ss"] tot small by simp
    qed
    have ink: "length (in_blocks (ins ! k)) = w_CommSize w" "length (in_attrs (ins ! k)) \<le> w_CommSize w"
      using inp k by (simp_all add: inputs_ok_def list_all_length)
    have n0: "0 < w_CommSize w" using steps_okD(3)[OF ok] .
    show "InstallMetadataForTimestep r' ?mem (of_nat ?j) =
        Inr (in_blocks (ins ! k), filter (\<lambda>b. b \<noteq> []) (in_attrs (ins ! k)))"
      by (rule InstallMetadata_step[OF t j j63 sub(2)[OF n0] F(5) rm memlen ink])
    fix wr assume wr: "wr < w_CommSize w"
    show "subfile_of r' (of_nat ?j) (of_nat wr) = Inr (map_at ss k ! wr)" by (rule sub(1)[OF wr])
    fix df pieces off n assume "holds_pieces df wr (ss ! k) pieces" "in_piece pieces off n"
    then show "ReadData r' (UpdateActiveFlag active idx) df (of_nat wr) (of_nat ?j) (of_nat off) (of_nat n)
        = Inr (take n (drop off (concat pieces)))"
      by (rule found_data[OF ok kss sel F(12) F(5) F(3) idxlen wr])
  qed
  show ?thesis
    using W F(2,5-10,13) step unfolding ss_def[symmetric] len by blast
qed

text \<open>
  C38: what the ranks give BP5 as metadata comes back. After any number of steps, a reader that parses
  \<open>md.idx\<close>, reads the runs of \<open>md.0\<close> it asks for and installs a step gets, for every step it has
  selected, the metadata blocks of all ranks and the attribute blocks that are not empty, and the
  header tells it the byte order, the storage order, whether the steps are flattened and whether the
  writer is active. This holds whatever the subfiles of the ranks and however often they change, for
  any number of flushes, in both byte orders, and for any selection of steps; the selected steps are
  numbered from 0, and only their metadata is read.
\<close>

theorem bp5_metadata_roundtrip:
  assumes "inputs_ok w ins" "length (concat (map (md_bytes w) ins)) < size_limit params" "fresh_reader r"
  shows "\<exists>md idx r' mem. write_steps w uuid ins = Inr (md, idx) \<and>
    ParseMetadataIndex params (UpdateActiveFlag active idx) 0 True r = Some (Inr (of_nat (length idx), r')) \<and>
    IsLittleEndian r' = w_LittleEndian w \<and> WriterIsActive r' = active \<and> WriterIsRowMajor r' = (\<not> w_ColumnMajor w) \<and>
    r_FlattenSteps r' = (w_FlattenSteps w \<and> \<not> IgnoreFlattenSteps params) \<and>
    StepsCount r' = of_nat (length (selected params (length ins))) \<and>
    ReadMetadata md (FilteredMetadataInfo r') = Inr mem \<and>
    (\<forall>k < length ins. IsSelectedStep params (of_nat k) \<longrightarrow>
      InstallMetadataForTimestep r' mem (of_nat (length (selected params k))) =
        Inr (in_blocks (ins ! k), filter (\<lambda>b. b \<noteq> []) (in_attrs (ins ! k))))"
  using files_found[OF assms, of uuid active] by blast

text \<open>The example: two ranks, two steps, the second step selected; it has a flush and empty attributes.\<close>

definition demo_writer5 :: index_writer where
  "demo_writer5 = \<lparr>w_Version = (2, 12, 0), w_LittleEndian = False, w_ColumnMajor = False, w_FlattenSteps = False,
     w_CommSize = 2, w_NumAggregators = 1, w_SubStreams = 1, w_WriterSubfileMap = [], w_FlushPosSizeInfo = [],
     w_WriterDataPos = [], w_MetaDataPos = 0\<rparr>"

definition demo_inputs :: "step_input list" where
  "demo_inputs =
    [\<lparr>in_blocks = [[1, 2], [3]], in_attrs = [[9]], in_map = [0, 0], in_flushes = [], in_datapos = [0, 10]\<rparr>,
     \<lparr>in_blocks = [[4], [5, 6, 7]], in_attrs = [[], [8]], in_map = [], in_flushes = [[20, 3, 30, 2]],
      in_datapos = [40, 50]\<rparr>]"

definition demo_params :: reader_params where
  "demo_params = \<lparr>Streaming = False, IgnoreFlattenSteps = False, IsSelectedStep = (\<lambda>k. k = 1)\<rparr>"

definition demo_reader5 :: index_reader where
  "demo_reader5 = \<lparr>VersionTag = [], IsLittleEndian = True, WriterIsActive = True, WriterIsRowMajor = True,
     r_FlattenSteps = False, FileUUID = 0, WriterMap = Map.empty, WriterMapIndex = [], LastMapStep = 0,
     LastWriterCount = 0, MetadataIndexTable = Map.empty, FilteredMetadataInfo = [], StepsCount = 0, AbsStepsInFile = 0\<rparr>"

lemma demo_inputs_ok: "inputs_ok demo_writer5 demo_inputs"
  by (simp add: inputs_ok_def demo_inputs_def demo_writer5_def length_md_bytes writer_ok_def rec_pos_def rec_bytes_def
      step_writer_def less_2_cases_iff)

lemma demo_files:
  "length (concat (map (md_bytes demo_writer5) demo_inputs)) < size_limit demo_params" "fresh_reader demo_reader5"
  "selected demo_params 1 = []" "selected demo_params (length demo_inputs) = [1]"
  by (simp_all add: demo_inputs_def length_md_bytes size_limit_def demo_params_def fresh_reader_def demo_reader5_def
      selected_def)

theorem bp5_metadata_roundtrip_witness:
  "\<exists>md idx r' mem. write_steps demo_writer5 7 demo_inputs = Inr (md, idx) \<and>
    ParseMetadataIndex demo_params (UpdateActiveFlag False idx) 0 True demo_reader5 = Some (Inr (of_nat (length idx), r')) \<and>
    StepsCount r' = 1 \<and> ReadMetadata md (FilteredMetadataInfo r') = Inr mem \<and>
    InstallMetadataForTimestep r' mem 0 = Inr ([[4], [5, 6, 7]], [[8]])"
proof -
  have "IsSelectedStep demo_params (of_nat 1)" "1 < length demo_inputs" "demo_inputs ! 1 =
      \<lparr>in_blocks = [[4], [5, 6, 7]], in_attrs = [[], [8]], in_map = [], in_flushes = [[20, 3, 30, 2]], in_datapos = [40, 50]\<rparr>"
    by (simp_all add: demo_params_def demo_inputs_def)
  then show ?thesis
    using bp5_metadata_roundtrip[OF demo_inputs_ok demo_files(1,2), of 7 False] demo_files(3,4) by fastforce
qed

text \<open>
  C39: \<open>ReadData\<close> finds the data of a writer wherever it lies. The offsets of the metadata count the
  flushes of a step and what is written at its end as one piece, and the index has the position of
  each. Whatever range of it lies in one of the flushes, or in the last part, \<open>ReadData\<close> returns the
  bytes of the range, if the data file holds the pieces at the positions that were written; and the
  file the reader opens is the subfile the rank was assigned when the step was written.
\<close>

theorem ReadData_finds_the_data:
  assumes "inputs_ok w ins" "length (concat (map (md_bytes w) ins)) < size_limit params" "fresh_reader r"
  shows "\<exists>md idx r'. write_steps w uuid ins = Inr (md, idx) \<and>
    ParseMetadataIndex params (UpdateActiveFlag active idx) 0 True r = Some (Inr (of_nat (length idx), r')) \<and>
    (\<forall>k < length ins. IsSelectedStep params (of_nat k) \<longrightarrow> (\<forall>wr < w_CommSize w.
      subfile_of r' (of_nat (length (selected params k))) (of_nat wr) = Inr (map_at (to_steps w 0 ins) k ! wr) \<and>
      (\<forall>file pieces off n. holds_pieces file wr (to_steps w 0 ins ! k) pieces \<longrightarrow> in_piece pieces off n \<longrightarrow>
        ReadData r' (UpdateActiveFlag active idx) file (of_nat wr) (of_nat (length (selected params k)))
          (of_nat off) (of_nat n) = Inr (take n (drop off (concat pieces))))))"
  using files_found[OF assms, of uuid active] by blast

definition demo_file :: bytes where
  "demo_file = replicate 30 0 @ [30, 31] @ replicate 18 0 @ [50, 51, 52, 53]"

lemma demo_pieces: "holds_pieces demo_file 1 (to_steps demo_writer5 0 demo_inputs ! 1) [[30, 31], [50, 51, 52, 53]]"
  by (simp add: holds_pieces_def demo_inputs_def demo_file_def reads_def list_all_upt)

theorem ReadData_finds_the_data_witness:
  "\<exists>md idx r'. write_steps demo_writer5 7 demo_inputs = Inr (md, idx) \<and>
    ParseMetadataIndex demo_params (UpdateActiveFlag False idx) 0 True demo_reader5 = Some (Inr (of_nat (length idx), r')) \<and>
    subfile_of r' 0 1 = Inr 0 \<and>
    ReadData r' (UpdateActiveFlag False idx) demo_file 1 0 3 2 = Inr [51, 52]"
proof -
  have k: "1 < length demo_inputs" "IsSelectedStep demo_params (of_nat 1)" "(1 :: nat) < w_CommSize demo_writer5"
    and m: "map_at (to_steps demo_writer5 0 demo_inputs) 1 ! 1 = 0"
    by (simp_all add: demo_params_def demo_inputs_def demo_writer5_def)
  have p: "in_piece [[30, 31 :: u8], [50, 51, 52, 53]] 3 2" by simp
  have t: "take 2 (drop 3 (concat [[30, 31 :: u8], [50, 51, 52, 53]])) = [51, 52]" by (simp add: numeral_3_eq_3)
  obtain md idx r' where f: "write_steps demo_writer5 7 demo_inputs = Inr (md, idx)"
    "ParseMetadataIndex demo_params (UpdateActiveFlag False idx) 0 True demo_reader5 = Some (Inr (of_nat (length idx), r'))"
    and d: "\<forall>k < length demo_inputs. IsSelectedStep demo_params (of_nat k) \<longrightarrow> (\<forall>wr < w_CommSize demo_writer5.
      subfile_of r' (of_nat (length (selected demo_params k))) (of_nat wr) =
        Inr (map_at (to_steps demo_writer5 0 demo_inputs) k ! wr) \<and>
      (\<forall>df pieces off n. holds_pieces df wr (to_steps demo_writer5 0 demo_inputs ! k) pieces \<longrightarrow> in_piece pieces off n \<longrightarrow>
        ReadData r' (UpdateActiveFlag False idx) df (of_nat wr) (of_nat (length (selected demo_params k)))
          (of_nat off) (of_nat n) = Inr (take n (drop off (concat pieces)))))"
    using ReadData_finds_the_data[OF demo_inputs_ok demo_files(1,2), of 7 False] by blast
  note d1 = d[rule_format, OF k]
  have "subfile_of r' 0 1 = Inr 0" using d1 demo_files(3) m by simp
  moreover have "ReadData r' (UpdateActiveFlag False idx) demo_file 1 0 3 2 = Inr [51, 52]"
    using conjunct2[OF d1, rule_format, OF demo_pieces p] unfolding demo_files(3) t by simp
  ultimately show ?thesis using f by blast
qed

end
