(* ===== verification/Spec2Isabelle.thy ===== *)
theory Spec2Isabelle
  imports Adios_Box Adios_Subblock Adios_FilePool Adios_TokenChain Adios_ShmChain Adios_TwoLevelShm
    Adios_Query Adios_SscData Adios_Buffers Adios_ExprSafe Adios_ExprParse Adios_Bp5Deliver
    Adios_Bp5Files
begin

text \<open>
  A verification development of ADIOS2.
\<close>

end
